(* ===== verification/Prelude.thy ===== *)
theory Prelude
  imports Main "HOL-Library.Word" "HOL-Library.Monad_Syntax"
begin

text \<open>
  Shared vocabulary of the development: the C integer types as words, byte
  strings, little-endian encoding of the fields of packed structs, and the
  busy-wait loop \<open>poll\<close> that every driver uses.

  Results are of type \<open>'a option\<close> wherever the C code may spin on a device: \<open>None\<close>
  means that the C code has no defined result (it never returns, or it runs
  into undefined behaviour such as a division by zero).  Sequencing is the
  \<open>do\<close> notation of the option monad with the machine state passed explicitly.
\<close>

unbundle bit_operations_syntax

type_synonym u8 = "8 word"
type_synonym u16 = "16 word"
type_synonym u32 = "32 word"
type_synonym u64 = "64 word"

named_theorems frame \<open>what an operation leaves unchanged\<close>
named_theorems view \<open>how an operation changes what a device has seen\<close>

section \<open>Option sequencing\<close>

lemma bind_SomeE:
  assumes "Option.bind m f = Some y"
  obtains x where "m = Some x" "f x = Some y"
  using assms by (cases m) auto

lemma bind_pair_SomeE:
  assumes "Option.bind m (\<lambda>(x, s). f x s) = Some y"
  obtains x s where "m = Some (x, s)" "f x s = Some y"
  using assms by (cases m) auto

lemma bind_triple_SomeE:
  assumes "Option.bind m (\<lambda>(x, y, s). f x y s) = Some z"
  obtains x y s where "m = Some (x, y, s)" "f x y s = Some z"
  using assms by (cases m) auto

lemma bind_eq_SomeI: "m = Some x \<Longrightarrow> f x = y \<Longrightarrow> Option.bind m f = y"
  by simp

section \<open>Byte strings\<close>

definition bytes_of :: "string \<Rightarrow> u8 list" where
  "bytes_of cs = map of_char cs"

lemma bytes_of_Nil: "bytes_of [] = []"
  and bytes_of_Cons: "bytes_of (c # cs) = of_char c # bytes_of cs"
  and bytes_of_append: "bytes_of (xs @ ys) = bytes_of xs @ bytes_of ys"
  and length_bytes_of [simp]: "length (bytes_of cs) = length cs"
  by (simp_all add: bytes_of_def)

lemmas bytes_of_simps = bytes_of_Nil bytes_of_Cons bytes_of_append

text \<open>A C string ends at its first NUL byte.\<close>

definition c_string :: "u8 list \<Rightarrow> u8 list" where
  "c_string bs = takeWhile (\<lambda>b. b \<noteq> 0) bs"

lemma c_string_no_nul: "0 \<notin> set bs \<Longrightarrow> c_string bs = bs"
  by (auto simp: c_string_def takeWhile_eq_all_conv)

section \<open>Little-endian fields\<close>

fun le_dec :: "u8 list \<Rightarrow> 'a::len word" where
  "le_dec [] = 0"
| "le_dec (b # bs) = ucast b OR push_bit 8 (le_dec bs)"

definition le_enc :: "nat \<Rightarrow> 'a::len word \<Rightarrow> u8 list" where
  "le_enc n w = map (\<lambda>i. ucast (drop_bit (8 * i) w)) [0..<n]"

lemma length_le_enc [simp]: "length (le_enc n w) = n"
  by (simp add: le_enc_def)

lemma bit_le_dec:
  "bit (le_dec bs :: 'a::len word) i \<longleftrightarrow>
     i < LENGTH('a) \<and> i div 8 < length bs \<and> bit (bs ! (i div 8)) (i mod 8)"
proof (induction bs arbitrary: i)
  case Nil
  then show ?case by simp
next
  case (Cons b bs)
  show ?case
  proof (cases "i < 8")
    case True
    then show ?thesis by (auto simp: bit_simps)
  next
    case False
    then have "i div 8 = Suc ((i - 8) div 8)" and "i mod 8 = (i - 8) mod 8"
      by (simp_all add: le_div_geq le_mod_geq)
    moreover have "\<not> bit b i"
      using False by (auto dest!: bit_imp_le_length)
    ultimately show ?thesis
      using False by (auto simp: bit_simps Cons.IH dest: bit_imp_le_length)
  qed
qed

lemma le_dec_enc:
  assumes "LENGTH('a) \<le> 8 * n"
  shows "le_dec (le_enc n w) = (w :: 'a::len word)"
proof (rule bit_word_eqI)
  fix i assume "i < LENGTH('a)"
  moreover from this assms have "i div 8 < n" by linarith
  ultimately show "bit (le_dec (le_enc n w) :: 'a word) i = bit w i"
    by (simp add: bit_le_dec le_enc_def bit_simps)
qed

lemma le_enc_dec:
  assumes "length bs = n" "8 * n \<le> LENGTH('a)"
  shows "le_enc n (le_dec bs :: 'a::len word) = bs"
proof (rule nth_equalityI)
  fix i assume "i < length (le_enc n (le_dec bs :: 'a word))"
  then have i: "i < n" by simp
  show "le_enc n (le_dec bs :: 'a word) ! i = bs ! i"
  proof (rule bit_word_eqI)
    fix j assume "j < LENGTH(8)"
    then have j: "j < 8" by simp
    with i assms have "8 * i + j < LENGTH('a)" by linarith
    moreover from j have "(8 * i + j) div 8 = i" "(8 * i + j) mod 8 = j" by simp_all
    ultimately show "bit (le_enc n (le_dec bs :: 'a word) ! i) j = bit (bs ! i) j"
      using i j assms by (simp add: le_enc_def bit_le_dec bit_simps)
  qed
qed (use assms in simp)

text \<open>Masking with \<open>0xff\<close> before a conversion to a byte changes nothing.\<close>

lemma ff_mask: "(0xff :: 'a::len word) = mask 8"
  by (simp add: mask_eq_exp_minus_1)

lemma ucast_and_ff: "(ucast (w AND 0xff) :: u8) = ucast (w :: 'a::len word)"
  unfolding ff_mask by (rule bit_word_eqI) (auto simp: bit_simps dest: bit_imp_le_length)

lemma drop_bit_ucast_byte:
  assumes "LENGTH('b) \<le> LENGTH('a)" "n + 8 \<le> LENGTH('b)"
  shows "(ucast (drop_bit n (ucast (w :: 'a::len word) :: 'b::len word)) :: u8) = ucast (drop_bit n w)"
  by (rule bit_word_eqI) (use assms in \<open>auto simp: bit_simps\<close>)

text \<open>Widening keeps the value.\<close>

lemma unat_widen: "unat (ucast (w :: u32) :: u64) = unat w"
proof -
  have "unat w < 2 ^ 64" using unsigned_less [of w, where ?'a = nat] by simp
  then show ?thesis by (simp add: unsigned_ucast_eq take_bit_nat_eq_self)
qed

section \<open>Busy waiting\<close>

text \<open>
  \<open>while (!ok(v = read())) ;\<close> in its two C spellings.  The read is an arbitrary
  state transformer that may itself fail to return.
\<close>

partial_function (option) poll ::
    "('s \<Rightarrow> ('v \<times> 's) option) \<Rightarrow> ('v \<Rightarrow> bool) \<Rightarrow> 's \<Rightarrow> ('v \<times> 's) option" where
  "poll rd ok s =
     Option.bind (rd s) (\<lambda>r. if ok (fst r) then Some r else poll rd ok (snd r))"

inductive poll_ends :: "('s \<Rightarrow> ('v \<times> 's) option) \<Rightarrow> ('v \<Rightarrow> bool) \<Rightarrow> 's \<Rightarrow> bool"
  for rd :: "'s \<Rightarrow> ('v \<times> 's) option" and ok :: "'v \<Rightarrow> bool" where
  now: "rd s = Some (v, s') \<Longrightarrow> ok v \<Longrightarrow> poll_ends rd ok s"
| later: "rd s = Some (v, s') \<Longrightarrow> \<not> ok v \<Longrightarrow> poll_ends rd ok s' \<Longrightarrow> poll_ends rd ok s"

lemma poll_returns: "poll_ends rd ok s \<Longrightarrow> \<exists>v s'. poll rd ok s = Some (v, s') \<and> ok v"
proof (induction rule: poll_ends.induct)
  case (now s v s')
  then show ?case by (simp add: poll.simps [of rd ok s])
next
  case (later s v s')
  then show ?case by (simp add: poll.simps [of rd ok s])
qed

text \<open>What a finished wait says: the last value is accepted, and anything each read keeps is kept.\<close>

lemma poll_Some_induct:
  assumes ret: "poll rd ok s = Some (v, s')"
    and stop: "\<And>s v s'. rd s = Some (v, s') \<Longrightarrow> ok v \<Longrightarrow> P s v s'"
    and step: "\<And>s w t v s'. rd s = Some (w, t) \<Longrightarrow> \<not> ok w \<Longrightarrow> P t v s' \<Longrightarrow> P s v s'"
  shows "P s v s'"
proof -
  have "rd = rd \<and> ok = ok \<longrightarrow> P s (fst (v, s')) (snd (v, s'))"
  proof (rule poll.raw_induct [where P = "\<lambda>rd' ok' s r. rd' = rd \<and> ok' = ok \<longrightarrow> P s (fst r) (snd r)",
        OF _ ret])
    fix f rd' ok' s r
    assume IH: "\<And>rd' ok' s r. f rd' ok' s = Some r \<Longrightarrow> rd' = rd \<and> ok' = ok \<longrightarrow> P s (fst r) (snd r)"
      and eq: "Option.bind (rd' s) (\<lambda>r. if ok' (fst r) then Some r else f rd' ok' (snd r)) = Some r"
    show "rd' = rd \<and> ok' = ok \<longrightarrow> P s (fst r) (snd r)"
    proof
      assume same: "rd' = rd \<and> ok' = ok"
      from eq same obtain w t where w: "rd s = Some (w, t)"
        and rest: "(if ok w then Some (w, t) else f rd ok t) = Some r"
        by (cases "rd s") (auto split: if_splits)
      show "P s (fst r) (snd r)"
      proof (cases "ok w")
        case True
        with w rest show ?thesis by (auto intro: stop)
      next
        case False
        with rest IH have "P t (fst r) (snd r)" by auto
        with w False show ?thesis by (rule step)
      qed
    qed
  qed
  then show ?thesis by simp
qed

lemma poll_accepted: "poll rd ok s = Some (v, s') \<Longrightarrow> ok v"
  by (erule poll_Some_induct [where P = "\<lambda>s v s'. ok v"])

lemma poll_keeps:
  assumes "poll rd ok s = Some (v, s')"
    and "\<And>s v s'. rd s = Some (v, s') \<Longrightarrow> f s' = f s"
  shows "f s' = f s"
  using assms(1) by (rule poll_Some_induct [where P = "\<lambda>s v s'. f s' = f s"]) (auto dest: assms(2))

section \<open>Composing operations\<close>

text \<open>
  The two shapes of an operation, with a value and without.  \<open>moves T\<close> and \<open>moves0 T\<close>
  say that every result state is related to the start state; \<open>goes P\<close> and \<open>goes0 P\<close>
  that the operation has a result from every good state, and leaves a good state.
\<close>

definition moves :: "('s \<Rightarrow> 's \<Rightarrow> bool) \<Rightarrow> ('s \<Rightarrow> ('v \<times> 's) option) \<Rightarrow> bool" where
  "moves T f \<longleftrightarrow> (\<forall>s v s'. f s = Some (v, s') \<longrightarrow> T s s')"

definition moves0 :: "('s \<Rightarrow> 's \<Rightarrow> bool) \<Rightarrow> ('s \<Rightarrow> 's option) \<Rightarrow> bool" where
  "moves0 T f \<longleftrightarrow> (\<forall>s s'. f s = Some s' \<longrightarrow> T s s')"

definition goes :: "('s \<Rightarrow> bool) \<Rightarrow> ('s \<Rightarrow> ('v \<times> 's) option) \<Rightarrow> bool" where
  "goes P f \<longleftrightarrow> (\<forall>s. P s \<longrightarrow> (\<exists>v s'. f s = Some (v, s') \<and> P s'))"

definition goes0 :: "('s \<Rightarrow> bool) \<Rightarrow> ('s \<Rightarrow> 's option) \<Rightarrow> bool" where
  "goes0 P f \<longleftrightarrow> (\<forall>s. P s \<longrightarrow> (\<exists>s'. f s = Some s' \<and> P s'))"

lemma movesD: "moves T f \<Longrightarrow> f s = Some (v, s') \<Longrightarrow> T s s'"
  and moves0D: "moves0 T g \<Longrightarrow> g s = Some s' \<Longrightarrow> T s s'"
  by (auto simp: moves_def moves0_def)

lemma movesI: "(\<And>s v s'. f s = Some (v, s') \<Longrightarrow> T s s') \<Longrightarrow> moves T f"
  and moves0I: "(\<And>s s'. g s = Some s' \<Longrightarrow> T s s') \<Longrightarrow> moves0 T g"
  by (auto simp: moves_def moves0_def)

lemma goesD: "goes P f \<Longrightarrow> P s \<Longrightarrow> \<exists>v s'. f s = Some (v, s') \<and> P s'"
  and goes0D: "goes0 P g \<Longrightarrow> P s \<Longrightarrow> \<exists>s'. g s = Some s' \<and> P s'"
  by (auto simp: goes_def goes0_def)

lemma goesI: "(\<And>s. P s \<Longrightarrow> \<exists>v s'. f s = Some (v, s') \<and> P s') \<Longrightarrow> goes P f"
  and goes0I: "(\<And>s. P s \<Longrightarrow> \<exists>s'. g s = Some s' \<and> P s') \<Longrightarrow> goes0 P g"
  by (auto simp: goes_def goes0_def)

lemma goes_step: "goes P f \<Longrightarrow> P s \<Longrightarrow> f s = Some (v, s') \<Longrightarrow> P s'"
  and goes0_step: "goes0 P g \<Longrightarrow> P s \<Longrightarrow> g s = Some s' \<Longrightarrow> P s'"
  by (fastforce simp: goes_def goes0_def)+

lemma moves_seq:
  assumes "transp T"
  shows "moves T f \<Longrightarrow> (\<And>v. moves T (g v)) \<Longrightarrow> moves T (\<lambda>s. Option.bind (f s) (\<lambda>(v, s). g v s))"
    and "moves0 T h \<Longrightarrow> moves T k \<Longrightarrow> moves T (\<lambda>s. Option.bind (h s) k)"
    and "moves T f \<Longrightarrow> (\<And>v. moves0 T (l v)) \<Longrightarrow> moves0 T (\<lambda>s. Option.bind (f s) (\<lambda>(v, s). l v s))"
    and "moves0 T h \<Longrightarrow> moves0 T m \<Longrightarrow> moves0 T (\<lambda>s. Option.bind (h s) m)"
proof -
  note trans = transpD [OF assms]
  show "moves T (\<lambda>s. Option.bind (f s) (\<lambda>(v, s). g v s))" if "moves T f" "\<And>v. moves T (g v)"
    by (rule movesI, elim bind_pair_SomeE) (rule trans [OF that [THEN movesD]])
  show "moves T (\<lambda>s. Option.bind (h s) k)" if "moves0 T h" "moves T k"
    by (rule movesI, elim bind_SomeE) (rule trans [OF moves0D [OF that(1)] movesD [OF that(2)]])
  show "moves0 T (\<lambda>s. Option.bind (f s) (\<lambda>(v, s). l v s))" if "moves T f" "\<And>v. moves0 T (l v)"
    by (rule moves0I, elim bind_pair_SomeE) (rule trans [OF movesD [OF that(1)] moves0D [OF that(2)]])
  show "moves0 T (\<lambda>s. Option.bind (h s) m)" if "moves0 T h" "moves0 T m"
    by (rule moves0I, elim bind_SomeE) (rule trans [OF that [THEN moves0D]])
qed

lemma moves_end:
  assumes "reflp T"
  shows "moves T (\<lambda>s. Some (v, s))" "moves0 T Some"
  using reflpD [OF assms] by (auto simp: moves_def moves0_def)

lemma moves_if:
  "moves T f \<Longrightarrow> moves T g \<Longrightarrow> moves T (\<lambda>s. if b then f s else g s)"
  "moves0 T h \<Longrightarrow> moves0 T k \<Longrightarrow> moves0 T (\<lambda>s. if b then h s else k s)"
  by (auto simp: moves_def moves0_def)

lemma goes_seq:
  "goes P f \<Longrightarrow> (\<And>v. goes P (g v)) \<Longrightarrow> goes P (\<lambda>s. Option.bind (f s) (\<lambda>(v, s). g v s))"
  "goes0 P h \<Longrightarrow> goes P k \<Longrightarrow> goes P (\<lambda>s. Option.bind (h s) k)"
  "goes P f \<Longrightarrow> (\<And>v. goes0 P (l v)) \<Longrightarrow> goes0 P (\<lambda>s. Option.bind (f s) (\<lambda>(v, s). l v s))"
  "goes0 P h \<Longrightarrow> goes0 P m \<Longrightarrow> goes0 P (\<lambda>s. Option.bind (h s) m)"
  unfolding goes_def goes0_def by fastforce+

lemma goes_end: "goes P (\<lambda>s. Some (v, s))" "goes0 P Some"
  by (auto simp: goes_def goes0_def)

lemma goes_if:
  "goes P f \<Longrightarrow> goes P g \<Longrightarrow> goes P (\<lambda>s. if b then f s else g s)"
  "goes0 P h \<Longrightarrow> goes0 P k \<Longrightarrow> goes0 P (\<lambda>s. if b then h s else k s)"
  by (auto simp: goes_def goes0_def)

lemmas goes_compose = goes_seq goes_end goes_if

lemma moves_poll:
  assumes "transp T" "moves T rd"
  shows "moves T (poll rd ok)"
proof (rule movesI)
  fix s v s' assume "poll rd ok s = Some (v, s')"
  then show "T s s'"
  proof (rule poll_Some_induct)
    show "T s s'" if "rd s = Some (v, s')" for s v s'
      by (rule movesD [OF assms(2) that])
    show "T s s'" if "rd s = Some (w, t)" "T t s'" for s w t s'
      by (rule transpD [OF assms(1) movesD [OF assms(2) that(1)] that(2)])
  qed
qed

text \<open>A wait that returns from every good state, with good reads, ends in a good state.\<close>

lemma goes_poll:
  assumes "goes P rd" "\<And>s. P s \<Longrightarrow> poll rd ok s \<noteq> None"
  shows "goes P (poll rd ok)"
proof (rule goesI)
  fix s assume s: "P s"
  with assms(2) obtain v s' where p: "poll rd ok s = Some (v, s')" by fast
  then have "P s \<longrightarrow> P s'"
    by (rule poll_Some_induct) (use goes_step [OF assms(1)] in blast)+
  with s p show "\<exists>v s'. poll rd ok s = Some (v, s') \<and> P s'" by blast
qed

end
