(* ===== verification/Bus.thy ===== *)
theory Bus
  imports Prelude
begin

text \<open>
  The machine the boot code runs on, as the code sees it: RAM and a bus of
  memory-mapped device registers.  The devices themselves (UART, SPI core, SD
  host, cycle counter) are hardware, not code of this library, so they are a
  parameter: a \<open>board\<close> says what a register read answers, as an arbitrary
  function of everything that happened on the bus before.  A theorem that
  holds for every board holds for every deterministic device behaviour.

  The register accessors of \<open>uart.c\<close> and \<open>spi.c\<close> are the only code that touches
  the bus; each records what it did in the bus history, newest event first.
\<close>

datatype bus_event =
    Rd8 u64 u8 | Wr8 u64 u8 | Rd32 u64 u32 | Wr32 u64 u32 | RdCycle u64

record machine =
  hist :: "bus_event list"
  ram :: "u64 \<Rightarrow> u8"

lemma hist_induct [case_names Nil Rd8 Wr8 Rd32 Wr32 RdCycle]:
  assumes "P []" "\<And>a v h. P h \<Longrightarrow> P (Rd8 a v # h)" "\<And>a v h. P h \<Longrightarrow> P (Wr8 a v # h)"
    "\<And>a v h. P h \<Longrightarrow> P (Rd32 a v # h)" "\<And>a v h. P h \<Longrightarrow> P (Wr32 a v # h)"
    "\<And>v h. P h \<Longrightarrow> P (RdCycle v # h)"
  shows "P h"
proof (induction h)
  case Nil
  show ?case by (rule assms(1))
next
  case (Cons e h)
  then show ?case by (cases e) (simp_all add: assms)
qed

text \<open>The \<open>PLAT_AGILEX\<close> conditional of the Makefile.\<close>

datatype platform = PLAT_GENERIC | PLAT_AGILEX

text \<open>The register addresses of \<open>uart.h\<close>, which differ between the FPGA and the OpenPiton port.\<close>

record uart_regs =
  UART_RBR :: u64
  UART_THR :: u64
  UART_INTERRUPT_ENABLE :: u64
  UART_FIFO_CONTROL :: u64
  UART_LINE_CONTROL :: u64
  UART_MODEM_CONTROL :: u64
  UART_LINE_STATUS :: u64
  UART_DLAB_LSB :: u64
  UART_DLAB_MSB :: u64

record board =
  plat :: platform
  uregs :: uart_regs
  env8 :: "bus_event list \<Rightarrow> u64 \<Rightarrow> u8"
  env32 :: "bus_event list \<Rightarrow> u64 \<Rightarrow> u32"
  env_cycle :: "bus_event list \<Rightarrow> u64"

section \<open>Register accessors\<close>

definition write_reg_u8 :: "u64 \<Rightarrow> u8 \<Rightarrow> machine \<Rightarrow> machine" where
  "write_reg_u8 addr val s = s\<lparr>hist := Wr8 addr val # hist s\<rparr>"

definition read_reg_u8 :: "board \<Rightarrow> u64 \<Rightarrow> machine \<Rightarrow> u8 \<times> machine" where
  "read_reg_u8 B addr s =
     (let v = env8 B (hist s) addr in (v, s\<lparr>hist := Rd8 addr v # hist s\<rparr>))"

definition write_reg :: "u64 \<Rightarrow> u32 \<Rightarrow> machine \<Rightarrow> machine" where
  "write_reg addr val s = s\<lparr>hist := Wr32 addr val # hist s\<rparr>"

definition read_reg :: "board \<Rightarrow> u64 \<Rightarrow> machine \<Rightarrow> u32 \<times> machine" where
  "read_reg B addr s =
     (let v = env32 B (hist s) addr in (v, s\<lparr>hist := Rd32 addr v # hist s\<rparr>))"

definition get_cycle_count :: "board \<Rightarrow> machine \<Rightarrow> u64 \<times> machine" where
  "get_cycle_count B s =
     (let v = env_cycle B (hist s) in (v, s\<lparr>hist := RdCycle v # hist s\<rparr>))"

lemma write_reg_u8_simps [simp]:
  "hist (write_reg_u8 a v s) = Wr8 a v # hist s" "ram (write_reg_u8 a v s) = ram s"
  by (simp_all add: write_reg_u8_def)

lemma write_reg_simps [simp]:
  "hist (write_reg a v s) = Wr32 a v # hist s" "ram (write_reg a v s) = ram s"
  by (simp_all add: write_reg_def)

lemma read_reg_u8_simps [simp]:
  "fst (read_reg_u8 B a s) = env8 B (hist s) a"
  "hist (snd (read_reg_u8 B a s)) = Rd8 a (env8 B (hist s) a) # hist s"
  "ram (snd (read_reg_u8 B a s)) = ram s"
  by (simp_all add: read_reg_u8_def Let_def)

lemma read_reg_simps [simp]:
  "fst (read_reg B a s) = env32 B (hist s) a"
  "hist (snd (read_reg B a s)) = Rd32 a (env32 B (hist s) a) # hist s"
  "ram (snd (read_reg B a s)) = ram s"
  by (simp_all add: read_reg_def Let_def)

lemma get_cycle_count_simps [simp]:
  "fst (get_cycle_count B s) = env_cycle B (hist s)"
  "hist (snd (get_cycle_count B s)) = RdCycle (env_cycle B (hist s)) # hist s"
  "ram (snd (get_cycle_count B s)) = ram s"
  by (simp_all add: get_cycle_count_def Let_def)

section \<open>RAM\<close>

text \<open>A store through a \<open>uint8_t *\<close>; addresses wrap at 64 bits as pointers do.\<close>

definition store_byte :: "u64 \<Rightarrow> u8 \<Rightarrow> machine \<Rightarrow> machine" where
  "store_byte a v s = s\<lparr>ram := (ram s)(a := v)\<rparr>"

fun put_bytes :: "u64 \<Rightarrow> u8 list \<Rightarrow> (u64 \<Rightarrow> u8) \<Rightarrow> (u64 \<Rightarrow> u8)" where
  "put_bytes a [] m = m"
| "put_bytes a (b # bs) m = put_bytes (a + 1) bs (m(a := b))"

definition get_bytes :: "u64 \<Rightarrow> nat \<Rightarrow> (u64 \<Rightarrow> u8) \<Rightarrow> u8 list" where
  "get_bytes a n m = map (\<lambda>i. m (a + of_nat i)) [0..<n]"

lemma store_byte_simps [simp]:
  "hist (store_byte a v s) = hist s" "ram (store_byte a v s) = (ram s)(a := v)"
  by (simp_all add: store_byte_def)

lemma length_get_bytes [simp]: "length (get_bytes a n m) = n"
  by (simp add: get_bytes_def)

lemma put_bytes_append:
  "put_bytes a (xs @ ys) m = put_bytes (a + of_nat (length xs)) ys (put_bytes a xs m)"
  by (induction xs arbitrary: a m) (simp_all add: add.assoc)

lemma put_bytes_other:
  assumes "\<And>i. i < length bs \<Longrightarrow> x \<noteq> a + of_nat i"
  shows "put_bytes a bs m x = m x"
  using assms
proof (induction bs arbitrary: a m)
  case Nil
  then show ?case by simp
next
  case (Cons b bs)
  from Cons.prems [of 0] have "x \<noteq> a" by simp
  moreover have "x \<noteq> (a + 1) + of_nat i" if "i < length bs" for i
    using Cons.prems [of "Suc i"] that by (simp add: ac_simps)
  ultimately show ?case using Cons.IH [of "a + 1"] by simp
qed

lemma word64_offset_inject:
  assumes "i < 2 ^ 64" "j < 2 ^ 64" "(a :: u64) + of_nat i = a + of_nat j"
  shows "i = j"
proof -
  have "(of_nat i :: u64) = of_nat j" using assms(3) by simp
  then have "unat (of_nat i :: u64) = unat (of_nat j :: u64)" by simp
  with assms(1,2) show ?thesis by (simp add: unat_of_nat)
qed

lemma put_bytes_at:
  assumes "length bs \<le> 2 ^ 64" "i < length bs"
  shows "put_bytes a bs m (a + of_nat i) = bs ! i"
  using assms
proof (induction bs arbitrary: a m i)
  case Nil
  then show ?case by simp
next
  case (Cons b bs)
  show ?case
  proof (cases i)
    case 0
    have "a \<noteq> (a + 1) + of_nat j" if "j < length bs" for j
    proof
      assume "a = a + 1 + of_nat j"
      then have "a + of_nat 0 = a + of_nat (Suc j)" by (simp add: ac_simps)
      with that Cons.prems(1) word64_offset_inject [of 0 "Suc j" a] show False by simp
    qed
    then have "put_bytes (a + 1) bs (m(a := b)) a = (m(a := b)) a"
      by (intro put_bytes_other) blast
    with 0 show ?thesis by simp
  next
    case (Suc j)
    with Cons.prems have "put_bytes (a + 1) bs (m(a := b)) ((a + 1) + of_nat j) = bs ! j"
      by (intro Cons.IH) simp_all
    with Suc show ?thesis by (simp add: ac_simps)
  qed
qed

lemma get_put_bytes:
  "length bs \<le> 2 ^ 64 \<Longrightarrow> get_bytes a (length bs) (put_bytes a bs m) = bs"
  by (rule nth_equalityI) (simp_all add: get_bytes_def put_bytes_at)

lemma get_put_prefix:
  assumes "length bs \<le> 2 ^ 64" "n \<le> length bs"
  shows "get_bytes a n (put_bytes a bs m) = take n bs"
  by (rule nth_equalityI) (use assms in \<open>auto simp: get_bytes_def put_bytes_at\<close>)

lemma get_bytes_append:
  "get_bytes a (m + n) M = get_bytes a m M @ get_bytes (a + of_nat m) n M"
  by (rule nth_equalityI) (auto simp: get_bytes_def nth_append algebra_simps)

text \<open>Two regions of \<open>n\<close> bytes with no byte in common.\<close>

definition apart :: "u64 \<Rightarrow> u64 \<Rightarrow> nat \<Rightarrow> bool" where
  "apart a p n \<longleftrightarrow> (\<forall>i<n. \<forall>j<n. a + of_nat i \<noteq> p + of_nat j)"

lemma apart_split:
  assumes "apart a p (m + n)"
  shows "apart a p m" "apart (a + of_nat m) (p + of_nat m) n"
proof -
  show "apart a p m" using assms by (auto simp: apart_def)
  show "apart (a + of_nat m) (p + of_nat m) n"
    unfolding apart_def
  proof (intro allI impI)
    fix i j assume "i < n" "j < n"
    then have "a + of_nat (m + i) \<noteq> p + of_nat (m + j)"
      using assms unfolding apart_def by (metis add_less_cancel_left)
    then show "a + of_nat m + of_nat i \<noteq> p + of_nat m + of_nat j"
      by (simp add: add.assoc)
  qed
qed

lemma get_after_put:
  assumes "apart a p (m + n)" "length bs = m"
  shows "get_bytes (a + of_nat m) n (put_bytes p bs M) = get_bytes (a + of_nat m) n M"
proof (rule nth_equalityI)
  fix i assume "i < length (get_bytes (a + of_nat m) n (put_bytes p bs M))"
  then have i: "i < n" by simp
  have "put_bytes p bs M (a + of_nat (m + i)) = M (a + of_nat (m + i))"
  proof (rule put_bytes_other)
    fix j assume "j < length bs"
    with assms i show "a + of_nat (m + i) \<noteq> p + of_nat j"
      unfolding apart_def by (metis add_less_cancel_left trans_less_add1)
  qed
  with i show "get_bytes (a + of_nat m) n (put_bytes p bs M) ! i = get_bytes (a + of_nat m) n M ! i"
    by (simp add: get_bytes_def add.assoc)
qed simp

end
