(* ===== verification/Uart.thy ===== *)
theory Uart
  imports Bus
begin

text \<open>
  The UART driver of the boot ROMs: \<open>uart.c\<close> of the FPGA port (and, with
  another register map and without the Agilex branches, of the OpenPiton port
  and of the CoreMark port).  The print routines only use \<open>write_serial\<close>, so they
  take it as an argument; the locale \<open>serial_port\<close> is what they rely on, and it is
  interpreted on \<open>write_serial\<close> for every board.
\<close>

section \<open>Register maps\<close>

definition fpga_uart :: uart_regs where
  "fpga_uart = \<lparr>UART_RBR = 0x10000000 + 0, UART_THR = 0x10000000 + 0,
     UART_INTERRUPT_ENABLE = 0x10000000 + 4, UART_FIFO_CONTROL = 0x10000000 + 8,
     UART_LINE_CONTROL = 0x10000000 + 12, UART_MODEM_CONTROL = 0x10000000 + 16,
     UART_LINE_STATUS = 0x10000000 + 20, UART_DLAB_LSB = 0x10000000 + 0,
     UART_DLAB_MSB = 0x10000000 + 4\<rparr>"

definition piton_uart :: uart_regs where
  "piton_uart = \<lparr>UART_RBR = 0xFFF0C2C000 + 0, UART_THR = 0xFFF0C2C000 + 0,
     UART_INTERRUPT_ENABLE = 0xFFF0C2C000 + 1, UART_FIFO_CONTROL = 0xFFF0C2C000 + 2,
     UART_LINE_CONTROL = 0xFFF0C2C000 + 3, UART_MODEM_CONTROL = 0xFFF0C2C000 + 4,
     UART_LINE_STATUS = 0xFFF0C2C000 + 5, UART_DLAB_LSB = 0xFFF0C2C000 + 0,
     UART_DLAB_MSB = 0xFFF0C2C000 + 1\<rparr>"

section \<open>Single characters\<close>

definition is_transmit_empty :: "board \<Rightarrow> machine \<Rightarrow> u8 \<times> machine" where
  "is_transmit_empty B s =
     (let (v, s) = read_reg_u8 B (UART_LINE_STATUS (uregs B)) s in (v AND 0x20, s))"

text \<open>The 16-bit sum is returned as a \<open>char\<close>, which is an unsigned byte on RISC-V.\<close>

definition is_transmit_empty_altera :: "board \<Rightarrow> machine \<Rightarrow> u8 \<times> machine" where
  "is_transmit_empty_altera B s =
     (let (hi, s) = read_reg_u8 B (UART_THR (uregs B) + 7) s;
          (lo, s) = read_reg_u8 B (UART_THR (uregs B) + 6) s
      in (ucast (push_bit 8 (ucast hi) + ucast lo :: u32), s))"

definition is_receive_empty :: "board \<Rightarrow> machine \<Rightarrow> bool \<times> machine" where
  "is_receive_empty B s =
     (case plat B of
        PLAT_GENERIC \<Rightarrow>
          (let (v, s) = read_reg_u8 B (UART_LINE_STATUS (uregs B)) s in (v AND 0x1 = 0, s))
      | PLAT_AGILEX \<Rightarrow>
          (let (v, s) = read_reg_u8 B (UART_THR (uregs B)) s in (v = 0, s)))"

text \<open>The busy wait of \<open>write_serial\<close> before the character is handed to the device.\<close>

definition wait_transmit :: "board \<Rightarrow> machine \<Rightarrow> (u8 \<times> machine) option" where
  "wait_transmit B s =
     (case plat B of
        PLAT_GENERIC \<Rightarrow> poll (\<lambda>s. Some (is_transmit_empty B s)) (\<lambda>v. v \<noteq> 0) s
      | PLAT_AGILEX \<Rightarrow> poll (\<lambda>s. Some (is_transmit_empty_altera B s)) (\<lambda>v. \<not> v < 8) s)"

definition write_serial :: "board \<Rightarrow> u8 \<Rightarrow> machine \<Rightarrow> machine option" where
  "write_serial B a s = do {
     (_, s) \<leftarrow> wait_transmit B s;
     Some (write_reg_u8 (UART_THR (uregs B)) a s)
   }"

text \<open>\<open>Some b\<close> is the return value 1 with \<open>*res = b\<close>, \<open>None\<close> the return value 0.\<close>

definition read_serial :: "board \<Rightarrow> machine \<Rightarrow> u8 option \<times> machine" where
  "read_serial B s =
     (let (e, s) = is_receive_empty B s
      in if e then (None, s)
         else (let (v, s) = read_reg_u8 B (UART_RBR (uregs B)) s in (Some v, s)))"

text \<open>
  The FPGA port programs the FIFO control register too; the OpenPiton port does
  not (\<open>has_fifo = False\<close>).  The divisor is a C division: there is no result when
  \<open>baud << 4\<close> is zero.
\<close>

definition init_uart :: "bool \<Rightarrow> board \<Rightarrow> u32 \<Rightarrow> u32 \<Rightarrow> machine \<Rightarrow> machine option" where
  "init_uart has_fifo B freq baud s =
     (if push_bit 4 baud = 0 then None
      else let divisor = freq div push_bit 4 baud; R = uregs B;
               s = write_reg_u8 (UART_INTERRUPT_ENABLE R) 0x00 s;
               s = write_reg_u8 (UART_LINE_CONTROL R) 0x80 s;
               s = write_reg_u8 (UART_DLAB_LSB R) (ucast divisor) s;
               s = write_reg_u8 (UART_DLAB_MSB R) (ucast (drop_bit 8 divisor AND 0xFF)) s;
               s = write_reg_u8 (UART_LINE_CONTROL R) 0x03 s;
               s = (if has_fifo then write_reg_u8 (UART_FIFO_CONTROL R) 0xC7 s else s)
           in Some (write_reg_u8 (UART_MODEM_CONTROL R) 0x20 s))"

section \<open>Print routines\<close>

primrec print_uart :: "(u8 \<Rightarrow> 's \<Rightarrow> 's option) \<Rightarrow> u8 list \<Rightarrow> 's \<Rightarrow> 's option" where
  "print_uart tx [] s = Some s"
| "print_uart tx (c # cur) s =
     (if c = 0 then Some s else Option.bind (tx c s) (print_uart tx cur))"

definition bin_to_hex_table :: "u8 list" where
  "bin_to_hex_table = bytes_of ''0123456789ABCDEF''"

definition bin_to_hex :: "u8 \<Rightarrow> u8 \<times> u8" where
  "bin_to_hex inp =
     (bin_to_hex_table ! unat (drop_bit 4 inp AND 0xf), bin_to_hex_table ! unat (inp AND 0xf))"

text \<open>The loop \<open>for (i = n - 1; i > -1; i--)\<close> of \<open>print_uart_int\<close> and \<open>print_uart_addr\<close>.\<close>

primrec print_hex_bytes ::
    "(u8 \<Rightarrow> 's \<Rightarrow> 's option) \<Rightarrow> nat \<Rightarrow> 'a::len word \<Rightarrow> 's \<Rightarrow> 's option" where
  "print_hex_bytes tx 0 addr s = Some s"
| "print_hex_bytes tx (Suc i) addr s =
     (let cur = ucast (drop_bit (i * 8) addr AND 0xff); hex = bin_to_hex cur in do {
        s \<leftarrow> tx (fst hex) s;
        s \<leftarrow> tx (snd hex) s;
        print_hex_bytes tx i addr s
      })"

definition print_uart_int :: "(u8 \<Rightarrow> 's \<Rightarrow> 's option) \<Rightarrow> u32 \<Rightarrow> 's \<Rightarrow> 's option" where
  "print_uart_int tx addr s = print_hex_bytes tx 4 addr s"

definition print_uart_addr :: "(u8 \<Rightarrow> 's \<Rightarrow> 's option) \<Rightarrow> u64 \<Rightarrow> 's \<Rightarrow> 's option" where
  "print_uart_addr tx addr s = print_hex_bytes tx 8 addr s"

definition print_uart_byte :: "(u8 \<Rightarrow> 's \<Rightarrow> 's option) \<Rightarrow> u8 \<Rightarrow> 's \<Rightarrow> 's option" where
  "print_uart_byte tx byte s =
     (let hex = bin_to_hex byte in do { s \<leftarrow> tx (fst hex) s; tx (snd hex) s })"

section \<open>What the device sees\<close>

text \<open>
  A 16550 has its divisor latch behind the data registers while bit 7 of the
  line control register is set.  \<open>uart_out\<close> is what a receiver on the line gets:
  the bytes written to the transmit register while the latch is closed.
\<close>

fun dlab :: "uart_regs \<Rightarrow> bus_event list \<Rightarrow> bool" where
  "dlab R [] = False"
| "dlab R (Wr8 a v # h) = (if a = UART_LINE_CONTROL R then bit v 7 else dlab R h)"
| "dlab R (_ # h) = dlab R h"

fun uart_out :: "uart_regs \<Rightarrow> bus_event list \<Rightarrow> u8 list" where
  "uart_out R [] = []"
| "uart_out R (Wr8 a v # h) =
     (if a = UART_THR R \<and> \<not> dlab R h then uart_out R h @ [v] else uart_out R h)"
| "uart_out R (_ # h) = uart_out R h"

fun latch :: "uart_regs \<Rightarrow> bus_event list \<Rightarrow> u8 \<times> u8" where
  "latch R [] = (0, 0)"
| "latch R (Wr8 a v # h) =
     (if dlab R h \<and> a = UART_DLAB_LSB R then (v, snd (latch R h))
      else if dlab R h \<and> a = UART_DLAB_MSB R then (fst (latch R h), v)
      else latch R h)"
| "latch R (_ # h) = latch R h"

definition uart_addr :: "uart_regs \<Rightarrow> u64 \<Rightarrow> bool" where
  "uart_addr R a \<longleftrightarrow> a \<in> {UART_RBR R, UART_THR R, UART_THR R + 6, UART_THR R + 7,
     UART_INTERRUPT_ENABLE R, UART_FIFO_CONTROL R, UART_LINE_CONTROL R,
     UART_MODEM_CONTROL R, UART_LINE_STATUS R, UART_DLAB_LSB R, UART_DLAB_MSB R}"

text \<open>The bus history without the byte accesses to the UART.\<close>

fun off_uart :: "uart_regs \<Rightarrow> bus_event \<Rightarrow> bool" where
  "off_uart R (Wr8 a v) = (\<not> uart_addr R a)"
| "off_uart R (Rd8 a v) = (\<not> uart_addr R a)"
| "off_uart R _ = True"

definition beside_uart :: "board \<Rightarrow> machine \<Rightarrow> bus_event list \<times> (u64 \<Rightarrow> u8)" where
  "beside_uart B s = (filter (off_uart (uregs B)) (hist s), ram s)"

text \<open>
  The line is open: the latch is closed, its registers are distinct, and the
  transmitter drains, whatever happened before (documented 16550 behaviour: a
  transmitter that has been given characters becomes empty again).
\<close>

definition tx_drains :: "board \<Rightarrow> bool" where
  "tx_drains B \<longleftrightarrow> (\<forall>s. wait_transmit B s \<noteq> None)"

definition line_open :: "board \<Rightarrow> machine \<Rightarrow> bool" where
  "line_open B s \<longleftrightarrow> tx_drains B \<and> UART_THR (uregs B) \<noteq> UART_LINE_CONTROL (uregs B)
     \<and> \<not> dlab (uregs B) (hist s)"

section \<open>The interface of the print routines\<close>

text \<open>
  \<open>tx\<close> is the character output a print routine calls, \<open>out\<close> what the receiver has
  got, \<open>ok\<close> the states in which the line works, and \<open>keep\<close> whatever part of the
  state printing must not disturb.
\<close>

locale serial_port =
  fixes tx :: "u8 \<Rightarrow> 's \<Rightarrow> 's option"
    and out :: "'s \<Rightarrow> u8 list"
    and ok :: "'s \<Rightarrow> bool"
    and keep :: "'s \<Rightarrow> 'k"
  assumes tx_total: "ok s \<Longrightarrow> \<exists>s'. tx b s = Some s' \<and> ok s' \<and> out s' = out s @ [b]"
    and tx_keep: "tx b s = Some s' \<Longrightarrow> keep s' = keep s"
begin

lemma tx_ok:
  assumes "ok s" "tx b s = Some s'"
  shows "ok s'" "out s' = out s @ [b]"
  using tx_total [OF assms(1), of b] assms(2) by auto

lemma print_uart_total:
  "ok s \<Longrightarrow> \<exists>s'. print_uart tx cs s = Some s' \<and> ok s' \<and> out s' = out s @ c_string cs"
proof (induction cs arbitrary: s)
  case Nil
  then show ?case by (simp add: c_string_def)
next
  case (Cons c cs)
  show ?case
  proof (cases "c = 0")
    case True
    with Cons.prems show ?thesis by (simp add: c_string_def)
  next
    case False
    obtain t where t: "tx c s = Some t" "ok t" "out t = out s @ [c]"
      using tx_total [OF Cons.prems] by blast
    with Cons.IH [of t] False show ?thesis by (auto simp: c_string_def)
  qed
qed

lemma print_uart_keep: "print_uart tx cs s = Some s' \<Longrightarrow> keep s' = keep s"
  by (induction cs arbitrary: s) (auto elim!: bind_SomeE dest: tx_keep split: if_splits)

lemma print_hex_total:
  "ok s \<Longrightarrow> \<exists>s'. print_hex_bytes tx n w s = Some s' \<and> ok s' \<and>
     out s' = out s @ concat (map (\<lambda>b. [fst (bin_to_hex b), snd (bin_to_hex b)]) (rev (le_enc n w)))"
proof (induction n arbitrary: s)
  case 0
  then show ?case by (simp add: le_enc_def)
next
  case (Suc i)
  define hex where "hex = bin_to_hex (ucast (drop_bit (8 * i) w))"
  have byte: "ucast (drop_bit (i * 8) w AND 0xff) = (ucast (drop_bit (8 * i) w) :: u8)"
    by (simp add: ucast_and_ff mult.commute)
  obtain t where t: "tx (fst hex) s = Some t" "ok t" "out t = out s @ [fst hex]"
    using tx_total [OF Suc.prems] by blast
  obtain u where u: "tx (snd hex) t = Some u" "ok u" "out u = out t @ [snd hex]"
    using tx_total [OF t(2)] by blast
  have "rev (le_enc (Suc i) w) = ucast (drop_bit (8 * i) w) # rev (le_enc i w)"
    by (simp add: le_enc_def)
  with Suc.IH [OF u(2)] t u show ?case
    by (auto simp: byte Let_def hex_def [symmetric])
qed

lemma print_hex_keep: "print_hex_bytes tx n w s = Some s' \<Longrightarrow> keep s' = keep s"
  by (induction n arbitrary: s) (simp_all add: Let_def bind_eq_Some_conv, metis tx_keep)

lemma print_byte_total:
  assumes "ok s"
  shows "\<exists>s'. print_uart_byte tx b s = Some s' \<and> ok s' \<and>
     out s' = out s @ [fst (bin_to_hex b), snd (bin_to_hex b)]"
proof -
  obtain t where t: "tx (fst (bin_to_hex b)) s = Some t" "ok t"
      "out t = out s @ [fst (bin_to_hex b)]"
    using tx_total [OF assms] by blast
  obtain u where "tx (snd (bin_to_hex b)) t = Some u" "ok u"
      "out u = out t @ [snd (bin_to_hex b)]"
    using tx_total [OF t(2)] by blast
  with t show ?thesis by (simp add: print_uart_byte_def Let_def)
qed

lemma print_byte_keep: "print_uart_byte tx b s = Some s' \<Longrightarrow> keep s' = keep s"
  by (simp add: print_uart_byte_def Let_def bind_eq_Some_conv) (metis tx_keep)

end

section \<open>The UART as a serial port\<close>

lemma wait_transmit_keeps:
  assumes "wait_transmit B s = Some (v, s')"
  shows "dlab (uregs B) (hist s') = dlab (uregs B) (hist s)"
    and "uart_out (uregs B) (hist s') = uart_out (uregs B) (hist s)"
    and "beside_uart B s' = beside_uart B s"
proof -
  have "f s' = f s" if "\<And>a s. a \<in> {UART_LINE_STATUS (uregs B), UART_THR (uregs B) + 7, UART_THR (uregs B) + 6}
      \<Longrightarrow> f (snd (read_reg_u8 B a s)) = f s" for f :: "machine \<Rightarrow> 'a"
    using assms that
    by (auto simp: wait_transmit_def is_transmit_empty_def is_transmit_empty_altera_def Let_def
        case_prod_unfold split: platform.splits elim!: poll_keeps)
  note kept = this
  show "dlab (uregs B) (hist s') = dlab (uregs B) (hist s)"
    by (rule kept) simp
  show "uart_out (uregs B) (hist s') = uart_out (uregs B) (hist s)"
    by (rule kept) simp
  show "beside_uart B s' = beside_uart B s"
    by (rule kept) (auto simp: beside_uart_def uart_addr_def)
qed

interpretation uart: serial_port "write_serial B" "\<lambda>s. uart_out (uregs B) (hist s)"
    "line_open B" "beside_uart B" for B
proof unfold_locales
  fix s b
  assume "line_open B s"
  then have drains: "tx_drains B" and thr: "UART_THR (uregs B) \<noteq> UART_LINE_CONTROL (uregs B)"
    and closed: "\<not> dlab (uregs B) (hist s)"
    by (simp_all add: line_open_def)
  from drains obtain v t where "wait_transmit B s = Some (v, t)"
    unfolding tx_drains_def by fast
  with wait_transmit_keeps [OF this] drains thr closed
  show "\<exists>s'. write_serial B b s = Some s' \<and> line_open B s' \<and>
      uart_out (uregs B) (hist s') = uart_out (uregs B) (hist s) @ [b]"
    by (auto simp: write_serial_def line_open_def)
next
  fix b s s'
  assume "write_serial B b s = Some s'"
  then obtain v t where "wait_transmit B s = Some (v, t)"
      and "s' = write_reg_u8 (UART_THR (uregs B)) b t"
    by (auto simp: write_serial_def elim!: bind_pair_SomeE)
  with wait_transmit_keeps(3) [OF this(1)] show "beside_uart B s' = beside_uart B s"
    by (simp add: beside_uart_def uart_addr_def)
qed

section \<open>Reading the hexadecimal output back\<close>

definition hex_digit :: "u8 \<Rightarrow> nat option" where
  "hex_digit c = (if 48 \<le> c \<and> c \<le> 57 then Some (unat c - 48)
     else if 65 \<le> c \<and> c \<le> 70 then Some (unat c - 55) else None)"

fun hex_value :: "nat \<Rightarrow> u8 list \<Rightarrow> nat option" where
  "hex_value acc [] = Some acc"
| "hex_value acc (c # cs) =
     (case hex_digit c of None \<Rightarrow> None | Some d \<Rightarrow> hex_value (acc * 16 + d) cs)"

lemma hex_digit_table: "n < 16 \<Longrightarrow> hex_digit (bin_to_hex_table ! n) = Some n"
proof -
  have "map hex_digit bin_to_hex_table = map Some [0..<16]"
    by (simp add: bin_to_hex_table_def bytes_of_simps hex_digit_def upt_rec)
  moreover have "length bin_to_hex_table = 16"
    by (simp add: bin_to_hex_table_def)
  ultimately show "n < 16 \<Longrightarrow> hex_digit (bin_to_hex_table ! n) = Some n"
    by (metis add_0 length_upt minus_nat.diff_0 nth_map nth_upt)
qed

lemma nibbles: "unat (drop_bit 4 b AND 0xf) * 16 + unat (b AND 0xf) = unat (b :: u8)"
  and nibble_hi: "unat (drop_bit 4 b AND 0xf) < 16" and nibble_lo: "unat (b AND 0xf) < 16"
proof -
  have m: "(0xf :: u8) = mask 4" by (simp add: mask_eq_exp_minus_1)
  have lo: "unat (b AND 0xf) = unat b mod 16"
    unfolding m by (simp add: take_bit_eq_mask [symmetric] unsigned_take_bit_eq take_bit_eq_mod unat_mod)
  have "unat (drop_bit 4 b AND 0xf) = (unat b div 16) mod 16"
    unfolding m by (simp add: take_bit_eq_mask [symmetric] unsigned_take_bit_eq take_bit_eq_mod
        unsigned_drop_bit_eq drop_bit_eq_div unat_mod unat_div)
  moreover have "unat b < 256" using unsigned_less [of b] by simp
  ultimately have hi: "unat (drop_bit 4 b AND 0xf) = unat b div 16" by simp
  from lo hi show "unat (drop_bit 4 b AND 0xf) * 16 + unat (b AND 0xf) = unat b" by simp
  from hi \<open>unat b < 256\<close> show "unat (drop_bit 4 b AND 0xf) < 16" by simp
  from lo show "unat (b AND 0xf) < 16" by simp
qed

lemma hex_value_byte:
  "hex_value acc (fst (bin_to_hex b) # snd (bin_to_hex b) # cs) = hex_value (acc * 256 + unat b) cs"
proof -
  have "(acc * 16 + unat (drop_bit 4 b AND 0xf)) * 16 + unat (b AND 0xf) = acc * 256 + unat b"
    using nibbles [of b] by simp
  then show ?thesis
    by (simp only: hex_value.simps bin_to_hex_def fst_conv snd_conv hex_digit_table
        nibble_hi nibble_lo option.case)
qed

lemma hex_value_word:
  "hex_value acc (concat (map (\<lambda>b. [fst (bin_to_hex b), snd (bin_to_hex b)]) (rev (le_enc n w)))) =
     Some (acc * 256 ^ n + unat (w :: 'a::len word) mod 256 ^ n)"
proof (induction n arbitrary: acc)
  case 0
  then show ?case by (simp add: le_enc_def)
next
  case (Suc n)
  have top: "rev (le_enc (Suc n) w) = ucast (drop_bit (8 * n) w) # rev (le_enc n w)"
    by (simp add: le_enc_def)
  have p: "(256::nat) ^ n = 2 ^ (8 * n)" by (simp add: power_mult)
  have d: "unat (ucast (drop_bit (8 * n) w) :: u8) = unat w div 256 ^ n mod 256"
    by (simp add: p unsigned_ucast_eq unsigned_drop_bit_eq take_bit_eq_mod unat_div flip: drop_bit_eq_div)
  have "unat w mod 256 ^ Suc n = (unat w div 256 ^ n mod 256) * 256 ^ n + unat w mod 256 ^ n"
    using mod_mult2_eq [of "unat w" "256 ^ n" 256] by (simp add: mult.commute)
  then show ?case
    by (simp add: top hex_value_byte Suc.IH d distrib_right del: hex_value.simps)
qed

lemma length_hex [simp]:
  "length (concat (map (\<lambda>b. [fst (bin_to_hex b), snd (bin_to_hex b)]) bs)) = 2 * length bs"
  by (induction bs) simp_all

section \<open>Properties of the UART driver\<close>

lemma tx_drainsI:
  assumes "plat B = PLAT_GENERIC"
    and "\<And>h. env8 B h (UART_LINE_STATUS (uregs B)) AND 0x20 \<noteq> 0"
  shows "tx_drains B"
  using assms
  by (simp add: tx_drains_def wait_transmit_def is_transmit_empty_def read_reg_u8_def Let_def
      poll.simps [where ok = "\<lambda>v. v \<noteq> 0"])

text \<open>A board whose devices always answer the same, for the concrete instances.\<close>

definition quiet_board :: "u8 \<Rightarrow> u32 \<Rightarrow> board" where
  "quiet_board v w = \<lparr>plat = PLAT_GENERIC, uregs = fpga_uart, env8 = \<lambda>_ _. v,
     env32 = \<lambda>_ _. w, env_cycle = \<lambda>h. of_nat (length h)\<rparr>"

definition reset_machine :: machine where
  "reset_machine = \<lparr>hist = [], ram = \<lambda>_. 0\<rparr>"

lemma quiet_line_open: "line_open (quiet_board 0x20 w) reset_machine"
  by (auto simp: line_open_def quiet_board_def fpga_uart_def reset_machine_def intro!: tx_drainsI)

text \<open>On an open line \<open>print_uart\<close> returns, the receiver has got exactly the bytes of the
  C string (up to its NUL), and nothing but UART registers was touched.\<close>

theorem print_uart_transmits:
  assumes "line_open B s"
  shows "\<exists>s'. print_uart (write_serial B) str s = Some s' \<and> line_open B s'
      \<and> uart_out (uregs B) (hist s') = uart_out (uregs B) (hist s) @ c_string str
      \<and> beside_uart B s' = beside_uart B s"
  using uart.print_uart_total [OF assms, of str] uart.print_uart_keep by metis

theorem print_uart_transmits_witness:
  "\<exists>s'. print_uart (write_serial (quiet_board 0x20 0)) (bytes_of ''Hi'' @ [0, 7]) reset_machine = Some s'
      \<and> uart_out fpga_uart (hist s') = bytes_of ''Hi''"
  using print_uart_transmits [OF quiet_line_open, of 0 "bytes_of ''Hi'' @ [0, 7]"]
  by (auto simp: quiet_board_def reset_machine_def c_string_def bytes_of_simps)

text \<open>\<open>print_uart_addr\<close> sends sixteen hexadecimal digits, most significant first, and reading
  them back gives the 64-bit value that was printed.\<close>

theorem print_uart_addr_readable:
  assumes "line_open B s"
  shows "\<exists>s' ds. print_uart_addr (write_serial B) addr s = Some s'
      \<and> uart_out (uregs B) (hist s') = uart_out (uregs B) (hist s) @ ds
      \<and> length ds = 16 \<and> hex_value 0 ds = Some (unat addr)
      \<and> beside_uart B s' = beside_uart B s"
proof -
  obtain s' where s': "print_hex_bytes (write_serial B) 8 addr s = Some s'"
      "uart_out (uregs B) (hist s') = uart_out (uregs B) (hist s) @
         concat (map (\<lambda>b. [fst (bin_to_hex b), snd (bin_to_hex b)]) (rev (le_enc 8 addr)))"
    using uart.print_hex_total [OF assms, of 8 addr] by blast
  moreover have "unat addr < 2 ^ LENGTH(64)"
    by (rule unsigned_less)
  then have "unat addr mod 256 ^ 8 = unat addr"
    by simp
  ultimately show ?thesis
    using hex_value_word [of 0 8 addr] uart.print_hex_keep [OF s'(1)]
    by (auto simp: print_uart_addr_def)
qed

theorem print_uart_addr_readable_witness:
  "\<exists>s' ds. print_uart_addr (write_serial (quiet_board 0x20 0)) 0x80000000 reset_machine = Some s'
      \<and> uart_out fpga_uart (hist s') = ds \<and> hex_value 0 ds = Some (unat (0x80000000 :: u64))"
  using print_uart_addr_readable [OF quiet_line_open, of 0 "0x80000000"]
  by (auto simp: quiet_board_def reset_machine_def)

lemma uart_maps_distinct:
  assumes "R \<in> {fpga_uart, piton_uart}"
  shows "distinct [UART_THR R, UART_INTERRUPT_ENABLE R, UART_FIFO_CONTROL R, UART_LINE_CONTROL R,
      UART_MODEM_CONTROL R, UART_LINE_STATUS R]"
    and "distinct [UART_LINE_STATUS R, UART_MODEM_CONTROL R, UART_LINE_CONTROL R,
      UART_FIFO_CONTROL R, UART_INTERRUPT_ENABLE R, UART_THR R]"
    and "UART_DLAB_LSB R = UART_THR R" and "UART_DLAB_MSB R = UART_INTERRUPT_ENABLE R"
    and "UART_RBR R = UART_THR R"
  using assms by (auto simp: fpga_uart_def piton_uart_def)

text \<open>\<open>init_uart\<close> has a result exactly when \<open>baud << 4\<close> is not zero in 32 bits; then the divisor
  latch holds the low 16 bits of \<open>freq / (16 baud)\<close>, and the latch is closed again, so that
  the next write to the transmit register is a character.\<close>

theorem init_uart_programs_divisor:
  assumes "uregs B \<in> {fpga_uart, piton_uart}"
  shows "(init_uart ff B freq baud s = None \<longleftrightarrow> push_bit 4 baud = 0)
    \<and> (\<forall>s'. init_uart ff B freq baud s = Some s' \<longrightarrow>
          le_dec [fst (latch (uregs B) (hist s')), snd (latch (uregs B) (hist s'))]
            = (ucast (freq div push_bit 4 baud) :: u16)
          \<and> \<not> dlab (uregs B) (hist s')
          \<and> uart_out (uregs B) (hist s') = uart_out (uregs B) (hist s))"
proof -
  have split16: "le_dec [ucast d, ucast (drop_bit 8 d AND 0xFF)] = (ucast d :: u16)" for d :: u32
  proof -
    have "(ucast (ucast d :: u16) :: u8) = ucast d"
      by (rule bit_word_eqI) (auto simp: bit_simps)
    then have "le_dec [ucast d, ucast (drop_bit 8 d AND 0xFF)] = (le_dec (le_enc 2 (ucast d :: u16)) :: u16)"
      by (simp add: le_enc_def upt_rec ucast_and_ff drop_bit_ucast_byte)
    then show ?thesis by (simp add: le_dec_enc)
  qed
  have latched: "latch (uregs B) (hist s') = (ucast d, ucast (drop_bit 8 d AND 0xFF))
      \<and> \<not> dlab (uregs B) (hist s') \<and> uart_out (uregs B) (hist s') = uart_out (uregs B) (hist s)"
    if "init_uart ff B freq baud s = Some s'" "d = freq div push_bit 4 baud" for s' d
  proof -
    from that obtain t where "s' = write_reg_u8 (UART_MODEM_CONTROL (uregs B)) 0x20 t"
      and t: "t = (let R = uregs B; s = write_reg_u8 (UART_INTERRUPT_ENABLE R) 0x00 s;
               s = write_reg_u8 (UART_LINE_CONTROL R) 0x80 s;
               s = write_reg_u8 (UART_DLAB_LSB R) (ucast d) s;
               s = write_reg_u8 (UART_DLAB_MSB R) (ucast (drop_bit 8 d AND 0xFF)) s;
               s = write_reg_u8 (UART_LINE_CONTROL R) 0x03 s
           in if ff then write_reg_u8 (UART_FIFO_CONTROL R) 0xC7 s else s)"
      by (auto simp: init_uart_def Let_def split: if_splits)
    with uart_maps_distinct [OF assms] show ?thesis
      by (simp add: Let_def split: if_splits)
  qed
  show ?thesis
  proof (intro conjI allI impI)
    show "(init_uart ff B freq baud s = None) = (push_bit 4 baud = 0)"
      by (simp add: init_uart_def Let_def)
  next
    fix s' assume "init_uart ff B freq baud s = Some s'"
    from latched [OF this refl] show "\<not> dlab (uregs B) (hist s')"
      and "uart_out (uregs B) (hist s') = uart_out (uregs B) (hist s)"
      and "le_dec [fst (latch (uregs B) (hist s')), snd (latch (uregs B) (hist s'))]
        = (ucast (freq div push_bit 4 baud) :: u16)"
      by (simp_all only: split16 fst_conv snd_conv simp_thms)
  qed
qed

theorem init_uart_programs_divisor_witness:
  "\<exists>s'. init_uart True (quiet_board 0x20 0) 50000000 115200 reset_machine = Some s'
     \<and> le_dec [fst (latch fpga_uart (hist s')), snd (latch fpga_uart (hist s'))] = (27 :: u16)"
  using init_uart_programs_divisor [of "quiet_board 0x20 0" True 50000000 115200 reset_machine]
  by (auto simp: quiet_board_def)

end
