(* ===== verification/Spi.thy ===== *)
theory Spi
  imports Uart
begin

text \<open>
  The Xilinx quad-SPI driver \<open>spi.c\<close> (the same text in the FPGA and the OpenPiton
  boot ROM): initialisation, one full-duplex byte, and a burst through the
  FIFOs.  \<open>mosi\<close> and \<open>miso\<close> are the bytes that went over the wire in each
  direction; the locale \<open>spi_link\<close> is what the SD driver relies on.
\<close>

definition SPI_BASE :: u64 where "SPI_BASE = 0x20000000"
definition SPI_RESET_REG :: u64 where "SPI_RESET_REG = SPI_BASE + 0x40"
definition SPI_CONTROL_REG :: u64 where "SPI_CONTROL_REG = SPI_BASE + 0x60"
definition SPI_STATUS_REG :: u64 where "SPI_STATUS_REG = SPI_BASE + 0x64"
definition SPI_TRANSMIT_REG :: u64 where "SPI_TRANSMIT_REG = SPI_BASE + 0x68"
definition SPI_RECEIVE_REG :: u64 where "SPI_RECEIVE_REG = SPI_BASE + 0x6C"
definition SPI_SLAVE_SELECT_REG :: u64 where "SPI_SLAVE_SELECT_REG = SPI_BASE + 0x70"

lemmas spi_regs = SPI_BASE_def SPI_RESET_REG_def SPI_CONTROL_REG_def SPI_STATUS_REG_def
  SPI_TRANSMIT_REG_def SPI_RECEIVE_REG_def SPI_SLAVE_SELECT_REG_def

definition crlf :: "u8 list" where "crlf = [0x0D, 0x0A]"

abbreviation say :: "board \<Rightarrow> u8 list \<Rightarrow> machine \<Rightarrow> machine option" where
  "say B \<equiv> print_uart (write_serial B)"

section \<open>The driver\<close>

definition spi_init :: "board \<Rightarrow> machine \<Rightarrow> machine option" where
  "spi_init B s = do {
     s \<leftarrow> say B (bytes_of ''init SPI'' @ crlf) s;
     let s = write_reg SPI_RESET_REG 0x0a s;
     let s = write_reg SPI_CONTROL_REG 0x104 s;
     let (status, s) = read_reg B SPI_STATUS_REG s;
     s \<leftarrow> say B (bytes_of ''status: 0x'') s;
     s \<leftarrow> print_uart_addr (write_serial B) (ucast status) s;
     s \<leftarrow> say B crlf s;
     let s = write_reg SPI_CONTROL_REG 0x166 s;
     let (status, s) = read_reg B SPI_STATUS_REG s;
     s \<leftarrow> say B (bytes_of ''status: 0x'') s;
     s \<leftarrow> print_uart_addr (write_serial B) (ucast status) s;
     s \<leftarrow> say B crlf s;
     let s = write_reg SPI_CONTROL_REG 0x06 s;
     say B (bytes_of ''SPI initialized!'' @ crlf) s
   }"

text \<open>\<open>while ((read_reg(SPI_STATUS_REG) & 0x1) == 0x1) ;\<close> waits for a received byte.\<close>

definition spi_wait_rx :: "board \<Rightarrow> machine \<Rightarrow> (u32 \<times> machine) option" where
  "spi_wait_rx B s = poll (\<lambda>s. Some (read_reg B SPI_STATUS_REG s)) (\<lambda>v. v AND 0x1 \<noteq> 0x1) s"

text \<open>A receive FIFO that is not empty after the byte was read is only reported.\<close>

definition spi_check_fifo :: "board \<Rightarrow> u32 \<Rightarrow> machine \<Rightarrow> machine option" where
  "spi_check_fifo B status s =
     (if status AND 0x1 \<noteq> 0x1 then do {
        s \<leftarrow> say B (bytes_of ''rx fifo not empty?? '') s;
        let (status, s) = read_reg B SPI_STATUS_REG s;
        s \<leftarrow> print_uart_addr (write_serial B) (ucast status) s;
        say B crlf s
      } else Some s)"

definition spi_txrx :: "board \<Rightarrow> u8 \<Rightarrow> machine \<Rightarrow> (u8 \<times> machine) option" where
  "spi_txrx B byte s = do {
     let s = write_reg SPI_SLAVE_SELECT_REG 0xfffffffe s;
     let s = write_reg SPI_TRANSMIT_REG (ucast byte) s;
     let s = write_reg SPI_CONTROL_REG 0x106 s;
     (_, s) \<leftarrow> spi_wait_rx B s;
     let (result, s) = read_reg B SPI_RECEIVE_REG s;
     let (status, s) = read_reg B SPI_STATUS_REG s;
     s \<leftarrow> spi_check_fifo B status s;
     let s = write_reg SPI_SLAVE_SELECT_REG 0xffffffff s;
     let s = write_reg SPI_CONTROL_REG 0x06 s;
     Some (ucast result, s)
   }"

text \<open>The first loop of \<open>spi_write_bytes\<close>: fill the transmit FIFO.\<close>

definition spi_fill :: "u8 list \<Rightarrow> machine \<Rightarrow> machine" where
  "spi_fill bs s = fold (\<lambda>b. write_reg SPI_TRANSMIT_REG (ucast b AND 0xff)) bs s"

text \<open>The last loop: \<open>n\<close> bytes are still to come, the next one goes to \<open>a\<close>.\<close>

primrec spi_drain :: "board \<Rightarrow> nat \<Rightarrow> u64 \<Rightarrow> machine \<Rightarrow> machine option" where
  "spi_drain B 0 a s = Some s"
| "spi_drain B (Suc n) a s = do {
     (_, s) \<leftarrow> spi_wait_rx B s;
     let (v, s) = read_reg B SPI_RECEIVE_REG s;
     spi_drain B n (a + 1) (store_byte a (ucast v) s)
   }"

text \<open>Reading past the end of \<open>bytes\<close> is undefined behaviour: no result.\<close>

definition spi_write_bytes ::
    "board \<Rightarrow> u8 list \<Rightarrow> u32 \<Rightarrow> u64 \<Rightarrow> machine \<Rightarrow> (int \<times> machine) option" where
  "spi_write_bytes B bytes len ret s =
     (if len > 256 then Some (-1, s)
      else if length bytes < unat len then None
      else do {
        let s = write_reg SPI_SLAVE_SELECT_REG 0xfffffffe s;
        let s = spi_fill (take (unat len) bytes) s;
        let s = write_reg SPI_CONTROL_REG 0x106 s;
        (_, s) \<leftarrow> spi_wait_rx B s;
        s \<leftarrow> spi_drain B (unat len) ret s;
        let s = write_reg SPI_SLAVE_SELECT_REG 0xffffffff s;
        let s = write_reg SPI_CONTROL_REG 0x06 s;
        Some (0, s)
      })"

section \<open>What goes over the wire\<close>

fun mosi :: "bus_event list \<Rightarrow> u8 list" where
  "mosi [] = []"
| "mosi (Wr32 a v # h) = (if a = SPI_TRANSMIT_REG then mosi h @ [ucast v] else mosi h)"
| "mosi (_ # h) = mosi h"

fun miso :: "bus_event list \<Rightarrow> u8 list" where
  "miso [] = []"
| "miso (Rd32 a v # h) = (if a = SPI_RECEIVE_REG then miso h @ [ucast v] else miso h)"
| "miso (_ # h) = miso h"

text \<open>The last value written to a 32-bit register.\<close>

fun last_wr32 :: "u64 \<Rightarrow> bus_event list \<Rightarrow> u32 option" where
  "last_wr32 r [] = None"
| "last_wr32 r (Wr32 a v # h) = (if a = r then Some v else last_wr32 r h)"
| "last_wr32 r (_ # h) = last_wr32 r h"

text \<open>Bus discipline: bytes are only handed to the core while the card is selected.\<close>

fun selected_tx :: "bus_event list \<Rightarrow> bool" where
  "selected_tx [] = True"
| "selected_tx (Wr32 a v # h) \<longleftrightarrow> selected_tx h \<and>
     (a = SPI_TRANSMIT_REG \<longrightarrow> last_wr32 SPI_SLAVE_SELECT_REG h = Some 0xfffffffe)"
| "selected_tx (_ # h) = selected_tx h"

definition spi_idle :: "bus_event list \<Rightarrow> bool" where
  "spi_idle h \<longleftrightarrow> selected_tx h \<and> last_wr32 SPI_SLAVE_SELECT_REG h = Some 0xffffffff
     \<and> last_wr32 SPI_CONTROL_REG h = Some 0x06"

lemma views_off_uart:
  "mosi (filter (off_uart R) h) = mosi h"
  "miso (filter (off_uart R) h) = miso h"
  "last_wr32 r (filter (off_uart R) h) = last_wr32 r h"
  by (induction h rule: hist_induct) simp_all

lemma selected_off_uart: "selected_tx (filter (off_uart R) h) = selected_tx h"
  by (induction h rule: hist_induct) (simp_all add: views_off_uart)

text \<open>Whatever leaves everything beside the UART alone leaves the SPI views alone.\<close>

definition spi_view :: "machine \<Rightarrow> u8 list \<times> u8 list \<times> u32 option \<times> u32 option \<times> bool \<times> (u64 \<Rightarrow> u8)" where
  "spi_view s = (mosi (hist s), miso (hist s), last_wr32 SPI_SLAVE_SELECT_REG (hist s),
     last_wr32 SPI_CONTROL_REG (hist s), selected_tx (hist s), ram s)"

lemma beside_uart_spi_view:
  assumes "beside_uart B s' = beside_uart B s"
  shows "spi_view s' = spi_view s"
proof -
  have h: "filter (off_uart (uregs B)) (hist s') = filter (off_uart (uregs B)) (hist s)"
    and r: "ram s' = ram s"
    using assms by (simp_all add: beside_uart_def)
  have "mosi (hist s') = mosi (hist s)" "miso (hist s') = miso (hist s)"
    "last_wr32 a (hist s') = last_wr32 a (hist s)" "selected_tx (hist s') = selected_tx (hist s)" for a
    by (metis h views_off_uart(1), metis h views_off_uart(2), metis h views_off_uart(3),
        metis h selected_off_uart)
  with r show ?thesis by (simp add: spi_view_def)
qed

lemma say_spi_view: "say B str s = Some s' \<Longrightarrow> spi_view s' = spi_view s"
  and print_addr_spi_view: "print_uart_addr (write_serial B) w s = Some s' \<Longrightarrow> spi_view s' = spi_view s"
  and print_byte_spi_view: "print_uart_byte (write_serial B) b s = Some s' \<Longrightarrow> spi_view s' = spi_view s"
  by (auto simp: print_uart_addr_def intro!: beside_uart_spi_view [of B]
      dest: uart.print_uart_keep uart.print_hex_keep uart.print_byte_keep)

lemma spi_wait_rx_view:
  assumes "spi_wait_rx B s = Some (v, s')"
  shows "spi_view s' = spi_view s"
  using assms unfolding spi_wait_rx_def
  by (rule poll_keeps) (auto simp: spi_view_def read_reg_def Let_def spi_regs)

lemma spi_viewD:
  assumes "spi_view s' = spi_view s"
  shows "mosi (hist s') = mosi (hist s)" "miso (hist s') = miso (hist s)"
    "last_wr32 SPI_SLAVE_SELECT_REG (hist s') = last_wr32 SPI_SLAVE_SELECT_REG (hist s)"
    "last_wr32 SPI_CONTROL_REG (hist s') = last_wr32 SPI_CONTROL_REG (hist s)"
    "selected_tx (hist s') = selected_tx (hist s)" "ram s' = ram s"
  using assms by (simp_all add: spi_view_def)

lemma spi_regs_distinct:
  "distinct [SPI_RESET_REG, SPI_CONTROL_REG, SPI_STATUS_REG, SPI_TRANSMIT_REG, SPI_RECEIVE_REG,
     SPI_SLAVE_SELECT_REG]"
  "distinct [SPI_SLAVE_SELECT_REG, SPI_RECEIVE_REG, SPI_TRANSMIT_REG, SPI_STATUS_REG,
     SPI_CONTROL_REG, SPI_RESET_REG]"
  by (simp_all add: spi_regs)

lemma read_status_view: "spi_view (snd (read_reg B SPI_STATUS_REG s)) = spi_view s"
  using spi_regs_distinct by (simp add: spi_view_def)

section \<open>One byte\<close>

text \<open>The message about an unread receive FIFO is only text on the UART.\<close>

lemma spi_check_fifo_view:
  assumes "spi_check_fifo B st s = Some s'"
  shows "spi_view s' = spi_view s"
proof (cases "st AND 0x1 \<noteq> 0x1")
  case True
  with assms obtain t u where
    "say B (bytes_of ''rx fifo not empty?? '') s = Some t"
    "print_uart_addr (write_serial B) (ucast (env32 B (hist t) SPI_STATUS_REG))
       (snd (read_reg B SPI_STATUS_REG t)) = Some u"
    "say B crlf u = Some s'"
    by (auto simp: spi_check_fifo_def Let_def case_prod_unfold elim!: bind_SomeE)
  then show ?thesis
    using say_spi_view print_addr_spi_view read_status_view by metis
next
  case False
  with assms show ?thesis by (simp add: spi_check_fifo_def)
qed

lemma spi_txrx_cases:
  assumes "spi_txrx B b s = Some (r, s')"
  obtains v t u where
    "spi_wait_rx B (write_reg SPI_CONTROL_REG 0x106 (write_reg SPI_TRANSMIT_REG (ucast b)
       (write_reg SPI_SLAVE_SELECT_REG 0xfffffffe s))) = Some (v, t)"
    "spi_view u = spi_view (snd (read_reg B SPI_RECEIVE_REG t))"
    "r = ucast (env32 B (hist t) SPI_RECEIVE_REG)"
    "s' = write_reg SPI_CONTROL_REG 0x06 (write_reg SPI_SLAVE_SELECT_REG 0xffffffff u)"
proof -
  from assms obtain v t u where
    "spi_wait_rx B (write_reg SPI_CONTROL_REG 0x106 (write_reg SPI_TRANSMIT_REG (ucast b)
       (write_reg SPI_SLAVE_SELECT_REG 0xfffffffe s))) = Some (v, t)"
    and chk: "spi_check_fifo B (fst (read_reg B SPI_STATUS_REG (snd (read_reg B SPI_RECEIVE_REG t))))
       (snd (read_reg B SPI_STATUS_REG (snd (read_reg B SPI_RECEIVE_REG t)))) = Some u"
    and "r = ucast (env32 B (hist t) SPI_RECEIVE_REG)"
    "s' = write_reg SPI_CONTROL_REG 0x06 (write_reg SPI_SLAVE_SELECT_REG 0xffffffff u)"
    by (auto simp: spi_txrx_def Let_def case_prod_unfold elim!: bind_SomeE)
  then show ?thesis
    using that spi_check_fifo_view [OF chk] read_status_view by metis
qed

lemma spi_txrx_view:
  assumes "spi_txrx B b s = Some (r, s')"
  shows "mosi (hist s') = mosi (hist s) @ [b]" and "miso (hist s') = miso (hist s) @ [r]"
    and "ram s' = ram s" and "selected_tx (hist s) \<Longrightarrow> spi_idle (hist s')"
proof -
  from assms obtain v t u where
    wait: "spi_wait_rx B (write_reg SPI_CONTROL_REG 0x106 (write_reg SPI_TRANSMIT_REG (ucast b)
       (write_reg SPI_SLAVE_SELECT_REG 0xfffffffe s))) = Some (v, t)"
    and quiet: "spi_view u = spi_view (snd (read_reg B SPI_RECEIVE_REG t))"
    and w: "r = ucast (env32 B (hist t) SPI_RECEIVE_REG)"
    and s': "s' = write_reg SPI_CONTROL_REG 0x06 (write_reg SPI_SLAVE_SELECT_REG 0xffffffff u)"
    by (rule spi_txrx_cases)
  have byte: "ucast (ucast b :: u32) = b"
    by (rule bit_word_eqI) (auto simp: bit_simps)
  note facts = spi_viewD [OF spi_wait_rx_view [OF wait]] spi_viewD [OF quiet] spi_regs_distinct
  from facts s' byte show "mosi (hist s') = mosi (hist s) @ [b]"
    by simp
  from facts s' w show "miso (hist s') = miso (hist s) @ [r]"
    by simp
  from facts s' show "ram s' = ram s"
    by simp
  from facts s' show "spi_idle (hist s')" if "selected_tx (hist s)"
    using that by (simp add: spi_idle_def)
qed

section \<open>A burst\<close>

lemma spi_fill_view:
  "mosi (hist (spi_fill bs s)) = mosi (hist s) @ bs" "miso (hist (spi_fill bs s)) = miso (hist s)"
  "ram (spi_fill bs s) = ram s"
  "last_wr32 SPI_SLAVE_SELECT_REG (hist (spi_fill bs s)) = last_wr32 SPI_SLAVE_SELECT_REG (hist s)"
  "selected_tx (hist s) \<Longrightarrow> last_wr32 SPI_SLAVE_SELECT_REG (hist s) = Some 0xfffffffe \<Longrightarrow>
     selected_tx (hist (spi_fill bs s))"
proof -
  have byte: "ucast (ucast b AND 0xff :: u32) = b" for b :: u8
    unfolding ucast_and_ff by (rule bit_word_eqI) (auto simp: bit_simps)
  have step: "spi_fill (b # bs) s = spi_fill bs (write_reg SPI_TRANSMIT_REG (ucast b AND 0xff) s)" for b bs s
    by (simp add: spi_fill_def)
  show "mosi (hist (spi_fill bs s)) = mosi (hist s) @ bs" "miso (hist (spi_fill bs s)) = miso (hist s)"
    "ram (spi_fill bs s) = ram s"
    "last_wr32 SPI_SLAVE_SELECT_REG (hist (spi_fill bs s)) = last_wr32 SPI_SLAVE_SELECT_REG (hist s)"
    "selected_tx (hist s) \<Longrightarrow> last_wr32 SPI_SLAVE_SELECT_REG (hist s) = Some 0xfffffffe \<Longrightarrow>
       selected_tx (hist (spi_fill bs s))"
    by (induction bs arbitrary: s)
      (use spi_regs_distinct in \<open>simp_all add: step byte, simp_all add: spi_fill_def\<close>)
qed

lemma spi_drain_view:
  assumes "spi_drain B n a s = Some s'"
  shows "\<exists>rs. length rs = n \<and> miso (hist s') = miso (hist s) @ rs \<and> ram s' = put_bytes a rs (ram s)
    \<and> mosi (hist s') = mosi (hist s) \<and> selected_tx (hist s') = selected_tx (hist s)
    \<and> last_wr32 SPI_SLAVE_SELECT_REG (hist s') = last_wr32 SPI_SLAVE_SELECT_REG (hist s)"
  using assms
proof (induction n arbitrary: a s)
  case 0
  then show ?case by simp
next
  case (Suc n)
  from Suc.prems obtain v t where wait: "spi_wait_rx B s = Some (v, t)"
    and rest: "spi_drain B n (a + 1) (store_byte a (ucast (env32 B (hist t) SPI_RECEIVE_REG))
        (snd (read_reg B SPI_RECEIVE_REG t))) = Some s'"
    by (auto simp: Let_def case_prod_unfold elim!: bind_SomeE)
  from Suc.IH [OF rest] obtain rs where
    "length rs = n" "miso (hist s') = miso (hist t) @ ucast (env32 B (hist t) SPI_RECEIVE_REG) # rs"
    "ram s' = put_bytes a (ucast (env32 B (hist t) SPI_RECEIVE_REG) # rs) (ram t)"
    "mosi (hist s') = mosi (hist t)" "selected_tx (hist s') = selected_tx (hist t)"
    "last_wr32 SPI_SLAVE_SELECT_REG (hist s') = last_wr32 SPI_SLAVE_SELECT_REG (hist t)"
    using spi_regs_distinct by (auto simp: fun_upd_def)
  with spi_viewD [OF spi_wait_rx_view [OF wait]] show ?case
    by (intro exI [of _ "ucast (env32 B (hist t) SPI_RECEIVE_REG) # rs"]) (simp add: fun_upd_def)
qed

lemma spi_write_bytes_view:
  assumes "spi_write_bytes B bs n a s = Some (rc, s')" "n \<le> 256"
  shows "rc = 0 \<and> unat n \<le> length bs \<and>
    (\<exists>rs. length rs = unat n \<and> mosi (hist s') = mosi (hist s) @ take (unat n) bs
        \<and> miso (hist s') = miso (hist s) @ rs \<and> ram s' = put_bytes a rs (ram s))"
    and "selected_tx (hist s) \<Longrightarrow> spi_idle (hist s')"
proof -
  from assms obtain v t u where
    wait: "spi_wait_rx B (write_reg SPI_CONTROL_REG 0x106 (spi_fill (take (unat n) bs)
        (write_reg SPI_SLAVE_SELECT_REG 0xfffffffe s))) = Some (v, t)"
    and drain: "spi_drain B (unat n) a t = Some u" and len: "unat n \<le> length bs"
    and s': "s' = write_reg SPI_CONTROL_REG 0x06 (write_reg SPI_SLAVE_SELECT_REG 0xffffffff u)" "rc = 0"
    by (auto simp: spi_write_bytes_def Let_def elim!: bind_SomeE bind_pair_SomeE split: if_splits)
  note facts = spi_viewD [OF spi_wait_rx_view [OF wait]] spi_fill_view spi_regs_distinct
  from spi_drain_view [OF drain] facts s' len
  show "rc = 0 \<and> unat n \<le> length bs \<and>
    (\<exists>rs. length rs = unat n \<and> mosi (hist s') = mosi (hist s) @ take (unat n) bs
        \<and> miso (hist s') = miso (hist s) @ rs \<and> ram s' = put_bytes a rs (ram s))"
    by auto
  from spi_drain_view [OF drain] facts s'
  show "selected_tx (hist s) \<Longrightarrow> spi_idle (hist s')"
    by (auto simp: spi_idle_def)
qed

text \<open>Initialisation sends nothing to the card and leaves the transmitter stopped.\<close>

lemma spi_init_view:
  assumes "spi_init B s = Some s'"
  shows "mosi (hist s') = mosi (hist s)" "miso (hist s') = miso (hist s)"
    "selected_tx (hist s') = selected_tx (hist s)"
    "last_wr32 SPI_CONTROL_REG (hist s') = Some 0x06" "ram s' = ram s"
proof -
  define rd where "rd s = snd (read_reg B SPI_STATUS_REG s)" for s
  from assms obtain t1 t2 t3 t4 t5 t6 t7 w1 w2 where
    "spi_view t1 = spi_view s"
    "spi_view t2 = spi_view (rd (write_reg SPI_CONTROL_REG 0x104 (write_reg SPI_RESET_REG 0x0a t1)))"
    "spi_view t3 = spi_view t2" "spi_view t4 = spi_view t3"
    "spi_view t5 = spi_view (rd (write_reg SPI_CONTROL_REG 0x166 t4))"
    "spi_view t6 = spi_view t5" "spi_view t7 = spi_view t6"
    "spi_view s' = spi_view (write_reg SPI_CONTROL_REG 0x06 t7)"
    unfolding spi_init_def rd_def Let_def case_prod_unfold
    by (elim bind_SomeE) (blast dest: say_spi_view print_addr_spi_view)
  note steps = this [THEN spi_viewD(1)] this [THEN spi_viewD(2)] this [THEN spi_viewD(4)]
    this [THEN spi_viewD(5)] this [THEN spi_viewD(6)]
  from steps spi_regs_distinct show "mosi (hist s') = mosi (hist s)" "miso (hist s') = miso (hist s)"
    "selected_tx (hist s') = selected_tx (hist s)"
    "last_wr32 SPI_CONTROL_REG (hist s') = Some 0x06" "ram s' = ram s"
    by (simp_all add: rd_def)
qed

section \<open>When the driver returns\<close>

text \<open>The core always delivers a byte eventually (documented behaviour of the IP core, which
  shifts one byte in for every byte shifted out).\<close>

definition spi_delivers :: "board \<Rightarrow> bool" where
  "spi_delivers B \<longleftrightarrow> (\<forall>s. spi_wait_rx B s \<noteq> None)"

definition spi_live :: "board \<Rightarrow> machine \<Rightarrow> bool" where
  "spi_live B s \<longleftrightarrow> line_open B s \<and> spi_delivers B"

text \<open>Register accesses of the SPI core do not touch the UART.\<close>

lemma line_open_regs [simp]:
  "line_open B (write_reg a v s) = line_open B s"
  "line_open B (snd (read_reg B a s)) = line_open B s"
  "line_open B (store_byte a b s) = line_open B s"
  by (simp_all add: line_open_def)

lemma spi_wait_rx_live:
  assumes "spi_live B s"
  obtains v s' where "spi_wait_rx B s = Some (v, s')" "spi_live B s'"
proof -
  from assms obtain v s' where w: "spi_wait_rx B s = Some (v, s')"
    unfolding spi_live_def spi_delivers_def by (metis not_None_eq surj_pair)
  then have "line_open B s' = line_open B s"
    unfolding spi_wait_rx_def by (rule poll_keeps) (auto simp: read_reg_def line_open_def Let_def)
  with w assms that show ?thesis by (auto simp: spi_live_def)
qed

lemma spi_live_regs [simp]:
  "spi_live B (write_reg a v s) = spi_live B s"
  "spi_live B (snd (read_reg B a s)) = spi_live B s"
  "spi_live B (store_byte a b s) = spi_live B s"
  by (simp_all add: spi_live_def)

lemma say_live:
  assumes "spi_live B s"
  obtains s' where "say B str s = Some s'" "spi_live B s'"
  using uart.print_uart_total [of B s str] assms that by (auto simp: spi_live_def)

lemma print_addr_live:
  assumes "spi_live B s"
  obtains s' where "print_uart_addr (write_serial B) w s = Some s'" "spi_live B s'"
  using uart.print_hex_total [of B s 8 w] assms that by (auto simp: spi_live_def print_uart_addr_def)

lemma print_byte_live:
  assumes "spi_live B s"
  obtains s' where "print_uart_byte (write_serial B) b s = Some s'" "spi_live B s'"
  using uart.print_byte_total [of B s b] assms that by (auto simp: spi_live_def)

lemma spi_check_fifo_live:
  assumes "spi_live B s"
  obtains s' where "spi_check_fifo B st s = Some s'" "spi_live B s'"
proof (cases "st AND 0x1 \<noteq> 0x1")
  case True
  obtain t where t: "say B (bytes_of ''rx fifo not empty?? '') s = Some t" "spi_live B t"
    using say_live [OF assms] by blast
  then have "spi_live B (snd (read_reg B SPI_STATUS_REG t))" by simp
  then obtain u where u: "print_uart_addr (write_serial B) (ucast (env32 B (hist t) SPI_STATUS_REG))
      (snd (read_reg B SPI_STATUS_REG t)) = Some u" "spi_live B u"
    using print_addr_live by blast
  obtain s' where "say B crlf u = Some s'" "spi_live B s'"
    using say_live [OF u(2)] by blast
  with True t u that show ?thesis
    by (simp add: spi_check_fifo_def Let_def case_prod_unfold)
next
  case False
  with assms that show ?thesis by (simp add: spi_check_fifo_def)
qed

lemma spi_txrx_live:
  assumes "spi_live B s"
  shows "\<exists>r s'. spi_txrx B b s = Some (r, s') \<and> spi_live B s'"
proof -
  have "spi_live B (write_reg SPI_CONTROL_REG 0x106 (write_reg SPI_TRANSMIT_REG (ucast b)
      (write_reg SPI_SLAVE_SELECT_REG 0xfffffffe s)))"
    using assms by simp
  then obtain v t where t: "spi_wait_rx B (write_reg SPI_CONTROL_REG 0x106
      (write_reg SPI_TRANSMIT_REG (ucast b) (write_reg SPI_SLAVE_SELECT_REG 0xfffffffe s))) = Some (v, t)"
      "spi_live B t"
    by (rule spi_wait_rx_live)
  then have "spi_live B (snd (read_reg B SPI_STATUS_REG (snd (read_reg B SPI_RECEIVE_REG t))))"
    by simp
  then obtain u where "spi_check_fifo B (fst (read_reg B SPI_STATUS_REG (snd (read_reg B SPI_RECEIVE_REG t))))
      (snd (read_reg B SPI_STATUS_REG (snd (read_reg B SPI_RECEIVE_REG t)))) = Some u" "spi_live B u"
    by (rule spi_check_fifo_live)
  with t show ?thesis
    by (simp add: spi_txrx_def Let_def case_prod_unfold)
qed

lemma spi_drain_live: "spi_live B s \<Longrightarrow> \<exists>s'. spi_drain B n a s = Some s' \<and> spi_live B s'"
proof (induction n arbitrary: a s)
  case 0
  then show ?case by simp
next
  case (Suc n)
  from Suc.prems obtain v t where t: "spi_wait_rx B s = Some (v, t)" "spi_live B t"
    by (rule spi_wait_rx_live)
  then have "spi_live B (store_byte a (ucast (fst (read_reg B SPI_RECEIVE_REG t)))
      (snd (read_reg B SPI_RECEIVE_REG t)))" by simp
  from Suc.IH [OF this] t(1) show ?case
    by (simp add: Let_def case_prod_unfold)
qed

lemma spi_fill_live [simp]: "spi_live B (spi_fill bs s) = spi_live B s"
  by (induction bs arbitrary: s) (simp_all add: spi_fill_def)

lemma spi_write_bytes_live:
  assumes "spi_live B s" "unat n \<le> length bs"
  shows "\<exists>rc s'. spi_write_bytes B bs n a s = Some (rc, s') \<and> spi_live B s'"
proof (cases "n > 256")
  case True
  with assms show ?thesis by (simp add: spi_write_bytes_def)
next
  case False
  have "spi_live B (write_reg SPI_CONTROL_REG 0x106 (spi_fill (take (unat n) bs)
      (write_reg SPI_SLAVE_SELECT_REG 0xfffffffe s)))"
    using assms by simp
  then obtain v t where t: "spi_wait_rx B (write_reg SPI_CONTROL_REG 0x106 (spi_fill (take (unat n) bs)
      (write_reg SPI_SLAVE_SELECT_REG 0xfffffffe s))) = Some (v, t)" "spi_live B t"
    by (rule spi_wait_rx_live)
  from spi_drain_live [OF t(2)] obtain u where "spi_drain B (unat n) a t = Some u" "spi_live B u"
    by blast
  with t False assms(2) show ?thesis
    by (simp add: spi_write_bytes_def Let_def)
qed

lemma spi_init_live:
  assumes "spi_live B s"
  shows "\<exists>s'. spi_init B s = Some s' \<and> spi_live B s'"
proof -
  have said: "\<exists>s'. Option.bind (say B str s) f = Some s' \<and> spi_live B s'"
    if "spi_live B s" "\<And>s. spi_live B s \<Longrightarrow> \<exists>s'. f s = Some s' \<and> spi_live B s'" for str s f
    using that by (metis say_live bind.bind_lunit)
  have addr: "\<exists>s'. Option.bind (print_uart_addr (write_serial B) w s) f = Some s' \<and> spi_live B s'"
    if "spi_live B s" "\<And>s. spi_live B s \<Longrightarrow> \<exists>s'. f s = Some s' \<and> spi_live B s'" for w s f
    using that by (metis print_addr_live bind.bind_lunit)
  have last: "\<exists>s'. say B str s = Some s' \<and> spi_live B s'" if "spi_live B s" for str s
    using say_live [OF that] by blast
  show ?thesis
    unfolding spi_init_def Let_def case_prod_unfold
    by (intro said addr last) (simp_all add: assms)
qed

section \<open>The interface of the SD driver\<close>

text \<open>The operations \<open>sd.c\<close> calls: those of \<open>spi.c\<close> and the print routines of \<open>uart.c\<close>.\<close>

record spi_ops =
  op_spi_init :: "machine \<Rightarrow> machine option"
  op_txrx :: "u8 \<Rightarrow> machine \<Rightarrow> (u8 \<times> machine) option"
  op_write_bytes :: "u8 list \<Rightarrow> u32 \<Rightarrow> u64 \<Rightarrow> machine \<Rightarrow> (int \<times> machine) option"
  op_print :: "u8 list \<Rightarrow> machine \<Rightarrow> machine option"
  op_print_byte :: "u8 \<Rightarrow> machine \<Rightarrow> machine option"

definition xilinx_spi :: "board \<Rightarrow> spi_ops" where
  "xilinx_spi B = \<lparr>op_spi_init = spi_init B, op_txrx = spi_txrx B,
     op_write_bytes = spi_write_bytes B, op_print = say B,
     op_print_byte = print_uart_byte (write_serial B)\<rparr>"

text \<open>
  \<open>sent\<close> and \<open>received\<close> are the two directions of the wire, \<open>live\<close> the states in
  which every transfer ends.  Printing is not seen by the card.
\<close>

locale spi_link =
  fixes L :: spi_ops
    and sent :: "machine \<Rightarrow> u8 list"
    and received :: "machine \<Rightarrow> u8 list"
    and live :: "machine \<Rightarrow> bool"
  assumes txrx_view: "op_txrx L b s = Some (r, s') \<Longrightarrow>
      sent s' = sent s @ [b] \<and> received s' = received s @ [r] \<and> ram s' = ram s"
    and txrx_live: "live s \<Longrightarrow> \<exists>r s'. op_txrx L b s = Some (r, s') \<and> live s'"
    and burst_view: "op_write_bytes L bs n a s = Some (rc, s') \<Longrightarrow> n \<le> 256 \<Longrightarrow>
      rc = 0 \<and> unat n \<le> length bs \<and> sent s' = sent s @ take (unat n) bs \<and>
      (\<exists>rs. length rs = unat n \<and> received s' = received s @ rs \<and> ram s' = put_bytes a rs (ram s))"
    and burst_live: "live s \<Longrightarrow> unat n \<le> length bs \<Longrightarrow>
      \<exists>rc s'. op_write_bytes L bs n a s = Some (rc, s') \<and> live s'"
    and print_view: "op_print L str s = Some s' \<Longrightarrow>
      sent s' = sent s \<and> received s' = received s \<and> ram s' = ram s"
    and print_live: "live s \<Longrightarrow> \<exists>s'. op_print L str s = Some s' \<and> live s'"
    and print_byte_view: "op_print_byte L b s = Some s' \<Longrightarrow>
      sent s' = sent s \<and> received s' = received s \<and> ram s' = ram s"
    and print_byte_live: "live s \<Longrightarrow> \<exists>s'. op_print_byte L b s = Some s' \<and> live s'"
    and init_view: "op_spi_init L s = Some s' \<Longrightarrow>
      sent s' = sent s \<and> received s' = received s \<and> ram s' = ram s"
    and init_live: "live s \<Longrightarrow> \<exists>s'. op_spi_init L s = Some s' \<and> live s'"

interpretation xspi: spi_link "xilinx_spi B" "\<lambda>s. mosi (hist s)" "\<lambda>s. miso (hist s)" "spi_live B"
  for B
proof unfold_locales
  show "mosi (hist s') = mosi (hist s) @ [b] \<and> miso (hist s') = miso (hist s) @ [r] \<and> ram s' = ram s"
    if "op_txrx (xilinx_spi B) b s = Some (r, s')" for b s r s'
    using spi_txrx_view [of B b s r s'] that by (simp add: xilinx_spi_def)
  show "\<exists>r s'. op_txrx (xilinx_spi B) b s = Some (r, s') \<and> spi_live B s'" if "spi_live B s" for b s
    using spi_txrx_live [OF that] by (simp add: xilinx_spi_def)
  show "rc = 0 \<and> unat n \<le> length bs \<and> mosi (hist s') = mosi (hist s) @ take (unat n) bs \<and>
      (\<exists>rs. length rs = unat n \<and> miso (hist s') = miso (hist s) @ rs \<and> ram s' = put_bytes a rs (ram s))"
    if "op_write_bytes (xilinx_spi B) bs n a s = Some (rc, s')" "n \<le> 256" for bs n a s rc s'
    using spi_write_bytes_view(1) [of B bs n a s rc s'] that by (auto simp: xilinx_spi_def)
  show "\<exists>rc s'. op_write_bytes (xilinx_spi B) bs n a s = Some (rc, s') \<and> spi_live B s'"
    if "spi_live B s" "unat n \<le> length bs" for bs n a s
    using spi_write_bytes_live [OF that] by (simp add: xilinx_spi_def)
  show "mosi (hist s') = mosi (hist s) \<and> miso (hist s') = miso (hist s) \<and> ram s' = ram s"
    if "op_print (xilinx_spi B) str s = Some s'" for str s s'
    using that spi_viewD [OF say_spi_view [of B str s s']] by (simp add: xilinx_spi_def)
  show "\<exists>s'. op_print (xilinx_spi B) str s = Some s' \<and> spi_live B s'" if "spi_live B s" for str s
    using say_live [OF that] by (auto simp: xilinx_spi_def)
  show "mosi (hist s') = mosi (hist s) \<and> miso (hist s') = miso (hist s) \<and> ram s' = ram s"
    if "op_print_byte (xilinx_spi B) b s = Some s'" for b s s'
    using that spi_viewD [OF print_byte_spi_view [of B b s s']] by (simp add: xilinx_spi_def)
  show "\<exists>s'. op_print_byte (xilinx_spi B) b s = Some s' \<and> spi_live B s'" if "spi_live B s" for b s
    using print_byte_live [OF that] by (auto simp: xilinx_spi_def)
  show "mosi (hist s') = mosi (hist s) \<and> miso (hist s') = miso (hist s) \<and> ram s' = ram s"
    if "op_spi_init (xilinx_spi B) s = Some s'" for s s'
    using that spi_init_view [of B s s'] by (simp add: xilinx_spi_def)
  show "\<exists>s'. op_spi_init (xilinx_spi B) s = Some s' \<and> spi_live B s'" if "spi_live B s" for s
    using spi_init_live [OF that] by (simp add: xilinx_spi_def)
qed

section \<open>Properties of the SPI driver\<close>

lemma spi_deliversI:
  assumes "\<And>h. env32 B h SPI_STATUS_REG AND 0x1 \<noteq> 0x1"
  shows "spi_delivers B"
  using assms by (simp add: spi_delivers_def spi_wait_rx_def read_reg_def Let_def
      poll.simps [where ok = "\<lambda>v. v AND 0x1 \<noteq> 0x1"])

lemma quiet_spi_live: "w AND 0x1 \<noteq> 0x1 \<Longrightarrow> spi_live (quiet_board 0x20 w) reset_machine"
  unfolding spi_live_def using quiet_line_open
  by (auto intro!: spi_deliversI simp: quiet_board_def)

text \<open>One byte each way: on a live link \<open>spi_txrx\<close> returns; the card has got exactly the byte sent,
  the result is the byte it answered, memory is untouched, and the core is left deselected with its
  transmitter stopped, every byte having been sent while the card was selected.\<close>

theorem spi_txrx_exchanges:
  assumes "spi_live B s" and "selected_tx (hist s)"
  shows "\<exists>r s'. spi_txrx B b s = Some (r, s') \<and> mosi (hist s') = mosi (hist s) @ [b]
      \<and> miso (hist s') = miso (hist s) @ [r] \<and> ram s' = ram s \<and> spi_idle (hist s')"
  using spi_txrx_live [OF assms(1), of b] spi_txrx_view [of B b s] assms(2) by metis

theorem spi_txrx_exchanges_witness:
  "\<exists>r s'. spi_txrx (quiet_board 0x20 0x42) 0xA5 reset_machine = Some (r, s')
      \<and> mosi (hist s') = [0xA5] \<and> miso (hist s') = [r] \<and> spi_idle (hist s')"
  using spi_txrx_exchanges [OF quiet_spi_live [of "0x42"], of "0xA5"]
  by (auto simp: reset_machine_def)

text \<open>A burst of at most 256 bytes on a live link returns 0; the \<open>len\<close> bytes sent are those of the
  buffer in order, exactly the bytes answered by the card are stored at \<open>ret\<close>, nothing else in
  memory changes, and the core is left idle.  A longer burst is refused with -1 and does nothing.\<close>

theorem spi_write_bytes_bursts:
  assumes "spi_live B s" and "selected_tx (hist s)" and "unat len \<le> length bytes"
  shows "if len > 256 then spi_write_bytes B bytes len ret s = Some (-1, s)
    else \<exists>s' rs. spi_write_bytes B bytes len ret s = Some (0, s')
      \<and> mosi (hist s') = mosi (hist s) @ take (unat len) bytes
      \<and> miso (hist s') = miso (hist s) @ rs \<and> length rs = unat len
      \<and> get_bytes ret (unat len) (ram s') = rs
      \<and> (\<forall>x. (\<forall>i<unat len. x \<noteq> ret + of_nat i) \<longrightarrow> ram s' x = ram s x)
      \<and> spi_idle (hist s')"
proof (cases "len > 256")
  case True
  then show ?thesis by (simp add: spi_write_bytes_def)
next
  case False
  from spi_write_bytes_live [OF assms(1,3)] obtain rc s' where
    ret: "spi_write_bytes B bytes len ret s = Some (rc, s')" by blast
  from False have "len \<le> 256" by simp
  from spi_write_bytes_view [OF ret this] assms(2) obtain rs where
    rs: "rc = 0" "length rs = unat len" "mosi (hist s') = mosi (hist s) @ take (unat len) bytes"
      "miso (hist s') = miso (hist s) @ rs" "ram s' = put_bytes ret rs (ram s)" "spi_idle (hist s')"
    by blast
  have "length rs \<le> 2 ^ 64"
    using unsigned_less [of len, where 'a = nat] rs(2) by simp
  with rs have "get_bytes ret (unat len) (ram s') = rs"
    using get_put_bytes [of rs ret "ram s"] by simp
  with ret rs False show ?thesis
    by (auto simp: put_bytes_other)
qed

theorem spi_write_bytes_bursts_witness:
  "\<exists>s' rs. spi_write_bytes (quiet_board 0x20 0x42) [1, 2, 3] 3 0x80000000 reset_machine = Some (0, s')
      \<and> mosi (hist s') = [1, 2, 3] \<and> get_bytes 0x80000000 3 (ram s') = rs \<and> length rs = 3"
  using spi_write_bytes_bursts [where B = "quiet_board 0x20 0x42" and s = reset_machine and len = 3 and bytes = "[1, 2, 3]" and ret = "0x80000000"]
    quiet_spi_live [of "0x42"]
  by (auto simp: reset_machine_def)

end
