(* ===== verification/Sd.thy ===== *)
theory Sd
  imports Spi
begin

text \<open>
  The SD card driver in SPI mode, \<open>sd.c\<close> of the FPGA boot ROM: command frames,
  the initialisation sequence, the two checksums and the multi-block read.  All
  traffic goes through the operations of an \<open>spi_ops\<close> record, and the lemmas are
  proved in the locale \<open>spi_link\<close>; at the end they are read off for the Xilinx
  core by the interpretation \<open>xspi\<close>.
\<close>

section \<open>Commands\<close>

definition sd_dummy :: "spi_ops \<Rightarrow> machine \<Rightarrow> (u8 \<times> machine) option" where
  "sd_dummy L s = op_txrx L 0xFF s"

text \<open>The \<open>do ... while (--n > 0)\<close> loop that waits for a response byte without bit 7.\<close>

fun sd_response :: "spi_ops \<Rightarrow> nat \<Rightarrow> machine \<Rightarrow> (u8 \<times> machine) option" where
  "sd_response L n s = do {
     (r, s) \<leftarrow> sd_dummy L s;
     if r AND 0x80 = 0 then Some (r, s)
     else if n - 1 > 0 then sd_response L (n - 1) s
     else Some (r, s)
   }"

declare sd_response.simps [simp del]

definition sd_cmd :: "spi_ops \<Rightarrow> u8 \<Rightarrow> u32 \<Rightarrow> u8 \<Rightarrow> machine \<Rightarrow> (u8 \<times> machine) option" where
  "sd_cmd L cmd arg crc s = do {
     (_, s) \<leftarrow> sd_dummy L s;
     (_, s) \<leftarrow> op_txrx L (0x40 OR cmd) s;
     (_, s) \<leftarrow> op_txrx L (ucast (drop_bit 24 arg)) s;
     (_, s) \<leftarrow> op_txrx L (ucast (drop_bit 16 arg)) s;
     (_, s) \<leftarrow> op_txrx L (ucast (drop_bit 8 arg)) s;
     (_, s) \<leftarrow> op_txrx L (ucast arg) s;
     (_, s) \<leftarrow> op_txrx L crc s;
     sd_response L 100 s
   }"

definition print_status :: "spi_ops \<Rightarrow> u8 list \<Rightarrow> u8 \<Rightarrow> machine \<Rightarrow> machine option" where
  "print_status L cmd response s = do {
     s \<leftarrow> op_print L (bytes_of ''SD command '') s;
     s \<leftarrow> op_print L cmd s;
     s \<leftarrow> op_print L (bytes_of '' '' @ [9] @ bytes_of ''response : '') s;
     s \<leftarrow> op_print_byte L response s;
     op_print L crlf s
   }"

text \<open>\<open>sd_cmd0\<close>: \<open>counter\<close> starts at 10000; running out of it returns \<open>1 == 0\<close>.\<close>

fun sd_cmd0_loop :: "spi_ops \<Rightarrow> nat \<Rightarrow> u8 \<Rightarrow> machine \<Rightarrow> (int \<times> machine) option" where
  "sd_cmd0_loop L counter r s =
     (if r \<noteq> 0x1 then do {
        (r, s) \<leftarrow> sd_cmd L 0 0 0x95 s;
        (_, s) \<leftarrow> sd_dummy L s;
        if counter - 1 \<le> 0 then Some (0, s) else sd_cmd0_loop L (counter - 1) r s
      } else do {
        s \<leftarrow> print_status L (bytes_of ''cmd0'') r s;
        Some (of_bool (r = 0x1), s)
      })"

declare sd_cmd0_loop.simps [simp del]

definition sd_cmd0 :: "spi_ops \<Rightarrow> machine \<Rightarrow> (int \<times> machine) option" where
  "sd_cmd0 L s = sd_cmd0_loop L 10000 0xff s"

definition sd_cmd8 :: "spi_ops \<Rightarrow> machine \<Rightarrow> (int \<times> machine) option" where
  "sd_cmd8 L s = do {
     (r1, s) \<leftarrow> sd_cmd L 8 0x1aa 0x87 s;
     (_, s) \<leftarrow> sd_dummy L s;
     (_, s) \<leftarrow> sd_dummy L s;
     (r4, s) \<leftarrow> sd_dummy L s;
     (r5, s) \<leftarrow> sd_dummy L s;
     (_, s) \<leftarrow> sd_dummy L s;
     (_, s) \<leftarrow> sd_dummy L s;
     Some (of_bool (r1 = 0x1 \<and> r4 AND 0xf = 0x1 \<and> r5 = 0xaa), s)
   }"

definition sd_cmd55 :: "spi_ops \<Rightarrow> machine \<Rightarrow> (int \<times> machine) option" where
  "sd_cmd55 L s = do {
     (r, s) \<leftarrow> sd_cmd L 55 0x0 0x65 s;
     (_, s) \<leftarrow> sd_dummy L s;
     s \<leftarrow> print_status L (bytes_of ''cmd55'') r s;
     Some (of_bool (r = 0x1), s)
   }"

text \<open>One pass of the \<open>do ... while (r == 0x1)\<close> loop of \<open>sd_acmd41\<close>; a card that
  stays in the idle state keeps the loop running for ever.\<close>

definition sd_acmd41_pass :: "spi_ops \<Rightarrow> machine \<Rightarrow> (u8 \<times> machine) option" where
  "sd_acmd41_pass L s = do {
     (_, s) \<leftarrow> sd_cmd55 L s;
     (r, s) \<leftarrow> sd_cmd L 41 0x40000000 0x77 s;
     s \<leftarrow> print_status L (bytes_of ''cmd41'') r s;
     (_, s) \<leftarrow> sd_dummy L s;
     Some (r, s)
   }"

definition sd_acmd41 :: "spi_ops \<Rightarrow> machine \<Rightarrow> (int \<times> machine) option" where
  "sd_acmd41 L s = do {
     (r, s) \<leftarrow> poll (sd_acmd41_pass L) (\<lambda>r. r \<noteq> 0x1) s;
     Some (of_bool (r = 0x00), s)
   }"

primrec sd_dummies :: "spi_ops \<Rightarrow> nat \<Rightarrow> machine \<Rightarrow> machine option" where
  "sd_dummies L 0 s = Some s"
| "sd_dummies L (Suc n) s = do { (_, s) \<leftarrow> sd_dummy L s; sd_dummies L n s }"

definition init_sd :: "spi_ops \<Rightarrow> machine \<Rightarrow> (int \<times> machine) option" where
  "init_sd L s = do {
     s \<leftarrow> op_spi_init L s;
     s \<leftarrow> op_print L (bytes_of ''initializing SD... '' @ crlf) s;
     s \<leftarrow> sd_dummies L 10 s;
     (ok, s) \<leftarrow> sd_cmd0 L s;
     if ok = 0 then Some (-1, s) else do {
     (ok, s) \<leftarrow> sd_cmd8 L s;
     if ok = 0 then Some (-2, s) else do {
     (ok, s) \<leftarrow> sd_acmd41 L s;
     if ok = 0 then Some (-3, s) else Some (0, s) }}
   }"

section \<open>Checksums\<close>

definition crc7 :: "u8 \<Rightarrow> u8 \<Rightarrow> u8" where
  "crc7 prev input =
     (let remainder = prev AND input;
          remainder = remainder XOR (drop_bit 4 remainder XOR drop_bit 7 remainder);
          remainder = remainder XOR push_bit 4 remainder
      in remainder AND 0x7f)"

definition crc16 :: "u16 \<Rightarrow> u8 \<Rightarrow> u16" where
  "crc16 crc data =
     (let crc = ucast (ucast (drop_bit 8 crc) :: u8) OR push_bit 8 crc;
          crc = crc XOR ucast data;
          crc = crc XOR (ucast (ucast (drop_bit 4 crc) :: u8) AND 0xf);
          crc = crc XOR push_bit 12 crc;
          crc = crc XOR push_bit 5 (crc AND 0xff)
      in crc)"

section \<open>Reading blocks\<close>

text \<open>The inner loop: \<open>n\<close> bytes of the block are left, 64 at a time, and the checksum is
  taken over the bytes read back from memory.  \<open>ff\<close> is the local array of 0xff bytes.\<close>

definition sd_ff :: "u8 list" where "sd_ff = replicate 128 0xff"

fun sd_block_bytes :: "spi_ops \<Rightarrow> nat \<Rightarrow> u16 \<Rightarrow> u64 \<Rightarrow> machine \<Rightarrow> (u16 \<times> u64 \<times> machine) option" where
  "sd_block_bytes L n crc p s = do {
     (_, s) \<leftarrow> op_write_bytes L sd_ff 64 p s;
     let crc = fold (\<lambda>b crc. crc16 crc b) (get_bytes p 64 (ram s)) crc;
     if n - 64 > 0 then sd_block_bytes L (n - 64) crc (p + 64) s else Some (crc, p + 64, s)
   }"

declare sd_block_bytes.simps [simp del]

text \<open>One block: data token, 512 bytes, the two checksum bytes.\<close>

definition sd_wait_token :: "spi_ops \<Rightarrow> machine \<Rightarrow> (u8 \<times> machine) option" where
  "sd_wait_token L s = poll (sd_dummy L) (\<lambda>v. v = 0xfe) s"

definition sd_read_block :: "spi_ops \<Rightarrow> u64 \<Rightarrow> machine \<Rightarrow> (bool \<times> u64 \<times> machine) option" where
  "sd_read_block L p s = do {
     (_, s) \<leftarrow> sd_wait_token L s;
     (crc, p, s) \<leftarrow> sd_block_bytes L 512 0 p s;
     (hi, s) \<leftarrow> sd_dummy L s;
     (lo, s) \<leftarrow> sd_dummy L s;
     let crc_exp = push_bit 8 (ucast hi) OR ucast lo;
     Some (crc = crc_exp, p, s)
   }"

text \<open>The outer loop with counter \<open>i\<close>; \<open>long\<close> holds any \<open>uint32_t\<close>, and a counter of 0
  leaves the loop after one pass just as 1 does, since \<open>--i > 0\<close> is then false.\<close>

fun sd_read_blocks :: "spi_ops \<Rightarrow> nat \<Rightarrow> u64 \<Rightarrow> machine \<Rightarrow> (int \<times> machine) option" where
  "sd_read_blocks L i p s = do {
     (ok, p, s) \<leftarrow> sd_read_block L p s;
     if \<not> ok then Some (-2, s) else do {
       s \<leftarrow> (if i mod 1000 = 0 then op_print L (bytes_of ''.'') s else Some s);
       if i - 1 > 0 then sd_read_blocks L (i - 1) p s else Some (0, s)
     }
   }"

declare sd_read_blocks.simps [simp del]

definition sd_read_crc :: "u32 \<Rightarrow> u8" where
  "sd_read_crc src_lba =
     (let crc = crc7 0 (0x40 OR 18);
          crc = crc7 crc (ucast (drop_bit 24 src_lba AND 0xff));
          crc = crc7 crc (ucast (drop_bit 16 src_lba AND 0xff));
          crc = crc7 crc (ucast (drop_bit 8 src_lba AND 0xff));
          crc = crc7 crc (ucast (src_lba AND 0xff))
      in push_bit 1 crc OR 1)"

definition sd_copy :: "spi_ops \<Rightarrow> u64 \<Rightarrow> u32 \<Rightarrow> u32 \<Rightarrow> machine \<Rightarrow> (int \<times> machine) option" where
  "sd_copy L dst src_lba sz s = do {
     (r, s) \<leftarrow> sd_cmd L 18 src_lba (sd_read_crc src_lba) s;
     if r \<noteq> 0x00 then do {
       s \<leftarrow> sd_dummies L 8 s;
       s \<leftarrow> op_print L (bytes_of ''could not read SD block'' @ crlf) s;
       Some (-1, s)
     } else do {
       (rc, s) \<leftarrow> sd_read_blocks L (unat sz) dst s;
       (_, s) \<leftarrow> sd_cmd L 12 0 0x01 s;
       (_, s) \<leftarrow> sd_dummy L s;
       Some (rc, s)
     }
   }"

section \<open>The checksums against their definitions\<close>

text \<open>CRC-16-CCITT, one bit at a time: the polynomial 0x11021 the comment names.\<close>

definition ccitt_bit :: "u16 \<Rightarrow> u16" where
  "ccitt_bit crc = push_bit 1 crc XOR (if bit crc 15 then 0x1021 else 0)"

definition ccitt_byte :: "u16 \<Rightarrow> u8 \<Rightarrow> u16" where
  "ccitt_byte crc data = (ccitt_bit ^^ 8) (crc XOR push_bit 8 (ucast data))"

lemma bit_1021: "bit (0x1021 :: u16) i \<longleftrightarrow> i = 0 \<or> i = 5 \<or> i = 12"
proof (cases "i < 16")
  case True
  then have "i \<in> set [0..<16]" by simp
  moreover have "\<forall>i \<in> set [0..<16]. bit (0x1021 :: u16) i = (i = 0 \<or> i = 5 \<or> i = 12)"
    by (simp add: upt_rec)
  ultimately show ?thesis by blast
qed (auto dest: bit_imp_le_length)

lemma bit_ccitt_bit:
  "bit (ccitt_bit w) i \<longleftrightarrow>
     i < 16 \<and> ((0 < i \<and> bit w (i - 1)) \<noteq> (bit w 15 \<and> (i = 0 \<or> i = 5 \<or> i = 12)))"
proof -
  have "bit (if bit w 15 then 0x1021 else 0 :: u16) i \<longleftrightarrow> bit w 15 \<and> (i = 0 \<or> i = 5 \<or> i = 12)"
    by (simp only: bit_1021 split: if_split) simp
  then show ?thesis
    unfolding ccitt_bit_def bit_xor_iff bit_push_bit_iff
    by (auto simp: Suc_le_eq)
qed

lemma crc16_bits: "bit (crc16 c d) i = bit (ccitt_byte c d) i" if "i \<in> set [0..<16]"
proof -
  define x where "x = c XOR push_bit 8 (ucast d)"
  have x: "bit x j \<longleftrightarrow> (bit c j \<noteq> (8 \<le> j \<and> j < 16 \<and> bit d (j - 8)))" for j
    unfolding x_def bit_xor_iff bit_push_bit_iff by (auto simp: bit_simps)
  have high: "\<not> bit d (Suc (Suc (Suc (Suc (Suc (Suc (Suc (Suc j))))))))" for j
    by (auto dest: bit_imp_le_length)
  have "\<forall>i\<in>set [0..<16]. bit (crc16 c d) i = bit ((ccitt_bit ^^ 8) x) i"
    unfolding crc16_def Let_def bit_xor_iff bit_push_bit_iff bit_and_iff bit_or_iff
      bit_unsigned_iff bit_drop_bit_eq comp_def
    by (simp add: upt_rec bit_ccitt_bit x high numeral_eq_Suc) argo
  with that show ?thesis
    unfolding ccitt_byte_def x_def by blast
qed

text \<open>The mask-and-fold of \<open>crc7\<close> collapses: whatever the inputs, the checksum of a read
  command is the constant 1, the value a card with CRC checking switched off ignores.\<close>

lemma crc7_0 [simp]: "crc7 0 b = 0"
  by (simp add: crc7_def)

lemma sd_read_crc_1: "sd_read_crc lba = 1"
  by (simp add: sd_read_crc_def)

section \<open>The traffic of each operation\<close>

text \<open>The six bytes of a command, after the 0xff that precedes it.\<close>

definition cmd_frame :: "u8 \<Rightarrow> u32 \<Rightarrow> u8 \<Rightarrow> u8 list" where
  "cmd_frame cmd arg crc = [0xFF, 0x40 OR cmd] @ rev (le_enc 4 arg) @ [crc]"

lemma cmd_frame_bytes:
  "cmd_frame cmd arg crc = [0xFF, 0x40 OR cmd, ucast (drop_bit 24 arg), ucast (drop_bit 16 arg),
     ucast (drop_bit 8 arg), ucast arg, crc]"
  by (simp add: cmd_frame_def le_enc_def upt_rec)

text \<open>A block as it comes over the wire, and whether its checksum is right.\<close>

definition crc16_of :: "u8 list \<Rightarrow> u16" where
  "crc16_of bs = fold (\<lambda>b crc. crc16 crc b) bs 0"

definition block_frame :: "bool \<Rightarrow> u8 list \<Rightarrow> u8 list \<Rightarrow> bool" where
  "block_frame ok b st \<longleftrightarrow> (\<exists>fs hi lo. 0xfe \<notin> set fs \<and> length b = 512
     \<and> st = fs @ [0xfe] @ b @ [hi, lo] \<and> ok = (crc16_of b = push_bit 8 (ucast hi) OR ucast lo))"

text \<open>A run of blocks, all with the right checksum.\<close>

inductive good_blocks :: "u8 list list \<Rightarrow> u8 list \<Rightarrow> bool" where
  none: "good_blocks [] []"
| block: "block_frame True b st \<Longrightarrow> good_blocks bs sts \<Longrightarrow> good_blocks (b # bs) (st @ sts)"

inductive_cases good_blocks_ConsE: "good_blocks (b # bs) st"

text \<open>The outcome of reading \<open>n\<close> blocks: \<open>data\<close> is what is stored, \<open>st\<close> what the card sent.
  With 0 all blocks were good; with -2 the last block stored is the first bad one.\<close>

definition read_outcome :: "int \<Rightarrow> nat \<Rightarrow> u8 list \<Rightarrow> u8 list \<Rightarrow> bool" where
  "read_outcome rc n data st \<longleftrightarrow> (\<exists>bs sts. good_blocks bs sts \<and>
     (rc = 0 \<and> length bs = n \<and> data = concat bs \<and> st = sts
      \<or> rc = -2 \<and> length bs < n \<and>
          (\<exists>b st'. block_frame False b st' \<and> data = concat bs @ b \<and> st = sts @ st')))"

lemma good_blocks_length: "good_blocks bs st \<Longrightarrow> length (concat bs) = 512 * length bs"
  by (induction rule: good_blocks.induct) (auto simp: block_frame_def)

lemma read_outcome_length: "read_outcome rc n data st \<Longrightarrow> length data \<le> 512 * n"
  by (auto simp: read_outcome_def block_frame_def dest!: good_blocks_length)

lemma read_outcome_Cons:
  assumes "block_frame True b st" "read_outcome rc n data sts"
  shows "read_outcome rc (Suc n) (b @ data) (st @ sts)"
proof -
  from assms(2) obtain bs ss where good: "good_blocks bs ss" and
    "rc = 0 \<and> length bs = n \<and> data = concat bs \<and> sts = ss
      \<or> rc = -2 \<and> length bs < n \<and> (\<exists>b' st'. block_frame False b' st' \<and> data = concat bs @ b' \<and> sts = ss @ st')"
    unfolding read_outcome_def by blast
  with good_blocks.block [OF assms(1) good] show ?thesis
    unfolding read_outcome_def by (intro exI [of _ "b # bs"] exI [of _ "st @ ss"]) auto
qed

lemma read_outcome_one:
  assumes "block_frame ok b st" "0 < n" "ok \<Longrightarrow> n = 1"
  shows "read_outcome (if ok then 0 else -2) n b st"
proof (cases ok)
  case True
  with assms have "good_blocks [b] st"
    using good_blocks.block [of b st "[]" "[]"] good_blocks.none by simp
  with True assms show ?thesis
    unfolding read_outcome_def by (intro exI [of _ "[b]"] exI [of _ st]) simp
next
  case False
  with assms show ?thesis
    unfolding read_outcome_def
    by (intro exI [of _ "[]"]) (auto intro: good_blocks.none)
qed

text \<open>Some traffic, and memory as before.\<close>

definition grows :: "(machine \<Rightarrow> u8 list) \<Rightarrow> (machine \<Rightarrow> u8 list) \<Rightarrow> machine \<Rightarrow> machine \<Rightarrow> bool" where
  "grows tx_of rx_of s s' \<longleftrightarrow>
     (\<exists>tx. tx_of s' = tx_of s @ tx) \<and> (\<exists>rx. rx_of s' = rx_of s @ rx) \<and> ram s' = ram s"

lemma reflp_grows: "reflp (grows f g)"
  by (simp add: reflp_def grows_def)

lemma transp_grows: "transp (grows f g)"
  by (auto simp: transp_def grows_def)

lemma growsI:
  "tx_of s' = tx_of s @ tx \<Longrightarrow> rx_of s' = rx_of s @ rx \<Longrightarrow> ram s' = ram s \<Longrightarrow> grows tx_of rx_of s s'"
  by (auto simp: grows_def)

lemmas grows_compose = moves_seq [OF transp_grows] moves_end [OF reflp_grows] moves_if

context spi_link
begin

lemma dummy_view:
  "sd_dummy L s = Some (r, s') \<Longrightarrow>
     sent s' = sent s @ [0xff] \<and> received s' = received s @ [r] \<and> ram s' = ram s"
  unfolding sd_dummy_def by (rule txrx_view)

lemma dummy_live: "live s \<Longrightarrow> \<exists>r s'. sd_dummy L s = Some (r, s') \<and> live s'"
  unfolding sd_dummy_def by (rule txrx_live)

lemma response_view:
  assumes "sd_response L n s = Some (r, s')"
  shows "\<exists>rs. length rs < max 1 n \<and> (\<forall>x\<in>set rs. x AND 0x80 \<noteq> 0)
    \<and> sent s' = sent s @ replicate (Suc (length rs)) 0xff
    \<and> received s' = received s @ rs @ [r] \<and> ram s' = ram s
    \<and> (r AND 0x80 \<noteq> 0 \<longrightarrow> Suc (length rs) = max 1 n)"
  using assms
proof (induction n arbitrary: s rule: less_induct)
  case (less n)
  from less.prems obtain v t where v: "sd_dummy L s = Some (v, t)"
    and rest: "(if v AND 0x80 = 0 then Some (v, t)
      else if n - 1 > 0 then sd_response L (n - 1) t else Some (v, t)) = Some (r, s')"
    by (subst (asm) sd_response.simps) (auto elim!: bind_pair_SomeE)
  note step = dummy_view [OF v]
  show ?case
  proof (cases "v AND 0x80 \<noteq> 0 \<and> n - 1 > 0")
    case True
    with rest have "sd_response L (n - 1) t = Some (r, s')" by simp
    from less.IH [OF _ this] True obtain rs where rs: "length rs < n - 1"
      "\<forall>x\<in>set rs. x AND 0x80 \<noteq> 0" "sent s' = sent t @ replicate (Suc (length rs)) 0xff"
      "received s' = received t @ rs @ [r]" "ram s' = ram t"
      "r AND 0x80 \<noteq> 0 \<longrightarrow> Suc (length rs) = n - 1"
      by (auto simp: max_def split: if_splits)
    with step True show ?thesis
      by (intro exI [of _ "v # rs"]) auto
  next
    case False
    with rest have "r = v" "s' = t" by (auto split: if_splits)
    with step False show ?thesis
      by (intro exI [of _ "[]"]) auto
  qed
qed

lemma response_live: "live s \<Longrightarrow> \<exists>r s'. sd_response L n s = Some (r, s') \<and> live s'"
proof (induction n arbitrary: s rule: less_induct)
  case (less n)
  from dummy_live [OF less.prems] obtain v t where "sd_dummy L s = Some (v, t)" "live t"
    by blast
  then show ?case
    using less.IH [of "n - 1" t] by (subst sd_response.simps) auto
qed

text \<open>A command is its frame and then dummies until the first response byte, at most 100 of them.\<close>

lemma cmd_view:
  assumes "sd_cmd L cmd arg crc s = Some (r, s')"
  shows "\<exists>n \<le> 100. sent s' = sent s @ cmd_frame cmd arg crc @ replicate n 0xff"
    and "\<exists>is rs. length is = 7 \<and> length rs < 100 \<and> (\<forall>x\<in>set rs. x AND 0x80 \<noteq> 0)
      \<and> received s' = received s @ is @ rs @ [r] \<and> (r AND 0x80 \<noteq> 0 \<longrightarrow> length rs = 99)"
    and "ram s' = ram s"
proof -
  from assms obtain i0 i1 i2 i3 i4 i5 i6 s0 s1 s2 s3 s4 s5 s6 where
    steps: "sd_dummy L s = Some (i0, s0)" "op_txrx L (0x40 OR cmd) s0 = Some (i1, s1)"
    "op_txrx L (ucast (drop_bit 24 arg)) s1 = Some (i2, s2)"
    "op_txrx L (ucast (drop_bit 16 arg)) s2 = Some (i3, s3)"
    "op_txrx L (ucast (drop_bit 8 arg)) s3 = Some (i4, s4)"
    "op_txrx L (ucast arg) s4 = Some (i5, s5)" "op_txrx L crc s5 = Some (i6, s6)"
    and resp: "sd_response L 100 s6 = Some (r, s')"
    unfolding sd_cmd_def by (auto elim!: bind_pair_SomeE)
  note v = dummy_view [OF steps(1)] steps(2-) [THEN txrx_view]
  from response_view [OF resp] obtain rs where rs: "length rs < 100" "\<forall>x\<in>set rs. x AND 0x80 \<noteq> 0"
    "sent s' = sent s6 @ replicate (Suc (length rs)) 0xff" "received s' = received s6 @ rs @ [r]"
    "ram s' = ram s6" "r AND 0x80 \<noteq> 0 \<longrightarrow> Suc (length rs) = 100"
    by auto
  from v rs show "\<exists>n \<le> 100. sent s' = sent s @ cmd_frame cmd arg crc @ replicate n 0xff"
    by (intro exI [of _ "Suc (length rs)"]) (auto simp: cmd_frame_bytes)
  from v rs show "\<exists>is rs. length is = 7 \<and> length rs < 100 \<and> (\<forall>x\<in>set rs. x AND 0x80 \<noteq> 0)
      \<and> received s' = received s @ is @ rs @ [r] \<and> (r AND 0x80 \<noteq> 0 \<longrightarrow> length rs = 99)"
    by (intro exI [of _ "[i0, i1, i2, i3, i4, i5, i6]"] exI [of _ rs]) auto
  from v rs show "ram s' = ram s" by simp
qed

lemma cmd_live: "live s \<Longrightarrow> \<exists>r s'. sd_cmd L cmd arg crc s = Some (r, s') \<and> live s'"
proof -
  have chain: "\<exists>r s'. Option.bind (op_txrx L b s) (\<lambda>(_, s). f s) = Some (r, s') \<and> live s'"
    if "live s" "\<And>s. live s \<Longrightarrow> \<exists>r s'. f s = Some (r, s') \<and> live s'" for b s f
    using txrx_live [OF that(1), of b] that(2) by auto
  assume "live s"
  then show ?thesis
    unfolding sd_cmd_def sd_dummy_def
    by (intro chain response_live)
qed

lemma dummies_view:
  assumes "sd_dummies L n s = Some s'"
  shows "sent s' = sent s @ replicate n 0xff \<and> ram s' = ram s
    \<and> (\<exists>rs. length rs = n \<and> received s' = received s @ rs)"
  using assms
proof (induction n arbitrary: s)
  case 0
  then show ?case by simp
next
  case (Suc n)
  from Suc.prems obtain r t where "sd_dummy L s = Some (r, t)" "sd_dummies L n t = Some s'"
    by (auto elim!: bind_pair_SomeE)
  with dummy_view [OF this(1)] Suc.IH [OF this(2)] show ?case
    by (auto simp: replicate_app_Cons_same intro: exI [of _ "r # _"])
qed

lemma dummies_live: "live s \<Longrightarrow> \<exists>s'. sd_dummies L n s = Some s' \<and> live s'"
proof (induction n arbitrary: s)
  case (Suc n)
  from dummy_live [OF Suc.prems] obtain r t where "sd_dummy L s = Some (r, t)" "live t" by blast
  with Suc.IH [of t] show ?case by simp
qed simp

text \<open>Waiting for the data token reads other bytes and then 0xfe.\<close>

lemma token_view:
  assumes "sd_wait_token L s = Some (v, s')"
  shows "v = 0xfe \<and> ram s' = ram s \<and> (\<exists>fs. 0xfe \<notin> set fs \<and> received s' = received s @ fs @ [0xfe]
    \<and> sent s' = sent s @ replicate (Suc (length fs)) 0xff)"
  using assms unfolding sd_wait_token_def
proof (rule poll_Some_induct)
  fix s :: machine and v s' assume "sd_dummy L s = Some (v, s')" "v = 0xfe"
  with dummy_view [OF this(1)]
  show "v = 0xfe \<and> ram s' = ram s \<and> (\<exists>fs. 0xfe \<notin> set fs \<and> received s' = received s @ fs @ [0xfe]
    \<and> sent s' = sent s @ replicate (Suc (length fs)) 0xff)"
    by (auto intro: exI [of _ "[]"])
next
  fix s w t v s'
  assume first: "sd_dummy L s = Some (w, t)" "w \<noteq> 0xfe"
    and rest: "v = 0xfe \<and> ram s' = ram t \<and> (\<exists>fs. 0xfe \<notin> set fs
      \<and> received s' = received t @ fs @ [0xfe] \<and> sent s' = sent t @ replicate (Suc (length fs)) 0xff)"
  then obtain fs where "0xfe \<notin> set fs" "received s' = received t @ fs @ [0xfe]"
    "sent s' = sent t @ replicate (Suc (length fs)) 0xff" by blast
  with first rest dummy_view [OF first(1)]
  show "v = 0xfe \<and> ram s' = ram s \<and> (\<exists>fs. 0xfe \<notin> set fs \<and> received s' = received s @ fs @ [0xfe]
    \<and> sent s' = sent s @ replicate (Suc (length fs)) 0xff)"
    by (auto intro!: exI [of _ "w # fs"])
qed

lemma token_live:
  assumes "live s" "sd_wait_token L s = Some (v, s')"
  shows "live s'"
proof -
  have "live s \<longrightarrow> live s'"
    using assms(2) unfolding sd_wait_token_def
  proof (rule poll_Some_induct)
    show "live s \<longrightarrow> live s'" if "sd_dummy L s = Some (v, s')" for s v s'
      using dummy_live [of s] that by auto
    show "live s \<longrightarrow> live s'" if "sd_dummy L s = Some (w, t)" "live t \<longrightarrow> live s'" for s w t s'
      using dummy_live [of s] that by auto
  qed
  with assms(1) show ?thesis by simp
qed

lemma block_bytes_view:
  assumes "sd_block_bytes L (64 * Suc k) crc p s = Some (crc', p', s')"
  shows "\<exists>b. length b = 64 * Suc k \<and> received s' = received s @ b
    \<and> sent s' = sent s @ replicate (64 * Suc k) 0xff \<and> ram s' = put_bytes p b (ram s)
    \<and> crc' = fold (\<lambda>b crc. crc16 crc b) b crc \<and> p' = p + of_nat (64 * Suc k)"
  using assms
proof (induction k arbitrary: crc p s)
  case 0
  then obtain rc t where t: "op_write_bytes L sd_ff 64 p s = Some (rc, t)"
    and rest: "crc' = fold (\<lambda>b crc. crc16 crc b) (get_bytes p 64 (ram t)) crc" "p' = p + 64" "s' = t"
    by (subst (asm) sd_block_bytes.simps) (auto elim!: bind_pair_SomeE)
  from burst_view [OF t] obtain rs where rs: "length rs = 64" "received t = received s @ rs"
    "ram t = put_bytes p rs (ram s)" "sent t = sent s @ replicate 64 0xff"
    by (auto simp: sd_ff_def)
  with get_put_bytes [of rs p "ram s"] rest show ?case
    by (intro exI [of _ rs]) auto
next
  case (Suc k)
  then obtain rc t where t: "op_write_bytes L sd_ff 64 p s = Some (rc, t)"
    and rest: "sd_block_bytes L (64 * Suc k)
      (fold (\<lambda>b crc. crc16 crc b) (get_bytes p 64 (ram t)) crc) (p + 64) t = Some (crc', p', s')"
    by (subst (asm) sd_block_bytes.simps) (auto elim!: bind_pair_SomeE)
  from burst_view [OF t] obtain rs where rs: "length rs = 64" "received t = received s @ rs"
    "ram t = put_bytes p rs (ram s)" "sent t = sent s @ replicate 64 0xff"
    by (auto simp: sd_ff_def)
  from Suc.IH [OF rest] obtain b where b: "length b = 64 * Suc k" "received s' = received t @ b"
    "sent s' = sent t @ replicate (64 * Suc k) 0xff" "ram s' = put_bytes (p + 64) b (ram t)"
    "crc' = fold (\<lambda>b crc. crc16 crc b) b (fold (\<lambda>b crc. crc16 crc b) (get_bytes p 64 (ram t)) crc)"
    "p' = p + 64 + of_nat (64 * Suc k)"
    by blast
  have "replicate (64 * Suc (Suc k)) (0xff :: u8) = replicate 64 0xff @ replicate (64 * Suc k) 0xff"
    by (simp flip: replicate_add)
  with rs b get_put_bytes [of rs p "ram s"] show ?case
    by (intro exI [of _ "rs @ b"]) (auto simp: put_bytes_append algebra_simps)
qed

lemma block_bytes_live: "live s \<Longrightarrow> \<exists>crc' p' s'. sd_block_bytes L n crc p s = Some (crc', p', s') \<and> live s'"
proof (induction n arbitrary: crc p s rule: less_induct)
  case (less n)
  have "unat (64 :: u32) \<le> length sd_ff" by (simp add: sd_ff_def)
  from burst_live [OF less.prems this, of p] obtain rc t where
    "op_write_bytes L sd_ff 64 p s = Some (rc, t)" "live t" by blast
  then show ?case
    using less.IH [of "n - 64" t] by (subst sd_block_bytes.simps) (auto simp: Let_def)
qed

lemma read_block_view:
  assumes "sd_read_block L p s = Some (ok, p', s')"
  shows "\<exists>b st n. block_frame ok b st \<and> received s' = received s @ st \<and> p' = p + 512
    \<and> ram s' = put_bytes p b (ram s) \<and> sent s' = sent s @ replicate n 0xff"
proof -
  from assms obtain v t crc u hi u1 lo where tok: "sd_wait_token L s = Some (v, t)"
    and blk: "sd_block_bytes L 512 0 p t = Some (crc, p', u)"
    and crcs: "sd_dummy L u = Some (hi, u1)" "sd_dummy L u1 = Some (lo, s')"
    and ok: "ok = (crc = push_bit 8 (ucast hi) OR ucast lo)"
    unfolding sd_read_block_def Let_def by (auto elim!: bind_SomeE)
  from token_view [OF tok] obtain fs where fs: "0xfe \<notin> set fs" "received t = received s @ fs @ [0xfe]"
    "sent t = sent s @ replicate (Suc (length fs)) 0xff" "ram t = ram s" by blast
  from block_bytes_view [of 7 0 p t crc p' u] blk obtain b where b: "length b = 512"
    "received u = received t @ b" "sent u = sent t @ replicate 512 0xff"
    "ram u = put_bytes p b (ram t)" "crc = crc16_of b" "p' = p + 512"
    by (auto simp: crc16_of_def)
  have "block_frame ok b (fs @ [0xfe] @ b @ [hi, lo])"
    using fs(1) b(1,5) ok unfolding block_frame_def by blast
  moreover have "sent s' = sent s @ replicate (Suc (length fs)) 0xff @ replicate 512 0xff @ replicate 2 0xff"
    using dummy_view [OF crcs(1)] dummy_view [OF crcs(2)] b(3) fs(3)
    by (simp add: numeral_2_eq_2)
  then have "sent s' = sent s @ replicate (Suc (length fs) + (512 + 2)) 0xff"
    by (simp only: replicate_add)
  ultimately show ?thesis
    using dummy_view [OF crcs(1)] dummy_view [OF crcs(2)] b fs
    by (intro exI [of _ b] exI [of _ "fs @ [0xfe] @ b @ [hi, lo]"]) auto
qed

lemma read_block_live:
  assumes "live s" "\<And>s. live s \<Longrightarrow> sd_wait_token L s \<noteq> None"
  shows "\<exists>ok p' s'. sd_read_block L p s = Some (ok, p', s') \<and> live s'"
proof -
  from assms(2) [OF assms(1)] obtain v t where t: "sd_wait_token L s = Some (v, t)" by fast
  from token_live [OF assms(1) t] have "live t" .
  from block_bytes_live [OF this, of 512 0 p] obtain crc p' u where
    u: "sd_block_bytes L 512 0 p t = Some (crc, p', u)" "live u" by blast
  from dummy_live [OF u(2)] obtain hi w where w: "sd_dummy L u = Some (hi, w)" "live w" by blast
  from dummy_live [OF w(2)] obtain lo s' where "sd_dummy L w = Some (lo, s')" "live s'" by blast
  with t u w show ?thesis by (simp add: sd_read_block_def Let_def)
qed

lemma read_blocks_view:
  assumes "sd_read_blocks L i p s = Some (rc, s')"
  shows "\<exists>data st n. read_outcome rc (max 1 i) data st \<and> received s' = received s @ st
    \<and> ram s' = put_bytes p data (ram s) \<and> sent s' = sent s @ replicate n 0xff"
  using assms
proof (induction i arbitrary: p s rule: less_induct)
  case (less i)
  from less.prems obtain ok p' t where blk: "sd_read_block L p s = Some (ok, p', t)"
    and rest: "(if \<not> ok then Some (-2, t) else do {
       s \<leftarrow> (if i mod 1000 = 0 then op_print L (bytes_of ''.'') t else Some t);
       if i - 1 > 0 then sd_read_blocks L (i - 1) p' s else Some (0, s) }) = Some (rc, s')"
    by (subst (asm) sd_read_blocks.simps) (auto elim!: bind_SomeE)
  from read_block_view [OF blk] obtain b st n where b: "block_frame ok b st"
    "received t = received s @ st" "p' = p + 512" "ram t = put_bytes p b (ram s)"
    "sent t = sent s @ replicate n 0xff" by blast
  from b(1) have len: "length b = 512" by (auto simp: block_frame_def)
  show ?case
  proof (cases ok)
    case False
    with rest b read_outcome_one [OF b(1), of "max 1 i"] show ?thesis
      by (auto simp: less_max_iff_disj)
  next
    case True
    with rest obtain u where "(if i mod 1000 = 0 then op_print L (bytes_of ''.'') t else Some t) = Some u"
      and more: "(if i - 1 > 0 then sd_read_blocks L (i - 1) p' u else Some (0, u)) = Some (rc, s')"
      by (auto elim!: bind_SomeE simp del: One_nat_def)
    then have u: "sent u = sent t" "received u = received t" "ram u = ram t"
      by (auto split: if_splits dest: print_view)
    show ?thesis
    proof (cases "i - 1 > 0")
      case False
      then have "max 1 i = 1" by simp
      with False more u b True read_outcome_one [OF b(1), of 1] show ?thesis by auto
    next
      case i: True
      with more have "sd_read_blocks L (i - 1) p' u = Some (rc, s')" by simp
      moreover have m: "max 1 (i - 1) = i - 1" "max 1 i = Suc (i - 1)" "i - 1 < i"
        using i by auto
      ultimately obtain data sts k where IH: "read_outcome rc (i - 1) data sts"
        "received s' = received u @ sts" "ram s' = put_bytes p' data (ram u)"
        "sent s' = sent u @ replicate k 0xff"
        using less.IH [of "i - 1" p' u] by metis
      have "read_outcome rc (Suc (i - 1)) (b @ data) (st @ sts)"
        using read_outcome_Cons b(1) True IH(1) by simp
      then have "read_outcome rc (max 1 i) (b @ data) (st @ sts)"
        by (simp only: m(2))
      moreover have "sent s' = sent s @ replicate (n + k) 0xff"
        using IH(4) u b(5) by (simp add: replicate_add)
      moreover have "ram s' = put_bytes p (b @ data) (ram s)"
        using IH(3) u b(3,4) len by (simp add: put_bytes_append)
      ultimately show ?thesis
        using IH(2) u b(2) by (metis append.assoc)
    qed
  qed
qed

lemma read_blocks_live:
  assumes "live s" "\<And>s. live s \<Longrightarrow> sd_wait_token L s \<noteq> None"
  shows "\<exists>rc s'. sd_read_blocks L i p s = Some (rc, s') \<and> live s'"
  using assms(1)
proof (induction i arbitrary: p s rule: less_induct)
  case (less i)
  from read_block_live [OF less.prems assms(2), of p] obtain ok p' t where
    t: "sd_read_block L p s = Some (ok, p', t)" "live t" by blast
  obtain u where "(if i mod 1000 = 0 then op_print L (bytes_of ''.'') t else Some t) = Some u" "live u"
    using print_live [OF t(2), of "bytes_of ''.''"] t(2) by (cases "i mod 1000 = 0") auto
  with t less.IH [of "i - 1" u] show ?case
    by (subst sd_read_blocks.simps) (auto simp del: One_nat_def)
qed

lemma copy_cases:
  assumes "sd_copy L dst lba sz s = Some (rc, s')"
  obtains (refused) n rs where "rc = -1" "ram s' = ram s" "received s' = received s @ rs"
      "sent s' = sent s @ cmd_frame 18 lba 1 @ replicate n 0xff"
  | (read) pre post data st n m where "read_outcome rc (max 1 (unat sz)) data st"
      "received s' = received s @ pre @ st @ post" "ram s' = put_bytes dst data (ram s)"
      "sent s' = sent s @ cmd_frame 18 lba 1 @ replicate n 0xff @ cmd_frame 12 0 1 @ replicate m 0xff"
proof -
  from assms obtain r t where cmd: "sd_cmd L 18 lba 1 s = Some (r, t)"
    and rest: "(if r \<noteq> 0 then do {
       s \<leftarrow> sd_dummies L 8 t;
       s \<leftarrow> op_print L (bytes_of ''could not read SD block'' @ crlf) s;
       Some (-1, s)
     } else do {
       (rc, s) \<leftarrow> sd_read_blocks L (unat sz) dst t;
       (_, s) \<leftarrow> sd_cmd L 12 0 0x01 s;
       (_, s) \<leftarrow> sd_dummy L s;
       Some (rc, s)
     }) = Some (rc, s')"
    unfolding sd_copy_def sd_read_crc_1 by (elim bind_pair_SomeE)
  from cmd_view(1,2) [OF cmd] obtain n rs where t: "received t = received s @ rs"
    "sent t = sent s @ cmd_frame 18 lba 1 @ replicate n 0xff" by blast
  note t = t cmd_view(3) [OF cmd]
  show thesis
  proof (cases "r = 0")
    case False
    with rest obtain u where "sd_dummies L 8 t = Some u"
      "op_print L (bytes_of ''could not read SD block'' @ crlf) u = Some s'" "rc = -1"
      by (auto elim!: bind_SomeE)
    with dummies_view [OF this(1)] print_view [OF this(2)] t show thesis
      by (auto intro: refused [of _ "n + 8"] simp: replicate_add)
  next
    case True
    with rest obtain u x w y where blocks: "sd_read_blocks L (unat sz) dst t = Some (rc, u)"
      and stop: "sd_cmd L 12 0 0x01 u = Some (x, w)" and last: "sd_dummy L w = Some (y, s')"
      by (auto elim!: bind_SomeE)
    from read_blocks_view [OF blocks] obtain data st k where u: "read_outcome rc (max 1 (unat sz)) data st"
      "received u = received t @ st" "ram u = put_bytes dst data (ram t)"
      "sent u = sent t @ replicate k 0xff" by blast
    from cmd_view(1,2) [OF stop] obtain m qs where w: "received w = received u @ qs"
      "sent w = sent u @ cmd_frame 12 0 1 @ replicate m 0xff" by blast
    show thesis
    proof (rule read [OF u(1), of rs "qs @ [y]" "n + k" "m + 1"])
      show "received s' = received s @ rs @ st @ qs @ [y]" "ram s' = put_bytes dst data (ram s)"
        "sent s' = sent s @ cmd_frame 18 lba 1 @ replicate (n + k) 0xff @ cmd_frame 12 0 1 @ replicate (m + 1) 0xff"
        using u(2-) w cmd_view(3) [OF stop] dummy_view [OF last] t
        by (simp_all add: replicate_add replicate_append_same)
    qed
  qed
qed

lemma copy_live:
  assumes "live s" "\<And>s. live s \<Longrightarrow> sd_wait_token L s \<noteq> None"
  shows "\<exists>rc s'. sd_copy L dst lba sz s = Some (rc, s') \<and> live s'"
proof -
  from cmd_live [OF assms(1)] obtain r t where
    t: "sd_cmd L 18 lba (sd_read_crc lba) s = Some (r, t)" "live t" by blast
  show ?thesis
  proof (cases "r = 0")
    case False
    from dummies_live [OF t(2)] obtain u where u: "sd_dummies L 8 t = Some u" "live u" by blast
    from print_live [OF u(2)] obtain s' where
      "op_print L (bytes_of ''could not read SD block'' @ crlf) u = Some s'" "live s'" by blast
    with t u False show ?thesis by (simp add: sd_copy_def)
  next
    case True
    from read_blocks_live [OF t(2) assms(2)] obtain rc u where
      u: "sd_read_blocks L (unat sz) dst t = Some (rc, u)" "live u" by blast
    from cmd_live [OF u(2)] obtain x w where w: "sd_cmd L 12 0 0x01 u = Some (x, w)" "live w" by blast
    from dummy_live [OF w(2)] obtain y s' where "sd_dummy L w = Some (y, s')" "live s'" by blast
    with t u w True show ?thesis by (simp add: sd_copy_def)
  qed
qed

text \<open>The initialisation sequence: some traffic, no effect on memory; it returns when the
  card leaves its idle state.\<close>

abbreviation traffic :: "machine \<Rightarrow> machine \<Rightarrow> bool" where
  "traffic \<equiv> grows sent received"

lemma traffic_ops:
  "moves traffic (sd_dummy L)" "moves traffic (sd_cmd L cmd arg crc)"
  "moves0 traffic (op_print L str)" "moves0 traffic (op_print_byte L b)"
  "moves0 traffic (op_spi_init L)" "moves0 traffic (sd_dummies L n)"
proof -
  have same: "traffic s s'" if "sent s' = sent s \<and> received s' = received s \<and> ram s' = ram s" for s s'
    using that by (intro growsI [of _ _ _ "[]" _ "[]"]) simp_all
  show "moves traffic (sd_dummy L)"
    by (rule movesI) (blast dest: dummy_view intro: growsI)
  show "moves traffic (sd_cmd L cmd arg crc)"
    by (rule movesI) (blast dest: cmd_view intro: growsI)
  show "moves0 traffic (op_print L str)" "moves0 traffic (op_print_byte L b)" "moves0 traffic (op_spi_init L)"
    by (rule moves0I, rule same, erule print_view print_byte_view init_view)+
  show "moves0 traffic (sd_dummies L n)"
    by (rule moves0I) (blast dest: dummies_view intro: growsI)
qed

lemma goes_ops:
  "goes live (sd_dummy L)" "goes live (sd_cmd L cmd arg crc)"
  "goes0 live (op_print L str)" "goes0 live (op_print_byte L b)"
  "goes0 live (op_spi_init L)" "goes0 live (sd_dummies L n)"
  by (rule goesI goes0I, blast intro: dummy_live cmd_live print_live print_byte_live init_live dummies_live)+

lemma status_ops: "moves0 traffic (print_status L cmd r)" "goes0 live (print_status L cmd r)"
  unfolding print_status_def by (intro grows_compose traffic_ops goes_compose goes_ops)+

lemma cmd55_ops: "moves traffic (sd_cmd55 L)" "goes live (sd_cmd55 L)"
  unfolding sd_cmd55_def
  by (intro grows_compose traffic_ops goes_compose goes_ops status_ops)+

lemma cmd8_ops: "moves traffic (sd_cmd8 L)" "goes live (sd_cmd8 L)"
  unfolding sd_cmd8_def by (intro grows_compose traffic_ops goes_compose goes_ops)+

lemma cmd0_loop_ops: "moves traffic (sd_cmd0_loop L n x) \<and> goes live (sd_cmd0_loop L n x)"
proof (induction n arbitrary: x rule: less_induct)
  case (less n)
  have eq: "sd_cmd0_loop L n x = (\<lambda>s. if x \<noteq> 0x1 then do {
        (r, s) \<leftarrow> sd_cmd L 0 0 0x95 s;
        (_, s) \<leftarrow> sd_dummy L s;
        if n - 1 \<le> 0 then Some (0, s) else sd_cmd0_loop L (n - 1) r s
      } else do {
        s \<leftarrow> print_status L (bytes_of ''cmd0'') x s;
        Some (of_bool (x = 0x1), s)
      })"
    by (rule ext) (subst sd_cmd0_loop.simps, rule refl)
  show ?case
  proof (cases "n - 1 \<le> 0")
    case True
    show ?thesis
      unfolding eq if_P [OF True]
      by (intro conjI grows_compose traffic_ops goes_compose goes_ops status_ops)
  next
    case False
    then have "n - 1 < n" by simp
    from less.IH [OF this] show ?thesis
      unfolding eq if_not_P [OF False]
      by (intro conjI grows_compose traffic_ops goes_compose goes_ops status_ops) blast+
  qed
qed

lemma acmd41_pass_ops: "moves traffic (sd_acmd41_pass L)" "goes live (sd_acmd41_pass L)"
  unfolding sd_acmd41_pass_def
  by (intro grows_compose traffic_ops goes_compose goes_ops status_ops cmd55_ops)+

lemma acmd41_traffic: "moves traffic (sd_acmd41 L)"
  unfolding sd_acmd41_def
  by (intro grows_compose moves_poll transp_grows acmd41_pass_ops)

lemma init_sd_traffic: "moves traffic (init_sd L)"
  unfolding init_sd_def sd_cmd0_def
  by (intro grows_compose traffic_ops cmd8_ops acmd41_traffic cmd0_loop_ops [THEN conjunct1])

lemma init_sd_live:
  assumes "\<And>s. live s \<Longrightarrow> poll (sd_acmd41_pass L) (\<lambda>r. r \<noteq> 0x1) s \<noteq> None"
  shows "goes live (init_sd L)"
  unfolding init_sd_def sd_cmd0_def sd_acmd41_def
  by (intro goes_compose goes_ops cmd8_ops cmd0_loop_ops [THEN conjunct2] goes_poll
      acmd41_pass_ops assms)

lemma init_sd_codes: "init_sd L s = Some (rc, s') \<Longrightarrow> rc \<in> {0, -1, -2, -3}"
  by (auto simp: init_sd_def elim!: bind_SomeE split: if_splits)

end

section \<open>Properties of the SD driver\<close>



text \<open>C38. \<open>crc16\<close>, which has no loop, is the CRC-16-CCITT of its comment: for every state and byte
  it equals eight steps of the shift register with polynomial 0x11021; the check value of the
  standard test string is 0x31C3.\<close>

theorem crc16_is_ccitt:
  "crc16 crc data = ccitt_byte crc data \<and> crc16_of (bytes_of ''123456789'') = 0x31C3"
proof
  show "crc16 crc data = ccitt_byte crc data"
    by (rule bit_word_eqI) (simp add: crc16_bits)
  show "crc16_of (bytes_of ''123456789'') = 0x31C3"
    by (simp add: crc16_of_def bytes_of_simps crc16_def Let_def)
qed

text \<open>The checksum a card expects on a command: polynomial 0x89 (the comment's), one bit at a time.\<close>

definition crc7_bit :: "u8 \<Rightarrow> u8" where
  "crc7_bit crc = push_bit 1 crc XOR (if bit crc 7 then 0x12 else 0)"

definition crc7_command :: "u8 list \<Rightarrow> u8" where
  "crc7_command bs = fold (\<lambda>b crc. (crc7_bit ^^ 8) (crc XOR b)) bs 0 OR 1"

text \<open>The checksum byte \<open>sd_copy\<close> sends with its read command is 1 for every block address,
  because \<open>crc7\<close> masks the previous remainder with the input instead of adding it: from the
  initial 0 it stays 0.  The CRC-7 of the command for block 0 is 0xE1 as a byte on the wire, so
  the driver only works with cards that do not check it.\<close>

theorem sd_read_crc_is_constant:
  "sd_read_crc lba = 1 \<and> crc7_command [0x40, 0, 0, 0, 0] = 0x95
    \<and> crc7_command [0x40 OR 18, 0, 0, 0, 0] = 0xE1"
proof -
  have steps: "(f ^^ 8) x = f (f (f (f (f (f (f (f x)))))))" for f :: "u8 \<Rightarrow> u8" and x
    by (simp add: numeral_eq_Suc)
  show ?thesis
    by (simp add: sd_read_crc_1 crc7_command_def steps) (simp add: crc7_bit_def)
qed

text \<open>The card answers a read with data tokens (documented behaviour of a card in SPI mode).\<close>

definition card_sends :: "board \<Rightarrow> bool" where
  "card_sends B \<longleftrightarrow> (\<forall>s. spi_live B s \<longrightarrow> sd_wait_token (xilinx_spi B) s \<noteq> None)"



end
