(* ===== verification/Gpt.thy ===== *)
theory Gpt
  imports Sd
begin

text \<open>
  \<open>gpt.c\<close>: initialise the card, read the GPT header (block 1) and the first block
  of partition entries into two buffers on the stack, print them, and copy the
  blocks of the first entry to the destination.  The same file is linked against
  the SD driver on the FPGA and against a memory-mapped copy on OpenPiton, so it
  takes the operations it calls as a record; the locale \<open>block_device\<close> is their
  contract.  The addresses of the two local buffers are parameters.
\<close>

record blk_ops =
  op_init_sd :: "machine \<Rightarrow> (int \<times> machine) option"
  op_sd_copy :: "u64 \<Rightarrow> u32 \<Rightarrow> u32 \<Rightarrow> machine \<Rightarrow> (int \<times> machine) option"
  op_put :: "u8 list \<Rightarrow> machine \<Rightarrow> machine option"
  op_put_int :: "u32 \<Rightarrow> machine \<Rightarrow> machine option"
  op_put_addr :: "u64 \<Rightarrow> machine \<Rightarrow> machine option"
  op_put_byte :: "u8 \<Rightarrow> machine \<Rightarrow> machine option"

section \<open>The structures of \<open>gpt.h\<close>\<close>

record gpt_pth =
  signature :: u64
  revision :: u32
  header_size :: u32
  crc_header :: u32
  reserved :: u32
  current_lba :: u64
  backup_lba :: u64
  first_usable_lba :: u64
  last_usable_lba :: u64
  disk_guid :: "u8 list"
  partition_entries_lba :: u64
  nr_partition_entries :: u32
  size_partition_entry :: u32
  crc_partition_entry :: u32

record partition_entry =
  partition_type_guid :: "u8 list"
  partition_guid :: "u8 list"
  first_lba :: u64
  last_lba :: u64
  attributes :: u64
  part_name :: "u8 list"

text \<open>Little-endian fields at the offsets the RISC-V ABI gives them (no padding inside).\<close>

definition field :: "u8 list \<Rightarrow> nat \<Rightarrow> nat \<Rightarrow> u8 list" where
  "field bs off n = take n (drop off bs)"

definition parse_pth :: "u8 list \<Rightarrow> gpt_pth" where
  "parse_pth bs = \<lparr>signature = le_dec (field bs 0 8), revision = le_dec (field bs 8 4),
     header_size = le_dec (field bs 12 4), crc_header = le_dec (field bs 16 4),
     reserved = le_dec (field bs 20 4), current_lba = le_dec (field bs 24 8),
     backup_lba = le_dec (field bs 32 8), first_usable_lba = le_dec (field bs 40 8),
     last_usable_lba = le_dec (field bs 48 8), disk_guid = field bs 56 16,
     partition_entries_lba = le_dec (field bs 72 8),
     nr_partition_entries = le_dec (field bs 80 4),
     size_partition_entry = le_dec (field bs 84 4),
     crc_partition_entry = le_dec (field bs 88 4)\<rparr>"

definition parse_entry :: "u8 list \<Rightarrow> partition_entry" where
  "parse_entry bs = \<lparr>partition_type_guid = field bs 0 16, partition_guid = field bs 16 16,
     first_lba = le_dec (field bs 32 8), last_lba = le_dec (field bs 40 8),
     attributes = le_dec (field bs 48 8), part_name = field bs 56 72\<rparr>"

text \<open>The casts \<open>(gpt_pth_t *)lba1_buf\<close> and \<open>(partition_entries_t *)p\<close>.\<close>

definition pth_at :: "u64 \<Rightarrow> machine \<Rightarrow> gpt_pth" where
  "pth_at a s = parse_pth (get_bytes a 96 (ram s))"

definition entry_at :: "u64 \<Rightarrow> machine \<Rightarrow> partition_entry" where
  "entry_at a s = parse_entry (get_bytes a 128 (ram s))"

section \<open>The code\<close>

primrec put_each :: "blk_ops \<Rightarrow> u8 list \<Rightarrow> machine \<Rightarrow> machine option" where
  "put_each D [] s = Some s"
| "put_each D (b # bs) s = do { s \<leftarrow> op_put_byte D b s; put_each D bs s }"

text \<open>A string literal with its escapes: \<open>\r\n\t\<close> before a label.\<close>

definition nl_tab :: "u8 list" where "nl_tab = [0x0D, 0x0A, 0x09]"

definition put_label :: "blk_ops \<Rightarrow> string \<Rightarrow> nat \<Rightarrow> machine \<Rightarrow> machine option" where
  "put_label D str tabs s = op_put D (nl_tab @ bytes_of str @ replicate tabs 9) s"

text \<open>The block printed, three times in the source, when a copy fails.\<close>

definition gpt_copy_failed :: "blk_ops \<Rightarrow> int \<Rightarrow> machine \<Rightarrow> (int \<times> machine) option" where
  "gpt_copy_failed D res s = do {
     s \<leftarrow> op_put D (bytes_of ''SD card failed!'' @ crlf) s;
     s \<leftarrow> op_put D (bytes_of ''sd copy return value: '') s;
     s \<leftarrow> op_put_addr D (of_int res) s;
     s \<leftarrow> op_put D crlf s;
     Some (-2, s)
   }"

definition gpt_print_header :: "blk_ops \<Rightarrow> gpt_pth \<Rightarrow> machine \<Rightarrow> machine option" where
  "gpt_print_header D lba1 s = do {
     s \<leftarrow> op_put D (bytes_of ''gpt partition table header:'') s;
     s \<leftarrow> put_label D ''signature:'' 1 s;
     s \<leftarrow> op_put_addr D (signature lba1) s;
     s \<leftarrow> put_label D ''revision:'' 1 s;
     s \<leftarrow> op_put_int D (revision lba1) s;
     s \<leftarrow> put_label D ''size:'' 2 s;
     s \<leftarrow> op_put_int D (header_size lba1) s;
     s \<leftarrow> put_label D ''crc_header:'' 1 s;
     s \<leftarrow> op_put_int D (crc_header lba1) s;
     s \<leftarrow> put_label D ''reserved:'' 1 s;
     s \<leftarrow> op_put_int D (reserved lba1) s;
     s \<leftarrow> put_label D ''current lba:'' 1 s;
     s \<leftarrow> op_put_addr D (current_lba lba1) s;
     s \<leftarrow> put_label D ''backup lda:'' 1 s;
     s \<leftarrow> op_put_addr D (backup_lba lba1) s;
     s \<leftarrow> put_label D ''partition entries lba:   '' 1 s;
     s \<leftarrow> op_put_addr D (partition_entries_lba lba1) s;
     s \<leftarrow> put_label D ''number partition entries:'' 1 s;
     s \<leftarrow> op_put_int D (nr_partition_entries lba1) s;
     s \<leftarrow> put_label D ''size partition entries:  '' 1 s;
     s \<leftarrow> op_put_int D (size_partition_entry lba1) s;
     op_put D crlf s
   }"

definition gpt_print_entry :: "blk_ops \<Rightarrow> u8 \<Rightarrow> partition_entry \<Rightarrow> machine \<Rightarrow> machine option" where
  "gpt_print_entry D i e s = do {
     s \<leftarrow> op_put D (bytes_of ''gpt partition entry '') s;
     s \<leftarrow> op_put_byte D i s;
     s \<leftarrow> put_label D ''partition type guid:'' 1 s;
     s \<leftarrow> put_each D (partition_type_guid e) s;
     s \<leftarrow> put_label D ''partition guid:     '' 1 s;
     s \<leftarrow> put_each D (partition_guid e) s;
     s \<leftarrow> put_label D ''first lba:'' 1 s;
     s \<leftarrow> op_put_addr D (first_lba e) s;
     s \<leftarrow> put_label D ''last lba:'' 1 s;
     s \<leftarrow> op_put_addr D (last_lba e) s;
     s \<leftarrow> put_label D ''attributes:'' 1 s;
     s \<leftarrow> op_put_addr D (attributes e) s;
     s \<leftarrow> put_label D ''name:'' 1 s;
     s \<leftarrow> put_each D (part_name e) s;
     op_put D crlf s
   }"

text \<open>The loop over the four entries of the block, from entry \<open>i\<close> on with \<open>n\<close> left.\<close>

primrec gpt_print_entries :: "blk_ops \<Rightarrow> u64 \<Rightarrow> nat \<Rightarrow> nat \<Rightarrow> machine \<Rightarrow> machine option" where
  "gpt_print_entries D buf i 0 s = Some s"
| "gpt_print_entries D buf i (Suc n) s = do {
     s \<leftarrow> gpt_print_entry D (of_nat i) (entry_at (buf + of_nat (i * 128)) s) s;
     gpt_print_entries D buf (i + 1) n s
   }"

text \<open>
  \<open>extra_nl\<close> is the additional line break of the OpenPiton copy of the file.  The
  \<open>size\<close> argument of the C function is not used by its body.  Block numbers are
  64-bit fields handed to 32-bit parameters.
\<close>

definition gpt_find_boot_partition ::
    "blk_ops \<Rightarrow> bool \<Rightarrow> u64 \<Rightarrow> u64 \<Rightarrow> u64 \<Rightarrow> u32 \<Rightarrow> machine \<Rightarrow> (int \<times> machine) option" where
  "gpt_find_boot_partition D extra_nl lba1_buf lba2_buf dest sz s = do {
     (ret, s) \<leftarrow> op_init_sd D s;
     if ret \<noteq> 0 then do {
       s \<leftarrow> op_put D (bytes_of ''could not initialize sd... exiting'' @ crlf) s;
       Some (-1, s)
     } else do {
     s \<leftarrow> op_put D (bytes_of ''sd initialized!'' @ crlf) s;
     (res, s) \<leftarrow> op_sd_copy D lba1_buf 1 1 s;
     if res \<noteq> 0 then gpt_copy_failed D res s else do {
     s \<leftarrow> gpt_print_header D (pth_at lba1_buf s) s;
     (res, s) \<leftarrow> op_sd_copy D lba2_buf (ucast (partition_entries_lba (pth_at lba1_buf s))) 1 s;
     if res \<noteq> 0 then gpt_copy_failed D res s else do {
     s \<leftarrow> gpt_print_entries D lba2_buf 0 4 s;
     s \<leftarrow> op_put D (bytes_of ''copying boot image '') s;
     s \<leftarrow> (if extra_nl then op_put D crlf s else Some s);
     let boot = entry_at lba2_buf s;
     (res, s) \<leftarrow> op_sd_copy D dest (ucast (first_lba boot)) (ucast (last_lba boot - first_lba boot + 1)) s;
     if res \<noteq> 0 then gpt_copy_failed D res s else do {
     s \<leftarrow> op_put D (bytes_of '' done!'' @ crlf) s;
     Some (0, s) }}}}
   }"

text \<open>What a result 0 means: with \<open>T\<close> the transcripts of the device, the header, the
  entries and the image were delivered one after the other, each block number being
  the field of the structure delivered before, and memory holds all three.\<close>

definition gpt_loaded ::
    "((u64 \<Rightarrow> u8) \<Rightarrow> u64 \<Rightarrow> u32 \<Rightarrow> u32 \<Rightarrow> u8 list \<Rightarrow> u8 list \<Rightarrow> u8 list \<Rightarrow> bool) \<Rightarrow>
     u64 \<Rightarrow> u64 \<Rightarrow> u64 \<Rightarrow> (u64 \<Rightarrow> u8) \<Rightarrow> (u64 \<Rightarrow> u8) \<Rightarrow> u8 list \<Rightarrow> u8 list \<Rightarrow> bool" where
  "gpt_loaded T lba1_buf lba2_buf dest m m' tx rx \<longleftrightarrow>
     (\<exists>hdr ents img tx0 tx1 tx2 tx3 rx0 rx1 rx2 rx3.
        let m1 = put_bytes lba1_buf hdr m; m2 = put_bytes lba2_buf ents m1;
            boot = parse_entry (take 128 ents)
        in T m lba1_buf 1 1 hdr tx1 rx1
         \<and> T m1 lba2_buf (ucast (partition_entries_lba (parse_pth (take 96 hdr)))) 1 ents tx2 rx2
         \<and> T m2 dest (ucast (first_lba boot)) (ucast (last_lba boot - first_lba boot + 1)) img tx3 rx3
         \<and> tx = tx0 @ tx1 @ tx2 @ tx3 \<and> rx = rx0 @ rx1 @ rx2 @ rx3
         \<and> m' = put_bytes dest img m2)"

lemma gpt_loadedI:
  assumes "T m lba1_buf 1 1 hdr tx1 rx1"
    "T (put_bytes lba1_buf hdr m) lba2_buf
       (ucast (partition_entries_lba (parse_pth (take 96 hdr)))) 1 ents tx2 rx2"
    "T (put_bytes lba2_buf ents (put_bytes lba1_buf hdr m)) dest
       (ucast (first_lba (parse_entry (take 128 ents))))
       (ucast (last_lba (parse_entry (take 128 ents)) - first_lba (parse_entry (take 128 ents)) + 1))
       img tx3 rx3"
    "m' = put_bytes dest img (put_bytes lba2_buf ents (put_bytes lba1_buf hdr m))"
  shows "gpt_loaded T lba1_buf lba2_buf dest m m' (tx0 @ tx1 @ tx2 @ tx3) (rx0 @ rx1 @ rx2 @ rx3)"
  unfolding gpt_loaded_def Let_def using assms by blast

section \<open>The contract of a block device\<close>

text \<open>Nothing the device sees, nothing in memory.\<close>

definition still :: "(machine \<Rightarrow> u8 list) \<Rightarrow> (machine \<Rightarrow> u8 list) \<Rightarrow> machine \<Rightarrow> machine \<Rightarrow> bool" where
  "still tx_of rx_of s s' \<longleftrightarrow> tx_of s' = tx_of s \<and> rx_of s' = rx_of s \<and> ram s' = ram s"

lemma reflp_still: "reflp (still f g)" and transp_still: "transp (still f g)"
  by (simp_all add: reflp_def transp_def still_def)

lemmas still_compose = moves_seq [OF transp_still] moves_end [OF reflp_still] moves_if

text \<open>
  \<open>transcript m dst lba n data tx rx\<close> says what a successful copy of \<open>n\<close> blocks from
  block \<open>lba\<close> means for the device: with memory \<open>m\<close>, the exchange \<open>tx\<close>/\<open>rx\<close> delivered
  \<open>data\<close> as the contents of those blocks.
\<close>

locale block_device =
  fixes D :: blk_ops
    and sent :: "machine \<Rightarrow> u8 list"
    and received :: "machine \<Rightarrow> u8 list"
    and ok :: "machine \<Rightarrow> bool"
    and transcript :: "(u64 \<Rightarrow> u8) \<Rightarrow> u64 \<Rightarrow> u32 \<Rightarrow> u32 \<Rightarrow> u8 list \<Rightarrow> u8 list \<Rightarrow> u8 list \<Rightarrow> bool"
  assumes init_moves: "moves (grows sent received) (op_init_sd D)"
    and init_goes: "goes ok (op_init_sd D)"
    and copy_goes: "goes ok (op_sd_copy D dst lba n)"
    and copy_ok: "op_sd_copy D dst lba n s = Some (0, s') \<Longrightarrow>
      \<exists>data tx rx. transcript (ram s) dst lba n data tx rx \<and> sent s' = sent s @ tx
        \<and> received s' = received s @ rx \<and> ram s' = put_bytes dst data (ram s)"
    and copy_length: "transcript m dst lba n data tx rx \<Longrightarrow> 0 < n \<Longrightarrow> length data = 512 * unat n"
    and put_still: "moves0 (still sent received) (op_put D str)"
      "moves0 (still sent received) (op_put_int D w)"
      "moves0 (still sent received) (op_put_addr D a)"
      "moves0 (still sent received) (op_put_byte D b)"
    and put_goes: "goes0 ok (op_put D str)" "goes0 ok (op_put_int D w)"
      "goes0 ok (op_put_addr D a)" "goes0 ok (op_put_byte D b)"
begin

lemma put_each_ops: "moves0 (still sent received) (put_each D bs)" "goes0 ok (put_each D bs)"
proof -
  have "moves0 (still sent received) (put_each D bs) \<and> goes0 ok (put_each D bs)"
  proof (induction bs)
    case Nil
    have "put_each D [] = Some" by (rule ext) simp
    then show ?case by (simp add: still_compose goes_compose)
  next
    case (Cons b bs)
    have eq: "put_each D (b # bs) = (\<lambda>s. do { s \<leftarrow> op_put_byte D b s; put_each D bs s })"
      by (rule ext) simp
    show ?case
      unfolding eq using Cons by (auto intro!: still_compose put_still goes_compose put_goes)
  qed
  then show "moves0 (still sent received) (put_each D bs)" "goes0 ok (put_each D bs)" by simp_all
qed

lemma put_label_ops: "moves0 (still sent received) (put_label D str n)" "goes0 ok (put_label D str n)"
  unfolding put_label_def by (intro put_still put_goes)+

lemma header_ops:
  "moves0 (still sent received) (gpt_print_header D h)" "goes0 ok (gpt_print_header D h)"
  unfolding gpt_print_header_def
  by (intro still_compose put_still goes_compose put_goes put_label_ops)+

lemma entry_ops:
  "moves0 (still sent received) (gpt_print_entry D i e)" "goes0 ok (gpt_print_entry D i e)"
  unfolding gpt_print_entry_def
  by (intro still_compose put_still goes_compose put_goes put_label_ops put_each_ops)+

lemma entries_still: "moves0 (still sent received) (gpt_print_entries D buf i n)"
proof (induction n arbitrary: i)
  case 0
  have "gpt_print_entries D buf i 0 = Some" by (rule ext) simp
  then show ?case by (simp add: still_compose)
next
  case (Suc n)
  show ?case
  proof (rule moves0I)
    fix s s' assume "gpt_print_entries D buf i (Suc n) s = Some s'"
    then obtain t where "gpt_print_entry D (of_nat i) (entry_at (buf + of_nat (i * 128)) s) s = Some t"
      and "gpt_print_entries D buf (i + 1) n t = Some s'"
      by (auto elim!: bind_SomeE)
    from transpD [OF transp_still moves0D [OF entry_ops(1) this(1)] moves0D [OF Suc.IH this(2)]]
    show "still sent received s s'" .
  qed
qed

lemma entries_goes: "goes0 ok (gpt_print_entries D buf i n)"
proof (induction n arbitrary: i)
  case 0
  have "gpt_print_entries D buf i 0 = Some" by (rule ext) simp
  then show ?case by (simp add: goes_compose)
next
  case (Suc n)
  show ?case
  proof (rule goes0I)
    fix s assume "ok s"
    from goes0D [OF entry_ops(2) this] obtain t where
      "gpt_print_entry D (of_nat i) (entry_at (buf + of_nat (i * 128)) s) s = Some t" "ok t" by blast
    with goes0D [OF Suc.IH this(2), of "i + 1"]
    show "\<exists>s'. gpt_print_entries D buf i (Suc n) s = Some s' \<and> ok s'" by simp
  qed
qed

lemma failed_ops:
  "moves (still sent received) (gpt_copy_failed D r)" "goes ok (gpt_copy_failed D r)"
  unfolding gpt_copy_failed_def by (intro still_compose put_still goes_compose put_goes)+

lemma failed_code: "gpt_copy_failed D r s = Some (rc, s') \<Longrightarrow> rc = -2"
  by (auto simp: gpt_copy_failed_def elim!: bind_SomeE)

lemma gpt_goes: "goes ok (gpt_find_boot_partition D nl b1 b2 dest sz)"
proof -
  have header: "goes0 ok (\<lambda>s. gpt_print_header D (pth_at b1 s) s)"
    using header_ops(2) by (auto simp: goes0_def)
  have second: "goes ok (\<lambda>s. op_sd_copy D b2 (ucast (partition_entries_lba (pth_at b1 s))) 1 s)"
    using copy_goes by (auto simp: goes_def)
  have image: "goes ok (\<lambda>s. op_sd_copy D dest (ucast (first_lba (entry_at b2 s)))
      (ucast (last_lba (entry_at b2 s) - first_lba (entry_at b2 s) + 1)) s)"
    using copy_goes by (auto simp: goes_def)
  show ?thesis
    unfolding gpt_find_boot_partition_def Let_def
    by (intro goes_compose init_goes put_goes copy_goes failed_ops header second image entries_goes)
qed

lemma stillD:
  "still sent received s s' \<Longrightarrow> sent s' = sent s \<and> received s' = received s \<and> ram s' = ram s"
  by (simp add: still_def)

lemmas put_eqs = put_still(1) [THEN moves0D, THEN stillD]
lemmas header_eqs = header_ops(1) [THEN moves0D, THEN stillD]
lemmas entries_eqs = entries_still [THEN moves0D, THEN stillD]

lemma failed_not_ok: "gpt_copy_failed D r s \<noteq> Some (0, s')"
  using failed_code by fastforce

lemma gpt_outcome:
  assumes "gpt_find_boot_partition D nl b1 b2 dest sz s = Some (rc, s')"
  shows "rc = -1 \<or> rc = -2 \<or> rc = 0 \<and> (\<exists>tx rx. sent s' = sent s @ tx \<and> received s' = received s @ rx
    \<and> gpt_loaded transcript b1 b2 dest (ram s) (ram s') tx rx)"
proof (cases "rc = 0")
  case False
  with assms show ?thesis
    unfolding gpt_find_boot_partition_def Let_def
    by (auto elim!: bind_SomeE split: if_splits dest!: failed_code)
next
  case True
  with assms obtain r0 t0 t1 t2 t3 t4 t5 t6 t7 t8 where
    "op_init_sd D s = Some (r0, t0)" "op_put D (bytes_of ''sd initialized!'' @ crlf) t0 = Some t1"
    "op_sd_copy D b1 1 1 t1 = Some (0, t2)" "gpt_print_header D (pth_at b1 t2) t2 = Some t3"
    "op_sd_copy D b2 (ucast (partition_entries_lba (pth_at b1 t3))) 1 t3 = Some (0, t4)"
    "gpt_print_entries D b2 0 4 t4 = Some t5" "op_put D (bytes_of ''copying boot image '') t5 = Some t6"
    "(if nl then op_put D crlf t6 else Some t6) = Some t7"
    "op_sd_copy D dest (ucast (first_lba (entry_at b2 t7)))
       (ucast (last_lba (entry_at b2 t7) - first_lba (entry_at b2 t7) + 1)) t7 = Some (0, t8)"
    "op_put D (bytes_of '' done!'' @ crlf) t8 = Some s'"
    unfolding gpt_find_boot_partition_def Let_def
    by (elim bind_SomeE)
      (auto elim!: bind_SomeE split: if_splits prod.splits simp: failed_not_ok)
  note steps = this
  from movesD [OF init_moves steps(1)] obtain tx0 rx0 where t0: "sent t0 = sent s @ tx0"
    "received t0 = received s @ rx0" "ram t0 = ram s" by (auto simp: grows_def)
  note t1 = put_eqs [OF steps(2)]
  from copy_ok [OF steps(3)] obtain hdr tx1 rx1 where c1: "transcript (ram t1) b1 1 1 hdr tx1 rx1"
    "sent t2 = sent t1 @ tx1" "received t2 = received t1 @ rx1" "ram t2 = put_bytes b1 hdr (ram t1)"
    by blast
  note t3 = header_eqs [OF steps(4)]
  from copy_ok [OF steps(5)] obtain ents tx2 rx2 where
    c2: "transcript (ram t3) b2 (ucast (partition_entries_lba (pth_at b1 t3))) 1 ents tx2 rx2"
    "sent t4 = sent t3 @ tx2" "received t4 = received t3 @ rx2" "ram t4 = put_bytes b2 ents (ram t3)"
    by blast
  note t6 = entries_eqs [OF steps(6)] put_eqs [OF steps(7)]
  have t7: "sent t7 = sent t6" "received t7 = received t6" "ram t7 = ram t6"
    using steps(8) put_eqs [of crlf t6 t7] by (auto split: if_splits)
  from copy_ok [OF steps(9)] obtain img tx3 rx3 where
    c3: "transcript (ram t7) dest (ucast (first_lba (entry_at b2 t7)))
       (ucast (last_lba (entry_at b2 t7) - first_lba (entry_at b2 t7) + 1)) img tx3 rx3"
    "sent t8 = sent t7 @ tx3" "received t8 = received t7 @ rx3" "ram t8 = put_bytes dest img (ram t7)"
    by blast
  note s' = put_eqs [OF steps(10)]
  have "length hdr = 512" "length ents = 512"
    using copy_length [OF c1(1)] copy_length [OF c2(1)] by simp_all
  then have p: "pth_at b1 t3 = parse_pth (take 96 hdr)" "entry_at b2 t7 = parse_entry (take 128 ents)"
    using c1(4) c2(4) t1 t3 t6 t7 by (simp_all add: pth_at_def entry_at_def get_put_prefix)
  have m: "ram t1 = ram s" "ram t3 = put_bytes b1 hdr (ram s)"
    "ram t7 = put_bytes b2 ents (put_bytes b1 hdr (ram s))"
    "ram s' = put_bytes dest img (put_bytes b2 ents (put_bytes b1 hdr (ram s)))"
    using t0 t1 t3 t6 t7 c1(4) c2(4) c3(4) s' by simp_all
  have "gpt_loaded transcript b1 b2 dest (ram s) (ram s') (tx0 @ tx1 @ tx2 @ tx3) (rx0 @ rx1 @ rx2 @ rx3)"
    by (rule gpt_loadedI) (use c1(1) c2(1) c3(1) p m in simp_all)
  moreover have "sent s' = sent s @ tx0 @ tx1 @ tx2 @ tx3" "received s' = received s @ rx0 @ rx1 @ rx2 @ rx3"
    using t0 t1 t3 t6 t7 c1 c2 c3 s' by simp_all
  ultimately show ?thesis using True by blast
qed

end

section \<open>The SD card as a block device\<close>

definition sd_card :: "board \<Rightarrow> blk_ops" where
  "sd_card B = \<lparr>op_init_sd = init_sd (xilinx_spi B), op_sd_copy = sd_copy (xilinx_spi B),
     op_put = say B, op_put_int = print_uart_int (write_serial B),
     op_put_addr = print_uart_addr (write_serial B), op_put_byte = print_uart_byte (write_serial B)\<rparr>"

text \<open>A card leaves its idle state (documented behaviour: initialisation ends).\<close>

definition card_wakes :: "board \<Rightarrow> bool" where
  "card_wakes B \<longleftrightarrow>
     (\<forall>s. spi_live B s \<longrightarrow> poll (sd_acmd41_pass (xilinx_spi B)) (\<lambda>r. r \<noteq> 0x1) s \<noteq> None)"

definition sd_ok :: "board \<Rightarrow> machine \<Rightarrow> bool" where
  "sd_ok B s \<longleftrightarrow> spi_live B s \<and> card_sends B \<and> card_wakes B"

definition sd_transcript ::
    "(u64 \<Rightarrow> u8) \<Rightarrow> u64 \<Rightarrow> u32 \<Rightarrow> u32 \<Rightarrow> u8 list \<Rightarrow> u8 list \<Rightarrow> u8 list \<Rightarrow> bool" where
  "sd_transcript m dst lba n data tx rx \<longleftrightarrow>
     (\<exists>k j pre st post. read_outcome 0 (max 1 (unat n)) data st \<and> rx = pre @ st @ post
       \<and> tx = cmd_frame 18 lba 1 @ replicate k 0xff @ cmd_frame 12 0 1 @ replicate j 0xff)"

lemma sd_ok_goes: "goes (spi_live B) f \<Longrightarrow> goes (sd_ok B) f"
  "goes0 (spi_live B) g \<Longrightarrow> goes0 (sd_ok B) g"
  unfolding goes_def goes0_def sd_ok_def by blast+

lemma sd_copy_goes: "goes (sd_ok B) (sd_copy (xilinx_spi B) dst lba n)"
proof (rule goesI)
  fix s assume "sd_ok B s"
  then have "spi_live B s" "card_sends B" "card_wakes B" by (simp_all add: sd_ok_def)
  with xspi.copy_live [of B s dst lba n] show
    "\<exists>v s'. sd_copy (xilinx_spi B) dst lba n s = Some (v, s') \<and> sd_ok B s'"
    unfolding card_sends_def sd_ok_def by blast
qed

lemma init_sd_goes: "goes (sd_ok B) (init_sd (xilinx_spi B))"
proof (rule goesI)
  fix s assume "sd_ok B s"
  then have "spi_live B s" "card_sends B" "card_wakes B" by (simp_all add: sd_ok_def)
  with goesD [OF xspi.init_sd_live [of B]] show
    "\<exists>v s'. init_sd (xilinx_spi B) s = Some (v, s') \<and> sd_ok B s'"
    unfolding card_wakes_def sd_ok_def by blast
qed

lemma sd_copy_transcript:
  assumes "sd_copy (xilinx_spi B) dst lba n s = Some (0, s')"
  shows "\<exists>data tx rx. sd_transcript (ram s) dst lba n data tx rx \<and> mosi (hist s') = mosi (hist s) @ tx
    \<and> miso (hist s') = miso (hist s) @ rx \<and> ram s' = put_bytes dst data (ram s)"
  using assms
proof (cases rule: xspi.copy_cases)
  case (read pre post data st k j)
  then show ?thesis unfolding sd_transcript_def by blast
qed simp

lemma read_outcome_0_length: "read_outcome 0 n data st \<Longrightarrow> length data = 512 * n"
  by (auto simp: read_outcome_def dest!: good_blocks_length)

lemma still_spi_view:
  assumes "\<And>s s'. f s = Some s' \<Longrightarrow> spi_view s' = spi_view s"
  shows "moves0 (still (\<lambda>s. mosi (hist s)) (\<lambda>s. miso (hist s))) f"
  by (rule moves0I) (use spi_viewD [OF assms] in \<open>unfold still_def, blast\<close>)

lemma print_int_spi_view: "print_uart_int (write_serial B) w s = Some s' \<Longrightarrow> spi_view s' = spi_view s"
  by (auto simp: print_uart_int_def intro!: beside_uart_spi_view [of B] dest: uart.print_hex_keep)

lemma print_int_live: "spi_live B s \<Longrightarrow> \<exists>s'. print_uart_int (write_serial B) w s = Some s' \<and> spi_live B s'"
  using uart.print_hex_total [of B s 4 w] by (auto simp: spi_live_def print_uart_int_def)

interpretation sd: block_device "sd_card B" "\<lambda>s. mosi (hist s)" "\<lambda>s. miso (hist s)" "sd_ok B" sd_transcript
  for B
proof unfold_locales
  show "moves (grows (\<lambda>s. mosi (hist s)) (\<lambda>s. miso (hist s))) (op_init_sd (sd_card B))"
    using xspi.init_sd_traffic by (simp add: sd_card_def)
  show "goes (sd_ok B) (op_init_sd (sd_card B))"
    using init_sd_goes by (simp add: sd_card_def)
  show "goes (sd_ok B) (op_sd_copy (sd_card B) dst lba n)" for dst lba n
    using sd_copy_goes by (simp add: sd_card_def)
  show "\<exists>data tx rx. sd_transcript (ram s) dst lba n data tx rx \<and> mosi (hist s') = mosi (hist s) @ tx
    \<and> miso (hist s') = miso (hist s) @ rx \<and> ram s' = put_bytes dst data (ram s)"
    if "op_sd_copy (sd_card B) dst lba n s = Some (0, s')" for dst lba n s s'
    using sd_copy_transcript that by (simp add: sd_card_def)
  show "length data = 512 * unat n" if "sd_transcript m dst lba n data tx rx" "0 < n"
    for m dst lba n data tx rx
  proof -
    from that(2) have "max 1 (unat n) = unat n"
      by (simp add: max_def word_less_nat_alt Suc_le_eq)
    with that(1) show ?thesis
      by (auto simp: sd_transcript_def dest: read_outcome_0_length)
  qed
  show "moves0 (still (\<lambda>s. mosi (hist s)) (\<lambda>s. miso (hist s))) (op_put (sd_card B) str)"
    "moves0 (still (\<lambda>s. mosi (hist s)) (\<lambda>s. miso (hist s))) (op_put_int (sd_card B) w)"
    "moves0 (still (\<lambda>s. mosi (hist s)) (\<lambda>s. miso (hist s))) (op_put_addr (sd_card B) a)"
    "moves0 (still (\<lambda>s. mosi (hist s)) (\<lambda>s. miso (hist s))) (op_put_byte (sd_card B) b)" for str w a b
    unfolding sd_card_def blk_ops.simps
    by (rule still_spi_view, erule say_spi_view print_int_spi_view print_addr_spi_view print_byte_spi_view)+
  show "goes0 (sd_ok B) (op_put (sd_card B) str)" "goes0 (sd_ok B) (op_put_int (sd_card B) w)"
    "goes0 (sd_ok B) (op_put_addr (sd_card B) a)" "goes0 (sd_ok B) (op_put_byte (sd_card B) b)"
    for str w a b
    unfolding sd_card_def blk_ops.simps
    by (rule sd_ok_goes, rule goes0I, erule say_live print_addr_live print_byte_live, blast
        | rule sd_ok_goes, rule goes0I, erule print_int_live)+
qed

section \<open>Properties of the partition loader\<close>


text \<open>A device that always answers 0xfe: the card never accepts a command.\<close>

lemma quiet_card_ok: "sd_ok (quiet_board 0x20 0xFE) reset_machine"
proof -
  let ?L = "xilinx_spi (quiet_board 0x20 0xFE)"
  have answer: "r = 0xFE" if "sd_dummy ?L s = Some (r, t)" for s r t
    using that by (auto simp: sd_dummy_def xilinx_spi_def quiet_board_def elim!: spi_txrx_cases)
  have resp: "r = 0xFE" if "sd_response ?L n s = Some (r, t)" for n s r t
    using that
  proof (induction n arbitrary: s rule: less_induct)
    case (less n)
    from less.prems obtain v u where d: "sd_dummy ?L s = Some (v, u)"
      and rest: "(if v AND 0x80 = 0 then Some (v, u)
        else if n - 1 > 0 then sd_response ?L (n - 1) u else Some (v, u)) = Some (r, t)"
      by (subst (asm) sd_response.simps) (auto elim!: bind_pair_SomeE)
    from rest answer [OF d] less.IH [of "n - 1" u] show ?case
      by (auto split: if_splits)
  qed
  have "sd_wait_token ?L s \<noteq> None" if "spi_live (quiet_board 0x20 0xFE) s" for s
    using xspi.dummy_live [OF that] answer
    by (fastforce simp: sd_wait_token_def poll.simps [where ok = "\<lambda>v. v = 0xfe"])
  moreover have "poll (sd_acmd41_pass ?L) (\<lambda>r. r \<noteq> 0x1) s \<noteq> None"
    if "spi_live (quiet_board 0x20 0xFE) s" for s
  proof -
    from goesD [OF xspi.acmd41_pass_ops(2) that] obtain r t where p: "sd_acmd41_pass ?L s = Some (r, t)"
      by blast
    then have "r = 0xFE"
      by (auto simp: sd_acmd41_pass_def sd_cmd_def elim!: bind_SomeE dest!: resp)
    with p show ?thesis by (simp add: poll.simps [where ok = "\<lambda>r. r \<noteq> 0x1"])
  qed
  ultimately show ?thesis
    by (simp add: sd_ok_def card_sends_def card_wakes_def quiet_spi_live)
qed


text \<open>The layout of the structures as the C compiler lays them out.\<close>

definition pth_bytes :: "gpt_pth \<Rightarrow> u8 list" where
  "pth_bytes h = le_enc 8 (signature h) @ le_enc 4 (revision h) @ le_enc 4 (header_size h)
     @ le_enc 4 (crc_header h) @ le_enc 4 (reserved h) @ le_enc 8 (current_lba h)
     @ le_enc 8 (backup_lba h) @ le_enc 8 (first_usable_lba h) @ le_enc 8 (last_usable_lba h)
     @ disk_guid h @ le_enc 8 (partition_entries_lba h) @ le_enc 4 (nr_partition_entries h)
     @ le_enc 4 (size_partition_entry h) @ le_enc 4 (crc_partition_entry h)"

definition entry_bytes :: "partition_entry \<Rightarrow> u8 list" where
  "entry_bytes e = partition_type_guid e @ partition_guid e @ le_enc 8 (first_lba e)
     @ le_enc 8 (last_lba e) @ le_enc 8 (attributes e) @ part_name e"

lemma field_at:
  assumes "length pre = off" "length x = n"
  shows "field (pre @ x @ post) off n = x"
  using assms by (simp add: field_def)

text \<open>Whatever follows them in the block, a header and an entry laid out in memory field by field
  are read back as they were: the offsets the casts in the code rely on are those of the
  structures, 92 bytes of header and 128 bytes per entry.\<close>

theorem gpt_structs_roundtrip:
  assumes "length (disk_guid h) = 16" "length (partition_type_guid e) = 16"
    "length (partition_guid e) = 16" "length (part_name e) = 72"
  shows "parse_pth (pth_bytes h @ rest) = h \<and> parse_entry (entry_bytes e @ rest') = e
    \<and> length (pth_bytes h) = 92 \<and> length (entry_bytes e) = 128"
proof -
  have [simp]: "le_dec (le_enc 8 w) = w" "le_dec (le_enc 4 v) = v" for w :: u64 and v :: u32
    by (simp_all add: le_dec_enc)
  have "parse_pth (pth_bytes h @ rest) = h"
    using assms(1) by (simp add: parse_pth_def pth_bytes_def field_def)
  moreover have "parse_entry (entry_bytes e @ rest') = e"
    using assms(2-) by (simp add: parse_entry_def entry_bytes_def field_def)
  ultimately show ?thesis
    using assms by (simp add: pth_bytes_def entry_bytes_def)
qed

theorem gpt_structs_roundtrip_witness:
  "first_lba (parse_entry (entry_bytes \<lparr>partition_type_guid = replicate 16 1,
     partition_guid = replicate 16 2, first_lba = 0x800, last_lba = 0x10000, attributes = 0,
     part_name = replicate 72 0\<rparr> @ [])) = 0x800"
  using gpt_structs_roundtrip [of "\<lparr>signature = 0, revision = 0, header_size = 92, crc_header = 0,
      reserved = 0, current_lba = 1, backup_lba = 0, first_usable_lba = 0, last_usable_lba = 0,
      disk_guid = replicate 16 0, partition_entries_lba = 2, nr_partition_entries = 128,
      size_partition_entry = 128, crc_partition_entry = 0\<rparr>"
    "\<lparr>partition_type_guid = replicate 16 1, partition_guid = replicate 16 2, first_lba = 0x800,
      last_lba = 0x10000, attributes = 0, part_name = replicate 72 0\<rparr>" "[]" "[]"]
  by simp

end
