(* ===== verification/Openpiton.thy ===== *)
theory Openpiton
  imports Gpt
begin

text \<open>
  The OpenPiton boot ROM: its UART has a decimal print routine, its \<open>sd.c\<close> is a
  copy out of a memory-mapped window, and \<open>gpt.c\<close> is the file of the FPGA port.
  The locale \<open>block_device\<close> is interpreted on this \<open>sd.c\<close> too, so the loader's
  lemmas hold here without further proof.
\<close>

section \<open>Printing\<close>

text \<open>\<open>print_uart\<close> of this port counts the characters it prints.\<close>

primrec print_uart_count :: "(u8 \<Rightarrow> 's \<Rightarrow> 's option) \<Rightarrow> u8 list \<Rightarrow> nat \<Rightarrow> 's \<Rightarrow> (nat \<times> 's) option" where
  "print_uart_count tx [] num s = Some (num, s)"
| "print_uart_count tx (c # cur) num s =
     (if c = 0 then Some (num, s) else do { s \<leftarrow> tx c s; print_uart_count tx cur (num + 1) s })"

text \<open>The loop of \<open>print_uart_dec\<close> with \<open>i = n - 1\<close> next.\<close>

primrec print_uart_dec_loop ::
    "(u8 \<Rightarrow> 's \<Rightarrow> 's option) \<Rightarrow> nat \<Rightarrow> u32 \<Rightarrow> u32 \<Rightarrow> u32 \<Rightarrow> nat \<Rightarrow> 's \<Rightarrow> (nat \<times> 's) option" where
  "print_uart_dec_loop tx 0 val k digits num s = Some (num, s)"
| "print_uart_dec_loop tx (Suc i) val k digits num s =
     (let cur = val div k; val = val - cur * k; k = k div 10
      in if cur \<noteq> 0 \<or> of_nat i < digits
         then do {
           s \<leftarrow> tx (bin_to_hex_table ! unat (cur AND 0xf)) s;
           print_uart_dec_loop tx i val k (of_nat i) (num + 1) s
         }
         else print_uart_dec_loop tx i val k digits num s)"

definition print_uart_dec :: "(u8 \<Rightarrow> 's \<Rightarrow> 's option) \<Rightarrow> u32 \<Rightarrow> u32 \<Rightarrow> 's \<Rightarrow> (nat \<times> 's) option" where
  "print_uart_dec tx val digits s = print_uart_dec_loop tx 10 val 1000000000 digits 0 s"

section \<open>The memory-mapped card\<close>

definition PITON_SD_BASE_ADDR :: u64 where "PITON_SD_BASE_ADDR = 0xf000000000"

text \<open>\<open>*(p++) = *(addr++)\<close> on \<open>uint64_t\<close>, \<open>n\<close> times.\<close>

definition load_u64 :: "u64 \<Rightarrow> machine \<Rightarrow> u64" where
  "load_u64 a s = le_dec (get_bytes a 8 (ram s))"

definition store_u64 :: "u64 \<Rightarrow> u64 \<Rightarrow> machine \<Rightarrow> machine" where
  "store_u64 a v s = s\<lparr>ram := put_bytes a (le_enc 8 v) (ram s)\<rparr>"

primrec copy_dwords :: "nat \<Rightarrow> u64 \<Rightarrow> u64 \<Rightarrow> machine \<Rightarrow> machine" where
  "copy_dwords 0 addr p s = s"
| "copy_dwords (Suc n) addr p s = copy_dwords n (addr + 8) (p + 8) (store_u64 p (load_u64 addr s) s)"

primrec print_backspaces :: "(u8 \<Rightarrow> 's \<Rightarrow> 's option) \<Rightarrow> nat \<Rightarrow> 's \<Rightarrow> 's option" where
  "print_backspaces tx 0 s = Some s"
| "print_backspaces tx (Suc n) s = do { s \<leftarrow> print_uart tx [8] s; print_backspaces tx n s }"

text \<open>The progress line, and the number of its characters.\<close>

definition piton_progress ::
    "(u8 \<Rightarrow> 's \<Rightarrow> 's option) \<Rightarrow> u32 \<Rightarrow> u32 \<Rightarrow> u32 \<Rightarrow> 's \<Rightarrow> (u32 \<times> 's) option" where
  "piton_progress tx num_chars blk sz s = do {
     s \<leftarrow> print_backspaces tx (unat num_chars) s;
     (n1, s) \<leftarrow> print_uart_count tx (bytes_of ''copying block '') 0 s;
     (n2, s) \<leftarrow> print_uart_dec tx blk 1 s;
     (n3, s) \<leftarrow> print_uart_count tx (bytes_of '' of '') 0 s;
     (n4, s) \<leftarrow> print_uart_dec tx sz 1 s;
     (n5, s) \<leftarrow> print_uart_count tx (bytes_of '' blocks ('') 0 s;
     (n6, s) \<leftarrow> print_uart_dec tx (blk * 100 div sz) 1 s;
     (n7, s) \<leftarrow> print_uart_count tx (bytes_of '' %)'') 0 s;
     Some (of_nat (n1 + n2 + n3 + n4 + n5 + n6 + n7), s)
   }"

text \<open>The loop over \<open>blk\<close>, with \<open>n = size - blk\<close> passes left.\<close>

primrec piton_copy_loop ::
    "(u8 \<Rightarrow> machine \<Rightarrow> machine option) \<Rightarrow> u32 \<Rightarrow> nat \<Rightarrow> u32 \<Rightarrow> u32 \<Rightarrow> u64 \<Rightarrow> u64 \<Rightarrow> machine \<Rightarrow> machine option" where
  "piton_copy_loop tx sz 0 blk num_chars addr p s = Some s"
| "piton_copy_loop tx sz (Suc n) blk num_chars addr p s = do {
     (num_chars, s) \<leftarrow> (if blk mod 100 = 0 then piton_progress tx num_chars blk sz s
                       else Some (num_chars, s));
     let s = copy_dwords 64 addr p s;
     piton_copy_loop tx sz n (blk + 1) num_chars (addr + 512) (p + 512) s
   }"

definition piton_init_sd :: "(u8 \<Rightarrow> machine \<Rightarrow> machine option) \<Rightarrow> machine \<Rightarrow> (int \<times> machine) option" where
  "piton_init_sd tx s = do {
     s \<leftarrow> print_uart tx (bytes_of ''initializing SD... '' @ crlf) s;
     Some (0, s)
   }"

definition piton_sd_copy ::
    "(u8 \<Rightarrow> machine \<Rightarrow> machine option) \<Rightarrow> u64 \<Rightarrow> u32 \<Rightarrow> u32 \<Rightarrow> machine \<Rightarrow> (int \<times> machine) option" where
  "piton_sd_copy tx dst src_lba sz s =
     (let raw_addr = PITON_SD_BASE_ADDR + push_bit 9 (ucast src_lba) in do {
        s \<leftarrow> piton_copy_loop tx sz (unat sz) 0 0 raw_addr dst s;
        s \<leftarrow> print_uart tx crlf s;
        Some (0, s)
      })"

definition piton_card :: "board \<Rightarrow> blk_ops" where
  "piton_card B = \<lparr>op_init_sd = piton_init_sd (write_serial B), op_sd_copy = piton_sd_copy (write_serial B),
     op_put = say B, op_put_int = print_uart_int (write_serial B),
     op_put_addr = print_uart_addr (write_serial B), op_put_byte = print_uart_byte (write_serial B)\<rparr>"

text \<open>\<open>main\<close>.  \<open>UART_FREQ\<close> and the banner \<open>info\<close> come from the build; the result of the
  loader is dropped, and \<open>main\<close> returns 0 to the start-up code.\<close>

definition piton_main :: "board \<Rightarrow> u32 \<Rightarrow> u8 list \<Rightarrow> u64 \<Rightarrow> u64 \<Rightarrow> machine \<Rightarrow> (int \<times> machine) option" where
  "piton_main B UART_FREQ info lba1_buf lba2_buf s = do {
     s \<leftarrow> init_uart False B UART_FREQ 115200 s;
     s \<leftarrow> say B info s;
     s \<leftarrow> say B (bytes_of ''sd initialized!'' @ crlf) s;
     (res, s) \<leftarrow> gpt_find_boot_partition (piton_card B) True lba1_buf lba2_buf 0x80000000 (2 * 16384) s;
     Some (0, s)
   }"

section \<open>Decimal output\<close>

definition dec_digit :: "u8 \<Rightarrow> nat option" where
  "dec_digit c = (if 48 \<le> c \<and> c \<le> 57 then Some (unat c - 48) else None)"

fun dec_text_value :: "nat \<Rightarrow> u8 list \<Rightarrow> nat option" where
  "dec_text_value acc [] = Some acc"
| "dec_text_value acc (c # cs) =
     (case dec_digit c of None \<Rightarrow> None | Some d \<Rightarrow> dec_text_value (acc * 10 + d) cs)"

lemma dec_digit_table: "n < 10 \<Longrightarrow> dec_digit (bin_to_hex_table ! n) = Some n"
proof -
  have "\<forall>n \<in> set [0..<10]. dec_digit (bin_to_hex_table ! n) = Some n"
    by (simp add: bin_to_hex_table_def bytes_of_simps dec_digit_def upt_rec)
  then show "n < 10 \<Longrightarrow> dec_digit (bin_to_hex_table ! n) = Some n" by simp
qed

lemma zero_digit: "bin_to_hex_table ! n = 48 \<Longrightarrow> n < 10 \<Longrightarrow> n = 0"
  using dec_digit_table [of n] by (simp add: dec_digit_def)

text \<open>What \<open>n\<close> more positions print: the decimal value, every position when \<open>n\<close> is at most the
  number of digits asked for, and no leading zero beyond it.\<close>

definition dec_output :: "nat \<Rightarrow> u32 \<Rightarrow> u32 \<Rightarrow> u8 list \<Rightarrow> bool" where
  "dec_output n val digits ds \<longleftrightarrow>
     (\<forall>acc. dec_text_value acc ds = Some (acc * 10 ^ length ds + unat val)) \<and> length ds \<le> n
     \<and> (n \<le> unat digits \<longrightarrow> length ds = n)
     \<and> (unat digits < n \<longrightarrow> unat digits \<le> length ds \<and>
          (unat digits < length ds \<longrightarrow> hd ds \<noteq> 48))"

lemma dec_step:
  fixes val k :: u32
  assumes "unat val < 10 ^ Suc i" "unat k = 10 ^ i"
  shows "unat (val div k) = unat val div 10 ^ i" "unat (val div k) < 10"
    "unat (val - val div k * k) = unat val mod 10 ^ i" "unat (k div 10) = 10 ^ i div 10"
    "unat (val div k AND 0xf) = unat (val div k)"
proof -
  show c: "unat (val div k) = unat val div 10 ^ i"
    using assms(2) by (simp add: unat_div)
  with assms(1) show lt: "unat (val div k) < 10"
    by (simp add: less_mult_imp_div_less)
  have "val - val div k * k = val mod k"
    by (simp add: minus_div_mult_eq_mod)
  then show "unat (val - val div k * k) = unat val mod 10 ^ i"
    using assms(2) by (simp add: unat_mod)
  show "unat (k div 10) = 10 ^ i div 10"
    using assms(2) by (simp add: unat_div)
  have m: "(0xf :: u32) = mask 4" by (simp add: mask_eq_exp_minus_1)
  show "unat (val div k AND 0xf) = unat (val div k)"
    unfolding m using lt
    by (simp add: take_bit_eq_mask [symmetric] unsigned_take_bit_eq take_bit_nat_eq_self)
qed

lemma dec_output_digit:
  assumes val: "unat val < 10 ^ Suc i" "unat k = 10 ^ i"
    and print: "val div k \<noteq> 0 \<or> i < unat digits"
    and rest: "dec_output i (val - val div k * k) (of_nat i) ds" and i: "i < 2 ^ 32"
  shows "dec_output (Suc i) val digits (bin_to_hex_table ! unat (val div k AND 0xf) # ds)"
proof -
  note step = dec_step [OF val]
  have len: "length ds = i"
    using rest i by (simp add: dec_output_def unat_of_nat)
  have "dec_digit (bin_to_hex_table ! unat (val div k AND 0xf)) = Some (unat (val div k))"
    using dec_digit_table step by simp
  moreover have "unat (val div k) * 10 ^ i + unat (val - val div k * k) = unat val"
    unfolding step(1,3) by (rule div_mult_mod_eq)
  ultimately have "dec_text_value acc (bin_to_hex_table ! unat (val div k AND 0xf) # ds)
      = Some (acc * 10 ^ Suc i + unat val)" for acc
    using rest len by (simp add: dec_output_def algebra_simps)
  moreover have "bin_to_hex_table ! unat (val div k AND 0xf) \<noteq> 48" if "unat digits < Suc i"
  proof (cases "val div k = 0")
    case True
    with print that show ?thesis by simp
  next
    case False
    then have "unat (val div k) \<noteq> 0" by (simp add: unat_eq_0)
    with zero_digit [of "unat (val div k)"] step(2,5) show ?thesis by auto
  qed
  ultimately show ?thesis
    using len by (auto simp: dec_output_def)
qed

lemma dec_output_skip:
  assumes "unat val < 10 ^ Suc i" "unat k = 10 ^ i" "val div k = 0" "unat digits \<le> i"
    and "dec_output i (val - val div k * k) digits ds"
  shows "dec_output (Suc i) val digits ds"
  using assms by (auto simp: dec_output_def)

context serial_port
begin

lemma print_count_total:
  "ok s \<Longrightarrow> \<exists>s'. print_uart_count tx cs num s = Some (num + length (c_string cs), s') \<and> ok s'
     \<and> out s' = out s @ c_string cs"
proof (induction cs arbitrary: num s)
  case Nil
  then show ?case by (simp add: c_string_def)
next
  case (Cons c cs)
  show ?case
  proof (cases "c = 0")
    case True
    with Cons.prems show ?thesis by (simp add: c_string_def)
  next
    case False
    obtain t where t: "tx c s = Some t" "ok t" "out t = out s @ [c]"
      using tx_total [OF Cons.prems] by blast
    with Cons.IH [of t "num + 1"] False show ?thesis by (auto simp: c_string_def)
  qed
qed

lemma print_dec_loop_total:
  assumes "ok s" "unat val < 10 ^ n" "0 < n \<Longrightarrow> unat k = 10 ^ (n - 1)" "n < 2 ^ 32"
  shows "\<exists>s' ds. print_uart_dec_loop tx n val k digits num s = Some (num + length ds, s') \<and> ok s'
    \<and> out s' = out s @ ds \<and> dec_output n val digits ds"
  using assms
proof (induction n arbitrary: s val k digits num)
  case 0
  then have "val = 0" by (simp add: unat_eq_0)
  with 0 show ?case by (intro exI [of _ s] exI [of _ "[]"]) (simp add: dec_output_def)
next
  case (Suc i)
  define val' where "val' = val - val div k * k"
  from Suc.prems have k: "unat k = 10 ^ i" by simp
  note step = dec_step [OF Suc.prems(2) k]
  have val': "unat val' < 10 ^ i" "0 < i \<Longrightarrow> unat (k div 10) = 10 ^ (i - 1)" "i < 2 ^ 32"
    unfolding val'_def step(3,4) using Suc.prems(4) by (simp_all add: gr0_conv_Suc) auto
  have lt: "of_nat i < digits \<longleftrightarrow> i < unat digits"
    using val'(3) by (simp add: word_less_nat_alt unat_of_nat)
  show ?case
  proof (cases "val div k \<noteq> 0 \<or> i < unat digits")
    case True
    obtain t where t: "tx (bin_to_hex_table ! unat (val div k AND 0xf)) s = Some t" "ok t"
      "out t = out s @ [bin_to_hex_table ! unat (val div k AND 0xf)]"
      using tx_total [OF Suc.prems(1)] by blast
    from Suc.IH [OF t(2) val', of "of_nat i" "num + 1"] obtain s' ds where
      s': "print_uart_dec_loop tx i val' (k div 10) (of_nat i) (num + 1) t = Some (num + 1 + length ds, s')"
      "ok s'" "out s' = out t @ ds" "dec_output i val' (of_nat i) ds" by blast
    from dec_output_digit [OF Suc.prems(2) k True] s'(4) val'(3)
    have "dec_output (Suc i) val digits (bin_to_hex_table ! unat (val div k AND 0xf) # ds)"
      by (simp add: val'_def)
    with True s' t show ?thesis
      unfolding lt [symmetric]
      by (intro exI [of _ s'] exI [of _ "bin_to_hex_table ! unat (val div k AND 0xf) # ds"])
        (simp add: Let_def val'_def)
  next
    case False
    from Suc.IH [OF Suc.prems(1) val', of digits num] obtain s' ds where
      s': "print_uart_dec_loop tx i val' (k div 10) digits num s = Some (num + length ds, s')"
      "ok s'" "out s' = out s @ ds" "dec_output i val' digits ds" by blast
    from dec_output_skip [OF Suc.prems(2) k, of digits ds] s'(4) False
    have "dec_output (Suc i) val digits ds"
      by (simp add: val'_def)
    with False s' show ?thesis
      unfolding lt [symmetric]
      by (intro exI [of _ s'] exI [of _ ds]) (simp add: Let_def val'_def)
  qed
qed

lemma print_dec_total:
  assumes "ok s"
  shows "\<exists>s' ds. print_uart_dec tx val digits s = Some (length ds, s') \<and> ok s'
    \<and> out s' = out s @ ds \<and> dec_output 10 val digits ds"
proof -
  have "unat val < 2 ^ 32" using unsigned_less [of val, where 'a = nat] by simp
  then show ?thesis
    using print_dec_loop_total [OF assms, of val 10 1000000000 digits 0]
    by (simp add: print_uart_dec_def)
qed

lemma print_count_keep: "print_uart_count tx cs num s = Some (n, s') \<Longrightarrow> keep s' = keep s"
  by (induction cs arbitrary: s num) (auto elim!: bind_SomeE dest: tx_keep split: if_splits)

lemma print_dec_keep: "print_uart_dec tx val digits s = Some (n, s') \<Longrightarrow> keep s' = keep s"
proof -
  have "print_uart_dec_loop tx m val k digits num s = Some (n, s') \<Longrightarrow> keep s' = keep s"
    for m val k digits num s
    by (induction m arbitrary: s val k digits num)
      (auto simp: Let_def elim!: bind_SomeE dest: tx_keep split: if_splits)
  then show "print_uart_dec tx val digits s = Some (n, s') \<Longrightarrow> keep s' = keep s"
    by (simp add: print_uart_dec_def)
qed

end

section \<open>The copy\<close>

lemma copy_dwords_view:
  "\<exists>data. length data = 8 * n \<and> ram (copy_dwords n a p s) = put_bytes p data (ram s)
    \<and> hist (copy_dwords n a p s) = hist s \<and> (apart a p (8 * n) \<longrightarrow> data = get_bytes a (8 * n) (ram s))"
proof (induction n arbitrary: a p s)
  case 0
  then show ?case by (simp add: get_bytes_def)
next
  case (Suc n)
  define t where "t = store_u64 p (load_u64 a s) s"
  have t: "ram t = put_bytes p (get_bytes a 8 (ram s)) (ram s)" "hist t = hist s"
    by (simp_all add: t_def store_u64_def load_u64_def le_enc_dec)
  from Suc.IH [of "a + 8" "p + 8" t] obtain data where data: "length data = 8 * n"
    "ram (copy_dwords n (a + 8) (p + 8) t) = put_bytes (p + 8) data (ram t)"
    "hist (copy_dwords n (a + 8) (p + 8) t) = hist t"
    "apart (a + 8) (p + 8) (8 * n) \<longrightarrow> data = get_bytes (a + 8) (8 * n) (ram t)" by blast
  have "get_bytes a 8 (ram s) @ data = get_bytes a (8 + 8 * n) (ram s)" if "apart a p (8 + 8 * n)"
    using data(4) t(1) apart_split(2) [OF that] get_after_put [OF that, of "get_bytes a 8 (ram s)" "ram s"]
    by (simp add: get_bytes_append)
  with data t show ?case
    by (intro exI [of _ "get_bytes a 8 (ram s) @ data"]) (simp add: put_bytes_append t_def)
qed

text \<open>The printing of this port keeps memory, and returns on an open line.\<close>

abbreviation unseen :: "machine \<Rightarrow> u8 list" where
  "unseen \<equiv> (\<lambda>_. [])"

lemma beside_still: "beside_uart B s' = beside_uart B s \<Longrightarrow> still unseen unseen s s'"
  by (simp add: still_def beside_uart_def)

lemma piton_print_ops:
  "moves0 (still unseen unseen) (say B str)" "goes0 (line_open B) (say B str)"
  "moves0 (still unseen unseen) (print_uart_int (write_serial B) w)"
  "goes0 (line_open B) (print_uart_int (write_serial B) w)"
  "moves0 (still unseen unseen) (print_uart_addr (write_serial B) a)"
  "goes0 (line_open B) (print_uart_addr (write_serial B) a)"
  "moves0 (still unseen unseen) (print_uart_byte (write_serial B) b)"
  "goes0 (line_open B) (print_uart_byte (write_serial B) b)"
  "moves (still unseen unseen) (print_uart_count (write_serial B) str n)"
  "goes (line_open B) (print_uart_count (write_serial B) str n)"
  "moves (still unseen unseen) (print_uart_dec (write_serial B) val digits)"
  "goes (line_open B) (print_uart_dec (write_serial B) val digits)"
proof -
  show "moves0 (still unseen unseen) (say B str)"
    by (rule moves0I, rule beside_still, erule uart.print_uart_keep)
  show "moves0 (still unseen unseen) (print_uart_int (write_serial B) w)"
    "moves0 (still unseen unseen) (print_uart_addr (write_serial B) a)"
    unfolding print_uart_int_def print_uart_addr_def
    by (rule moves0I, rule beside_still, erule uart.print_hex_keep)+
  show "moves0 (still unseen unseen) (print_uart_byte (write_serial B) b)"
    by (rule moves0I, rule beside_still, erule uart.print_byte_keep)
  show "moves (still unseen unseen) (print_uart_count (write_serial B) str n)"
    by (rule movesI, rule beside_still, erule uart.print_count_keep)
  show "moves (still unseen unseen) (print_uart_dec (write_serial B) val digits)"
    by (rule movesI, rule beside_still, erule uart.print_dec_keep)
  show "goes0 (line_open B) (say B str)"
    using uart.print_uart_total unfolding goes0_def by metis
  show "goes0 (line_open B) (print_uart_int (write_serial B) w)"
    "goes0 (line_open B) (print_uart_addr (write_serial B) a)"
    unfolding print_uart_int_def print_uart_addr_def goes0_def using uart.print_hex_total by metis+
  show "goes0 (line_open B) (print_uart_byte (write_serial B) b)"
    using uart.print_byte_total unfolding goes0_def by metis
  show "goes (line_open B) (print_uart_count (write_serial B) str n)"
    using uart.print_count_total unfolding goes_def by metis
  show "goes (line_open B) (print_uart_dec (write_serial B) val digits)"
    using uart.print_dec_total unfolding goes_def by metis
qed

lemma print_backspaces_ops:
  "moves0 (still unseen unseen) (print_backspaces (write_serial B) n)
    \<and> goes0 (line_open B) (print_backspaces (write_serial B) n)"
proof (induction n)
  case 0
  have "print_backspaces (write_serial B) 0 = Some" by (rule ext) simp
  then show ?case by (simp add: still_compose goes_compose)
next
  case (Suc n)
  have eq: "print_backspaces (write_serial B) (Suc n)
      = (\<lambda>s. do { s \<leftarrow> say B [8] s; print_backspaces (write_serial B) n s })"
    by (rule ext) simp
  show ?case
    unfolding eq using Suc by (intro conjI still_compose goes_compose piton_print_ops) blast+
qed

lemma piton_progress_ops:
  "moves (still unseen unseen) (piton_progress (write_serial B) num blk sz)"
  "goes (line_open B) (piton_progress (write_serial B) num blk sz)"
  unfolding piton_progress_def
  by (intro still_compose goes_compose piton_print_ops print_backspaces_ops [THEN conjunct1]
      print_backspaces_ops [THEN conjunct2])+

lemma copy_dwords_hist [simp]: "line_open B (copy_dwords n a p s) = line_open B s"
  using copy_dwords_view [of n a p s] by (auto simp: line_open_def)

lemma piton_copy_loop_view:
  assumes "piton_copy_loop (write_serial B) sz n blk num a p s = Some s'"
  shows "\<exists>data. length data = 512 * n \<and> ram s' = put_bytes p data (ram s)
    \<and> (apart a p (512 * n) \<longrightarrow> data = get_bytes a (512 * n) (ram s))"
  using assms
proof (induction n arbitrary: blk num a p s)
  case 0
  then show ?case by (simp add: get_bytes_def)
next
  case (Suc n)
  from Suc.prems obtain num' t where
    t: "(if blk mod 100 = 0 then piton_progress (write_serial B) num blk sz s else Some (num, s)) = Some (num', t)"
    and rest: "piton_copy_loop (write_serial B) sz n (blk + 1) num' (a + 512) (p + 512)
      (copy_dwords 64 a p t) = Some s'"
    by (auto simp: Let_def elim!: bind_pair_SomeE)
  from t have ram_t: "ram t = ram s"
    by (auto split: if_splits dest!: movesD [OF piton_progress_ops(1)] simp: still_def)
  from copy_dwords_view [of 64 a p t] obtain blkdata where blk: "length blkdata = 512"
    "ram (copy_dwords 64 a p t) = put_bytes p blkdata (ram s)"
    "apart a p 512 \<longrightarrow> blkdata = get_bytes a 512 (ram s)"
    by (auto simp: ram_t)
  from Suc.IH [OF rest] obtain data where data: "length data = 512 * n"
    "ram s' = put_bytes (p + 512) data (put_bytes p blkdata (ram s))"
    "apart (a + 512) (p + 512) (512 * n) \<longrightarrow> data = get_bytes (a + 512) (512 * n) (put_bytes p blkdata (ram s))"
    using blk(2) by auto
  have "blkdata @ data = get_bytes a (512 + 512 * n) (ram s)" if "apart a p (512 + 512 * n)"
    using data(3) blk(1,3) apart_split [OF that] get_after_put [OF that, of blkdata "ram s"]
    by (simp add: get_bytes_append)
  with data blk show ?case
    by (intro exI [of _ "blkdata @ data"]) (simp add: put_bytes_append)
qed

lemma piton_copy_loop_goes: "goes0 (line_open B) (piton_copy_loop (write_serial B) sz n blk num a p)"
proof (induction n arbitrary: blk num a p)
  case 0
  then show ?case by (simp add: goes0_def)
next
  case (Suc n)
  show ?case
  proof (rule goes0I)
    fix s assume s: "line_open B s"
    then obtain num' t where
      "(if blk mod 100 = 0 then piton_progress (write_serial B) num blk sz s else Some (num, s)) = Some (num', t)"
      "line_open B t"
      using goesD [OF piton_progress_ops(2) s, of num blk sz] by (cases "blk mod 100 = 0") auto
    then show "\<exists>s'. piton_copy_loop (write_serial B) sz (Suc n) blk num a p s = Some s' \<and> line_open B s'"
      using goes0D [OF Suc.IH, of "copy_dwords 64 a p t" "blk + 1" num' "a + 512" "p + 512"]
      by (simp add: Let_def)
  qed
qed

text \<open>The transcript of this device is in memory: the data is what the window of the card held,
  as long as the destination is outside of the window.\<close>

definition piton_transcript ::
    "(u64 \<Rightarrow> u8) \<Rightarrow> u64 \<Rightarrow> u32 \<Rightarrow> u32 \<Rightarrow> u8 list \<Rightarrow> u8 list \<Rightarrow> u8 list \<Rightarrow> bool" where
  "piton_transcript m dst lba n data tx rx \<longleftrightarrow> tx = [] \<and> rx = [] \<and> length data = 512 * unat n
     \<and> (apart (PITON_SD_BASE_ADDR + 512 * ucast lba) dst (512 * unat n) \<longrightarrow>
         data = get_bytes (PITON_SD_BASE_ADDR + 512 * ucast lba) (512 * unat n) m)"

lemma piton_copy_transcript:
  assumes "piton_sd_copy (write_serial B) dst lba n s = Some (rc, s')"
  shows "rc = 0 \<and> (\<exists>data. piton_transcript (ram s) dst lba n data [] [] \<and> ram s' = put_bytes dst data (ram s))"
proof -
  have addr: "push_bit 9 (ucast lba) = (512 * ucast lba :: u64)"
    by (simp add: push_bit_eq_mult mult.commute)
  from assms obtain t where
    t: "piton_copy_loop (write_serial B) n (unat n) 0 0 (PITON_SD_BASE_ADDR + 512 * ucast lba) dst s = Some t"
    and nl: "say B crlf t = Some s'" and rc: "rc = 0"
    unfolding piton_sd_copy_def Let_def addr by (auto elim!: bind_SomeE)
  from moves0D [OF piton_print_ops(1) nl] have "ram s' = ram t" by (simp add: still_def)
  with piton_copy_loop_view [OF t] rc show ?thesis
    unfolding piton_transcript_def by auto
qed

lemma piton_copy_goes: "goes (line_open B) (piton_sd_copy (write_serial B) dst lba n)"
  unfolding piton_sd_copy_def Let_def
  by (intro goes_compose piton_copy_loop_goes piton_print_ops)

lemma still_grows: "still f g s s' \<Longrightarrow> grows f g s s'"
  by (intro growsI [of _ _ _ "[]" _ "[]"]) (simp_all add: still_def)

interpretation piton: block_device "piton_card B" unseen unseen "line_open B" piton_transcript for B
proof unfold_locales
  show "moves (grows unseen unseen) (op_init_sd (piton_card B))"
  proof -
    have "moves (still unseen unseen) (op_init_sd (piton_card B))"
      unfolding piton_card_def blk_ops.simps piton_init_sd_def
      by (intro still_compose piton_print_ops)
    then show ?thesis by (auto simp: moves_def intro: still_grows)
  qed
  show "goes (line_open B) (op_init_sd (piton_card B))"
    unfolding piton_card_def blk_ops.simps piton_init_sd_def by (intro goes_compose piton_print_ops)
  show "goes (line_open B) (op_sd_copy (piton_card B) dst lba n)" for dst lba n
    using piton_copy_goes by (simp add: piton_card_def)
  show "\<exists>data tx rx. piton_transcript (ram s) dst lba n data tx rx \<and> [] = [] @ tx \<and> [] = [] @ rx
      \<and> ram s' = put_bytes dst data (ram s)"
    if "op_sd_copy (piton_card B) dst lba n s = Some (0, s')" for dst lba n s s'
    using piton_copy_transcript [of B dst lba n s 0 s'] that by (auto simp: piton_card_def)
  show "length data = 512 * unat n" if "piton_transcript m dst lba n data tx rx"
    for m dst lba n data tx rx
    using that by (simp add: piton_transcript_def)
qed (simp_all add: piton_card_def piton_print_ops)

section \<open>Properties of the OpenPiton port\<close>

text \<open>\<open>print_uart_dec\<close> on an open line sends decimal digits that read back to the value, returns
  their number, prints at least as many digits as asked for (at most ten), and never a leading
  zero beyond that number.\<close>

theorem print_uart_dec_readable:
  assumes "line_open B s" and "digits \<le> 10"
  shows "\<exists>s' ds. print_uart_dec (write_serial B) val digits s = Some (length ds, s')
     \<and> uart_out (uregs B) (hist s') = uart_out (uregs B) (hist s) @ ds
     \<and> dec_text_value 0 ds = Some (unat val) \<and> unat digits \<le> length ds \<and> length ds \<le> 10
     \<and> (unat digits < length ds \<longrightarrow> hd ds \<noteq> of_char CHR ''0'')
     \<and> beside_uart B s' = beside_uart B s"
proof -
  obtain s' ds where ds: "print_uart_dec (write_serial B) val digits s = Some (length ds, s')"
    "uart_out (uregs B) (hist s') = uart_out (uregs B) (hist s) @ ds" "dec_output 10 val digits ds"
    using uart.print_dec_total [OF assms(1), of val digits] by blast
  have "unat digits \<le> 10" using assms(2) by (simp add: word_le_nat_alt)
  with ds(3) have "dec_text_value 0 ds = Some (unat val)" "unat digits \<le> length ds" "length ds \<le> 10"
    "unat digits < length ds \<longrightarrow> hd ds \<noteq> of_char CHR ''0''"
    by (cases "unat digits = 10"; simp add: dec_output_def)+
  with ds(1,2) uart.print_dec_keep [OF ds(1)] show ?thesis by blast
qed

theorem print_uart_dec_readable_witness:
  "\<exists>s' ds. print_uart_dec (write_serial (quiet_board 0x20 0)) 65535 1 reset_machine = Some (length ds, s')
     \<and> dec_text_value 0 ds = Some 65535"
  using print_uart_dec_readable [OF quiet_line_open, of 1 0 65535] by auto

text \<open>On OpenPiton the copy always succeeds on an open line: it stores \<open>512 * size\<close> bytes, which
  are those of the window of the card from block \<open>src_lba\<close> on when the destination does not
  overlap them, and changes nothing else in memory.  (A size of 0 copies nothing here, where the
  SD driver of the FPGA copies one block.)\<close>

theorem piton_sd_copy_copies:
  assumes "line_open B s"
    and "apart (PITON_SD_BASE_ADDR + 512 * ucast lba) dst (512 * unat n)"
  shows "\<exists>s'. piton_sd_copy (write_serial B) dst lba n s = Some (0, s') \<and> line_open B s'
     \<and> get_bytes dst (512 * unat n) (ram s')
         = get_bytes (PITON_SD_BASE_ADDR + 512 * ucast lba) (512 * unat n) (ram s)
     \<and> (\<forall>x. (\<forall>i<512 * unat n. x \<noteq> dst + of_nat i) \<longrightarrow> ram s' x = ram s x)"
proof -
  from goesD [OF piton_copy_goes assms(1)] obtain rc s' where
    ret: "piton_sd_copy (write_serial B) dst lba n s = Some (rc, s')" "line_open B s'" by blast
  from piton_copy_transcript [OF ret(1)] assms(2) obtain data where
    data: "rc = 0" "length data = 512 * unat n" "ram s' = put_bytes dst data (ram s)"
      "data = get_bytes (PITON_SD_BASE_ADDR + 512 * ucast lba) (512 * unat n) (ram s)"
    by (auto simp: piton_transcript_def)
  have "unat n < 2 ^ 32" using unsigned_less [of n, where 'a = nat] by simp
  then have "length data \<le> 2 ^ 64" using data(2) by simp
  from get_put_bytes [OF this, of dst "ram s"] have
    "get_bytes dst (512 * unat n) (ram s') = data" using data(2,3) by simp
  moreover have "\<forall>x. (\<forall>i<512 * unat n. x \<noteq> dst + of_nat i) \<longrightarrow> ram s' x = ram s x"
    using data(2,3) put_bytes_other by metis
  ultimately show ?thesis using ret data(1,4) by blast
qed

lemma apart_below:
  assumes "unat p + n \<le> unat a" "unat a + n \<le> 2 ^ 64"
  shows "apart a p n"
  unfolding apart_def
proof (intro allI impI)
  fix i j assume "i < n" "j < n"
  with assms have "unat (a + of_nat i) = unat a + i" "unat (p + of_nat j) = unat p + j"
    by (simp_all add: unat_add_lem [THEN iffD1] unat_of_nat)
  with assms \<open>i < n\<close> \<open>j < n\<close> show "a + of_nat i \<noteq> p + of_nat j" by force
qed

theorem piton_sd_copy_copies_witness:
  "\<exists>s'. piton_sd_copy (write_serial (quiet_board 0x20 0)) 0x80000000 2048 2 reset_machine = Some (0, s')
     \<and> get_bytes 0x80000000 1024 (ram s') = replicate 1024 0"
proof -
  have "apart (PITON_SD_BASE_ADDR + 512 * ucast (2048 :: u32)) 0x80000000 (512 * unat (2 :: u32))"
    by (rule apart_below) (simp_all add: PITON_SD_BASE_ADDR_def)
  from piton_sd_copy_copies [OF quiet_line_open this, of 0] show ?thesis
    by (auto simp: get_bytes_def reset_machine_def map_replicate_const)
qed

text \<open>C37. The same loader against this device: it always returns 0 on an open line, and memory holds the
  header, the entries and the image of the first partition as the window of the card has them.\<close>

theorem piton_loads_partition:
  assumes "line_open B s"
  shows "\<exists>s' rc. gpt_find_boot_partition (piton_card B) True b1 b2 dest sz s = Some (rc, s')
     \<and> line_open B s' \<and> rc = 0 \<and> gpt_loaded piton_transcript b1 b2 dest (ram s) (ram s') [] []"
proof -
  from goesD [OF piton.gpt_goes assms, of True b1 b2 dest sz] obtain rc s' where
    ret: "gpt_find_boot_partition (piton_card B) True b1 b2 dest sz s = Some (rc, s')" "line_open B s'"
    by blast
  have "rc = 0"
    using ret(1) unfolding gpt_find_boot_partition_def Let_def
    by (auto elim!: bind_SomeE split: if_splits dest!: piton_copy_transcript
        simp: piton_card_def piton_init_sd_def)
  with piton.gpt_outcome [OF ret(1)] ret show ?thesis by auto
qed

theorem piton_loads_partition_witness:
  "\<exists>s'. gpt_find_boot_partition (piton_card (quiet_board 0x20 0)) True 0x90000000 0x90000200 0x80000000
      32768 reset_machine = Some (0, s')"
  using piton_loads_partition [OF quiet_line_open, of 0 "0x90000000" "0x90000200" "0x80000000" 32768]
  by blast

end
