(* ===== verification/Dwmmc.thy ===== *)
theory Dwmmc
  imports Gpt
begin

text \<open>
  The DesignWare MMC host driver \<open>dw_mmc.c\<close> of the Agilex FPGA port, with its
  registers from \<open>dwmmc.h\<close> and the command and data structures of \<open>mmc.h\<close>.
  \<open>FIFO_MODE\<close> is defined to 1, so data is read word by word from the FIFO; the
  descriptor and bounce-buffer paths are not compiled in effect and are left out.

  \<open>readl\<close>, \<open>writel\<close>, \<open>udelay\<close> and the error numbers come from headers that are not
  part of the repository (\<open>bootrom_io.h\<close>, \<open>bootrom_time.h\<close>, \<open>bootrom_errno.h\<close>), so
  they are fields of a record, together with the print routines.
\<close>

record dw_host =
  h_readl :: "u32 \<Rightarrow> machine \<Rightarrow> u32 \<times> machine"
  h_writel :: "u32 \<Rightarrow> u32 \<Rightarrow> machine \<Rightarrow> machine"
  h_udelay :: "u32 \<Rightarrow> machine \<Rightarrow> machine"
  h_put :: "u8 list \<Rightarrow> machine \<Rightarrow> machine option"
  h_put_int :: "u32 \<Rightarrow> machine \<Rightarrow> machine option"
  ETIMEDOUT :: int
  EINVAL :: int
  EBUSY :: int
  EIO :: int

section \<open>Registers and bits\<close>

datatype dwmci_reg =
    DWMCI_CTRL | DWMCI_PWREN | DWMCI_CLKDIV | DWMCI_CLKSRC | DWMCI_CLKENA | DWMCI_TMOUT
  | DWMCI_CTYPE | DWMCI_BLKSIZ | DWMCI_BYTCNT | DWMCI_INTMASK | DWMCI_CMDARG | DWMCI_CMD
  | DWMCI_RESP0 | DWMCI_RESP1 | DWMCI_RESP2 | DWMCI_RESP3 | DWMCI_MINTSTS | DWMCI_RINTSTS
  | DWMCI_STATUS | DWMCI_FIFOTH | DWMCI_CDETECT | DWMCI_WRTPRT | DWMCI_GPIO | DWMCI_TCMCNT
  | DWMCI_TBBCNT | DWMCI_DEBNCE | DWMCI_USRID | DWMCI_VERID | DWMCI_HCON | DWMCI_UHS_REG
  | DWMCI_BMOD | DWMCI_PLDMND | DWMCI_DBADDR | DWMCI_IDSTS | DWMCI_IDINTEN | DWMCI_DSCADDR
  | DWMCI_BUFADDR | DWMCI_DATA

primrec dwmci_offset :: "dwmci_reg \<Rightarrow> u32" where
  "dwmci_offset DWMCI_CTRL = 0x000" | "dwmci_offset DWMCI_PWREN = 0x004"
| "dwmci_offset DWMCI_CLKDIV = 0x008" | "dwmci_offset DWMCI_CLKSRC = 0x00C"
| "dwmci_offset DWMCI_CLKENA = 0x010" | "dwmci_offset DWMCI_TMOUT = 0x014"
| "dwmci_offset DWMCI_CTYPE = 0x018" | "dwmci_offset DWMCI_BLKSIZ = 0x01C"
| "dwmci_offset DWMCI_BYTCNT = 0x020" | "dwmci_offset DWMCI_INTMASK = 0x024"
| "dwmci_offset DWMCI_CMDARG = 0x028" | "dwmci_offset DWMCI_CMD = 0x02C"
| "dwmci_offset DWMCI_RESP0 = 0x030" | "dwmci_offset DWMCI_RESP1 = 0x034"
| "dwmci_offset DWMCI_RESP2 = 0x038" | "dwmci_offset DWMCI_RESP3 = 0x03C"
| "dwmci_offset DWMCI_MINTSTS = 0x040" | "dwmci_offset DWMCI_RINTSTS = 0x044"
| "dwmci_offset DWMCI_STATUS = 0x048" | "dwmci_offset DWMCI_FIFOTH = 0x04C"
| "dwmci_offset DWMCI_CDETECT = 0x050" | "dwmci_offset DWMCI_WRTPRT = 0x054"
| "dwmci_offset DWMCI_GPIO = 0x058" | "dwmci_offset DWMCI_TCMCNT = 0x05C"
| "dwmci_offset DWMCI_TBBCNT = 0x060" | "dwmci_offset DWMCI_DEBNCE = 0x064"
| "dwmci_offset DWMCI_USRID = 0x068" | "dwmci_offset DWMCI_VERID = 0x06C"
| "dwmci_offset DWMCI_HCON = 0x070" | "dwmci_offset DWMCI_UHS_REG = 0x074"
| "dwmci_offset DWMCI_BMOD = 0x080" | "dwmci_offset DWMCI_PLDMND = 0x084"
| "dwmci_offset DWMCI_DBADDR = 0x088" | "dwmci_offset DWMCI_IDSTS = 0x08C"
| "dwmci_offset DWMCI_IDINTEN = 0x090" | "dwmci_offset DWMCI_DSCADDR = 0x094"
| "dwmci_offset DWMCI_BUFADDR = 0x098" | "dwmci_offset DWMCI_DATA = 0x200"

definition MMC_BASE_ADDR :: u32 where "MMC_BASE_ADDR = 0xFF808000"

text \<open>The interrupt bits of \<open>DWMCI_RINTSTS\<close>.\<close>

datatype dwmci_int =
    INTMSK_RE | INTMSK_CDONE | INTMSK_DTO | INTMSK_TXDR | INTMSK_RXDR | INTMSK_RCRC | INTMSK_DCRC
  | INTMSK_RTO | INTMSK_DRTO | INTMSK_HTO | INTMSK_FRUN | INTMSK_HLE | INTMSK_SBE | INTMSK_ACD
  | INTMSK_EBE

primrec int_bit :: "dwmci_int \<Rightarrow> nat" where
  "int_bit INTMSK_RE = 1" | "int_bit INTMSK_CDONE = 2" | "int_bit INTMSK_DTO = 3"
| "int_bit INTMSK_TXDR = 4" | "int_bit INTMSK_RXDR = 5" | "int_bit INTMSK_RCRC = 6"
| "int_bit INTMSK_DCRC = 7" | "int_bit INTMSK_RTO = 8" | "int_bit INTMSK_DRTO = 9"
| "int_bit INTMSK_HTO = 10" | "int_bit INTMSK_FRUN = 11" | "int_bit INTMSK_HLE = 12"
| "int_bit INTMSK_SBE = 13" | "int_bit INTMSK_ACD = 14" | "int_bit INTMSK_EBE = 15"

definition int_mask :: "dwmci_int \<Rightarrow> u32" where "int_mask b = push_bit (int_bit b) 1"

definition DWMCI_DATA_ERR :: u32 where
  "DWMCI_DATA_ERR = int_mask INTMSK_EBE OR int_mask INTMSK_SBE OR int_mask INTMSK_HLE
     OR int_mask INTMSK_FRUN OR int_mask INTMSK_EBE OR int_mask INTMSK_DCRC"

definition DWMCI_DATA_TOUT :: u32 where
  "DWMCI_DATA_TOUT = int_mask INTMSK_HTO OR int_mask INTMSK_DRTO"

definition DWMCI_RESET_ALL :: u32 where "DWMCI_RESET_ALL = 1 OR 2 OR 4"
definition DWMCI_CTRL_FIFO_RESET :: u32 where "DWMCI_CTRL_FIFO_RESET = 2"

definition DWMCI_FIFO_EMPTY :: u32 where "DWMCI_FIFO_EMPTY = 0x4"
definition DWMCI_BUSY :: u32 where "DWMCI_BUSY = 0x200"

text \<open>The bits of the command register.\<close>

definition DWMCI_CMD_RESP_EXP :: u32 where "DWMCI_CMD_RESP_EXP = push_bit 6 1"
definition DWMCI_CMD_RESP_LENGTH :: u32 where "DWMCI_CMD_RESP_LENGTH = push_bit 7 1"
definition DWMCI_CMD_CHECK_CRC :: u32 where "DWMCI_CMD_CHECK_CRC = push_bit 8 1"
definition DWMCI_CMD_DATA_EXP :: u32 where "DWMCI_CMD_DATA_EXP = push_bit 9 1"
definition DWMCI_CMD_PRV_DAT_WAIT :: u32 where "DWMCI_CMD_PRV_DAT_WAIT = push_bit 13 1"
definition DWMCI_CMD_ABORT_STOP :: u32 where "DWMCI_CMD_ABORT_STOP = push_bit 14 1"
definition DWMCI_CMD_USE_HOLD_REG :: u32 where "DWMCI_CMD_USE_HOLD_REG = push_bit 29 1"
definition DWMCI_CMD_START :: u32 where "DWMCI_CMD_START = push_bit 31 1"

text \<open>Response types.\<close>

definition MMC_RSP_PRESENT :: u32 where "MMC_RSP_PRESENT = 1"
definition MMC_RSP_136 :: u32 where "MMC_RSP_136 = 2"
definition MMC_RSP_CRC :: u32 where "MMC_RSP_CRC = 4"
definition MMC_RSP_BUSY :: u32 where "MMC_RSP_BUSY = 8"
definition MMC_RSP_R1 :: u32 where "MMC_RSP_R1 = 1 OR 4 OR 16"

record mmc_cmd =
  cmdidx :: u8
  resp_type :: u32
  cmdarg :: u32
  response :: "u32 list"

record mmc_data =
  data_dest :: u64
  data_flags :: u32
  data_blocks :: u32
  data_blocksize :: u32

section \<open>Register access\<close>

definition print_access :: "dw_host \<Rightarrow> string \<Rightarrow> string \<Rightarrow> u32 \<Rightarrow> u32 \<Rightarrow> machine \<Rightarrow> machine option" where
  "print_access H what sep a val s = do {
     s \<leftarrow> h_put H (bytes_of what) s;
     s \<leftarrow> h_put_int H a s;
     s \<leftarrow> h_put H (bytes_of sep) s;
     s \<leftarrow> h_put_int H val s;
     h_put H [0x0A] s
   }"

definition write_print :: "dw_host \<Rightarrow> bool \<Rightarrow> dwmci_reg \<Rightarrow> u32 \<Rightarrow> machine \<Rightarrow> machine option" where
  "write_print H pr r val s =
     (let a = MMC_BASE_ADDR + dwmci_offset r; s = h_writel H a val s in do {
        s \<leftarrow> (if pr then print_access H ''WRITE L ADDR: '' '' DATA: '' a val s else Some s);
        if a = 0x80000000 then do {
          s \<leftarrow> h_put H (bytes_of ''WRITING TO FIRST ADDRESS: '') s;
          print_access H ''WRITE L ADDR: '' '' DATA: '' a val s
        } else Some s
      })"

definition read_print :: "dw_host \<Rightarrow> bool \<Rightarrow> dwmci_reg \<Rightarrow> machine \<Rightarrow> (u32 \<times> machine) option" where
  "read_print H pr r s =
     (let a = MMC_BASE_ADDR + dwmci_offset r; (val, s) = h_readl H a s in do {
        s \<leftarrow> (if pr then print_access H ''READ L ADDR: '' ''DATA: '' a val s else Some s);
        Some (val, s)
      })"

text \<open>\<open>while (timeout--)\<close> with \<open>timeout = n\<close>.\<close>

primrec wait_reset_loop :: "dw_host \<Rightarrow> nat \<Rightarrow> machine \<Rightarrow> (int \<times> machine) option" where
  "wait_reset_loop H 0 s = Some (0, s)"
| "wait_reset_loop H (Suc n) s = do {
     (ctrl, s) \<leftarrow> read_print H False DWMCI_CTRL s;
     if ctrl AND DWMCI_RESET_ALL = 0 then Some (1, s) else wait_reset_loop H n s
   }"

definition dwmci_wait_reset :: "dw_host \<Rightarrow> u32 \<Rightarrow> machine \<Rightarrow> (int \<times> machine) option" where
  "dwmci_wait_reset H value s = do {
     s \<leftarrow> write_print H False DWMCI_CTRL value s;
     wait_reset_loop H 1000 s
   }"

section \<open>Data\<close>

text \<open>\<open>while (--timeout && (*len & bit))\<close>; the result is the remaining timeout and \<open>*len\<close>.\<close>

fun fifo_ready_loop :: "dw_host \<Rightarrow> u32 \<Rightarrow> nat \<Rightarrow> u32 \<Rightarrow> machine \<Rightarrow> (nat \<times> u32 \<times> machine) option" where
  "fifo_ready_loop H fbit timeout len s =
     (let timeout = timeout - 1 in
      if timeout \<noteq> 0 \<and> len AND fbit \<noteq> 0 then do {
        let s = h_udelay H 200 s;
        s \<leftarrow> h_put H (bytes_of '' fifo ready get len inside while : '') s;
        (len, s) \<leftarrow> read_print H True DWMCI_STATUS s;
        fifo_ready_loop H fbit timeout len s
      } else Some (timeout, len, s))"

declare fifo_ready_loop.simps [simp del]

definition dwmci_fifo_ready :: "dw_host \<Rightarrow> u32 \<Rightarrow> machine \<Rightarrow> (int \<times> u32 \<times> machine) option" where
  "dwmci_fifo_ready H fbit s = do {
     (len, s) \<leftarrow> read_print H False DWMCI_STATUS s;
     (timeout, len, s) \<leftarrow> fifo_ready_loop H fbit 20000 len s;
     if timeout = 0 then do {
       s \<leftarrow> h_put H (bytes_of ''FIFO underflow timeout'' @ [0x0A]) s;
       Some (- ETIMEDOUT H, len, s)
     } else Some (0, len, s)
   }"

text \<open>\<open>*buf++ = read_print(0, DWMCI_DATA)\<close>, \<open>n\<close> times: words are stored little-endian.\<close>

primrec read_words :: "dw_host \<Rightarrow> nat \<Rightarrow> u64 \<Rightarrow> machine \<Rightarrow> (u64 \<times> machine) option" where
  "read_words H 0 buf s = Some (buf, s)"
| "read_words H (Suc n) buf s = do {
     (v, s) \<leftarrow> read_print H False DWMCI_DATA s;
     read_words H n (buf + 4) (s\<lparr>ram := put_bytes buf (le_enc 4 v) (ram s)\<rparr>)
   }"

text \<open>The loop \<open>while (size)\<close>; a FIFO that is not empty but reports a count of 0 keeps it running.\<close>

partial_function (option) read_fifo ::
    "dw_host \<Rightarrow> int \<Rightarrow> u32 \<Rightarrow> u64 \<Rightarrow> machine \<Rightarrow> (int \<times> u32 \<times> u64 \<times> machine) option" where
  "read_fifo H ret sz buf s =
     (if sz = 0 then Some (ret, sz, buf, s)
      else Option.bind (dwmci_fifo_ready H DWMCI_FIFO_EMPTY s) (\<lambda>(ret, len, s).
        if ret < 0 then Some (ret, sz, buf, s)
        else let len = drop_bit 17 len AND 0x1fff; len = min sz len
             in Option.bind (read_words H (unat len) buf s) (\<lambda>(buf, s).
                  read_fifo H ret (if sz > len then sz - len else 0) buf s)))"

text \<open>The loop \<open>for (;;)\<close>.  It ends with an error that is returned at once (\<open>Inl\<close>) or by \<open>break\<close>
  with the return value and the last interrupt status.\<close>

fun transfer_loop ::
    "dw_host \<Rightarrow> u32 \<Rightarrow> nat \<Rightarrow> int \<Rightarrow> u32 \<Rightarrow> u64 \<Rightarrow> machine \<Rightarrow> ((int + int \<times> u32) \<times> machine) option" where
  "transfer_loop H flags timeout ret sz buf s = do {
     (msk, s) \<leftarrow> read_print H False DWMCI_RINTSTS s;
     (val, s) \<leftarrow> read_print H False DWMCI_STATUS s;
     if msk AND (DWMCI_DATA_ERR OR DWMCI_DATA_TOUT) \<noteq> 0 then do {
       s \<leftarrow> h_put H (bytes_of ''DATA ERROR!'' @ [0x0A]) s;
       Some (Inl (- EINVAL H), s)
     } else do {
       (ret, sz, buf, s) \<leftarrow>
         (if sz \<noteq> 0 \<and> flags = 1 \<and> msk AND (int_mask INTMSK_RXDR OR int_mask INTMSK_DTO) \<noteq> 0
          then do {
            s \<leftarrow> write_print H False DWMCI_RINTSTS
                  (msk AND (int_mask INTMSK_RXDR OR int_mask INTMSK_DTO)) s;
            read_fifo H ret sz buf s
          } else Some (ret, sz, buf, s));
       if msk AND int_mask INTMSK_DTO \<noteq> 0 then Some (Inr (0, msk), s)
       else if timeout > 0 then
         transfer_loop H flags (timeout - 1) ret sz buf (h_udelay H 10 s)
       else do {
         (_, s) \<leftarrow> read_print H True DWMCI_STATUS s;
         s \<leftarrow> h_put H (bytes_of ''Timeout waiting for data!'' @ [0x0A]) s;
         Some (Inr (- ETIMEDOUT H, msk), s)
       }
     }
   }"

declare transfer_loop.simps [simp del]

definition dwmci_data_transfer :: "dw_host \<Rightarrow> mmc_data \<Rightarrow> machine \<Rightarrow> (int \<times> machine) option" where
  "dwmci_data_transfer H dat s =
     (let sz = data_blocksize dat * data_blocks dat; buf = data_dest dat; sz = sz div 4 in do {
        (_, s) \<leftarrow> read_print H False DWMCI_STATUS s;
        (res, s) \<leftarrow> transfer_loop H (data_flags dat) 1000000 0 sz buf s;
        case res of
          Inl e \<Rightarrow> Some (e, s)
        | Inr (ret, msk) \<Rightarrow> do {
            s \<leftarrow> write_print H False DWMCI_RINTSTS msk s;
            Some (ret, s)
          }
      })"

section \<open>Commands\<close>

text \<open>Waiting for the controller, at most 500 times.\<close>

fun busy_loop :: "dw_host \<Rightarrow> nat \<Rightarrow> machine \<Rightarrow> machine option" where
  "busy_loop H timeout s = do {
     (v, s) \<leftarrow> read_print H False DWMCI_STATUS s;
     if v AND DWMCI_BUSY \<noteq> 0
     then if timeout > 0 then busy_loop H (timeout - 1) (h_udelay H 10 s)
          else do {
            (_, s) \<leftarrow> read_print H True DWMCI_STATUS s;
            h_put H (bytes_of ''Timeout on data busy, continue anyway'' @ [0x0A]) s
          }
     else Some s
   }"

declare busy_loop.simps [simp del]

text \<open>\<open>for (i = 0; i < retry; i++)\<close>: the last msk, and whether the loop was left by \<open>break\<close>.\<close>

primrec cmd_done_loop :: "dw_host \<Rightarrow> bool \<Rightarrow> nat \<Rightarrow> u32 \<Rightarrow> machine \<Rightarrow> (bool \<times> u32 \<times> machine) option" where
  "cmd_done_loop H has_data 0 msk s = Some (False, msk, s)"
| "cmd_done_loop H has_data (Suc n) _ s = do {
     (msk, s) \<leftarrow> read_print H False DWMCI_RINTSTS s;
     if msk AND int_mask INTMSK_CDONE \<noteq> 0 then do {
       s \<leftarrow> (if \<not> has_data then write_print H False DWMCI_RINTSTS msk s else Some s);
       Some (True, msk, s)
     } else cmd_done_loop H has_data n msk s
   }"

definition cmd_flags :: "mmc_cmd \<Rightarrow> bool \<Rightarrow> u32" where
  "cmd_flags cmd has_data =
     (let flags = (if has_data then DWMCI_CMD_DATA_EXP else 0);
          flags = flags OR (if cmdidx cmd = 12 then DWMCI_CMD_ABORT_STOP else DWMCI_CMD_PRV_DAT_WAIT);
          flags = (if resp_type cmd AND MMC_RSP_PRESENT \<noteq> 0
                   then (flags OR DWMCI_CMD_RESP_EXP)
                     OR (if resp_type cmd AND MMC_RSP_136 \<noteq> 0 then DWMCI_CMD_RESP_LENGTH else 0)
                   else flags);
          flags = (if resp_type cmd AND MMC_RSP_CRC \<noteq> 0 then flags OR DWMCI_CMD_CHECK_CRC else flags)
      in flags OR (ucast (cmdidx cmd) OR DWMCI_CMD_START OR DWMCI_CMD_USE_HOLD_REG))"

definition read_response :: "dw_host \<Rightarrow> mmc_cmd \<Rightarrow> machine \<Rightarrow> (mmc_cmd \<times> machine) option" where
  "read_response H cmd s =
     (if resp_type cmd AND MMC_RSP_PRESENT \<noteq> 0 then
        if resp_type cmd AND MMC_RSP_136 \<noteq> 0 then do {
          (r0, s) \<leftarrow> read_print H False DWMCI_RESP3 s;
          (r1, s) \<leftarrow> read_print H False DWMCI_RESP2 s;
          (r2, s) \<leftarrow> read_print H False DWMCI_RESP1 s;
          (r3, s) \<leftarrow> read_print H False DWMCI_RESP0 s;
          Some (cmd\<lparr>response := [r0, r1, r2, r3]\<rparr>, s)
        } else do {
          (r0, s) \<leftarrow> read_print H False DWMCI_RESP0 s;
          Some (cmd\<lparr>response := (response cmd)[0 := r0]\<rparr>, s)
        }
      else Some (cmd, s))"

text \<open>The set-up of a data phase, and everything from the command register on.\<close>

definition setup_data :: "dw_host \<Rightarrow> mmc_data option \<Rightarrow> machine \<Rightarrow> machine option" where
  "setup_data H dat s = (case dat of None \<Rightarrow> Some s
     | Some d \<Rightarrow> do {
         s \<leftarrow> write_print H False DWMCI_BLKSIZ (data_blocksize d) s;
         s \<leftarrow> write_print H False DWMCI_BYTCNT (data_blocksize d * data_blocks d) s;
         (_, s) \<leftarrow> dwmci_wait_reset H DWMCI_CTRL_FIFO_RESET s;
         Some s
       })"

definition finish_cmd :: "dw_host \<Rightarrow> mmc_cmd \<Rightarrow> mmc_data option \<Rightarrow> machine \<Rightarrow> (int \<times> mmc_cmd \<times> machine) option" where
  "finish_cmd H cmd dat s = do {
       s \<leftarrow> write_print H False DWMCI_CMD (cmd_flags cmd (dat \<noteq> None)) s;
       (got, msk, s) \<leftarrow> cmd_done_loop H (dat \<noteq> None) 100000 0 s;
       if \<not> got then do {
         s \<leftarrow> h_put H (bytes_of ''Timeout. RINTSTS: '') s;
         s \<leftarrow> h_put_int H msk s;
         s \<leftarrow> h_put H [0x0A] s;
         Some (- ETIMEDOUT H, cmd, s)
       } else if msk AND int_mask INTMSK_RTO \<noteq> 0 then do {
         s \<leftarrow> h_put H (bytes_of ''Response Timeout.'' @ [0x0A]) s;
         Some (- ETIMEDOUT H, cmd, s)
       } else if msk AND int_mask INTMSK_RE \<noteq> 0 then do {
         s \<leftarrow> h_put H (bytes_of ''Response Error.'' @ [0x0A]) s;
         Some (- EIO H, cmd, s)
       } else if resp_type cmd AND MMC_RSP_CRC \<noteq> 0 \<and> msk AND int_mask INTMSK_RCRC \<noteq> 0 then do {
         s \<leftarrow> h_put H (bytes_of ''Response CRC Error.'' @ [0x0A]) s;
         Some (- EIO H, cmd, s)
       } else do {
         (cmd, s) \<leftarrow> read_response H cmd s;
         (ret, s) \<leftarrow> (case dat of None \<Rightarrow> Some (0, s) | Some d \<Rightarrow> dwmci_data_transfer H d s);
         let s = h_udelay H 100 s;
         Some (ret, cmd, s)
       } }"

definition dwmci_send_cmd ::
    "dw_host \<Rightarrow> mmc_cmd \<Rightarrow> mmc_data option \<Rightarrow> machine \<Rightarrow> (int \<times> mmc_cmd \<times> machine) option" where
  "dwmci_send_cmd H cmd dat s = do {
     s \<leftarrow> busy_loop H 500 s;
     s \<leftarrow> write_print H False DWMCI_RINTSTS 0xffffffff s;
     s \<leftarrow> setup_data H dat s;
     s \<leftarrow> write_print H False DWMCI_CMDARG (cmdarg cmd) s;
     if resp_type cmd AND MMC_RSP_136 \<noteq> 0 \<and> resp_type cmd AND MMC_RSP_BUSY \<noteq> 0
     then Some (- EBUSY H, cmd, s)
     else finish_cmd H cmd dat s
   }"

text \<open>The callers keep the result in an 8-bit \<open>err\<close>.\<close>

definition set_block_count :: "dw_host \<Rightarrow> u32 \<Rightarrow> machine \<Rightarrow> (u8 \<times> machine) option" where
  "set_block_count H blkcnt s = do {
     (err, _, s) \<leftarrow> dwmci_send_cmd H
        \<lparr>cmdidx = 23, resp_type = MMC_RSP_R1, cmdarg = blkcnt, response = replicate 4 0\<rparr> None s;
     Some (of_int err, s)
   }"

definition sd_copy_mmc :: "dw_host \<Rightarrow> u64 \<Rightarrow> u64 \<Rightarrow> u64 \<Rightarrow> machine \<Rightarrow> (u8 \<times> machine) option" where
  "sd_copy_mmc H dst src_lba blkcnt s = do {
     (err, s) \<leftarrow> (if blkcnt > 1 then set_block_count H (ucast blkcnt) s else Some (0, s));
     if err \<noteq> 0 then Some (err, s)
     else do {
       (err, _, s) \<leftarrow> dwmci_send_cmd H
          \<lparr>cmdidx = (if blkcnt > 1 then 18 else 17), resp_type = MMC_RSP_R1,
            cmdarg = ucast src_lba, response = replicate 4 0\<rparr>
          (Some \<lparr>data_dest = dst, data_flags = 1, data_blocks = ucast blkcnt, data_blocksize = 0x200\<rparr>) s;
       Some (of_int err, s)
     }
   }"

text \<open>\<open>target\<close> and \<open>room\<close>: where the data of a command goes, and how many words at most.\<close>

definition room :: "mmc_data option \<Rightarrow> nat" where
  "room dat = (case dat of None \<Rightarrow> 0 | Some d \<Rightarrow> unat (data_blocksize d * data_blocks d div 4))"

definition target :: "mmc_data option \<Rightarrow> u64" where
  "target dat = (case dat of None \<Rightarrow> 0 | Some d \<Rightarrow> data_dest d)"

section \<open>The contract of the host\<close>

text \<open>
  \<open>fifo_in\<close> are the words read from the data register.  \<open>put\<close> operations print, the
  others access registers; none touches memory.  A FIFO that is not empty reports a
  count (documented behaviour of the controller).
\<close>

locale dw_io =
  fixes H :: dw_host
    and fifo_in :: "machine \<Rightarrow> u32 list"
    and ok :: "machine \<Rightarrow> bool"
  assumes readl_view: "h_readl H a s = (v, s') \<Longrightarrow>
      ram s' = ram s \<and> fifo_in s' = fifo_in s @ (if a = MMC_BASE_ADDR + 0x200 then [v] else [])"
    and readl_ok: "ok s \<Longrightarrow> ok (snd (h_readl H a s))"
    and writel_view: "ram (h_writel H a v s) = ram s" "fifo_in (h_writel H a v s) = fifo_in s"
    and writel_ok: "ok s \<Longrightarrow> ok (h_writel H a v s)"
    and udelay_view: "ram (h_udelay H u s) = ram s" "fifo_in (h_udelay H u s) = fifo_in s"
    and udelay_ok: "ok s \<Longrightarrow> ok (h_udelay H u s)"
    and put_view: "h_put H str s = Some s' \<Longrightarrow> ram s' = ram s \<and> fifo_in s' = fifo_in s"
      "h_put_int H w s = Some s' \<Longrightarrow> ram s' = ram s \<and> fifo_in s' = fifo_in s"
    and put_ok: "ok s \<Longrightarrow> \<exists>s'. h_put H str s = Some s' \<and> ok s'"
      "ok s \<Longrightarrow> \<exists>s'. h_put_int H w s = Some s' \<and> ok s'"
    and honest_fifo: "ok s \<Longrightarrow> v = fst (h_readl H (MMC_BASE_ADDR + 0x48) s) \<Longrightarrow>
      v AND DWMCI_FIFO_EMPTY = 0 \<Longrightarrow> drop_bit 17 v AND 0x1fff \<noteq> 0"
    and store_view: "fifo_in (s\<lparr>ram := m\<rparr>) = fifo_in s"
    and store_ok: "ok s \<Longrightarrow> ok (s\<lparr>ram := m\<rparr>)"
begin

text \<open>\<open>fed\<close>: the words taken from the FIFO went to \<open>buf\<close>, and nowhere else.\<close>

abbreviation fed :: "u64 \<Rightarrow> u32 list \<Rightarrow> machine \<Rightarrow> machine \<Rightarrow> bool" where
  "fed buf ws s s' \<equiv> fifo_in s' = fifo_in s @ ws
     \<and> ram s' = put_bytes buf (concat (map (le_enc 4) ws)) (ram s)"

lemma print_access_ops:
  "print_access H x y a w s = Some s' \<Longrightarrow> ram s' = ram s \<and> fifo_in s' = fifo_in s"
  "ok s \<Longrightarrow> \<exists>s'. print_access H x y a w s = Some s' \<and> ok s'"
proof -
  show "ram s' = ram s \<and> fifo_in s' = fifo_in s" if "print_access H x y a w s = Some s'"
    using that unfolding print_access_def by (auto elim!: bind_SomeE dest!: put_view)
  have put0: "goes0 ok (h_put H str)" "goes0 ok (h_put_int H w)" for str w
    using put_ok by (auto simp: goes0_def)
  have "goes0 ok (print_access H x y a w)"
    unfolding print_access_def by (intro goes_compose put0)
  then show "\<exists>s'. print_access H x y a w s = Some s' \<and> ok s'" if "ok s"
    using that by (rule goes0D)
qed

lemma write_print_ops:
  "write_print H pr r v s = Some s' \<Longrightarrow> fed buf [] s s'"
  "ok s \<Longrightarrow> \<exists>s'. write_print H pr r v s = Some s' \<and> ok s'"
proof -
  have not_dram: "MMC_BASE_ADDR + dwmci_offset r \<noteq> 0x80000000"
    by (cases r) (simp_all add: MMC_BASE_ADDR_def)
  show "fed buf [] s s'" if "write_print H pr r v s = Some s'"
    using that not_dram
    by (auto simp: write_print_def Let_def writel_view split: if_splits elim!: bind_SomeE
        dest!: print_access_ops(1))
  show "\<exists>s'. write_print H pr r v s = Some s' \<and> ok s'" if "ok s"
    using print_access_ops(2) [OF writel_ok [OF that]] writel_ok [OF that] not_dram
    by (cases pr) (auto simp: write_print_def Let_def)
qed

lemma read_print_ops:
  "read_print H pr r s = Some (v, s') \<Longrightarrow>
     fifo_in s' = fifo_in s @ (if r = DWMCI_DATA then [v] else []) \<and> ram s' = ram s"
  "ok s \<Longrightarrow> \<exists>s'. read_print H pr r s = Some (fst (h_readl H (MMC_BASE_ADDR + dwmci_offset r) s), s') \<and> ok s'"
proof -
  have is_data: "MMC_BASE_ADDR + dwmci_offset r = MMC_BASE_ADDR + 0x200 \<longleftrightarrow> r = DWMCI_DATA"
    by (cases r) simp_all
  obtain w t where rd: "h_readl H (MMC_BASE_ADDR + dwmci_offset r) s = (w, t)" by fastforce
  note t = readl_view [OF rd, unfolded is_data]
  show "fifo_in s' = fifo_in s @ (if r = DWMCI_DATA then [v] else []) \<and> ram s' = ram s"
    if "read_print H pr r s = Some (v, s')"
  proof -
    from that have "v = w"
      and "(if pr then print_access H ''READ L ADDR: '' ''DATA: '' (MMC_BASE_ADDR + dwmci_offset r) w t
        else Some t) = Some s'"
      unfolding read_print_def Let_def rd prod.case by (auto elim!: bind_SomeE)
    with t show ?thesis by (auto split: if_splits dest!: print_access_ops(1))
  qed
  show "\<exists>s'. read_print H pr r s = Some (fst (h_readl H (MMC_BASE_ADDR + dwmci_offset r) s), s') \<and> ok s'"
    if "ok s"
  proof -
    from readl_ok [OF that, of "MMC_BASE_ADDR + dwmci_offset r"] rd have "ok t" by simp
    moreover from print_access_ops(2) [OF this] obtain u where
      "print_access H ''READ L ADDR: '' ''DATA: '' (MMC_BASE_ADDR + dwmci_offset r) w t = Some u" "ok u"
      by blast
    ultimately show ?thesis
      by (cases pr) (simp_all add: read_print_def Let_def rd)
  qed
qed

lemma read_print_goes: "ok s \<Longrightarrow> \<exists>v s'. read_print H pr r s = Some (v, s') \<and> ok s'"
  using read_print_ops(2) by blast

lemma other_read: "read_print H pr r s = Some (v, s') \<Longrightarrow> r \<noteq> DWMCI_DATA \<Longrightarrow> fed buf [] s s'"
  using read_print_ops(1) by simp

lemma fed_trans:
  assumes "fed buf ws s t" "fed (buf + of_nat (4 * length ws)) vs t u"
  shows "fed buf (ws @ vs) s u"
proof -
  have "length (concat (map (le_enc 4) ws)) = 4 * length ws"
    by (induction ws) simp_all
  with assms show ?thesis by (simp add: put_bytes_append)
qed

lemma fed_still: "fed buf [] s t \<Longrightarrow> fed buf ws t u \<Longrightarrow> fed buf ws s u"
  "fed buf ws s t \<Longrightarrow> fed buf [] t u \<Longrightarrow> fed buf ws s u"
  by simp_all

lemma wait_reset_ops:
  "dwmci_wait_reset H v s = Some (r, s') \<Longrightarrow> fed buf [] s s'"
  "ok s \<Longrightarrow> \<exists>r s'. dwmci_wait_reset H v s = Some (r, s') \<and> ok s'"
proof -
  have view: "fed buf [] s s'" if "wait_reset_loop H n s = Some (r, s')" for n s r s'
    using that
  proof (induction n arbitrary: s)
    case (Suc n)
    then obtain c t where "read_print H False DWMCI_CTRL s = Some (c, t)"
      "(if c AND DWMCI_RESET_ALL = 0 then Some (1, t) else wait_reset_loop H n t) = Some (r, s')"
      by (auto elim!: bind_pair_SomeE)
    with other_read [OF this(1)] Suc.IH [of t] show ?case by (auto split: if_splits)
  qed simp
  have live: "\<exists>r s'. wait_reset_loop H n s = Some (r, s') \<and> ok s'" if "ok s" for n s
    using that
  proof (induction n arbitrary: s)
    case (Suc n)
    from read_print_goes [OF Suc.prems] obtain c t where
      "read_print H False DWMCI_CTRL s = Some (c, t)" "ok t" by blast
    with Suc.IH [of t] show ?case by simp
  qed simp
  show "fed buf [] s s'" if "dwmci_wait_reset H v s = Some (r, s')"
    using that unfolding dwmci_wait_reset_def
    by (auto elim!: bind_SomeE dest!: write_print_ops(1) view)
  show "\<exists>r s'. dwmci_wait_reset H v s = Some (r, s') \<and> ok s'" if "ok s"
  proof -
    from write_print_ops(2) [OF that] obtain t where
      "write_print H False DWMCI_CTRL v s = Some t" "ok t" by blast
    with live [of t 1000] show ?thesis by (simp add: dwmci_wait_reset_def)
  qed
qed

lemma fifo_ready_view:
  assumes "dwmci_fifo_ready H b s = Some (r, len, s')"
  shows "fed buf [] s s'"
proof -
  have loop: "fed buf [] s s'" if "fifo_ready_loop H b n len s = Some (m, len', s')" for n len s m len' s'
    using that
  proof (induction n arbitrary: len s rule: less_induct)
    case (less n)
    show ?case
    proof (cases "n - 1 \<noteq> 0 \<and> len AND b \<noteq> 0")
      case True
      with less.prems obtain t v u where
        "h_put H (bytes_of '' fifo ready get len inside while : '') (h_udelay H 200 s) = Some t"
        "read_print H True DWMCI_STATUS t = Some (v, u)" "fifo_ready_loop H b (n - 1) v u = Some (m, len', s')"
        by (subst (asm) fifo_ready_loop.simps) (auto simp: Let_def elim!: bind_SomeE)
      with put_view(1) [OF this(1)] other_read [OF this(2)] less.IH [OF _ this(3)] True show ?thesis
        by (simp add: udelay_view)
    next
      case False
      with less.prems show ?thesis
        by (subst (asm) fifo_ready_loop.simps) (auto simp: Let_def split: if_splits)
    qed
  qed
  from assms obtain v t n l u where "read_print H False DWMCI_STATUS s = Some (v, t)"
    "fifo_ready_loop H b 20000 v t = Some (n, l, u)"
    "(if n = 0 then do { s \<leftarrow> h_put H (bytes_of ''FIFO underflow timeout'' @ [0x0A]) u;
       Some (- ETIMEDOUT H, l, s) } else Some (0, l, u)) = Some (r, len, s')"
    unfolding dwmci_fifo_ready_def by (elim bind_triple_SomeE bind_pair_SomeE)
  with other_read [OF this(1)] loop [OF this(2)] show ?thesis
    by (auto split: if_splits elim!: bind_SomeE dest!: put_view(1))
qed

text \<open>A ready FIFO has a count: the last status read was not empty.\<close>

lemma fifo_ready_live:
  assumes "ok s" "0 < ETIMEDOUT H"
  shows "\<exists>r len s'. dwmci_fifo_ready H DWMCI_FIFO_EMPTY s = Some (r, len, s') \<and> ok s'
    \<and> (0 \<le> r \<longrightarrow> drop_bit 17 len AND 0x1fff \<noteq> 0)"
proof -
  define good where "good v \<longleftrightarrow> (v AND DWMCI_FIFO_EMPTY = 0 \<longrightarrow> drop_bit 17 v AND 0x1fff \<noteq> 0)" for v :: u32
  have status: "\<exists>v s'. read_print H pr DWMCI_STATUS s = Some (v, s') \<and> ok s' \<and> good v" if "ok s" for pr s
    using read_print_ops(2) [OF that, of pr DWMCI_STATUS] honest_fifo [OF that refl]
    by (auto simp: good_def)
  have loop: "\<exists>m l s'. fifo_ready_loop H DWMCI_FIFO_EMPTY n v s = Some (m, l, s') \<and> ok s' \<and> good l
      \<and> (m \<noteq> 0 \<longrightarrow> l AND DWMCI_FIFO_EMPTY = 0)" if "ok s" "good v" for n v s
    using that
  proof (induction n arbitrary: v s rule: less_induct)
    case (less n)
    show ?case
    proof (cases "n - 1 \<noteq> 0 \<and> v AND DWMCI_FIFO_EMPTY \<noteq> 0")
      case True
      obtain t where t: "h_put H (bytes_of '' fifo ready get len inside while : '') (h_udelay H 200 s) = Some t"
        "ok t" using put_ok(1) [OF udelay_ok [OF less.prems(1)]] by blast
      from status [OF t(2)] obtain w u where u: "read_print H True DWMCI_STATUS t = Some (w, u)" "ok u" "good w"
        by blast
      have "n - 1 < n" using True by simp
      from less.IH [OF this u(2,3)] True t u show ?thesis
        by (subst fifo_ready_loop.simps) (simp add: Let_def)
    next
      case False
      with less.prems show ?thesis
        by (subst fifo_ready_loop.simps) (auto simp: Let_def)
    qed
  qed
  from status [OF assms(1)] obtain v t where t: "read_print H False DWMCI_STATUS s = Some (v, t)" "ok t" "good v"
    by blast
  from loop [OF t(2,3), of 20000] obtain m l u where
    u: "fifo_ready_loop H DWMCI_FIFO_EMPTY 20000 v t = Some (m, l, u)" "ok u" "good l"
      "m \<noteq> 0 \<longrightarrow> l AND DWMCI_FIFO_EMPTY = 0" by blast
  show ?thesis
  proof (cases "m = 0")
    case True
    from put_ok(1) [OF u(2)] obtain w where
      "h_put H (bytes_of ''FIFO underflow timeout'' @ [0x0A]) u = Some w" "ok w" by blast
    with t u True assms(2) show ?thesis by (simp add: dwmci_fifo_ready_def)
  next
    case False
    with t u show ?thesis by (simp add: dwmci_fifo_ready_def good_def)
  qed
qed

lemma read_words_view:
  assumes "read_words H n buf s = Some (buf', s')"
  shows "buf' = buf + of_nat (4 * n) \<and> (\<exists>ws. length ws = n \<and> fed buf ws s s')"
  using assms
proof (induction n arbitrary: buf s)
  case 0
  then show ?case by simp
next
  case (Suc n)
  from Suc.prems obtain v t where rd: "read_print H False DWMCI_DATA s = Some (v, t)"
    and rest: "read_words H n (buf + 4) (t\<lparr>ram := put_bytes buf (le_enc 4 v) (ram t)\<rparr>) = Some (buf', s')"
    by (auto elim!: bind_pair_SomeE)
  from Suc.IH [OF rest] obtain ws where ws: "length ws = n"
    "fed (buf + 4) ws (t\<lparr>ram := put_bytes buf (le_enc 4 v) (ram t)\<rparr>) s'"
    and buf': "buf' = buf + 4 + of_nat (4 * n)" by blast
  from read_print_ops(1) [OF rd] ws have "fed buf (v # ws) s s'"
    by (simp add: store_view put_bytes_append)
  with ws(1) buf' show ?case
    by (intro conjI exI [of _ "v # ws"]) simp_all
qed

lemma read_words_live: "ok s \<Longrightarrow> \<exists>buf' s'. read_words H n buf s = Some (buf', s') \<and> ok s'"
proof (induction n arbitrary: buf s)
  case (Suc n)
  from read_print_goes [OF Suc.prems] obtain v t where
    "read_print H False DWMCI_DATA s = Some (v, t)" "ok t" by blast
  with Suc.IH [OF store_ok] show ?case by simp
qed simp

text \<open>What a pass over the FIFO leaves: \<open>fetched\<close> words are in the buffer, the rest is to come.\<close>

definition fetched :: "u32 \<Rightarrow> u64 \<Rightarrow> u32 \<Rightarrow> u64 \<Rightarrow> u32 list \<Rightarrow> bool" where
  "fetched sz buf sz' buf' ws \<longleftrightarrow>
     unat sz = length ws + unat sz' \<and> buf' = buf + of_nat (4 * length ws)"

lemma fetched_0: "fetched sz buf sz buf []"
  by (simp add: fetched_def)

lemma fetched_trans: "fetched sz buf sz1 buf1 ws \<Longrightarrow> fetched sz1 buf1 sz2 buf2 vs \<Longrightarrow> fetched sz buf sz2 buf2 (ws @ vs)"
  by (simp add: fetched_def algebra_simps)

lemma fetched_step:
  assumes "len \<le> sz" "length ws = unat len" "buf' = buf + of_nat (4 * unat len)"
  shows "fetched sz buf (if sz > len then sz - len else 0) buf' ws"
  using assms by (auto simp: fetched_def word_le_nat_alt word_less_nat_alt unat_sub)

lemma read_fifo_view:
  assumes "read_fifo H ret sz buf s = Some (ret', sz', buf', s')"
  shows "\<exists>ws. fetched sz buf sz' buf' ws \<and> fed buf ws s s'"
proof -
  have "H = H \<longrightarrow> (\<exists>ws. fetched sz buf (fst (snd (ret', sz', buf', s'))) (fst (snd (snd (ret', sz', buf', s')))) ws
      \<and> fed buf ws s (snd (snd (snd (ret', sz', buf', s')))))"
  proof (rule read_fifo.raw_induct [where P = "\<lambda>H' ret sz buf s r. H' = H \<longrightarrow>
      (\<exists>ws. fetched sz buf (fst (snd r)) (fst (snd (snd r))) ws \<and> fed buf ws s (snd (snd (snd r))))",
      OF _ assms], intro impI)
    fix f H' ret sz buf s r
    assume IH: "\<And>H' ret sz buf s r. f H' ret sz buf s = Some r \<Longrightarrow> H' = H \<longrightarrow>
        (\<exists>ws. fetched sz buf (fst (snd r)) (fst (snd (snd r))) ws \<and> fed buf ws s (snd (snd (snd r))))"
      and eq: "(if sz = 0 then Some (ret, sz, buf, s)
        else Option.bind (dwmci_fifo_ready H' DWMCI_FIFO_EMPTY s) (\<lambda>(ret, len, s).
          if ret < 0 then Some (ret, sz, buf, s)
          else let len = drop_bit 17 len AND 0x1fff; len = min sz len
               in Option.bind (read_words H' (unat len) buf s) (\<lambda>(buf, s).
                    f H' ret (if sz > len then sz - len else 0) buf s))) = Some r"
      and H': "H' = H"
    show "\<exists>ws. fetched sz buf (fst (snd r)) (fst (snd (snd r))) ws \<and> fed buf ws s (snd (snd (snd r)))"
    proof (cases "sz = 0")
      case True
      with eq show ?thesis by (auto intro: exI [of _ "[]"] fetched_0)
    next
      case False
      with eq H' obtain rt l t where rdy: "dwmci_fifo_ready H DWMCI_FIFO_EMPTY s = Some (rt, l, t)"
        and rest: "(if rt < 0 then Some (rt, sz, buf, t)
          else let len = drop_bit 17 l AND 0x1fff; len = min sz len
               in Option.bind (read_words H (unat len) buf t) (\<lambda>(buf, s).
                    f H rt (if sz > len then sz - len else 0) buf s)) = Some r"
        by (auto elim!: bind_triple_SomeE)
      note t = fifo_ready_view [OF rdy]
      show ?thesis
      proof (cases "rt < 0")
        case True
        with rest t show ?thesis by (auto intro: exI [of _ "[]"] fetched_0)
      next
        case rt: False
        define len where "len = min sz (drop_bit 17 l AND 0x1fff)"
        from rest rt obtain buf1 u where w: "read_words H (unat len) buf t = Some (buf1, u)"
          and more: "f H rt (if sz > len then sz - len else 0) buf1 u = Some r"
          unfolding len_def Let_def by (auto elim!: bind_pair_SomeE)
        from read_words_view [OF w] obtain ws where ws: "length ws = unat len" "fed buf ws t u"
          and buf1: "buf1 = buf + of_nat (4 * unat len)" by blast
        from IH [OF more] obtain vs where vs: "fetched (if sz > len then sz - len else 0) buf1 (fst (snd r)) (fst (snd (snd r))) vs"
          "fed buf1 vs u (snd (snd (snd r)))" by blast
        have "len \<le> sz" by (simp add: len_def)
        from fetched_trans [OF fetched_step [OF this ws(1) buf1] vs(1)]
        have "fetched sz buf (fst (snd r)) (fst (snd (snd r))) (ws @ vs)" .
        moreover from vs(2) have "fed (buf + of_nat (4 * length ws)) vs u (snd (snd (snd r)))"
          unfolding buf1 ws(1) .
        then have "fed buf (ws @ vs) s (snd (snd (snd r)))"
          by (rule fed_trans [OF fed_still(1) [OF t ws(2)]])
        ultimately show ?thesis by blast
      qed
    qed
  qed
  then show ?thesis by simp
qed

lemma read_fifo_live:
  assumes "0 < ETIMEDOUT H"
  shows "ok s \<Longrightarrow> \<exists>ret' sz' buf' s'. read_fifo H ret sz buf s = Some (ret', sz', buf', s') \<and> ok s'"
proof (induction "unat sz" arbitrary: sz buf s ret rule: less_induct)
  case less
  show ?case
  proof (cases "sz = 0")
    case True
    with less.prems show ?thesis by (simp add: read_fifo.simps [of H ret 0])
  next
    case False
    from fifo_ready_live [OF less.prems assms] obtain r l t where
      t: "dwmci_fifo_ready H DWMCI_FIFO_EMPTY s = Some (r, l, t)" "ok t"
        "0 \<le> r \<longrightarrow> drop_bit 17 l AND 0x1fff \<noteq> 0" by blast
    show ?thesis
    proof (cases "r < 0")
      case True
      with t False show ?thesis by (simp add: read_fifo.simps [of H ret sz])
    next
      case r: False
      define len where "len = min sz (drop_bit 17 l AND 0x1fff)"
      from t(3) r False have len: "0 < unat len" "len \<le> sz"
        by (auto simp: len_def min_def unat_gt_0)
      from read_words_live [OF t(2), of "unat len" buf] obtain buf1 u where
        u: "read_words H (unat len) buf t = Some (buf1, u)" "ok u" by blast
      have "unat (if sz > len then sz - len else 0) < unat sz"
        using len False by (auto simp: unat_sub word_le_nat_alt unat_gt_0)
      from less.hyps [OF this u(2), of r buf1] t r False u show ?thesis
        by (cases "len < sz") (simp_all add: read_fifo.simps [of H ret sz] len_def [symmetric] Let_def)
    qed
  qed
qed

text \<open>At most \<open>sz\<close> words go to the buffer, whatever the outcome.\<close>

lemma transfer_loop_view:
  assumes "transfer_loop H fl n ret sz buf s = Some (res, s')"
  shows "\<exists>ws. length ws \<le> unat sz \<and> fed buf ws s s'"
  using assms
proof (induction n arbitrary: ret sz buf s rule: less_induct)
  case (less n)
  from less.prems obtain msk t v u where rd: "read_print H False DWMCI_RINTSTS s = Some (msk, t)"
    "read_print H False DWMCI_STATUS t = Some (v, u)"
    and rest: "(if msk AND (DWMCI_DATA_ERR OR DWMCI_DATA_TOUT) \<noteq> 0 then do {
       s \<leftarrow> h_put H (bytes_of ''DATA ERROR!'' @ [0x0A]) u;
       Some (Inl (- EINVAL H), s)
     } else do {
       (ret, sz, buf, s) \<leftarrow>
         (if sz \<noteq> 0 \<and> fl = 1 \<and> msk AND (int_mask INTMSK_RXDR OR int_mask INTMSK_DTO) \<noteq> 0
          then do {
            s \<leftarrow> write_print H False DWMCI_RINTSTS
                  (msk AND (int_mask INTMSK_RXDR OR int_mask INTMSK_DTO)) u;
            read_fifo H ret sz buf s
          } else Some (ret, sz, buf, u));
       if msk AND int_mask INTMSK_DTO \<noteq> 0 then Some (Inr (0, msk), s)
       else if n > 0 then transfer_loop H fl (n - 1) ret sz buf (h_udelay H 10 s)
       else do {
         (_, s) \<leftarrow> read_print H True DWMCI_STATUS s;
         s \<leftarrow> h_put H (bytes_of ''Timeout waiting for data!'' @ [0x0A]) s;
         Some (Inr (- ETIMEDOUT H, msk), s)
       }
     }) = Some (res, s')"
    by (subst (asm) transfer_loop.simps) (elim bind_pair_SomeE)
  have u: "fed buf [] s u"
    using other_read [OF rd(1), of buf] other_read [OF rd(2), of buf] by simp
  show ?case
  proof (cases "msk AND (DWMCI_DATA_ERR OR DWMCI_DATA_TOUT) \<noteq> 0")
    case True
    with rest u put_view(1) show ?thesis
      by (intro exI [of _ "[]"]) (auto elim!: bind_SomeE)
  next
    case False
    with rest obtain ret1 sz1 buf1 w where
      got: "(if sz \<noteq> 0 \<and> fl = 1 \<and> msk AND (int_mask INTMSK_RXDR OR int_mask INTMSK_DTO) \<noteq> 0
          then do {
            s \<leftarrow> write_print H False DWMCI_RINTSTS
                  (msk AND (int_mask INTMSK_RXDR OR int_mask INTMSK_DTO)) u;
            read_fifo H ret sz buf s
          } else Some (ret, sz, buf, u)) = Some (ret1, sz1, buf1, w)"
      and more: "(if msk AND int_mask INTMSK_DTO \<noteq> 0 then Some (Inr (0, msk), w)
       else if n > 0 then transfer_loop H fl (n - 1) ret1 sz1 buf1 (h_udelay H 10 w)
       else do {
         (_, s) \<leftarrow> read_print H True DWMCI_STATUS w;
         s \<leftarrow> h_put H (bytes_of ''Timeout waiting for data!'' @ [0x0A]) s;
         Some (Inr (- ETIMEDOUT H, msk), s)
       }) = Some (res, s')"
      by (auto elim!: bind_SomeE split: prod.splits)
    have "\<exists>ws. fetched sz buf sz1 buf1 ws \<and> fed buf ws u w"
    proof (cases "sz \<noteq> 0 \<and> fl = 1 \<and> msk AND (int_mask INTMSK_RXDR OR int_mask INTMSK_DTO) \<noteq> 0")
      case True
      with got obtain x where x: "write_print H False DWMCI_RINTSTS
          (msk AND (int_mask INTMSK_RXDR OR int_mask INTMSK_DTO)) u = Some x"
        "read_fifo H ret sz buf x = Some (ret1, sz1, buf1, w)" by (auto elim!: bind_SomeE)
      from read_fifo_view [OF x(2)] obtain ws where ws: "fetched sz buf sz1 buf1 ws" "fed buf ws x w"
        by blast
      from fed_still(1) [OF write_print_ops(1) [OF x(1)] ws(2)] ws(1) show ?thesis by blast
    next
      case False
      with got have "sz1 = sz" "buf1 = buf" "w = u" by auto
      then show ?thesis by (auto intro: exI [of _ "[]"] fetched_0)
    qed
    then obtain ws where ws: "fetched sz buf sz1 buf1 ws" "fed buf ws u w" by blast
    from fed_still(1) [OF u ws(2)] have sw: "fed buf ws s w" .
    from ws(1) have len: "length ws + unat sz1 = unat sz" and b1: "buf1 = buf + of_nat (4 * length ws)"
      by (simp_all add: fetched_def)
    show ?thesis
    proof (cases "msk AND int_mask INTMSK_DTO = 0 \<and> n > 0")
      case True
      with more have "transfer_loop H fl (n - 1) ret1 sz1 buf1 (h_udelay H 10 w) = Some (res, s')" by simp
      from less.IH [OF _ this] True obtain vs where vs: "length vs \<le> unat sz1"
        "fed buf1 vs (h_udelay H 10 w) s'" by auto
      from vs(2) have "fed (buf + of_nat (4 * length ws)) vs w s'"
        unfolding b1 udelay_view .
      from fed_trans [OF sw this] len vs(1) show ?thesis
        by (intro exI [of _ "ws @ vs"]) simp
    next
      case False
      with more have "fed buf [] w s'"
        by (auto split: if_splits elim!: bind_SomeE dest!: other_read put_view(1))
      from fed_still(2) [OF sw this] len show ?thesis
        by (intro exI [of _ ws]) simp
    qed
  qed
qed

lemma transfer_loop_live:
  assumes "0 < ETIMEDOUT H"
  shows "ok s \<Longrightarrow> \<exists>res s'. transfer_loop H fl n ret sz buf s = Some (res, s') \<and> ok s'"
proof (induction n arbitrary: ret sz buf s rule: less_induct)
  case (less n)
  from read_print_goes [OF less.prems] obtain msk t where
    t: "read_print H False DWMCI_RINTSTS s = Some (msk, t)" "ok t" by blast
  from read_print_goes [OF t(2)] obtain v u where
    u: "read_print H False DWMCI_STATUS t = Some (v, u)" "ok u" by blast
  show ?case
  proof (cases "msk AND (DWMCI_DATA_ERR OR DWMCI_DATA_TOUT) \<noteq> 0")
    case True
    with t u put_ok(1) [OF u(2), of "bytes_of ''DATA ERROR!'' @ [0x0A]"] show ?thesis
      by (subst transfer_loop.simps) auto
  next
    case False
    have "\<exists>ret1 sz1 buf1 w. (if sz \<noteq> 0 \<and> fl = 1 \<and> msk AND (int_mask INTMSK_RXDR OR int_mask INTMSK_DTO) \<noteq> 0
          then do {
            s \<leftarrow> write_print H False DWMCI_RINTSTS
                  (msk AND (int_mask INTMSK_RXDR OR int_mask INTMSK_DTO)) u;
            read_fifo H ret sz buf s
          } else Some (ret, sz, buf, u)) = Some (ret1, sz1, buf1, w) \<and> ok w"
    proof -
      obtain x where x: "write_print H False DWMCI_RINTSTS
          (msk AND (int_mask INTMSK_RXDR OR int_mask INTMSK_DTO)) u = Some x" "ok x"
        using write_print_ops(2) [OF u(2)] by blast
      from read_fifo_live [OF assms x(2)] x(1) u(2) show ?thesis by simp
    qed
    then obtain ret1 sz1 buf1 w where w: "(if sz \<noteq> 0 \<and> fl = 1 \<and> msk AND (int_mask INTMSK_RXDR OR int_mask INTMSK_DTO) \<noteq> 0
          then do {
            s \<leftarrow> write_print H False DWMCI_RINTSTS
                  (msk AND (int_mask INTMSK_RXDR OR int_mask INTMSK_DTO)) u;
            read_fifo H ret sz buf s
          } else Some (ret, sz, buf, u)) = Some (ret1, sz1, buf1, w)" "ok w" by blast
    from read_print_goes [OF w(2), of True DWMCI_STATUS] obtain x y where
      x: "read_print H True DWMCI_STATUS w = Some (x, y)" "ok y" by blast
    from put_ok(1) [OF x(2)] obtain z where
      z: "h_put H (bytes_of ''Timeout waiting for data!'' @ [0x0A]) y = Some z" "ok z" by blast
    show ?thesis
      using less.IH [of "n - 1" "h_udelay H 10 w" ret1 sz1 buf1] udelay_ok [OF w(2), of 10] False t u w x z
      by (subst transfer_loop.simps) (simp add: w(1) del: if_split; simp)
  qed
qed

lemma data_transfer_view:
  assumes "dwmci_data_transfer H d s = Some (r, s')"
  shows "\<exists>ws. length ws \<le> unat (data_blocksize d * data_blocks d div 4) \<and> fed (data_dest d) ws s s'"
proof -
  from assms obtain v t res u where t: "read_print H False DWMCI_STATUS s = Some (v, t)"
    and u: "transfer_loop H (data_flags d) 1000000 0 (data_blocksize d * data_blocks d div 4) (data_dest d) t
      = Some (res, u)"
    and rest: "(case res of Inl e \<Rightarrow> Some (e, u) | Inr (ret, msk) \<Rightarrow> do {
       s \<leftarrow> write_print H False DWMCI_RINTSTS msk u; Some (ret, s) }) = Some (r, s')"
    unfolding dwmci_data_transfer_def Let_def by (elim bind_pair_SomeE)
  from rest have "fed (data_dest d) [] u s'"
    by (auto split: sum.splits elim!: bind_SomeE dest!: write_print_ops(1) [where buf = "data_dest d"])
  moreover from transfer_loop_view [OF u] obtain ws where
    "length ws \<le> unat (data_blocksize d * data_blocks d div 4)" "fed (data_dest d) ws t u" by blast
  moreover have "fed (data_dest d) [] s t"
    using other_read [OF t] by simp
  ultimately show ?thesis
    by (intro exI [of _ ws]) simp
qed

lemma data_transfer_live:
  assumes "ok s" "0 < ETIMEDOUT H"
  shows "\<exists>r s'. dwmci_data_transfer H d s = Some (r, s') \<and> ok s'"
proof -
  from read_print_goes [OF assms(1)] obtain v t where
    t: "read_print H False DWMCI_STATUS s = Some (v, t)" "ok t" by blast
  from transfer_loop_live [OF assms(2) t(2)] obtain res u where
    u: "transfer_loop H (data_flags d) 1000000 0 (data_blocksize d * data_blocks d div 4) (data_dest d) t
      = Some (res, u)" "ok u" by blast
  show ?thesis
  proof (cases res)
    case (Inl e)
    with t u show ?thesis by (simp add: dwmci_data_transfer_def Let_def)
  next
    case (Inr p)
    obtain ret m where p: "p = (ret, m)" by fastforce
    obtain w where "write_print H False DWMCI_RINTSTS m u = Some w" "ok w"
      using write_print_ops(2) [OF u(2)] by blast
    with t u Inr p show ?thesis by (simp add: dwmci_data_transfer_def Let_def)
  qed
qed

text \<open>The parts of a command that move no data.\<close>

lemma busy_ops:
  "busy_loop H n s = Some s' \<Longrightarrow> fed buf [] s s'"
  "ok s \<Longrightarrow> \<exists>s'. busy_loop H n s = Some s' \<and> ok s'"
proof -
  have msg: "\<exists>s'. h_put H str s = Some s' \<and> ok s'" if "ok s" for str s
    using put_ok(1) that by blast
  show "fed buf [] s s'" if "busy_loop H n s = Some s'"
    using that
  proof (induction n arbitrary: s rule: less_induct)
    case (less n)
    from less.prems obtain v t where t: "read_print H False DWMCI_STATUS s = Some (v, t)"
      and rest: "(if v AND DWMCI_BUSY \<noteq> 0 then
        if n > 0 then busy_loop H (n - 1) (h_udelay H 10 t)
        else do { (_, s) \<leftarrow> read_print H True DWMCI_STATUS t;
          h_put H (bytes_of ''Timeout on data busy, continue anyway'' @ [0x0A]) s }
       else Some t) = Some s'"
      by (subst (asm) busy_loop.simps) (elim bind_pair_SomeE)
    show ?case
    proof (cases "v AND DWMCI_BUSY \<noteq> 0 \<and> n > 0")
      case True
      with rest less.IH [of "n - 1" "h_udelay H 10 t"] other_read [OF t, of buf] show ?thesis
        by (simp add: udelay_view)
    next
      case False
      with rest other_read [OF t, of buf] show ?thesis
        by (auto split: if_splits elim!: bind_SomeE dest!: other_read [where buf = buf] put_view(1))
    qed
  qed
  show "\<exists>s'. busy_loop H n s = Some s' \<and> ok s'" if "ok s"
    using that
  proof (induction n arbitrary: s rule: less_induct)
    case (less n)
    from read_print_goes [OF less.prems] obtain v t where
      t: "read_print H False DWMCI_STATUS s = Some (v, t)" "ok t" by blast
    from read_print_goes [OF t(2), of True DWMCI_STATUS] obtain w u where
      u: "read_print H True DWMCI_STATUS t = Some (w, u)" "ok u" by blast
    from msg [OF u(2)] obtain x where
      x: "h_put H (bytes_of ''Timeout on data busy, continue anyway'' @ [0x0A]) u = Some x" "ok x" by blast
    show ?case
      using less.IH [of "n - 1" "h_udelay H 10 t"] udelay_ok [OF t(2)] t u x
      by (subst busy_loop.simps) simp
  qed
qed

lemma cmd_done_ops:
  "cmd_done_loop H has n m s = Some (g, m', s') \<Longrightarrow> fed buf [] s s'"
  "ok s \<Longrightarrow> \<exists>g m' s'. cmd_done_loop H has n m s = Some (g, m', s') \<and> ok s'"
proof -
  show "fed buf [] s s'" if "cmd_done_loop H has n m s = Some (g, m', s')"
    using that
  proof (induction n arbitrary: m s)
    case (Suc n)
    from Suc.prems obtain v t where t: "read_print H False DWMCI_RINTSTS s = Some (v, t)"
      and rest: "(if v AND int_mask INTMSK_CDONE \<noteq> 0 then do {
         s \<leftarrow> (if \<not> has then write_print H False DWMCI_RINTSTS v t else Some t);
         Some (True, v, s) } else cmd_done_loop H has n v t) = Some (g, m', s')"
      by (simp) (elim bind_pair_SomeE)
    show ?case
    proof (cases "v AND int_mask INTMSK_CDONE \<noteq> 0")
      case True
      with rest other_read [OF t, of buf] show ?thesis
        by (auto split: if_splits elim!: bind_SomeE dest!: write_print_ops(1) [where buf = buf])
    next
      case False
      with rest Suc.IH [of v t] other_read [OF t, of buf] show ?thesis by simp
    qed
  qed simp
  show "\<exists>g m' s'. cmd_done_loop H has n m s = Some (g, m', s') \<and> ok s'" if "ok s"
    using that
  proof (induction n arbitrary: m s)
    case (Suc n)
    from read_print_goes [OF Suc.prems] obtain v t where
      t: "read_print H False DWMCI_RINTSTS s = Some (v, t)" "ok t" by blast
    from write_print_ops(2) [OF t(2)] obtain w where
      w: "write_print H False DWMCI_RINTSTS v t = Some w" "ok w" by blast
    show ?case using t w Suc.IH [OF t(2), of v] by auto
  qed auto
qed

lemma response_ops:
  "read_response H c s = Some (c', s') \<Longrightarrow> fed buf [] s s'"
  "ok s \<Longrightarrow> \<exists>c' s'. read_response H c s = Some (c', s') \<and> ok s'"
proof -
  show "fed buf [] s s'" if "read_response H c s = Some (c', s')"
    using that unfolding read_response_def
    by (auto split: if_splits elim!: bind_pair_SomeE dest!: other_read [where buf = buf])
  have "goes ok (read_print H pr r)" for pr r
    using read_print_goes by (auto simp: goes_def)
  then have "goes ok (\<lambda>s. read_response H c s)"
    unfolding read_response_def by (intro goes_compose)
  then show "\<exists>c' s'. read_response H c s = Some (c', s') \<and> ok s'" if "ok s"
    using that by (rule goesD)
qed

lemma setup_ops:
  "setup_data H dat s = Some s' \<Longrightarrow> fed buf [] s s'"
  "ok s \<Longrightarrow> \<exists>s'. setup_data H dat s = Some s' \<and> ok s'"
proof -
  show "fed buf [] s s'" if "setup_data H dat s = Some s'"
    using that unfolding setup_data_def
    by (auto split: option.splits elim!: bind_SomeE dest!: write_print_ops(1) [where buf = buf]
        wait_reset_ops(1) [where buf = buf])
  have "goes0 ok (write_print H pr r v)" "goes ok (dwmci_wait_reset H v)" for pr r v
    using write_print_ops(2) wait_reset_ops(2) by (auto simp: goes_def goes0_def)
  then have "goes0 ok (\<lambda>s. do {
         s \<leftarrow> write_print H False DWMCI_BLKSIZ (data_blocksize d) s;
         s \<leftarrow> write_print H False DWMCI_BYTCNT (data_blocksize d * data_blocks d) s;
         (_, s) \<leftarrow> dwmci_wait_reset H DWMCI_CTRL_FIFO_RESET s;
         Some s })" for d
    by (intro goes_compose) (simp add: goes0_def)
  from goes0D [OF this] show "\<exists>s'. setup_data H dat s = Some s' \<and> ok s'" if "ok s"
    using that unfolding setup_data_def by (cases dat) simp_all
qed

lemma put_fed:
  "h_put H str s = Some s' \<Longrightarrow> fed buf [] s s'" "h_put_int H w s = Some s' \<Longrightarrow> fed buf [] s s'"
  using put_view by auto

lemma finish_view:
  assumes "finish_cmd H cmd dat s = Some (r, c', s')"
  shows "\<exists>ws. length ws \<le> room dat \<and> fed (target dat) ws s s'"
proof -
  from assms obtain t got m u where t: "write_print H False DWMCI_CMD (cmd_flags cmd (dat \<noteq> None)) s = Some t"
    and u: "cmd_done_loop H (dat \<noteq> None) 100000 0 t = Some (got, m, u)"
    and rest: "(if \<not> got then do {
         s \<leftarrow> h_put H (bytes_of ''Timeout. RINTSTS: '') u;
         s \<leftarrow> h_put_int H m s;
         s \<leftarrow> h_put H [0x0A] s;
         Some (- ETIMEDOUT H, cmd, s)
       } else if m AND int_mask INTMSK_RTO \<noteq> 0 then do {
         s \<leftarrow> h_put H (bytes_of ''Response Timeout.'' @ [0x0A]) u;
         Some (- ETIMEDOUT H, cmd, s)
       } else if m AND int_mask INTMSK_RE \<noteq> 0 then do {
         s \<leftarrow> h_put H (bytes_of ''Response Error.'' @ [0x0A]) u;
         Some (- EIO H, cmd, s)
       } else if resp_type cmd AND MMC_RSP_CRC \<noteq> 0 \<and> m AND int_mask INTMSK_RCRC \<noteq> 0 then do {
         s \<leftarrow> h_put H (bytes_of ''Response CRC Error.'' @ [0x0A]) u;
         Some (- EIO H, cmd, s)
       } else do {
         (cmd, s) \<leftarrow> read_response H cmd u;
         (ret, s) \<leftarrow> (case dat of None \<Rightarrow> Some (0, s) | Some d \<Rightarrow> dwmci_data_transfer H d s);
         let s = h_udelay H 100 s;
         Some (ret, cmd, s)
       }) = Some (r, c', s')"
    unfolding finish_cmd_def by (elim bind_SomeE bind_triple_SomeE) (rule that)
  have u: "fed (target dat) [] s u"
    using write_print_ops(1) [OF t] cmd_done_ops(1) [OF u] by simp
  show ?thesis
  proof (cases "got \<and> m AND int_mask INTMSK_RTO = 0 \<and> m AND int_mask INTMSK_RE = 0
      \<and> \<not> (resp_type cmd AND MMC_RSP_CRC \<noteq> 0 \<and> m AND int_mask INTMSK_RCRC \<noteq> 0)")
    case False
    with rest have "fed (target dat) [] u s'"
      by (auto split: if_splits elim!: bind_SomeE dest!: put_fed [where buf = "target dat"])
    with u show ?thesis by (intro exI [of _ "[]"]) simp
  next
    case True
    with rest obtain c t1 t2 where t1: "read_response H cmd u = Some (c, t1)"
      and t2: "(case dat of None \<Rightarrow> Some (0, t1) | Some d \<Rightarrow> dwmci_data_transfer H d t1) = Some (r, t2)"
      and s': "s' = h_udelay H 100 t2"
      by (auto simp: Let_def elim!: bind_SomeE)
    have "\<exists>ws. length ws \<le> room dat \<and> fed (target dat) ws t1 t2"
      using t2 data_transfer_view
      by (cases dat) (auto simp: room_def target_def)
    then obtain ws where ws: "length ws \<le> room dat" "fed (target dat) ws t1 t2" by blast
    with u response_ops(1) [OF t1, of "target dat"] show ?thesis
      by (intro exI [of _ ws]) (simp add: s' udelay_view)
  qed
qed

lemma finish_live:
  assumes "ok s" "0 < ETIMEDOUT H"
  shows "\<exists>r c s'. finish_cmd H cmd dat s = Some (r, c, s') \<and> ok s'"
proof -
  from write_print_ops(2) [OF assms(1)] obtain t where
    t: "write_print H False DWMCI_CMD (cmd_flags cmd (dat \<noteq> None)) s = Some t" "ok t" by blast
  from cmd_done_ops(2) [OF t(2)] obtain got m u where
    u: "cmd_done_loop H (dat \<noteq> None) 100000 0 t = Some (got, m, u)" "ok u" by blast
  obtain p1 where p1: "h_put H (bytes_of ''Response Timeout.'' @ [0x0A]) u = Some p1" "ok p1"
    using put_ok(1) [OF u(2)] by blast
  obtain p2 where p2: "h_put H (bytes_of ''Response Error.'' @ [0x0A]) u = Some p2" "ok p2"
    using put_ok(1) [OF u(2)] by blast
  obtain p3 where p3: "h_put H (bytes_of ''Response CRC Error.'' @ [0x0A]) u = Some p3" "ok p3"
    using put_ok(1) [OF u(2)] by blast
  obtain v1 where v1: "h_put H (bytes_of ''Timeout. RINTSTS: '') u = Some v1" "ok v1"
    using put_ok(1) [OF u(2)] by blast
  obtain v2 where v2: "h_put_int H m v1 = Some v2" "ok v2" using put_ok(2) [OF v1(2)] by blast
  obtain v3 where v3: "h_put H [0x0A] v2 = Some v3" "ok v3" using put_ok(1) [OF v2(2)] by blast
  obtain c w where w: "read_response H cmd u = Some (c, w)" "ok w"
    using response_ops(2) [OF u(2)] by blast
  have "\<exists>r x. (case dat of None \<Rightarrow> Some (0, w) | Some d \<Rightarrow> dwmci_data_transfer H d w) = Some (r, x) \<and> ok x"
    using data_transfer_live [OF w(2) assms(2)] w(2) by (cases dat) auto
  then obtain r x where x: "(case dat of None \<Rightarrow> Some (0, w) | Some d \<Rightarrow> dwmci_data_transfer H d w) = Some (r, x)" "ok x"
    by blast
  show ?thesis
    unfolding finish_cmd_def
    using t u p1 p2 p3 v1 v2 v3 w x udelay_ok [OF x(2), of 100] by (simp add: Let_def)
qed

lemma send_cmd_view:
  assumes "dwmci_send_cmd H cmd dat s = Some (r, c', s')"
  shows "\<exists>ws. length ws \<le> room dat \<and> fed (target dat) ws s s'"
proof -
  from assms obtain t u v w where "busy_loop H 500 s = Some t"
    "write_print H False DWMCI_RINTSTS 0xffffffff t = Some u" "setup_data H dat u = Some v"
    "write_print H False DWMCI_CMDARG (cmdarg cmd) v = Some w"
    and rest: "(if resp_type cmd AND MMC_RSP_136 \<noteq> 0 \<and> resp_type cmd AND MMC_RSP_BUSY \<noteq> 0
     then Some (- EBUSY H, cmd, w) else finish_cmd H cmd dat w) = Some (r, c', s')"
    unfolding dwmci_send_cmd_def by (elim bind_SomeE)
  then have "fed (target dat) [] s w"
    using busy_ops(1) [of 500 s t "target dat"] write_print_ops(1) [where buf = "target dat"]
      setup_ops(1) [of dat u v "target dat"] by fastforce
  moreover have "\<exists>ws. length ws \<le> room dat \<and> fed (target dat) ws w s'"
    using rest finish_view by (auto split: if_splits intro: exI [of _ "[]"])
  ultimately show ?thesis using fed_still(1) by blast
qed

lemma send_cmd_live:
  assumes "ok s" "0 < ETIMEDOUT H"
  shows "\<exists>r c s'. dwmci_send_cmd H cmd dat s = Some (r, c, s') \<and> ok s'"
proof -
  obtain t where t: "busy_loop H 500 s = Some t" "ok t" using busy_ops(2) [OF assms(1)] by blast
  obtain u where u: "write_print H False DWMCI_RINTSTS 0xffffffff t = Some u" "ok u"
    using write_print_ops(2) [OF t(2)] by blast
  obtain v where v: "setup_data H dat u = Some v" "ok v" using setup_ops(2) [OF u(2)] by blast
  obtain w where w: "write_print H False DWMCI_CMDARG (cmdarg cmd) v = Some w" "ok w"
    using write_print_ops(2) [OF v(2)] by blast
  from t u v w finish_live [OF w(2) assms(2)] show ?thesis
    by (simp add: dwmci_send_cmd_def)
qed

lemma copy_mmc_view:
  assumes "sd_copy_mmc H dst lba n s = Some (e, s')"
  shows "\<exists>ws. length ws \<le> unat (0x200 * ucast n div 4 :: u32) \<and> fed dst ws s s'"
proof -
  from assms obtain err t where t: "(if n > 1 then set_block_count H (ucast n) s else Some (0, s)) = Some (err, t)"
    and rest: "(if err \<noteq> 0 then Some (err, t) else do {
       (err, _, s) \<leftarrow> dwmci_send_cmd H
          \<lparr>cmdidx = (if n > 1 then 18 else 17), resp_type = MMC_RSP_R1,
            cmdarg = ucast lba, response = replicate 4 0\<rparr>
          (Some \<lparr>data_dest = dst, data_flags = 1, data_blocks = ucast n, data_blocksize = 0x200\<rparr>) t;
       Some (of_int err, s) }) = Some (e, s')"
    unfolding sd_copy_mmc_def by (elim bind_pair_SomeE)
  have none: "fed dst [] s t"
  proof (cases "n > 1")
    case True
    with t obtain r c where cmd: "dwmci_send_cmd H
        \<lparr>cmdidx = 23, resp_type = MMC_RSP_R1, cmdarg = ucast n, response = replicate 4 0\<rparr> None s = Some (r, c, t)"
      by (auto simp: set_block_count_def elim!: bind_triple_SomeE)
    from send_cmd_view [OF cmd] show ?thesis by (auto simp: room_def)
  next
    case False
    with t show ?thesis by simp
  qed
  show ?thesis
  proof (cases "err = 0")
    case True
    with rest obtain r c where "dwmci_send_cmd H
          \<lparr>cmdidx = (if n > 1 then 18 else 17), resp_type = MMC_RSP_R1,
            cmdarg = ucast lba, response = replicate 4 0\<rparr>
          (Some \<lparr>data_dest = dst, data_flags = 1, data_blocks = ucast n, data_blocksize = 0x200\<rparr>) t
        = Some (r, c, s')"
      by (auto elim!: bind_triple_SomeE)
    from send_cmd_view [OF this] obtain ws where
      "length ws \<le> unat (0x200 * ucast n div 4 :: u32)" "fed dst ws t s'"
      unfolding room_def target_def by auto
    with none show ?thesis by (intro exI [of _ ws]) simp
  next
    case False
    with rest none show ?thesis by (auto intro: exI [of _ "[]"])
  qed
qed

lemma copy_mmc_live:
  assumes "ok s" "0 < ETIMEDOUT H"
  shows "\<exists>e s'. sd_copy_mmc H dst lba n s = Some (e, s') \<and> ok s'"
proof -
  have "\<exists>err t. (if n > 1 then set_block_count H (ucast n) s else Some (0, s)) = Some (err, t) \<and> ok t"
  proof (cases "n > 1")
    case True
    from send_cmd_live [OF assms] obtain r c t where "dwmci_send_cmd H
        \<lparr>cmdidx = 23, resp_type = MMC_RSP_R1, cmdarg = ucast n, response = replicate 4 0\<rparr> None s
        = Some (r, c, t)" "ok t" by blast
    with True show ?thesis by (simp add: set_block_count_def)
  next
    case False
    with assms show ?thesis by simp
  qed
  then obtain err t where t: "(if n > 1 then set_block_count H (ucast n) s else Some (0, s)) = Some (err, t)"
    "ok t" by blast
  from send_cmd_live [OF t(2) assms(2)] obtain r c s' where "dwmci_send_cmd H
          \<lparr>cmdidx = (if n > 1 then 18 else 17), resp_type = MMC_RSP_R1,
            cmdarg = ucast lba, response = replicate 4 0\<rparr>
          (Some \<lparr>data_dest = dst, data_flags = 1, data_blocks = ucast n, data_blocksize = 0x200\<rparr>) t
      = Some (r, c, s')" "ok s'" by blast
  then show ?thesis
    unfolding sd_copy_mmc_def t(1) using t(2) by (cases "err = 0") simp_all
qed

end

section \<open>The host on the bus\<close>

text \<open>\<open>readl\<close> and \<open>writel\<close> as 32-bit accesses of the bus, a delay that only takes time, and any
  error numbers.\<close>

definition mmio_host :: "board \<Rightarrow> int \<Rightarrow> int \<Rightarrow> int \<Rightarrow> int \<Rightarrow> dw_host" where
  "mmio_host B e1 e2 e3 e4 = \<lparr>h_readl = \<lambda>a. read_reg B (ucast a), h_writel = \<lambda>a. write_reg (ucast a),
     h_udelay = \<lambda>_ s. s, h_put = say B, h_put_int = print_uart_int (write_serial B),
     ETIMEDOUT = e1, EINVAL = e2, EBUSY = e3, EIO = e4\<rparr>"

fun dw_fifo :: "bus_event list \<Rightarrow> u32 list" where
  "dw_fifo [] = []"
| "dw_fifo (Rd32 a v # h) = (if a = 0xFF808200 then dw_fifo h @ [v] else dw_fifo h)"
| "dw_fifo (_ # h) = dw_fifo h"

definition dw_ok :: "board \<Rightarrow> machine \<Rightarrow> bool" where
  "dw_ok B s \<longleftrightarrow> line_open B s \<and> (\<forall>h. env32 B h 0xFF808048 AND DWMCI_FIFO_EMPTY = 0 \<longrightarrow>
     drop_bit 17 (env32 B h 0xFF808048) AND 0x1fff \<noteq> 0)"

lemma dw_fifo_off_uart: "dw_fifo (filter (off_uart R) h) = dw_fifo h"
  by (induction h rule: hist_induct) simp_all

lemma beside_dw_fifo: "beside_uart B s' = beside_uart B s \<Longrightarrow> ram s' = ram s \<and> dw_fifo (hist s') = dw_fifo (hist s)"
  unfolding beside_uart_def by (metis Pair_inject dw_fifo_off_uart)

lemma line_open_store [simp]: "line_open B (s\<lparr>ram := m\<rparr>) = line_open B s"
  by (simp add: line_open_def)

lemma data_reg: "(ucast a = (0xFF808200 :: u64)) = (a = MMC_BASE_ADDR + 0x200)" for a :: u32
proof
  assume "ucast a = (0xFF808200 :: u64)"
  then have "(ucast (ucast a :: u64) :: u32) = ucast (0xFF808200 :: u64)" by (rule arg_cong)
  moreover have "(ucast (ucast a :: u64) :: u32) = a"
    by (rule bit_word_eqI) (auto simp: bit_simps)
  ultimately show "a = MMC_BASE_ADDR + 0x200" by (simp add: MMC_BASE_ADDR_def)
qed (simp add: MMC_BASE_ADDR_def)

interpretation dw: dw_io "mmio_host B e1 e2 e3 e4" "\<lambda>s. dw_fifo (hist s)" "dw_ok B" for B e1 e2 e3 e4
proof unfold_locales
  fix a v s s' str w u m
  let ?H = "mmio_host B e1 e2 e3 e4"
  show "ram s' = ram s \<and> dw_fifo (hist s') = dw_fifo (hist s) @ (if a = MMC_BASE_ADDR + 0x200 then [v] else [])"
    if "h_readl ?H a s = (v, s')"
    using that by (auto simp: mmio_host_def read_reg_def Let_def data_reg)
  show "dw_ok B (snd (h_readl ?H a s))" if "dw_ok B s"
    using that by (simp add: mmio_host_def dw_ok_def)
  show "ram (h_writel ?H a v s) = ram s" "dw_fifo (hist (h_writel ?H a v s)) = dw_fifo (hist s)"
    by (simp_all add: mmio_host_def)
  show "dw_ok B (h_writel ?H a v s)" if "dw_ok B s"
    using that by (simp add: mmio_host_def dw_ok_def)
  show "ram (h_udelay ?H u s) = ram s" "dw_fifo (hist (h_udelay ?H u s)) = dw_fifo (hist s)"
    by (simp_all add: mmio_host_def)
  show "dw_ok B (h_udelay ?H u s)" if "dw_ok B s"
    using that by (simp add: mmio_host_def)
  show "ram s' = ram s \<and> dw_fifo (hist s') = dw_fifo (hist s)" if "h_put ?H str s = Some s'"
    using that by (auto simp: mmio_host_def dest!: uart.print_uart_keep beside_dw_fifo)
  show "ram s' = ram s \<and> dw_fifo (hist s') = dw_fifo (hist s)" if "h_put_int ?H w s = Some s'"
    using that by (auto simp: mmio_host_def print_uart_int_def dest!: uart.print_hex_keep beside_dw_fifo)
  show "\<exists>s'. h_put ?H str s = Some s' \<and> dw_ok B s'" if "dw_ok B s"
    using uart.print_uart_total [of B s str] that by (auto simp: mmio_host_def dw_ok_def)
  show "\<exists>s'. h_put_int ?H w s = Some s' \<and> dw_ok B s'" if "dw_ok B s"
    using uart.print_hex_total [of B s 4 w] that
    by (auto simp: mmio_host_def dw_ok_def print_uart_int_def)
  show "drop_bit 17 v AND 0x1fff \<noteq> 0"
    if "dw_ok B s" "v = fst (h_readl ?H (MMC_BASE_ADDR + 0x48) s)" "v AND DWMCI_FIFO_EMPTY = 0"
    using that by (simp add: mmio_host_def dw_ok_def MMC_BASE_ADDR_def)
  show "dw_fifo (hist (s\<lparr>ram := m\<rparr>)) = dw_fifo (hist s)" by simp
  show "dw_ok B (s\<lparr>ram := m\<rparr>)" if "dw_ok B s"
    using that by (simp add: dw_ok_def)
qed

section \<open>Properties of the MMC driver\<close>

text \<open>C10. On a host whose FIFO reports a count when it is not empty, \<open>sd_copy_mmc\<close> always returns,
  whatever else the controller does, and memory safety holds on every path, errors included: at
  most \<open>512 * blkcnt\<close> bytes (in 32 bits) are written at \<open>dst\<close>, they are the words taken from the
  FIFO in order, little-endian, and nothing else in memory changes.\<close>

theorem sd_copy_mmc_bounded:
  assumes "dw_ok B s" and "0 < e1"
  shows "\<exists>err s' ws. sd_copy_mmc (mmio_host B e1 e2 e3 e4) dst lba n s = Some (err, s') \<and> dw_ok B s'
     \<and> dw_fifo (hist s') = dw_fifo (hist s) @ ws
     \<and> length ws \<le> unat (0x200 * ucast n div 4 :: u32)
     \<and> ram s' = put_bytes dst (concat (map (le_enc 4) ws)) (ram s)"
proof -
  have "0 < ETIMEDOUT (mmio_host B e1 e2 e3 e4)" using assms(2) by (simp add: mmio_host_def)
  from dw.copy_mmc_live [OF assms(1) this] obtain err s' where
    "sd_copy_mmc (mmio_host B e1 e2 e3 e4) dst lba n s = Some (err, s')" "dw_ok B s'" by blast
  with dw.copy_mmc_view [OF this(1)] show ?thesis by blast
qed

text \<open>A controller that reports data and the end of the transfer, with a FIFO that stays empty.\<close>

definition stuck_board :: board where
  "stuck_board = \<lparr>plat = PLAT_GENERIC, uregs = fpga_uart, env8 = \<lambda>_ _. 0x20,
     env32 = \<lambda>_ a. if a = 0xFF808044 then 0x2C else if a = 0xFF808048 then 0x4 else 0,
     env_cycle = \<lambda>_. 0\<rparr>"

lemma stuck_ok: "dw_ok stuck_board reset_machine"
  by (auto simp: dw_ok_def stuck_board_def line_open_def DWMCI_FIFO_EMPTY_def fpga_uart_def reset_machine_def
      intro!: tx_drainsI)

theorem sd_copy_mmc_bounded_witness:
  "\<exists>err s'. \<exists>ws :: u32 list.
     sd_copy_mmc (mmio_host stuck_board 110 22 16 5) 0x80000000 0x32800 1 reset_machine = Some (err, s')
     \<and> length ws \<le> 128 \<and> ram s' = put_bytes 0x80000000 (concat (map (le_enc 4) ws)) (ram reset_machine)"
  using sd_copy_mmc_bounded [OF stuck_ok, of 110 22 16 5 "0x80000000" "0x32800" 1] by auto

lemma stuck_reads:
  assumes "read_print (mmio_host stuck_board e1 e2 e3 e4) pr r s = Some (v, s')"
  shows "r = DWMCI_STATUS \<Longrightarrow> v = 4" "r = DWMCI_RINTSTS \<Longrightarrow> v = 0x2C"
  using assms by (auto simp: read_print_def Let_def mmio_host_def read_reg_def stuck_board_def
      MMC_BASE_ADDR_def elim!: bind_SomeE)

lemma stuck_fifo_ready:
  assumes "dwmci_fifo_ready (mmio_host stuck_board e1 e2 e3 e4) DWMCI_FIFO_EMPTY s = Some (r, len, s')"
  shows "r = - e1"
proof -
  let ?H = "mmio_host stuck_board e1 e2 e3 e4"
  have loop: "m = 0" if "fifo_ready_loop ?H DWMCI_FIFO_EMPTY n 4 s = Some (m, l, s')" for n s m l s'
    using that
  proof (induction n arbitrary: s rule: less_induct)
    case (less n)
    show ?case
    proof (cases "n - 1 \<noteq> 0")
      case True
      with less.prems obtain t v u where "read_print ?H True DWMCI_STATUS t = Some (v, u)"
        "fifo_ready_loop ?H DWMCI_FIFO_EMPTY (n - 1) v u = Some (m, l, s')"
        by (subst (asm) fifo_ready_loop.simps)
          (auto simp: Let_def DWMCI_FIFO_EMPTY_def elim!: bind_SomeE)
      with stuck_reads(1) [OF this(1)] less.IH [of "n - 1" u] True show ?thesis by simp
    next
      case False
      with less.prems show ?thesis
        by (subst (asm) fifo_ready_loop.simps) (auto simp: Let_def split: if_splits)
    qed
  qed
  from assms obtain v t m l u where v: "read_print ?H False DWMCI_STATUS s = Some (v, t)"
    and m: "fifo_ready_loop ?H DWMCI_FIFO_EMPTY 20000 v t = Some (m, l, u)"
    and rest: "(if m = 0 then do { s \<leftarrow> h_put ?H (bytes_of ''FIFO underflow timeout'' @ [0x0A]) u;
       Some (- ETIMEDOUT ?H, l, s) } else Some (0, l, u)) = Some (r, len, s')"
    unfolding dwmci_fifo_ready_def by (elim bind_triple_SomeE bind_pair_SomeE)
  from m have "m = 0" unfolding stuck_reads(1) [OF v refl] by (rule loop)
  with rest show ?thesis by (auto simp: mmio_host_def elim!: bind_SomeE)
qed



end
