(* ===== verification/Boot_Main.thy ===== *)
theory Boot_Main
  imports Dwmmc
begin

text \<open>
  \<open>main.c\<close> of the FPGA boot ROM: wait ten seconds for a key, then either receive
  an image over the serial line (\<open>update\<close>) or load it from the card, and jump to
  it.  The end of \<open>main\<close> is a value: a jump, the final idle loop, or a return.
\<close>

datatype boot_end = Jump u64 | Idle | Returned int

section \<open>The serial update\<close>

text \<open>\<open>while (!read_serial(&b)) ;\<close>\<close>

definition recv_byte :: "board \<Rightarrow> machine \<Rightarrow> (u8 \<times> machine) option" where
  "recv_byte B s = do {
     (r, s) \<leftarrow> poll (\<lambda>s. Some (read_serial B s)) (\<lambda>r. r \<noteq> None) s;
     Some (the r, s)
   }"

primrec recv_bytes :: "board \<Rightarrow> nat \<Rightarrow> machine \<Rightarrow> (u8 list \<times> machine) option" where
  "recv_bytes B 0 s = Some ([], s)"
| "recv_bytes B (Suc n) s = do {
     (b, s) \<leftarrow> recv_byte B s;
     (bs, s) \<leftarrow> recv_bytes B n s;
     Some (b # bs, s)
   }"

text \<open>The loop over the image: \<open>n\<close> bytes are left and \<open>i\<close> is next.  \<open>i % (size >> 4)\<close> has no
  result when \<open>size >> 4\<close> is 0, and \<open>i++\<close> has none when \<open>i\<close> is the largest \<open>int\<close>.\<close>

primrec update_loop :: "board \<Rightarrow> u64 \<Rightarrow> u32 \<Rightarrow> nat \<Rightarrow> nat \<Rightarrow> machine \<Rightarrow> machine option" where
  "update_loop B dest sz 0 i s = Some s"
| "update_loop B dest sz (Suc n) i s = do {
     (b, s) \<leftarrow> recv_byte B s;
     let s = store_byte (dest + of_nat i) b s;
     if drop_bit 4 sz = 0 then None
     else do {
       s \<leftarrow> (if of_nat i mod drop_bit 4 sz = 0 then say B (bytes_of ''.'') s else Some s);
       if i = 2 ^ 31 - 1 then None else update_loop B dest sz n (i + 1) s
     }
   }"

definition update :: "board \<Rightarrow> u64 \<Rightarrow> machine \<Rightarrow> (int \<times> machine) option" where
  "update B dest s = do {
     s \<leftarrow> say B (bytes_of ''receiving boot image'' @ crlf @ bytes_of ''size: '') s;
     (bs, s) \<leftarrow> recv_bytes B 4 s;
     let sz = le_dec bs;
     s \<leftarrow> print_uart_int (write_serial B) sz s;
     s \<leftarrow> say B (crlf @ bytes_of ''receiving '') s;
     s \<leftarrow> update_loop B dest sz (unat sz) 0 s;
     s \<leftarrow> say B (bytes_of '' done!'' @ crlf) s;
     Some (0, s)
   }"

section \<open>Waiting for a key\<close>

text \<open>One test of the loop \<open>while (get_cycle_count() - start < SECOND_CYCLES)\<close> and, when it
  holds, one try to read a byte.\<close>

datatype key_wait = Timeout | Key | Nothing

definition key_step :: "board \<Rightarrow> u64 \<Rightarrow> u64 \<Rightarrow> machine \<Rightarrow> key_wait \<times> machine" where
  "key_step B SECOND_CYCLES start s =
     (let (c, s) = get_cycle_count B s in
      if c - start < SECOND_CYCLES
      then (let (r, s) = read_serial B s in (if r \<noteq> None then Key else Nothing, s))
      else (Timeout, s))"

text \<open>\<open>for (i = 0; i < WAIT_SECONDS && !ret; i++)\<close> with \<open>n\<close> seconds left; the result is \<open>ret\<close>.\<close>

primrec wait_key :: "board \<Rightarrow> u64 \<Rightarrow> nat \<Rightarrow> machine \<Rightarrow> (bool \<times> machine) option" where
  "wait_key B SECOND_CYCLES 0 s = Some (False, s)"
| "wait_key B SECOND_CYCLES (Suc n) s = do {
     s \<leftarrow> say B (bytes_of ''.'') s;
     let (start, s) = get_cycle_count B s;
     (k, s) \<leftarrow> poll (\<lambda>s. Some (key_step B SECOND_CYCLES start s)) (\<lambda>k. k \<noteq> Nothing) s;
     if k = Key then Some (True, s) else wait_key B SECOND_CYCLES n s
   }"

section \<open>Main\<close>

text \<open>The loop of the Agilex branch: block by block, \<open>n\<close> of 15000 left.  A failing block returns
  from \<open>main\<close>.\<close>

primrec agilex_load :: "board \<Rightarrow> dw_host \<Rightarrow> nat \<Rightarrow> u64 \<Rightarrow> machine \<Rightarrow> (u8 \<times> machine) option" where
  "agilex_load B H 0 i s = Some (0, s)"
| "agilex_load B H (Suc n) i s = do {
     (res, s) \<leftarrow> sd_copy_mmc H (0x80000000 + i * 0x200) (0x32800 + i) 1 s;
     if res \<noteq> 0 then do {
       s \<leftarrow> say B (bytes_of ''TRANSFER ERROR'' @ [0x0A]) s;
       Some (res, s)
     } else agilex_load B H n (i + 1) s
   }"

definition fpga_main ::
    "board \<Rightarrow> dw_host \<Rightarrow> u32 \<Rightarrow> u32 \<Rightarrow> u64 \<Rightarrow> u64 \<Rightarrow> machine \<Rightarrow> (boot_end \<times> machine) option" where
  "fpga_main B H CLOCK_FREQUENCY UART_BITRATE lba1_buf lba2_buf s = do {
     s \<leftarrow> (case plat B of PLAT_GENERIC \<Rightarrow> init_uart True B CLOCK_FREQUENCY UART_BITRATE s
          | PLAT_AGILEX \<Rightarrow> Some s);
     s \<leftarrow> say B (bytes_of ''Hello World!'' @ crlf) s;
     s \<leftarrow> say B (bytes_of ''Hit any key to enter update mode '') s;
     (key, s) \<leftarrow> wait_key B (ucast CLOCK_FREQUENCY) 10 s;
     if key then do {
       s \<leftarrow> say B (bytes_of '' updating!'' @ crlf) s;
       (res, s) \<leftarrow> update B 0x80000000 s;
       Some (if res = 0 then Jump 0x80000000 else Idle, s)
     } else do {
       s \<leftarrow> say B (bytes_of '' booting!'' @ crlf) s;
       case plat B of
         PLAT_GENERIC \<Rightarrow> do {
           (res, s) \<leftarrow> gpt_find_boot_partition (sd_card B) False lba1_buf lba2_buf 0x80000000 (2 * 16384) s;
           Some (if res = 0 then Jump 0x80000000 else Idle, s)
         }
       | PLAT_AGILEX \<Rightarrow> do {
           s \<leftarrow> say B (bytes_of ''I am Agilex 7! '' @ crlf) s;
           s \<leftarrow> say B (bytes_of ''Loading fw_payload into memory address 0x80000000 '' @ [0x0A]) s;
           (res, s) \<leftarrow> agilex_load B H 15000 0 s;
           Some (if res = 0 then Jump 0x80000000 else Returned (uint res), s)
         }
     }
   }"

section \<open>What the serial line brings\<close>

text \<open>The bytes taken from the receive register.\<close>

fun uart_in :: "uart_regs \<Rightarrow> bus_event list \<Rightarrow> u8 list" where
  "uart_in R [] = []"
| "uart_in R (Rd8 a v # h) = (if a = UART_RBR R then uart_in R h @ [v] else uart_in R h)"
| "uart_in R (_ # h) = uart_in R h"

text \<open>The generic platform, where printing and testing the line does not read the receive register.\<close>

definition generic_uart :: "board \<Rightarrow> bool" where
  "generic_uart B \<longleftrightarrow> plat B = PLAT_GENERIC \<and> UART_LINE_STATUS (uregs B) \<noteq> UART_RBR (uregs B)"

definition rx_view :: "board \<Rightarrow> machine \<Rightarrow> u8 list \<times> (u64 \<Rightarrow> u8)" where
  "rx_view B s = (if generic_uart B then uart_in (uregs B) (hist s) else [], ram s)"

interpretation uart_rx: serial_port "write_serial B" "\<lambda>s. uart_out (uregs B) (hist s)"
    "line_open B" "rx_view B" for B
proof unfold_locales
  show "\<exists>s'. write_serial B b s = Some s' \<and> line_open B s' \<and>
      uart_out (uregs B) (hist s') = uart_out (uregs B) (hist s) @ [b]" if "line_open B s" for s b
    using uart.tx_total that by blast
  show "rx_view B s' = rx_view B s" if "write_serial B b s = Some s'" for b s s'
  proof -
    from that obtain v t where w: "wait_transmit B s = Some (v, t)"
      and s': "s' = write_reg_u8 (UART_THR (uregs B)) b t"
      by (auto simp: write_serial_def elim!: bind_pair_SomeE)
    have "rx_view B t = rx_view B s"
    proof (cases "plat B")
      case PLAT_GENERIC
      with w show ?thesis
        by (auto simp: wait_transmit_def is_transmit_empty_def Let_def case_prod_unfold rx_view_def
            generic_uart_def elim!: poll_keeps)
    next
      case PLAT_AGILEX
      with w show ?thesis
        by (auto simp: wait_transmit_def is_transmit_empty_altera_def Let_def case_prod_unfold rx_view_def
            generic_uart_def elim!: poll_keeps)
    qed
    with s' show ?thesis by (auto simp: rx_view_def split: if_splits)
  qed
qed


text \<open>The line brings a byte however long one has to wait (what the sender promises).\<close>

definition rx_delivers :: "board \<Rightarrow> bool" where
  "rx_delivers B \<longleftrightarrow> (\<forall>s. recv_byte B s \<noteq> None)"

definition serial_live :: "board \<Rightarrow> machine \<Rightarrow> bool" where
  "serial_live B s \<longleftrightarrow> generic_uart B \<and> line_open B s \<and> rx_delivers B"

lemma recv_byte_None:
  "recv_byte B s = None \<longleftrightarrow> poll (\<lambda>s. Some (read_serial B s)) (\<lambda>r. r \<noteq> None) s = None"
  by (cases "poll (\<lambda>s. Some (read_serial B s)) (\<lambda>r. r \<noteq> None) s") (auto simp: recv_byte_def)

lemma read_serial_effect:
  assumes "generic_uart B" "read_serial B s = (r, s')"
  shows "line_open B s' = line_open B s" "ram s' = ram s"
    "uart_in (uregs B) (hist s') = uart_in (uregs B) (hist s) @ (case r of None \<Rightarrow> [] | Some b \<Rightarrow> [b])"
  using assms
  by (auto simp: read_serial_def is_receive_empty_def generic_uart_def line_open_def Let_def
      case_prod_unfold split: if_splits)

lemma recv_byte_step:
  assumes "serial_live B s"
  obtains b s' where "recv_byte B s = Some (b, s')" "serial_live B s'"
    "uart_in (uregs B) (hist s') = uart_in (uregs B) (hist s) @ [b]" "ram s' = ram s"
proof -
  from assms have gen: "generic_uart B" and live: "line_open B s" "rx_delivers B"
    by (simp_all add: serial_live_def)
  from live(2) obtain r s' where p: "poll (\<lambda>s. Some (read_serial B s)) (\<lambda>r. r \<noteq> None) s = Some (r, s')"
    by (fastforce simp: rx_delivers_def recv_byte_def split: bind_split_asm)
  then have "r \<noteq> None \<and> line_open B s' = line_open B s \<and> ram s' = ram s \<and>
      uart_in (uregs B) (hist s') = uart_in (uregs B) (hist s) @ [the r]"
    by (rule poll_Some_induct) (auto dest: read_serial_effect [OF gen])
  with p gen live that [of "the r" s'] show ?thesis
    by (simp add: recv_byte_def serial_live_def)
qed

lemma recv_bytes_total:
  "serial_live B s \<Longrightarrow> \<exists>bs s'. recv_bytes B n s = Some (bs, s') \<and> length bs = n \<and> serial_live B s'
     \<and> uart_in (uregs B) (hist s') = uart_in (uregs B) (hist s) @ bs \<and> ram s' = ram s"
proof (induction n arbitrary: s)
  case 0
  then show ?case by simp
next
  case (Suc n)
  from Suc.prems obtain b t where "recv_byte B s = Some (b, t)" "serial_live B t"
    "uart_in (uregs B) (hist t) = uart_in (uregs B) (hist s) @ [b]" "ram t = ram s"
    by (rule recv_byte_step)
  with Suc.IH [of t] show ?case by auto
qed

text \<open>Printing on a live line: what has been received and memory stay as they are.\<close>

lemma rx_viewD: "generic_uart B \<Longrightarrow> rx_view B s' = rx_view B s \<Longrightarrow>
    uart_in (uregs B) (hist s') = uart_in (uregs B) (hist s) \<and> ram s' = ram s"
  by (simp add: rx_view_def)

lemma say_step:
  assumes "serial_live B s"
  obtains s' where "say B str s = Some s'" "serial_live B s'"
    "uart_in (uregs B) (hist s') = uart_in (uregs B) (hist s)" "ram s' = ram s"
  using assms uart_rx.print_uart_total [of B s str] rx_viewD uart_rx.print_uart_keep
  unfolding serial_live_def by metis

lemma print_int_step:
  assumes "serial_live B s"
  obtains s' where "print_uart_int (write_serial B) w s = Some s'" "serial_live B s'"
    "uart_in (uregs B) (hist s') = uart_in (uregs B) (hist s)" "ram s' = ram s"
  using assms uart_rx.print_hex_total [of B s 4 w] rx_viewD uart_rx.print_hex_keep
  unfolding serial_live_def print_uart_int_def by metis

text \<open>The body of the loop up to the increment, for an image of at least 16 bytes.\<close>

lemma update_dot_step:
  assumes "serial_live B s"
  obtains s' where "(if c then say B str s else Some s) = Some s'" "serial_live B s'"
    "uart_in (uregs B) (hist s') = uart_in (uregs B) (hist s)" "ram s' = ram s"
  using assms by (cases c) (auto elim: say_step)

lemma serial_live_store [simp]: "serial_live B (store_byte a b s) = serial_live B s"
  by (simp add: serial_live_def)

lemma update_loop_stores:
  assumes "drop_bit 4 sz \<noteq> 0"
  shows "serial_live B s \<Longrightarrow> i + n < 2 ^ 31 \<Longrightarrow> \<exists>bs s'. update_loop B dest sz n i s = Some s' \<and> length bs = n
     \<and> serial_live B s' \<and> uart_in (uregs B) (hist s') = uart_in (uregs B) (hist s) @ bs
     \<and> ram s' = put_bytes (dest + of_nat i) bs (ram s)"
proof (induction n arbitrary: s i)
  case 0
  then show ?case by simp
next
  case (Suc n)
  from Suc.prems(1) obtain b t where t: "recv_byte B s = Some (b, t)" "serial_live B t"
    "uart_in (uregs B) (hist t) = uart_in (uregs B) (hist s) @ [b]" "ram t = ram s"
    by (rule recv_byte_step)
  let ?t = "store_byte (dest + of_nat i) b t"
  from t have "serial_live B ?t" by simp
  then obtain u where u: "(if of_nat i mod drop_bit 4 sz = 0 then say B (bytes_of ''.'') ?t else Some ?t) = Some u"
    "serial_live B u" "uart_in (uregs B) (hist u) = uart_in (uregs B) (hist ?t)" "ram u = ram ?t"
    by (rule update_dot_step)
  obtain bs s' where s': "update_loop B dest sz n (i + 1) u = Some s'" "length bs = n" "serial_live B s'"
    "uart_in (uregs B) (hist s') = uart_in (uregs B) (hist u) @ bs"
    "ram s' = put_bytes (dest + of_nat (i + 1)) bs (ram u)"
    using Suc.IH [OF u(2), of "i + 1"] Suc.prems(2) by auto
  have "update_loop B dest sz (Suc n) i s = Some s'"
    using Suc.prems(2) assms t(1) u(1) s'(1) by (simp add: Let_def)
  moreover have "ram s' = put_bytes (dest + of_nat i) (b # bs) (ram s)"
    using s'(5) u(4) t(4) by (simp add: ac_simps)
  ultimately show ?case
    using s' u(3) t(3) by (intro exI [of _ "b # bs"] exI [of _ s']) simp
qed

lemma update_loop_undefined:
  assumes "drop_bit 4 sz = 0 \<and> 0 < n \<or> i < 2 ^ 31 \<and> 2 ^ 31 \<le> i + n"
  shows "update_loop B dest sz n i s = None"
  using assms
proof (induction n arbitrary: s i)
  case 0
  then show ?case by linarith
next
  case (Suc n)
  have "update_loop B dest sz n (i + 1) t = None" if "drop_bit 4 sz \<noteq> 0" "i \<noteq> 2 ^ 31 - 1" for t
    by (rule Suc.IH) (use Suc.prems that in auto)
  then show ?case by (auto simp: Let_def split: bind_splits)
qed

section \<open>The serial update as a whole\<close>

lemma update_small: "drop_bit 4 (w :: u32) = 0 \<longleftrightarrow> unat w < 16"
proof -
  have "drop_bit 4 w = 0 \<longleftrightarrow> unat (drop_bit 4 w) = 0" by (simp add: unat_eq_0)
  also have "unat (drop_bit 4 w) = unat w div 16" by (simp only: unat_drop_bit_eq) (simp add: drop_bit_eq_div)
  finally show ?thesis by (simp add: div_eq_0_iff)
qed

text \<open>C32. On a line that keeps bringing bytes, \<open>update\<close> reads a four byte little-endian size and then
  the image.  A size that is 0, or at least 16 and below 2^31, is received completely: the call
  returns 0 and memory holds the bytes at \<open>dest\<close>, in order, and nothing else.  For a size of 1 to
  15 the progress test divides by zero, and from 2^31 on the index overflows: no defined result.\<close>

theorem update_receives_image:
  assumes "serial_live B s"
  shows "\<exists>t hdr u. say B (bytes_of ''receiving boot image'' @ crlf @ bytes_of ''size: '') s = Some t
    \<and> recv_bytes B 4 t = Some (hdr, u) \<and> length hdr = 4
    \<and> (let sz = unat (le_dec hdr :: u32) in
       if 0 < sz \<and> sz < 16 \<or> 2 ^ 31 \<le> sz then update B dest s = None
       else \<exists>img s'. update B dest s = Some (0, s') \<and> length img = sz \<and> serial_live B s'
         \<and> uart_in (uregs B) (hist s') = uart_in (uregs B) (hist s) @ hdr @ img
         \<and> ram s' = put_bytes dest img (ram s))"
proof -
  from assms obtain t where t: "say B (bytes_of ''receiving boot image'' @ crlf @ bytes_of ''size: '') s = Some t"
    "serial_live B t" "uart_in (uregs B) (hist t) = uart_in (uregs B) (hist s)" "ram t = ram s"
    by (rule say_step)
  obtain hdr u where u: "recv_bytes B 4 t = Some (hdr, u)" "length hdr = 4" "serial_live B u"
    "uart_in (uregs B) (hist u) = uart_in (uregs B) (hist t) @ hdr" "ram u = ram t"
    using recv_bytes_total [OF t(2)] by blast
  let ?sz = "le_dec hdr :: u32"
  obtain v where v: "print_uart_int (write_serial B) ?sz u = Some v" "serial_live B v"
    "uart_in (uregs B) (hist v) = uart_in (uregs B) (hist u)" "ram v = ram u"
    using u(3) by (rule print_int_step)
  obtain w where w: "say B (crlf @ bytes_of ''receiving '') v = Some w" "serial_live B w"
    "uart_in (uregs B) (hist w) = uart_in (uregs B) (hist v)" "ram w = ram v"
    using v(2) by (rule say_step)
  note run = update_def Let_def t(1) u(1) v(1) w(1)
  show ?thesis
  proof (cases "0 < unat ?sz \<and> unat ?sz < 16 \<or> 2 ^ 31 \<le> unat ?sz")
    case True
    then have "update_loop B dest ?sz (unat ?sz) 0 w = None"
      by (intro update_loop_undefined) (auto simp: update_small)
    with True t(1) u(1,2) show ?thesis by (simp add: run)
  next
    case False
    have "\<exists>img x. update_loop B dest ?sz (unat ?sz) 0 w = Some x \<and> length img = unat ?sz
       \<and> serial_live B x \<and> uart_in (uregs B) (hist x) = uart_in (uregs B) (hist w) @ img
       \<and> ram x = put_bytes dest img (ram w)"
    proof (cases "unat ?sz = 0")
      case True
      with w(2) show ?thesis by simp
    next
      case nz: False
      with False update_loop_stores [of ?sz B w 0 "unat ?sz" dest] w(2) update_small [of ?sz]
      show ?thesis by auto
    qed
    then obtain img x where x: "update_loop B dest ?sz (unat ?sz) 0 w = Some x" "length img = unat ?sz"
      "serial_live B x" "uart_in (uregs B) (hist x) = uart_in (uregs B) (hist w) @ img"
      "ram x = put_bytes dest img (ram w)" by blast
    obtain s' where "say B (bytes_of '' done!'' @ crlf) x = Some s'" "serial_live B s'"
      "uart_in (uregs B) (hist s') = uart_in (uregs B) (hist x)" "ram s' = ram x"
      using x(3) by (rule say_step)
    with False t u v(3,4) w(3,4) x show ?thesis by (auto simp: run)
  qed
qed

lemma quiet_serial_live: "serial_live (quiet_board 0x21 0) reset_machine"
proof -
  let ?B = "quiet_board 0x21 0"
  have "tx_drains ?B" by (rule tx_drainsI) (simp_all add: quiet_board_def)
  moreover have "fst (read_serial ?B s) = Some 0x21" for s
    by (simp add: read_serial_def is_receive_empty_def quiet_board_def read_reg_u8_def Let_def)
  then have "poll (\<lambda>s. Some (read_serial ?B s)) (\<lambda>r. r \<noteq> None) s \<noteq> None" for s
    by (subst poll.simps) simp
  then have "rx_delivers ?B"
    unfolding rx_delivers_def recv_byte_None by (rule allI)
  ultimately show ?thesis
    by (simp add: serial_live_def generic_uart_def line_open_def quiet_board_def fpga_uart_def
        reset_machine_def)
qed

theorem update_receives_image_witness:
  "\<exists>t hdr u. say (quiet_board 0x21 0) (bytes_of ''receiving boot image'' @ crlf @ bytes_of ''size: '')
      reset_machine = Some t \<and> recv_bytes (quiet_board 0x21 0) 4 t = Some (hdr, u) \<and> length hdr = 4"
  using update_receives_image [OF quiet_serial_live, of "0x80000000"] by blast

section \<open>Booting from the card\<close>

text \<open>Nobody presses a key; and waiting a second ends, as the cycle counter advances.\<close>

definition no_key :: "board \<Rightarrow> bool" where
  "no_key B \<longleftrightarrow> (\<forall>s. fst (read_serial B s) = None)"

definition clock_ticks :: "board \<Rightarrow> u64 \<Rightarrow> bool" where
  "clock_ticks B f \<longleftrightarrow> (\<forall>s. poll (\<lambda>t. Some (key_step B f (fst (get_cycle_count B s)) t))
     (\<lambda>k. k \<noteq> Nothing) (snd (get_cycle_count B s)) \<noteq> None)"

lemma beside_uart_sd:
  assumes "beside_uart B s' = beside_uart B s" "line_open B s' = line_open B s"
  shows "spi_view s' = spi_view s" "sd_ok B s' = sd_ok B s"
  using beside_uart_spi_view [OF assms(1)] assms(2) by (simp_all add: sd_ok_def spi_live_def)

lemma cycle_keeps:
  "spi_view (snd (get_cycle_count B s)) = spi_view s" "sd_ok B (snd (get_cycle_count B s)) = sd_ok B s"
  by (simp_all add: spi_view_def sd_ok_def spi_live_def line_open_def)

lemma read_serial_keeps:
  assumes "generic_uart B" "read_serial B s = (r, s')"
  shows "spi_view s' = spi_view s" "sd_ok B s' = sd_ok B s"
proof -
  have "beside_uart B s' = beside_uart B s"
    using assms by (auto simp: read_serial_def is_receive_empty_def generic_uart_def Let_def
        case_prod_unfold beside_uart_def uart_addr_def split: if_splits)
  from beside_uart_sd [OF this] read_serial_effect(1) [OF assms]
  show "spi_view s' = spi_view s" "sd_ok B s' = sd_ok B s" by simp_all
qed

lemma key_step_keeps:
  assumes "generic_uart B" "key_step B f st s = (k, s')"
  shows "spi_view s' = spi_view s \<and> sd_ok B s' = sd_ok B s \<and> (no_key B \<longrightarrow> k \<noteq> Key)"
proof (cases "fst (get_cycle_count B s) - st < f")
  case True
  obtain r t where r: "read_serial B (snd (get_cycle_count B s)) = (r, t)" by fastforce
  with True assms(2) have "s' = t" "k = (if r \<noteq> None then Key else Nothing)"
    by (auto simp: key_step_def Let_def case_prod_unfold)
  moreover have "no_key B \<Longrightarrow> r = None"
    using r by (metis fst_conv no_key_def)
  ultimately show ?thesis
    using read_serial_keeps [OF assms(1) r] cycle_keeps [of B s] by auto
next
  case False
  with assms(2) cycle_keeps [of B s] show ?thesis
    by (auto simp: key_step_def Let_def case_prod_unfold)
qed

lemma sd_ok_say:
  assumes "sd_ok B s"
  obtains s' where "say B str s = Some s'" "sd_ok B s'" "spi_view s' = spi_view s"
  using assms say_live [of B s str] say_spi_view [of B str s] unfolding sd_ok_def by metis

lemma wait_key_silent:
  assumes "generic_uart B" "no_key B" "clock_ticks B f"
  shows "sd_ok B s \<Longrightarrow> \<exists>s'. wait_key B f n s = Some (False, s') \<and> sd_ok B s' \<and> spi_view s' = spi_view s"
proof (induction n arbitrary: s)
  case 0
  then show ?case by simp
next
  case (Suc n)
  from Suc.prems obtain t where t: "say B (bytes_of ''.'') s = Some t" "sd_ok B t" "spi_view t = spi_view s"
    by (rule sd_ok_say)
  define st u where "st = fst (get_cycle_count B t)" and "u = snd (get_cycle_count B t)"
  from assms(3) obtain k v where p: "poll (\<lambda>s. Some (key_step B f st s)) (\<lambda>k. k \<noteq> Nothing) u = Some (k, v)"
    unfolding clock_ticks_def st_def u_def by fast
  then have "spi_view v = spi_view u \<and> sd_ok B v = sd_ok B u \<and> k \<noteq> Key"
    by (rule poll_Some_induct) (use key_step_keeps [OF assms(1)] assms(2) in \<open>force+\<close>)
  moreover have "spi_view u = spi_view t" "sd_ok B u = sd_ok B t"
    by (simp_all add: u_def cycle_keeps)
  moreover have "get_cycle_count B t = (st, u)" by (simp only: st_def u_def prod.collapse)
  ultimately show ?case
    using Suc.IH [of v] t p by auto
qed

lemma init_uart_sd_ok:
  assumes "uregs B = fpga_uart" "push_bit 4 baud \<noteq> 0" "sd_ok B s"
  obtains s' where "init_uart True B freq baud s = Some s'" "sd_ok B s'" "spi_view s' = spi_view s"
proof -
  obtain s' where i: "init_uart True B freq baud s = Some s'"
    using assms(2) by (simp add: init_uart_def Let_def)
  then have "line_open B s' = line_open B s" "beside_uart B s' = beside_uart B s"
    using assms by (auto simp: init_uart_def Let_def line_open_def beside_uart_def uart_addr_def
        fpga_uart_def sd_ok_def spi_live_def split: if_splits)
  with i assms(3) beside_uart_sd [of B s' s] that show ?thesis by blast
qed


lemma quiet_clock_ticks: "clock_ticks (quiet_board 0x20 0xFE) 1"
proof -
  have "key_step (quiet_board 0x20 0xFE) 1 (fst (get_cycle_count (quiet_board 0x20 0xFE) s))
      (snd (get_cycle_count (quiet_board 0x20 0xFE) s)) =
    (Timeout, snd (get_cycle_count (quiet_board 0x20 0xFE) (snd (get_cycle_count (quiet_board 0x20 0xFE) s))))" for s
    by (simp add: key_step_def get_cycle_count_def quiet_board_def Let_def)
  then show ?thesis
    by (simp add: clock_ticks_def poll.simps [where ok = "\<lambda>k. k \<noteq> Nothing"])
qed


end
