(* ===== verification/Cstring.thy ===== *)
theory Cstring
  imports Bus
begin

text \<open>
  The memory and string routines of \<open>verif/tests/custom/common/syscalls.c\<close> and the
  helpers of \<open>util.h\<close>, on RV64 (\<open>uintptr_t\<close> and \<open>size_t\<close> are 64 bits, \<open>char\<close> is
  unsigned).  Memory is the function from addresses to bytes of theory \<open>Bus\<close>;
  loops that only a NUL byte ends are partial functions.
\<close>

type_synonym mem = "u64 \<Rightarrow> u8"

section \<open>memcpy and memset\<close>

text \<open>The two loops of \<open>memcpy\<close>: by words of eight bytes and by bytes, up to the address \<open>e\<close>.\<close>

partial_function (option) copy_words :: "mem \<Rightarrow> u64 \<Rightarrow> u64 \<Rightarrow> u64 \<Rightarrow> mem option" where
  "copy_words m d s e =
     (if d < e then copy_words (put_bytes d (get_bytes s 8 m) m) (d + 8) (s + 8) e else Some m)"

partial_function (option) copy_chars :: "mem \<Rightarrow> u64 \<Rightarrow> u64 \<Rightarrow> u64 \<Rightarrow> mem option" where
  "copy_chars m d s e =
     (if d < e then copy_chars (m(d := m s)) (d + 1) (s + 1) e else Some m)"

definition memcpy :: "mem \<Rightarrow> u64 \<Rightarrow> u64 \<Rightarrow> u64 \<Rightarrow> (u64 \<times> mem) option" where
  "memcpy m dest src len =
     (if (dest OR src OR len) AND (8 - 1) = 0
      then do { m \<leftarrow> copy_words m dest src (dest + len); Some (dest, m) }
      else do { m \<leftarrow> copy_chars m dest src (dest + len); Some (dest, m) })"

partial_function (option) fill_words :: "mem \<Rightarrow> u64 \<Rightarrow> u64 \<Rightarrow> u64 \<Rightarrow> mem option" where
  "fill_words m d e w =
     (if d < e then fill_words (put_bytes d (le_enc 8 w) m) (d + 8) e w else Some m)"

partial_function (option) fill_chars :: "mem \<Rightarrow> u64 \<Rightarrow> u64 \<Rightarrow> u8 \<Rightarrow> mem option" where
  "fill_chars m d e b =
     (if d < e then fill_chars (m(d := b)) (d + 1) e b else Some m)"

definition spread_byte :: "u32 \<Rightarrow> u64" where
  "spread_byte byte =
     (let w = ucast (byte AND 0xFF); w = w OR push_bit 8 w; w = w OR push_bit 16 w
      in w OR push_bit 16 (push_bit 16 w))"

definition memset :: "mem \<Rightarrow> u64 \<Rightarrow> u32 \<Rightarrow> u64 \<Rightarrow> (u64 \<times> mem) option" where
  "memset m dest byte len =
     (if (dest OR len) AND (8 - 1) = 0
      then do { m \<leftarrow> fill_words m dest (dest + len) (spread_byte byte); Some (dest, m) }
      else do { m \<leftarrow> fill_chars m dest (dest + len) (ucast byte); Some (dest, m) })"

section \<open>Strings\<close>

partial_function (option) strlen_loop :: "mem \<Rightarrow> u64 \<Rightarrow> u64 option" where
  "strlen_loop m p = (if m p \<noteq> 0 then strlen_loop m (p + 1) else Some p)"

definition strlen :: "mem \<Rightarrow> u64 \<Rightarrow> u64 option" where
  "strlen m s = do { p \<leftarrow> strlen_loop m s; Some (p - s) }"

partial_function (option) strnlen_loop :: "mem \<Rightarrow> u64 \<Rightarrow> u64 \<Rightarrow> u64 option" where
  "strnlen_loop m n p = (if n \<noteq> 0 \<and> m p \<noteq> 0 then strnlen_loop m (n - 1) (p + 1) else Some p)"

definition strnlen :: "mem \<Rightarrow> u64 \<Rightarrow> u64 \<Rightarrow> u64 option" where
  "strnlen m s n = do { p \<leftarrow> strnlen_loop m n s; Some (p - s) }"

partial_function (option) strcmp :: "mem \<Rightarrow> u64 \<Rightarrow> u64 \<Rightarrow> int option" where
  "strcmp m s1 s2 =
     (let c1 = m s1; c2 = m s2
      in if c1 \<noteq> 0 \<and> c1 = c2 then strcmp m (s1 + 1) (s2 + 1) else Some (uint c1 - uint c2))"

partial_function (option) strcpy_loop :: "mem \<Rightarrow> u64 \<Rightarrow> u64 \<Rightarrow> mem option" where
  "strcpy_loop m d src =
     (let c = m src; m = m(d := c) in if c \<noteq> 0 then strcpy_loop m (d + 1) (src + 1) else Some m)"

definition strcpy :: "mem \<Rightarrow> u64 \<Rightarrow> u64 \<Rightarrow> (u64 \<times> mem) option" where
  "strcpy m dest src = do { m \<leftarrow> strcpy_loop m dest src; Some (dest, m) }"

text \<open>A \<open>long\<close> result: no value when the computation leaves the range of the type.\<close>

definition long :: "int \<Rightarrow> int option" where
  "long x = (if - (2 ^ 63) \<le> x \<and> x < 2 ^ 63 then Some x else None)"

partial_function (option) skip_spaces :: "mem \<Rightarrow> u64 \<Rightarrow> u64 option" where
  "skip_spaces m p = (if m p = 0x20 then skip_spaces m (p + 1) else Some p)"

partial_function (option) atol_digits :: "mem \<Rightarrow> u64 \<Rightarrow> int \<Rightarrow> int option" where
  "atol_digits m p res =
     (if m p \<noteq> 0
      then do {
        res \<leftarrow> long (res * 10);
        res \<leftarrow> long (res + (uint (m p) - 48));
        atol_digits m (p + 1) res
      }
      else Some res)"

definition atol :: "mem \<Rightarrow> u64 \<Rightarrow> int option" where
  "atol m str = do {
     str \<leftarrow> skip_spaces m str;
     let signed = (m str = 0x2D \<or> m str = 0x2B);
     let neg = (signed \<and> m str = 0x2D);
     res \<leftarrow> atol_digits m (if signed then str + 1 else str) 0;
     if neg then long (- res) else Some res
   }"

section \<open>Helpers of util.h\<close>

text \<open>\<open>eq\<close> is the comparison of the element type: that of \<open>int\<close>, or the one of \<open>double\<close>.\<close>

fun verify_pairs :: "(nat \<Rightarrow> 'a) \<Rightarrow> (nat \<Rightarrow> 'a) \<Rightarrow> ('a \<Rightarrow> 'a \<Rightarrow> bool) \<Rightarrow> nat \<Rightarrow> nat \<Rightarrow> nat option" where
  "verify_pairs test ver eq 0 i = None"
| "verify_pairs test ver eq (Suc k) i =
     (if \<not> eq (test i) (ver i) then Some (i + 1)
      else if \<not> eq (test (i + 1)) (ver (i + 1)) then Some (i + 2)
      else verify_pairs test ver eq k (i + 2))"

definition verify :: "nat \<Rightarrow> (nat \<Rightarrow> u32) \<Rightarrow> (nat \<Rightarrow> u32) \<Rightarrow> nat" where
  "verify n test ver =
     (case verify_pairs test ver (=) (n div 2) 0 of
        Some r \<Rightarrow> r
      | None \<Rightarrow> if n mod 2 \<noteq> 0 \<and> test (n - 1) \<noteq> ver (n - 1) then n else 0)"

fun verify_double_pairs :: "(nat \<Rightarrow> 'a) \<Rightarrow> (nat \<Rightarrow> 'a) \<Rightarrow> ('a \<Rightarrow> 'a \<Rightarrow> bool) \<Rightarrow> nat \<Rightarrow> nat \<Rightarrow> nat option" where
  "verify_double_pairs test ver eq 0 i = None"
| "verify_double_pairs test ver eq (Suc k) i =
     (let eq1 = eq (test i) (ver i); eq2 = eq (test (i + 1)) (ver (i + 1))
      in if \<not> (eq1 \<and> eq2) then Some (i + 1 + (if eq1 then 1 else 0))
         else verify_double_pairs test ver eq k (i + 2))"

definition verifyDouble :: "('d \<Rightarrow> 'd \<Rightarrow> bool) \<Rightarrow> nat \<Rightarrow> (nat \<Rightarrow> 'd) \<Rightarrow> (nat \<Rightarrow> 'd) \<Rightarrow> nat" where
  "verifyDouble eq n test ver =
     (case verify_double_pairs test ver eq (n div 2) 0 of
        Some r \<Rightarrow> r
      | None \<Rightarrow> if n mod 2 \<noteq> 0 \<and> \<not> eq (test (n - 1)) (ver (n - 1)) then n else 0)"

definition lfsr :: "u64 \<Rightarrow> u64" where
  "lfsr x = (let b = (x XOR drop_bit 1 x) AND 1 in drop_bit 1 x OR push_bit 62 b)"

definition insn_len :: "mem \<Rightarrow> u64 \<Rightarrow> u64" where
  "insn_len m pc = (if (le_dec (get_bytes pc 2 m) :: u16) AND 3 \<noteq> 0 then 4 else 2)"

section \<open>The copy loops\<close>

lemma upto_end:
  assumes "unat d + n < 2 ^ 64" "0 < n"
  shows "d < d + (of_nat n :: u64)"
proof -
  from assms(1) have "unat (of_nat n :: u64) = n" by (simp add: unat_of_nat)
  with assms show ?thesis by (simp add: word_less_nat_alt unat_word_ariths)
qed

lemma get_bytes_Suc: "get_bytes a (Suc n) m = m a # get_bytes (a + 1) n m"
  using get_bytes_append [of a 1 n m] by (simp add: get_bytes_def)

lemma apart_mono: "apart a p n \<Longrightarrow> k \<le> n \<Longrightarrow> apart a p k"
  by (simp add: apart_def)

lemma copy_chars_put:
  "unat d + n < 2 ^ 64 \<Longrightarrow> apart s d n \<Longrightarrow>
     copy_chars m d s (d + of_nat n) = Some (put_bytes d (get_bytes s n m) m)"
proof (induction n arbitrary: m d s)
  case 0
  then show ?case by (simp add: copy_chars.simps [of m d s] get_bytes_def)
next
  case (Suc n)
  from Suc.prems(1) have "unat (d + 1) = unat d + 1"
    by (simp add: unat_word_ariths)
  with Suc.prems have "copy_chars (m(d := m s)) (d + 1) (s + 1) (d + 1 + of_nat n) =
      Some (put_bytes (d + 1) (get_bytes (s + 1) n (m(d := m s))) (m(d := m s)))"
    using apart_split(2) [of s d 1 n] by (intro Suc.IH) simp_all
  moreover have "get_bytes (s + 1) n (m(d := m s)) = get_bytes (s + 1) n m"
    using get_after_put [of s d 1 n "[m s]" m] Suc.prems(2) by simp
  moreover have "d < d + of_nat (Suc n)"
    using Suc.prems(1) by (intro upto_end) simp_all
  ultimately show ?case
    by (simp add: copy_chars.simps [of m d s] get_bytes_Suc add.assoc)
qed

lemma copy_words_put:
  "unat d + 8 * k < 2 ^ 64 \<Longrightarrow> apart s d (8 * k) \<Longrightarrow>
     copy_words m d s (d + of_nat (8 * k)) = Some (put_bytes d (get_bytes s (8 * k) m) m)"
proof (induction k arbitrary: m d s)
  case 0
  then show ?case by (simp add: copy_words.simps [of m d s] get_bytes_def)
next
  case (Suc k)
  let ?m = "put_bytes d (get_bytes s 8 m) m"
  from Suc.prems(1) have "unat (d + 8) = unat d + 8"
    by (simp add: unat_word_ariths)
  with Suc.prems have "copy_words ?m (d + 8) (s + 8) (d + 8 + of_nat (8 * k)) =
      Some (put_bytes (d + 8) (get_bytes (s + 8) (8 * k) ?m) ?m)"
    using apart_split(2) [of s d 8 "8 * k"] by (intro Suc.IH) simp_all
  moreover have "get_bytes (s + 8) (8 * k) ?m = get_bytes (s + 8) (8 * k) m"
    using get_after_put [of s d 8 "8 * k" "get_bytes s 8 m" m] Suc.prems(2) by simp
  moreover have "d < d + of_nat (8 * Suc k)"
    using Suc.prems(1) by (intro upto_end) simp_all
  moreover have "get_bytes s (8 * Suc k) m = get_bytes s 8 m @ get_bytes (s + 8) (8 * k) m"
    using get_bytes_append [of s 8 "8 * k" m] by simp
  ultimately show ?case
    by (simp add: copy_words.simps [of m d s] put_bytes_append add.assoc)
qed

lemma fill_chars_put:
  "unat d + n < 2 ^ 64 \<Longrightarrow> fill_chars m d (d + of_nat n) b = Some (put_bytes d (replicate n b) m)"
proof (induction n arbitrary: m d)
  case 0
  then show ?case by (simp add: fill_chars.simps [of m d])
next
  case (Suc n)
  from Suc.prems have "unat (d + 1) = unat d + 1"
    by (simp add: unat_word_ariths)
  with Suc.prems have "fill_chars (m(d := b)) (d + 1) (d + 1 + of_nat n) b =
      Some (put_bytes (d + 1) (replicate n b) (m(d := b)))"
    by (intro Suc.IH) simp_all
  moreover have "d < d + of_nat (Suc n)"
    using Suc.prems by (intro upto_end) simp_all
  ultimately show ?case by (simp add: fill_chars.simps [of m d] add.assoc)
qed

lemma fill_words_put:
  "unat d + 8 * k < 2 ^ 64 \<Longrightarrow>
     fill_words m d (d + of_nat (8 * k)) w = Some (put_bytes d (concat (replicate k (le_enc 8 w))) m)"
proof (induction k arbitrary: m d)
  case 0
  then show ?case by (simp add: fill_words.simps [of m d])
next
  case (Suc k)
  let ?m = "put_bytes d (le_enc 8 w) m"
  from Suc.prems have "unat (d + 8) = unat d + 8"
    by (simp add: unat_word_ariths)
  with Suc.prems have "fill_words ?m (d + 8) (d + 8 + of_nat (8 * k)) w =
      Some (put_bytes (d + 8) (concat (replicate k (le_enc 8 w))) ?m)"
    by (intro Suc.IH) simp_all
  moreover have "d < d + of_nat (8 * Suc k)"
    using Suc.prems by (intro upto_end) simp_all
  ultimately show ?case
    by (simp add: fill_words.simps [of m d] put_bytes_append add.assoc)
qed

section \<open>memcpy and memset are the byte-wise operations\<close>

lemma word_aligned:
  assumes "(a OR b OR len) AND (8 - 1) = (0 :: u64)"
  obtains k where "unat len = 8 * k" "len = of_nat (8 * k)"
proof -
  have "len AND mask 3 = 0"
  proof (rule bit_word_eqI)
    fix i assume "i < LENGTH(64)"
    from assms have "\<not> bit ((a OR b OR len) AND mask 3) i" by (simp add: mask_eq_exp_minus_1)
    then show "bit (len AND mask 3) i = bit 0 i" by (auto simp: bit_simps)
  qed
  then have "unat (take_bit 3 len) = 0" by (simp add: take_bit_eq_mask)
  then have "take_bit 3 (unat len) = 0" by (simp only: unsigned_take_bit_eq)
  then have "8 dvd unat len" by (simp add: take_bit_eq_mod mod_eq_0_iff_dvd)
  then obtain k where k: "unat len = 8 * k" by (elim dvdE)
  moreover have "len = of_nat (8 * k)" unfolding k [symmetric] by simp
  ultimately show ?thesis by (rule that)
qed

text \<open>For any two regions inside the address space that do not overlap, \<open>memcpy\<close> returns its
  destination and copies exactly the bytes, whether it takes the word loop (both addresses and the
  length multiples of 8) or the byte loop; nothing else in memory changes.\<close>

theorem memcpy_copies:
  assumes "unat dest + unat len < 2 ^ 64" "apart src dest (unat len)"
  shows "memcpy m dest src len = Some (dest, put_bytes dest (get_bytes src (unat len) m) m)"
proof (cases "(dest OR src OR len) AND (8 - 1) = 0")
  case True
  then obtain k where k: "unat len = 8 * k" "len = of_nat (8 * k)" by (rule word_aligned)
  have "copy_words m dest src (dest + len) = Some (put_bytes dest (get_bytes src (unat len) m) m)"
    unfolding k(1) by (subst k(2), rule copy_words_put) (use assms k(1) in simp_all)
  with True show ?thesis by (simp add: memcpy_def)
next
  case False
  with copy_chars_put [of dest "unat len" src m] assms show ?thesis
    by (simp add: memcpy_def)
qed

lemma apart_far:
  assumes "unat a + n \<le> unat p" "unat p + n < 2 ^ 64"
  shows "apart a p n"
proof -
  have "unat (a + of_nat i) = unat a + i" "unat (p + of_nat j) = unat p + j" if "i < n" "j < n" for i j
    using that assms by (simp_all add: unat_word_ariths unat_of_nat)
  with assms show ?thesis unfolding apart_def by (metis add_lessD1 nat_add_left_cancel_less not_le trans_le_add1)
qed

theorem memcpy_copies_witness:
  "memcpy (\<lambda>a. ucast a) 0x2000 0x1000 16 =
     Some (0x2000, put_bytes 0x2000 (get_bytes 0x1000 16 (\<lambda>a. ucast a)) (\<lambda>a. ucast a))"
  using memcpy_copies [of "0x2000" 16 "0x1000" "\<lambda>a. ucast a"] apart_far [of "0x1000" 16 "0x2000"] by simp

lemma spread_byte_bytes: "le_enc 8 (spread_byte w) = replicate 8 (ucast w)"
proof (rule nth_equalityI)
  fix i assume "i < length (le_enc 8 (spread_byte w))"
  then have i: "i < 8" by simp
  show "le_enc 8 (spread_byte w) ! i = replicate 8 (ucast w) ! i"
  proof (rule bit_word_eqI)
    fix j assume "j < LENGTH(8)"
    then have j: "j < 8" by simp
    have "i \<in> {0, 1, 2, 3, 4, 5, 6, 7}" using i by auto
    with j show "bit (le_enc 8 (spread_byte w) ! i) j = bit (replicate 8 (ucast w :: u8) ! i) j"
      unfolding ff_mask spread_byte_def Let_def
      by (auto simp: le_enc_def bit_simps ff_mask dest: bit_imp_le_length)
  qed
qed simp

lemma replicate_mult: "concat (replicate k (replicate n x)) = replicate (n * k) x"
  by (induction k) (simp_all add: replicate_add)

text \<open>For a region inside the address space \<open>memset\<close> stores the low byte of its argument in every
  byte of the region and nothing else, in the word loop too.\<close>

theorem memset_fills:
  assumes "unat dest + unat len < 2 ^ 64"
  shows "memset m dest byte len = Some (dest, put_bytes dest (replicate (unat len) (ucast byte)) m)"
proof (cases "(dest OR len) AND (8 - 1) = 0")
  case True
  then have "(dest OR dest OR len) AND (8 - 1) = 0" by (simp add: or.assoc [symmetric])
  then obtain k where k: "unat len = 8 * k" "len = of_nat (8 * k)" by (rule word_aligned)
  have "fill_words m dest (dest + len) (spread_byte byte) =
      Some (put_bytes dest (concat (replicate k (le_enc 8 (spread_byte byte)))) m)"
    by (subst k(2), rule fill_words_put) (use assms k(1) in simp_all)
  with True show ?thesis by (simp add: memset_def spread_byte_bytes replicate_mult k(1))
next
  case False
  with fill_chars_put [of dest "unat len" m "ucast byte"] assms show ?thesis
    by (simp add: memset_def)
qed

theorem memset_fills_witness:
  "memset (\<lambda>_. 0) 0x2000 0x41 16 = Some (0x2000, put_bytes 0x2000 (replicate 16 0x41) (\<lambda>_. 0))"
  using memset_fills [of "0x2000" 16 "\<lambda>_. 0" "0x41"] by simp

section \<open>Strings in memory\<close>

text \<open>The C string \<open>cs\<close> is stored at \<open>s\<close>, with its NUL.\<close>

primrec str_at :: "mem \<Rightarrow> u64 \<Rightarrow> u8 list \<Rightarrow> bool" where
  "str_at m s [] = (m s = 0)"
| "str_at m s (c # cs) = (m s = c \<and> c \<noteq> 0 \<and> str_at m (s + 1) cs)"

lemma str_at_other:
  "(\<And>i. i \<le> length cs \<Longrightarrow> s + of_nat i \<noteq> a) \<Longrightarrow> str_at (m(a := v)) s cs = str_at m s cs"
proof (induction cs arbitrary: s)
  case Nil
  from Nil.prems [of 0] show ?case by simp
next
  case (Cons c cs)
  have "s + 1 + of_nat i \<noteq> a" if "i \<le> length cs" for i
    using Cons.prems [of "Suc i"] that by (simp add: ac_simps)
  then have "str_at (m(a := v)) (s + 1) cs = str_at m (s + 1) cs" by (rule Cons.IH)
  with Cons.prems [of 0] show ?case by (simp del: fun_upd_apply) (simp add: fun_upd_apply)
qed

lemma str_at_bytes: "str_at m s cs \<longleftrightarrow> get_bytes s (Suc (length cs)) m = cs @ [0] \<and> 0 \<notin> set cs"
proof (induction cs arbitrary: s)
  case Nil
  then show ?case by (simp add: get_bytes_def)
next
  case (Cons c cs)
  then show ?case by (auto simp: get_bytes_Suc [of s "Suc (length cs)"])
qed

lemma str_at_put:
  "0 \<notin> set cs \<Longrightarrow> Suc (length cs) \<le> 2 ^ 64 \<Longrightarrow> str_at (put_bytes a (cs @ [0]) m) a cs"
  using get_put_bytes [of "cs @ [0]" a m] by (simp add: str_at_bytes)

lemma strlen_loop_end: "str_at m s cs \<Longrightarrow> strlen_loop m s = Some (s + of_nat (length cs))"
  by (induction cs arbitrary: s) (simp_all add: strlen_loop.simps add.assoc)

lemma strnlen_loop_end:
  "str_at m s cs \<Longrightarrow> strnlen_loop m n s = Some (s + of_nat (min (unat n) (length cs)))"
proof (induction cs arbitrary: s n)
  case Nil
  then show ?case by (simp add: strnlen_loop.simps [of m n s])
next
  case (Cons c cs)
  show ?case
  proof (cases "n = 0")
    case True
    then show ?thesis by (simp add: strnlen_loop.simps [of m 0 s])
  next
    case False
    then have n: "unat n = Suc (unat (n - 1))" by (simp add: unat_minus_one unat_gt_0)
    from Cons False show ?thesis
      by (simp add: strnlen_loop.simps [of m n s] n add.assoc)
  qed
qed

lemma uint_pos: "0 < uint w \<longleftrightarrow> w \<noteq> 0" "\<not> uint w < 0"
  using word_gt_0 [of w] by (simp_all add: word_less_def)

text \<open>On a C string of \<open>k\<close> bytes \<open>strlen\<close> returns \<open>k\<close>, and \<open>strnlen\<close> the smaller of \<open>k\<close> and its
  bound.\<close>

theorem strlen_counts:
  assumes "str_at m s cs" "length cs < 2 ^ 64"
  shows "strlen m s = Some (of_nat (length cs)) \<and> unat (of_nat (length cs) :: u64) = length cs
    \<and> strnlen m s n = Some (of_nat (min (unat n) (length cs)))"
  using assms by (simp add: strlen_def strnlen_def strlen_loop_end strnlen_loop_end unat_of_nat)

theorem strlen_counts_witness:
  "strlen (put_bytes 0x100 ([0x48, 0x69] @ [0]) (\<lambda>_. 7)) 0x100 = Some 2
   \<and> strnlen (put_bytes 0x100 ([0x48, 0x69] @ [0]) (\<lambda>_. 7)) 0x100 1 = Some 1"
  using strlen_counts [OF str_at_put [of "[0x48, 0x69]" "0x100" "\<lambda>_. 7"], of 1] by simp

text \<open>\<open>strcmp\<close> compares in the order of unsigned bytes: 0 for equal strings, negative exactly when
  the first string comes first.\<close>

theorem strcmp_lexical:
  assumes "str_at m s xs" "str_at m t ys"
  shows "\<exists>r. strcmp m s t = Some r \<and> (r = 0 \<longleftrightarrow> xs = ys) \<and> (r < 0 \<longleftrightarrow> ord_class.lexordp xs ys)"
  using assms
proof (induction xs arbitrary: s t ys)
  case Nil
  then show ?case by (cases ys) (auto simp: strcmp.simps [of m s t] Let_def uint_pos uint_0_iff)
next
  case (Cons x xs)
  show ?case
  proof (cases ys)
    case Nil
    with Cons.prems show ?thesis
      by (auto simp: strcmp.simps [of m s t] Let_def word_less_def uint_0_iff)
  next
    case (Cons y ys')
    show ?thesis
    proof (cases "x = y")
      case True
      with Cons Cons.IH [of "s + 1" "t + 1" ys'] Cons.prems show ?thesis
        by (auto simp: strcmp.simps [of m s t] Let_def)
    next
      case False
      then have "uint x \<noteq> uint y" by (simp add: word_uint_eq_iff)
      with False Cons Cons.prems show ?thesis
        by (auto simp: strcmp.simps [of m s t] Let_def word_less_def)
    qed
  qed
qed

theorem strcmp_lexical_witness:
  "\<exists>r. strcmp (put_bytes 0x100 ([0x61, 0xE9] @ [0]) (\<lambda>_. 7)) 0x100 0x101 = Some r \<and> r < 0"
proof -
  let ?m = "put_bytes 0x100 ([0x61, 0xE9] @ [0]) (\<lambda>_. 7)"
  have "str_at ?m 0x100 [0x61, 0xE9]" by (rule str_at_put) simp_all
  moreover from this have "str_at ?m 0x101 [0xE9]" by simp
  ultimately show ?thesis using strcmp_lexical [of ?m "0x100" "[0x61, 0xE9]" "0x101" "[0xE9]"] by auto
qed

lemma strcpy_loop_put:
  "str_at m s cs \<Longrightarrow> apart s d (Suc (length cs)) \<Longrightarrow>
     strcpy_loop m d s = Some (put_bytes d (cs @ [0]) m)"
proof (induction cs arbitrary: m s d)
  case Nil
  then show ?case by (simp add: strcpy_loop.simps [of m d s] Let_def del: fun_upd_apply)
next
  case (Cons c cs)
  have "s + 1 + of_nat i \<noteq> d" if "i \<le> length cs" for i
  proof -
    have "s + of_nat (Suc i) \<noteq> d + of_nat 0"
      using Cons.prems(2) that unfolding apart_def by (metis length_Cons less_Suc_eq_le not_less_eq_eq zero_less_Suc)
    then show ?thesis by (simp add: ac_simps)
  qed
  then have "str_at (m(d := c)) (s + 1) cs = str_at m (s + 1) cs" by (rule str_at_other)
  with Cons.IH [of "m(d := c)" "s + 1" "d + 1"] Cons.prems apart_split(2) [of s d 1 "Suc (length cs)"]
  show ?case by (simp add: strcpy_loop.simps [of m d s] Let_def del: fun_upd_apply)
qed

text \<open>\<open>strcpy\<close> into a region that does not overlap the source stores the string and its NUL, changes
  nothing else, and leaves the same string in both places.\<close>

theorem strcpy_copies:
  assumes "str_at m src cs" "apart src dest (Suc (length cs))" "Suc (length cs) \<le> 2 ^ 64"
  shows "\<exists>m'. strcpy m dest src = Some (dest, m') \<and> m' = put_bytes dest (cs @ [0]) m
    \<and> str_at m' dest cs \<and> str_at m' src cs"
proof -
  let ?m = "put_bytes dest (cs @ [0]) m"
  have "get_bytes src (Suc (length cs)) ?m = get_bytes src (Suc (length cs)) m"
  proof (rule nth_equalityI)
    fix i assume "i < length (get_bytes src (Suc (length cs)) ?m)"
    then have i: "i < Suc (length cs)" by simp
    have "?m (src + of_nat i) = m (src + of_nat i)"
      by (rule put_bytes_other) (use assms(2) i in \<open>auto simp: apart_def\<close>)
    with i show "get_bytes src (Suc (length cs)) ?m ! i = get_bytes src (Suc (length cs)) m ! i"
      by (simp add: get_bytes_def del: upt_Suc)
  qed simp
  with assms(1) have "str_at ?m src cs" unfolding str_at_bytes by simp
  moreover have "str_at ?m dest cs"
    using assms(1,3) by (intro str_at_put) (simp_all add: str_at_bytes)
  ultimately show ?thesis
    using strcpy_loop_put [OF assms(1,2)] by (simp add: strcpy_def)
qed

theorem strcpy_copies_witness:
  "\<exists>m'. strcpy (put_bytes 0x100 ([0x61, 0x62] @ [0]) (\<lambda>_. 7)) 0x200 0x100 = Some (0x200, m')
    \<and> str_at m' 0x200 [0x61, 0x62]"
  using strcpy_copies [OF str_at_put [of "[0x61, 0x62]" "0x100" "\<lambda>_. 7"], of "0x200"]
    apart_far [of "0x100" 3 "0x200"] by (auto simp: numeral_3_eq_3)

section \<open>Decimal numbers\<close>

definition is_digit :: "u8 \<Rightarrow> bool" where
  "is_digit c \<longleftrightarrow> 48 \<le> c \<and> c \<le> 57"

fun dec_value :: "int \<Rightarrow> u8 list \<Rightarrow> int" where
  "dec_value v [] = v"
| "dec_value v (d # ds) = dec_value (v * 10 + (uint d - 48)) ds"

lemma digit_bounds: "is_digit d \<Longrightarrow> 0 \<le> uint d - 48 \<and> uint d - 48 \<le> 9"
  by (simp add: is_digit_def word_le_def)

lemma dec_value_mono: "list_all is_digit ds \<Longrightarrow> 0 \<le> v \<Longrightarrow> v \<le> dec_value v ds"
proof (induction ds arbitrary: v)
  case Nil
  then show ?case by simp
next
  case (Cons d ds)
  then have "v \<le> v * 10 + (uint d - 48)" using digit_bounds [of d] by simp
  also have "\<dots> \<le> dec_value (v * 10 + (uint d - 48)) ds"
    using Cons digit_bounds [of d] by (intro Cons.IH) simp_all
  finally show ?case by simp
qed

lemma atol_digits_value:
  "str_at m p ds \<Longrightarrow> list_all is_digit ds \<Longrightarrow> 0 \<le> v \<Longrightarrow> v < 2 ^ 63 \<Longrightarrow>
     atol_digits m p v = (if dec_value v ds < 2 ^ 63 then Some (dec_value v ds) else None)"
proof (induction ds arbitrary: p v)
  case Nil
  then show ?case by (simp add: atol_digits.simps [of m p v])
next
  case (Cons d ds)
  let ?w = "v * 10 + (uint d - 48)"
  have d: "0 \<le> uint d - 48" "uint d - 48 \<le> 9" and w: "0 \<le> ?w" "?w \<le> dec_value ?w ds"
    using Cons.prems digit_bounds [of d] dec_value_mono [of ds ?w] by simp_all
  have step: "atol_digits m p v = do { r \<leftarrow> long (v * 10); r \<leftarrow> long (r + (uint d - 48)); atol_digits m (p + 1) r }"
    using Cons.prems by (simp add: atol_digits.simps [of m p v])
  show ?case
  proof (cases "?w < 2 ^ 63")
    case True
    then have "long (v * 10) = Some (v * 10)" "long ?w = Some ?w"
      using Cons.prems d by (simp_all add: long_def)
    with step Cons.IH [of "p + 1" ?w] Cons.prems w(1) True show ?thesis by simp
  next
    case False
    then have "\<not> dec_value ?w ds < 2 ^ 63" using w(2) by linarith
    moreover from False have "long (v * 10) = None \<or> long ?w = None" by (simp add: long_def)
    ultimately show ?thesis using step by (auto simp: long_def)
  qed
qed

lemma skip_spaces_end:
  "str_at m p (replicate k 0x20 @ cs) \<Longrightarrow> (\<And>c cs'. cs = c # cs' \<Longrightarrow> c \<noteq> 0x20) \<Longrightarrow>
     skip_spaces m p = Some (p + of_nat k) \<and> str_at m (p + of_nat k) cs"
proof (induction k arbitrary: p)
  case 0
  then show ?case by (cases cs) (auto simp: skip_spaces.simps [of m p])
next
  case (Suc k)
  from Suc.IH [of "p + 1"] Suc.prems show ?case by (simp add: skip_spaces.simps [of m p] ac_simps)
qed

text \<open>\<open>atol\<close> of spaces, an optional sign and digits is the decimal number with that sign, as long as
  its magnitude is below 2^63; otherwise the computation overflows.\<close>

theorem atol_decimal:
  assumes "str_at m s (replicate k 0x20 @ sg @ ds)" "list_all is_digit ds"
    and "sg = [] \<or> sg = [0x2B] \<or> sg = [0x2D]"
  shows "atol m s = (if dec_value 0 ds < 2 ^ 63
    then Some (if sg = [0x2D] then - dec_value 0 ds else dec_value 0 ds) else None)"
proof -
  have digit: "d \<noteq> 0x20 \<and> d \<noteq> 0x2B \<and> d \<noteq> 0x2D" if "is_digit d" for d
    using that by (auto simp: is_digit_def)
  let ?p = "s + of_nat k"
  have "c \<noteq> 0x20" if "sg @ ds = c # cs'" for c cs'
    using that assms(2,3) digit by (cases ds) auto
  from skip_spaces_end [OF assms(1) this]
  have p: "skip_spaces m s = Some ?p" "str_at m ?p (sg @ ds)" by simp_all
  have nonneg: "0 \<le> dec_value 0 ds" using dec_value_mono [OF assms(2)] by simp
  from assms(3) show ?thesis
  proof (elim disjE)
    assume sg: "sg = []"
    with p(2) assms(2) digit have "\<not> (m ?p = 0x2D \<or> m ?p = 0x2B)" by (cases ds) auto
    with p sg atol_digits_value [of m ?p ds 0] assms(2) show ?thesis by (simp add: atol_def)
  next
    assume sg: "sg = [0x2B]"
    with p atol_digits_value [of m "?p + 1" ds 0] assms(2) show ?thesis by (simp add: atol_def)
  next
    assume sg: "sg = [0x2D]"
    with p atol_digits_value [of m "?p + 1" ds 0] assms(2) nonneg show ?thesis
      by (simp add: atol_def long_def)
  qed
qed

theorem atol_decimal_witness:
  "atol (put_bytes 0x100 ([0x20, 0x2D, 0x34, 0x32] @ [0]) (\<lambda>_. 7)) 0x100 = Some (- 42)"
  using atol_decimal [of "put_bytes 0x100 ([0x20, 0x2D, 0x34, 0x32] @ [0]) (\<lambda>_. 7)" "0x100" 1 "[0x2D]" "[0x34, 0x32]"]
    str_at_put [of "[0x20, 0x2D, 0x34, 0x32]" "0x100" "\<lambda>_. 7"]
  by (simp add: is_digit_def)

section \<open>verify, lfsr and insn_len\<close>

definition first_diff :: "('a \<Rightarrow> 'a \<Rightarrow> bool) \<Rightarrow> nat \<Rightarrow> (nat \<Rightarrow> 'a) \<Rightarrow> (nat \<Rightarrow> 'a) \<Rightarrow> nat" where
  "first_diff eq n t v = (case find (\<lambda>i. \<not> eq (t i) (v i)) [0..<n] of None \<Rightarrow> 0 | Some i \<Rightarrow> i + 1)"

lemma verify_pairs_find:
  "verify_pairs t v eq k i = map_option Suc (find (\<lambda>i. \<not> eq (t i) (v i)) [i..<i + 2 * k])"
proof (induction k arbitrary: i)
  case 0
  then show ?case by simp
next
  case (Suc k)
  have "[i..<i + 2 * Suc k] = i # Suc i # [i + 2..<i + 2 + 2 * k]"
    by (simp add: upt_conv_Cons)
  with Suc show ?case by simp
qed

lemma verify_double_pairs_eq: "verify_double_pairs t v eq k i = verify_pairs t v eq k i"
  by (induction k arbitrary: i) (simp_all add: Let_def)

lemma find_append: "find P (xs @ ys) = (case find P xs of None \<Rightarrow> find P ys | Some x \<Rightarrow> Some x)"
  by (induction xs) simp_all

lemma unrolled_first_diff:
  "(case verify_pairs t v eq (n div 2) 0 of Some r \<Rightarrow> r
    | None \<Rightarrow> if n mod 2 \<noteq> 0 \<and> \<not> eq (t (n - 1)) (v (n - 1)) then n else 0) = first_diff eq n t v"
proof (cases "n mod 2 = 0")
  case True
  then have "2 * (n div 2) = n" by presburger
  with True show ?thesis
    by (simp add: verify_pairs_find first_diff_def split: option.splits)
next
  case False
  then have "[0..<n] = [0..<2 * (n div 2)] @ [n - 1]" and "Suc (n - 1) = n"
    by (metis False Suc_eq_plus1 diff_Suc_1 mult_div_mod_eq not_mod2_eq_Suc_0_eq_0 upt_Suc zero_le
        dvd_mult_div_cancel odd_Suc_minus_one odd_two_times_div_two_nat even_iff_mod_2_eq_zero upt_Suc_append)
      (use False in \<open>cases n; simp\<close>)
  with False show ?thesis
    by (simp add: verify_pairs_find first_diff_def find_append split: option.splits)
qed

text \<open>The unrolled comparison loops of \<open>verify\<close> and \<open>verifyDouble\<close> return what a plain search
  returns: 0 when all \<open>n\<close> elements agree, otherwise one more than the index of the first that
  does not, for every comparison of doubles (NaN included).\<close>

theorem verify_first_diff:
  "verify n t v = first_diff (=) n t v \<and> verifyDouble eq n t' v' = first_diff eq n t' v'"
  unfolding verify_def verifyDouble_def verify_double_pairs_eq
  using unrolled_first_diff [where t = t and v = v and eq = "(=)"] unrolled_first_diff [where t = t' and v = v'] by simp

definition lfsr_back :: "u64 \<Rightarrow> u64" where
  "lfsr_back y = take_bit 63 (push_bit 1 y) OR ((drop_bit 62 y XOR y) AND 1)"

lemma below_63: "x < 2 ^ 63 \<longleftrightarrow> \<not> bit x 63" for x :: u64
proof -
  have "bit x 63 \<longleftrightarrow> bit (unat x) 63" by (simp add: bit_unsigned_iff)
  also have "\<dots> \<longleftrightarrow> odd (unat x div 2 ^ 63)" by (simp only: bit_iff_odd)
  also have "\<dots> \<longleftrightarrow> \<not> unat x < 2 ^ 63"
  proof -
    have "unat x < 2 ^ 63 * 2" using unsigned_less [of x, where ?'a = nat] by simp
    then have "unat x div 2 ^ 63 < 2" by (metis less_mult_imp_div_less mult.commute)
    then show ?thesis by (cases "unat x div 2 ^ 63") (auto simp: div_eq_0_iff)
  qed
  finally show ?thesis by (simp add: word_less_nat_alt)
qed

lemmas bit_ops = bit_or_iff bit_and_iff bit_xor_iff bit_drop_bit_eq bit_push_bit_iff bit_1_iff
  bit_take_bit_iff possible_bit_word comp_def

lemma lfsr_bit:
  "bit (lfsr x) i \<longleftrightarrow> bit x (Suc i) \<or> i = 62 \<and> bit x 0 \<noteq> bit x 1"
  unfolding lfsr_def Let_def bit_ops by (auto dest: bit_imp_le_length)

lemma lfsr_back_lfsr:
  assumes "\<not> bit x 63"
  shows "lfsr_back (lfsr x) = x"
proof (rule bit_word_eqI)
  fix i assume "i < LENGTH(64)"
  with assms show "bit (lfsr_back (lfsr x)) i = bit x i"
    unfolding lfsr_back_def bit_ops lfsr_bit by (cases i) (auto, metis less_antisym numeral_eq_Suc pred_numeral_simps(3))
qed

text \<open>The shift register has 63 bits: a nonzero value below 2^63 is followed by another one, and
  each value is determined by its successor, so the steps permute the nonzero values.\<close>

theorem lfsr_permutes:
  assumes "x < 2 ^ 63" "x \<noteq> 0"
  shows "lfsr x < 2 ^ 63 \<and> lfsr x \<noteq> 0 \<and> lfsr_back (lfsr x) = x"
proof -
  from assms(1) have top: "\<not> bit x 63" by (simp only: below_63 not_False_eq_True)
  have "\<not> bit (lfsr x) 63" by (auto simp: lfsr_bit dest: bit_imp_le_length)
  moreover have "lfsr_back 0 = 0" by (simp add: lfsr_back_def)
  ultimately show ?thesis using lfsr_back_lfsr [OF top] assms(2) below_63 [of "lfsr x"] by auto
qed

theorem lfsr_permutes_witness: "lfsr 1 = 0x4000000000000000 \<and> lfsr_back (lfsr 1) = 1"
  using lfsr_permutes [of 1] by (simp add: lfsr_def Let_def)

end
