(* ===== verification/Printf.thy ===== *)
theory Printf
  imports Cstring
begin

text \<open>
  The formatted output of \<open>verif/tests/custom/common/syscalls.c\<close>: \<open>printnum\<close> and
  \<open>vprintfmt\<close>, which only call the character output \<open>putch\<close> they are given.  The
  format is the C string as a list of bytes (its end, or a NUL byte, is the
  terminator); the variable arguments are 64-bit registers and strings.
  \<open>None\<close> is undefined behaviour: a missing or wrong argument, or a signed overflow
  of an \<open>int\<close> or \<open>long long\<close>.
\<close>

datatype vararg = VInt u64 | VStr "u8 list option"

section \<open>Numbers\<close>

text \<open>The digits, least significant first, as the loop fills \<open>digs\<close>.\<close>

partial_function (option) digs_loop :: "u64 \<Rightarrow> u64 \<Rightarrow> u32 list option" where
  "digs_loop num base =
     (if base = 0 then None
      else let d = ucast (num mod base)
           in if num < base then Some [d]
              else do { ds \<leftarrow> digs_loop (num div base) base; Some (d # ds) })"

definition digit_char :: "u32 \<Rightarrow> u32" where
  "digit_char d = d + (if d \<ge> 10 then 97 - 10 else 48)"

primrec put_all :: "(u32 \<Rightarrow> 's \<Rightarrow> 's option) \<Rightarrow> u32 list \<Rightarrow> 's \<Rightarrow> 's option" where
  "put_all putch [] s = Some s"
| "put_all putch (c # cs) s = do { s \<leftarrow> putch c s; put_all putch cs s }"

text \<open>\<open>while (width-- > pos)\<close> pads \<open>width - pos\<close> times; \<open>width--\<close> has no result for \<open>INT_MIN\<close>.\<close>

definition printnum :: "(u32 \<Rightarrow> 's \<Rightarrow> 's option) \<Rightarrow> u64 \<Rightarrow> u64 \<Rightarrow> int \<Rightarrow> u8 \<Rightarrow> 's \<Rightarrow> 's option" where
  "printnum putch num base width padc s = do {
     ds \<leftarrow> digs_loop num base;
     if width = - (2 ^ 31) then None
     else do {
       s \<leftarrow> put_all putch (replicate (nat (width - int (length ds))) (ucast padc)) s;
       put_all putch (map digit_char (rev ds)) s
     }
   }"

section \<open>Arguments\<close>

fun va_int :: "vararg list \<Rightarrow> (u64 \<times> vararg list) option" where
  "va_int (VInt w # ap) = Some (w, ap)"
| "va_int _ = None"

fun va_str :: "vararg list \<Rightarrow> (u8 list option \<times> vararg list) option" where
  "va_str (VStr p # ap) = Some (p, ap)"
| "va_str _ = None"

text \<open>\<open>long\<close> and \<open>long long\<close> are the register, \<open>int\<close> its lower half.\<close>

definition getuint :: "vararg list \<Rightarrow> nat \<Rightarrow> (u64 \<times> vararg list) option" where
  "getuint ap lflag = do {
     (w, ap) \<leftarrow> va_int ap;
     Some (if lflag \<ge> 2 then w else if lflag \<noteq> 0 then w else ucast (ucast w :: u32), ap)
   }"

definition getint :: "vararg list \<Rightarrow> nat \<Rightarrow> (u64 \<times> vararg list) option" where
  "getint ap lflag = do {
     (w, ap) \<leftarrow> va_int ap;
     Some (if lflag \<ge> 2 then w else if lflag \<noteq> 0 then w else scast (ucast w :: u32), ap)
   }"

section \<open>The flags of a directive\<close>

record spec =
  padc :: u8
  width :: int
  precision :: int
  lflag :: nat

definition spec0 :: spec where
  "spec0 = \<lparr>padc = 0x20, width = - 1, precision = - 1, lflag = 0\<rparr>"

text \<open>The loop over the digits of the width field, \<open>ch\<close> being the current one.\<close>

fun width_digits :: "int \<Rightarrow> u8 \<Rightarrow> u8 list \<Rightarrow> (int \<times> u8 list) option" where
  "width_digits prec ch [] =
     (if prec * 10 + uint ch \<ge> 2 ^ 31 then None else Some (prec * 10 + uint ch - 48, []))"
| "width_digits prec ch (c # fmt) =
     (if prec * 10 + uint ch \<ge> 2 ^ 31 then None
      else let prec = prec * 10 + uint ch - 48
           in if c < 48 \<or> c > 57 then Some (prec, c # fmt) else width_digits prec c fmt)"

definition process_precision :: "int \<Rightarrow> spec \<Rightarrow> spec" where
  "process_precision prec sp =
     (if width sp < 0 then sp\<lparr>width := prec, precision := - 1\<rparr> else sp\<lparr>precision := prec\<rparr>)"

lemma width_digits_length: "width_digits p c fmt = Some (q, rest) \<Longrightarrow> length rest \<le> length fmt"
  by (induction p c fmt rule: width_digits.induct) (auto simp: Let_def split: if_splits)

text \<open>From \<open>reswitch\<close> to the conversion character, which is 0 at the end of the format.\<close>

declare bind_option_cong [fundef_cong]

function scan :: "u8 list \<Rightarrow> spec \<Rightarrow> vararg list \<Rightarrow> (u8 \<times> u8 list \<times> spec \<times> vararg list) option" where
  "scan [] sp ap = Some (0, [], sp, ap)"
| "scan (ch # fmt) sp ap =
     (if ch = 0x2D then scan fmt (sp\<lparr>padc := 0x2D\<rparr>) ap
      else if ch = 0x30 then scan fmt (sp\<lparr>padc := 0x30\<rparr>) ap
      else if 0x31 \<le> ch \<and> ch \<le> 0x39 then
        Option.bind (width_digits 0 ch fmt) (\<lambda>r. scan (snd r) (process_precision (fst r) sp) ap)
      else if ch = 0x2A then
        Option.bind (va_int ap) (\<lambda>r. scan fmt (process_precision (sint (ucast (fst r) :: u32)) sp) (snd r))
      else if ch = 0x2E then scan fmt (if width sp < 0 then sp\<lparr>width := 0\<rparr> else sp) ap
      else if ch = 0x23 then scan fmt sp ap
      else if ch = 0x6C then scan fmt (sp\<lparr>lflag := lflag sp + 1\<rparr>) ap
      else Some (ch, fmt, sp, ap))"
  by pat_completeness auto

termination
  by (relation "measure (\<lambda>(fmt, _, _). length fmt)") (auto dest!: width_digits_length)

lemma scan_length: "scan fmt sp ap = Some (ch, rest, sp', ap') \<Longrightarrow> length rest \<le> length fmt"
proof (induction "length fmt" arbitrary: fmt sp ap rule: less_induct)
  case less
  have shorter: "length rest \<le> length fmt"
    if "scan fmt' sp'' ap'' = Some (ch, rest, sp', ap')" "length fmt' < length fmt" for fmt' sp'' ap''
    using less.hyps [OF that(2,1)] that(2) by simp
  show ?case
  proof (cases fmt)
    case Nil
    with less.prems show ?thesis by simp
  next
    case (Cons c f)
    have "length rest \<le> Suc (length f)" if "scan f' sp'' ap'' = Some (ch, rest, sp', ap')"
      "length f' \<le> length f" for f' sp'' ap''
      using shorter [OF that(1)] that(2) Cons by simp
    note step = this [OF _ order.refl] this [OF _ width_digits_length]
    from less.prems Cons show ?thesis
      by (auto split: if_splits elim!: bind_SomeE intro: step)
  qed
qed

section \<open>Conversions\<close>

text \<open>The conversion of a value to \<open>int\<close>.\<close>

definition to_int :: "int \<Rightarrow> int" where
  "to_int x = sint (word_of_int x :: u32)"

text \<open>The loop over the bytes of a string, with \<open>precision\<close> and \<open>width\<close> counting down; the result
  is the last \<open>width\<close>.\<close>

fun put_str :: "(u32 \<Rightarrow> 's \<Rightarrow> 's option) \<Rightarrow> int \<Rightarrow> int \<Rightarrow> u8 list \<Rightarrow> 's \<Rightarrow> (int \<times> 's) option" where
  "put_str putch prec w [] s = Some (w, s)"
| "put_str putch prec w (c # p) s =
     (if c \<noteq> 0 \<and> (prec < 0 \<or> prec - 1 \<ge> 0)
      then do {
        s \<leftarrow> putch (ucast c) s;
        if w = - (2 ^ 31) then None
        else put_str putch (if prec < 0 then prec else prec - 1) (w - 1) p s
      }
      else Some (w, s))"

definition convert_string ::
    "(u32 \<Rightarrow> 's \<Rightarrow> 's option) \<Rightarrow> spec \<Rightarrow> u8 list option \<Rightarrow> 's \<Rightarrow> 's option" where
  "convert_string putch sp arg s =
     (let p = (case arg of None \<Rightarrow> bytes_of ''(null)'' | Some p \<Rightarrow> c_string p);
          n = min (unat (word_of_int (precision sp) :: u64)) (length p);
          pad = (width sp > 0 \<and> padc sp \<noteq> 0x2D);
          w = (if pad then to_int (width sp - int n) else width sp)
      in do {
        s \<leftarrow> put_all putch (if pad then replicate (nat w) (ucast (padc sp)) else []) s;
        (w, s) \<leftarrow> put_str putch (precision sp) (if pad \<and> w > 0 then 0 else w) p s;
        put_all putch (replicate (nat w) 0x20) s
      })"

definition convert_unsigned ::
    "(u32 \<Rightarrow> 's \<Rightarrow> 's option) \<Rightarrow> u64 \<Rightarrow> spec \<Rightarrow> vararg list \<Rightarrow> 's \<Rightarrow> (vararg list \<times> 's) option" where
  "convert_unsigned putch base sp ap s = do {
     (num, ap) \<leftarrow> getuint ap (lflag sp);
     s \<leftarrow> printnum putch num base (width sp) (padc sp) s;
     Some (ap, s)
   }"

definition convert_signed ::
    "(u32 \<Rightarrow> 's \<Rightarrow> 's option) \<Rightarrow> spec \<Rightarrow> vararg list \<Rightarrow> 's \<Rightarrow> (vararg list \<times> 's) option" where
  "convert_signed putch sp ap s = do {
     (num, ap) \<leftarrow> getint ap (lflag sp);
     if sint num < 0
     then do {
       s \<leftarrow> putch 0x2D s;
       num \<leftarrow> (if sint num = - (2 ^ 63) then None else Some (- num));
       s \<leftarrow> printnum putch num 10 (width sp) (padc sp) s;
       Some (ap, s)
     }
     else do {
       s \<leftarrow> printnum putch num 10 (width sp) (padc sp) s;
       Some (ap, s)
     }
   }"

text \<open>The \<open>switch\<close> on the conversion character; the first result is false in the \<open>default\<close> case.\<close>

definition convert ::
    "(u32 \<Rightarrow> 's \<Rightarrow> 's option) \<Rightarrow> u8 \<Rightarrow> spec \<Rightarrow> vararg list \<Rightarrow> 's \<Rightarrow> (bool \<times> vararg list \<times> 's) option" where
  "convert putch ch sp ap s =
     (if ch = 0x63 then do {
        (w, ap) \<leftarrow> va_int ap; s \<leftarrow> putch (ucast w) s; Some (True, ap, s) }
      else if ch = 0x73 then do {
        (p, ap) \<leftarrow> va_str ap; s \<leftarrow> convert_string putch sp p s; Some (True, ap, s) }
      else if ch = 0x64 then do {
        (ap, s) \<leftarrow> convert_signed putch sp ap s; Some (True, ap, s) }
      else if ch = 0x75 then do {
        (ap, s) \<leftarrow> convert_unsigned putch 10 sp ap s; Some (True, ap, s) }
      else if ch = 0x6F then do {
        (ap, s) \<leftarrow> convert_unsigned putch 8 sp ap s; Some (True, ap, s) }
      else if ch = 0x70 then do {
        s \<leftarrow> putch 0x30 s; s \<leftarrow> putch 0x78 s;
        (ap, s) \<leftarrow> convert_unsigned putch 16 (sp\<lparr>lflag := 1\<rparr>) ap s; Some (True, ap, s) }
      else if ch = 0x78 then do {
        (ap, s) \<leftarrow> convert_unsigned putch 16 sp ap s; Some (True, ap, s) }
      else if ch = 0x25 then do {
        s \<leftarrow> putch 0x25 s; Some (True, ap, s) }
      else do {
        s \<leftarrow> putch 0x25 s; Some (False, ap, s) })"

function vprintfmt ::
    "(u32 \<Rightarrow> 's \<Rightarrow> 's option) \<Rightarrow> u8 list \<Rightarrow> vararg list \<Rightarrow> 's \<Rightarrow> 's option" where
  "vprintfmt putch [] ap s = Some s"
| "vprintfmt putch (ch # fmt) ap s =
     (if ch = 0 then Some s
      else if ch \<noteq> 0x25 then Option.bind (putch (ucast ch) s) (\<lambda>s. vprintfmt putch fmt ap s)
      else Option.bind (scan fmt spec0 ap) (\<lambda>r.
        Option.bind (convert putch (fst r) (fst (snd (snd r))) (snd (snd (snd r))) s) (\<lambda>q.
          vprintfmt putch (if fst q then fst (snd r) else fmt) (fst (snd q)) (snd (snd q)))))"
  by pat_completeness auto

termination
  by (relation "measure (\<lambda>(_, fmt, _, _). length fmt)")
    (auto dest!: scan_length split: if_splits)

section \<open>The interface of a character sink\<close>

text \<open>The same output code run over two kinds of state, related by \<open>rel_option\<close>.\<close>

lemma rel_bind:
  "rel_option A m n \<Longrightarrow> (\<And>x y. A x y \<Longrightarrow> rel_option C (f x) (g y)) \<Longrightarrow>
     rel_option C (Option.bind m f) (Option.bind n g)"
  by (auto simp: option_rel_Some1 option_rel_Some2 elim!: option.rel_cases)

lemma rel_bind_eq:
  "(\<And>x. m = Some x \<Longrightarrow> rel_option C (f x) (g x)) \<Longrightarrow> rel_option C (Option.bind m f) (Option.bind m g)"
  by (cases m) auto

text \<open>
  \<open>ok\<close> are the states in which the sink works and \<open>emitted s bs s'\<close> says that from \<open>s\<close> to
  \<open>s'\<close> it has taken the bytes \<open>bs\<close>.
\<close>

locale char_sink =
  fixes putch :: "u32 \<Rightarrow> 's \<Rightarrow> 's option"
    and ok :: "'s \<Rightarrow> bool"
    and emitted :: "'s \<Rightarrow> u8 list \<Rightarrow> 's \<Rightarrow> bool"
  assumes emit_none: "ok s \<Longrightarrow> emitted s [] s"
    and emit_more: "emitted s xs t \<Longrightarrow> emitted t ys u \<Longrightarrow> emitted s (xs @ ys) u"
    and putch_emits: "ok s \<Longrightarrow> \<exists>s'. putch c s = Some s' \<and> ok s' \<and> emitted s [ucast c] s'"

text \<open>The sink that collects the bytes in a list.\<close>

definition list_putch :: "u32 \<Rightarrow> u8 list \<Rightarrow> u8 list option" where
  "list_putch c out = Some (out @ [ucast c])"

definition rendered :: "u8 list \<Rightarrow> vararg list \<Rightarrow> u8 list option" where
  "rendered fmt ap = vprintfmt list_putch fmt ap []"

context char_sink
begin

definition tracks :: "'s \<Rightarrow> 's \<Rightarrow> u8 list \<Rightarrow> bool" where
  "tracks s0 s out \<longleftrightarrow> ok s \<and> emitted s0 out s"

lemma putch_tracks: "tracks s0 s out \<Longrightarrow> rel_option (tracks s0) (putch c s) (list_putch c out)"
  using putch_emits [of s c] emit_more [of s0 out s "[ucast c]"]
  by (auto simp: tracks_def list_putch_def)

lemma put_all_tracks:
  "tracks s0 s out \<Longrightarrow> rel_option (tracks s0) (put_all putch cs s) (put_all list_putch cs out)"
  by (induction cs arbitrary: s out) (auto intro!: rel_bind [OF putch_tracks])

lemma printnum_tracks:
  "tracks s0 s out \<Longrightarrow> rel_option (tracks s0) (printnum putch num base w p s) (printnum list_putch num base w p out)"
  unfolding printnum_def by (auto intro!: rel_bind_eq rel_bind [OF put_all_tracks] put_all_tracks)

lemma put_str_tracks:
  "tracks s0 s out \<Longrightarrow> rel_option (rel_prod (=) (tracks s0)) (put_str putch prec w p s) (put_str list_putch prec w p out)"
proof (induction p arbitrary: prec w s out)
  case Nil
  then show ?case by simp
next
  case (Cons c p)
  then show ?case by (auto intro!: rel_bind [OF putch_tracks])
qed

lemma convert_string_tracks:
  assumes "tracks s0 s out"
  shows "rel_option (tracks s0) (convert_string putch sp p s) (convert_string list_putch sp p out)"
  unfolding convert_string_def Let_def
  by (rule rel_bind [OF put_all_tracks [OF assms]], rule rel_bind [OF put_str_tracks], assumption)
    (auto intro: put_all_tracks)

lemma convert_unsigned_tracks:
  assumes "tracks s0 s out"
  shows "rel_option (rel_prod (=) (tracks s0)) (convert_unsigned putch base sp ap s)
    (convert_unsigned list_putch base sp ap out)"
  unfolding convert_unsigned_def
  by (auto intro!: rel_bind_eq rel_bind [OF printnum_tracks [OF assms]])

lemma convert_signed_tracks:
  assumes "tracks s0 s out"
  shows "rel_option (rel_prod (=) (tracks s0)) (convert_signed putch sp ap s)
    (convert_signed list_putch sp ap out)"
  unfolding convert_signed_def
  by (auto intro!: rel_bind_eq rel_bind [OF printnum_tracks] rel_bind [OF putch_tracks [OF assms]] assms)

lemma convert_tracks:
  assumes "tracks s0 s out"
  shows "rel_option (rel_prod (=) (rel_prod (=) (tracks s0))) (convert putch ch sp ap s)
    (convert list_putch ch sp ap out)"
  unfolding convert_def
  by (auto intro!: rel_bind_eq rel_bind [OF putch_tracks] rel_bind [OF convert_string_tracks]
      rel_bind [OF convert_signed_tracks] rel_bind [OF convert_unsigned_tracks] assms)

lemma vprintfmt_tracks:
  "tracks s0 s out \<Longrightarrow> rel_option (tracks s0) (vprintfmt putch fmt ap s) (vprintfmt list_putch fmt ap out)"
proof (induction "length fmt" arbitrary: fmt ap s out rule: less_induct)
  case less
  show ?case
  proof (cases fmt)
    case Nil
    with less.prems show ?thesis by simp
  next
    case (Cons c f)
    have rest: "rel_option (tracks s0) (vprintfmt putch f' ap' s') (vprintfmt list_putch f' ap' out')"
      if "tracks s0 s' out'" "length f' \<le> length f" for f' ap' s' out'
      using less.hyps [OF _ that(1)] that(2) Cons by simp
    show ?thesis
      unfolding Cons vprintfmt.simps
      by (auto intro!: less.prems rel_bind [OF putch_tracks] rel_bind_eq rel_bind [OF convert_tracks] rest
          dest: scan_length)
  qed
qed

lemma vprintfmt_renders:
  assumes "ok s"
  shows "case rendered fmt ap of None \<Rightarrow> vprintfmt putch fmt ap s = None
    | Some bs \<Rightarrow> \<exists>s'. vprintfmt putch fmt ap s = Some s' \<and> ok s' \<and> emitted s bs s'"
proof -
  have "tracks s s []" using assms emit_none by (simp add: tracks_def)
  from vprintfmt_tracks [OF this, of fmt ap] show ?thesis
    by (auto simp: rendered_def tracks_def split: option.splits elim: option.rel_cases)
qed

end

section \<open>sprintf\<close>

definition sprintf_putch :: "u32 \<Rightarrow> u64 \<times> mem \<Rightarrow> (u64 \<times> mem) option" where
  "sprintf_putch ch = (\<lambda>(pstr, m). Some (pstr + 1, m(pstr := ucast ch)))"

definition sprintf :: "mem \<Rightarrow> u64 \<Rightarrow> u8 list \<Rightarrow> vararg list \<Rightarrow> (u32 \<times> mem) option" where
  "sprintf m str fmt ap = do {
     (pstr, m) \<leftarrow> vprintfmt sprintf_putch fmt ap (str, m);
     Some (ucast (pstr - str), m(pstr := 0))
   }"

definition stored :: "u64 \<times> mem \<Rightarrow> u8 list \<Rightarrow> u64 \<times> mem \<Rightarrow> bool" where
  "stored s bs s' \<longleftrightarrow> s' = (fst s + of_nat (length bs), put_bytes (fst s) bs (snd s))"

interpretation to_memory: char_sink sprintf_putch "\<lambda>_. True" stored
  by unfold_locales (auto simp: stored_def sprintf_putch_def put_bytes_append add.assoc)

lemma ucast_of_nat_down: "(ucast (of_nat n :: u64) :: u32) = of_nat n"
  by (simp add: unsigned_of_nat word_of_nat_eq_iff min_def)

lemma sprintf_stores:
  "sprintf m str fmt ap = (case rendered fmt ap of None \<Rightarrow> None
     | Some bs \<Rightarrow> Some (of_nat (length bs), put_bytes str (bs @ [0]) m))"
  using to_memory.vprintfmt_renders [where s = "(str, m)" and fmt = fmt and ap = ap]
  by (auto simp: sprintf_def stored_def put_bytes_append ucast_of_nat_down split: option.splits)

section \<open>What printnum prints\<close>

fun digits_value :: "nat \<Rightarrow> nat list \<Rightarrow> nat" where
  "digits_value b [] = 0"
| "digits_value b (d # ds) = d + b * digits_value b ds"

lemma digits_value_ge: "ds \<noteq> [] \<Longrightarrow> last ds \<noteq> 0 \<Longrightarrow> 0 < b \<Longrightarrow> b ^ (length ds - 1) \<le> digits_value b ds"
proof (induction ds)
  case Nil
  then show ?case by simp
next
  case (Cons d ds)
  show ?case
  proof (cases "ds = []")
    case True
    with Cons.prems show ?thesis by simp
  next
    case False
    with Cons have "b ^ (length ds - 1) \<le> digits_value b ds" by simp
    then have "b * b ^ (length ds - 1) \<le> b * digits_value b ds" by (rule mult_le_mono2)
    moreover from False have "b * b ^ (length ds - 1) = b ^ length ds"
      by (cases ds) simp_all
    ultimately have "b ^ length ds \<le> b * digits_value b ds" by argo
    then show ?thesis by simp
  qed
qed

lemma digs_loop_digits:
  assumes "2 \<le> unat base" "unat base < 2 ^ 32"
  shows "\<exists>ds. digs_loop num base = Some ds \<and> ds \<noteq> [] \<and> digits_value (unat base) (map unat ds) = unat num
    \<and> (\<forall>d \<in> set ds. unat d < unat base) \<and> (length ds = 1 \<or> last ds \<noteq> 0)"
proof (induction "unat num" arbitrary: num rule: less_induct)
  case less
  have base: "base \<noteq> 0" using assms(1) by auto
  let ?d = "ucast (num mod base) :: u32"
  have "unat (num mod base) < unat base"
    using assms(1) by (simp add: unat_mod)
  then have d: "unat ?d = unat num mod unat base" "unat ?d < unat base"
    using assms(2) by (simp_all add: unat_mod unsigned_ucast_eq take_bit_nat_eq_self)
  show ?case
  proof (cases "num < base")
    case True
    then have "unat num < unat base" by (simp add: word_less_nat_alt)
    with True base d show ?thesis by (simp add: digs_loop.simps [of num base] Let_def)
  next
    case False
    then have big: "unat base \<le> unat num" by (simp add: word_less_nat_alt)
    have q: "unat (num div base) = unat num div unat base" by (simp add: unat_div)
    have "unat num div unat base < unat num" using big assms(1) by (intro div_less_dividend) simp_all
    with less.hyps [of "num div base"] q obtain ds where ds: "digs_loop (num div base) base = Some ds" "ds \<noteq> []"
      "digits_value (unat base) (map unat ds) = unat num div unat base" "\<forall>d \<in> set ds. unat d < unat base"
      "length ds = 1 \<or> last ds \<noteq> 0" by auto
    have "last ds \<noteq> 0"
    proof
      assume z: "last ds = 0"
      with ds(5) obtain x where "ds = [x]" by (cases ds) auto
      with z ds(3) have "unat num div unat base = 0" by simp
      with big assms(1) show False by (simp add: div_eq_0_iff)
    qed
    with False base d ds show ?thesis
      by (intro exI [of _ "?d # ds"]) (simp add: digs_loop.simps [of num base] Let_def)
  qed
qed

lemma put_all_list: "put_all list_putch cs out = Some (out @ map ucast cs)"
  by (induction cs arbitrary: out) (simp_all add: list_putch_def)

text \<open>Reading a digit of a base up to 16 back.\<close>

definition digit_of :: "u8 \<Rightarrow> nat" where
  "digit_of c = (if c \<ge> 97 then unat c - 87 else unat c - 48)"

fun read_number :: "nat \<Rightarrow> nat \<Rightarrow> u8 list \<Rightarrow> nat" where
  "read_number b v [] = v"
| "read_number b v (c # cs) = read_number b (v * b + digit_of c) cs"

lemma read_number_append: "read_number b v (xs @ ys) = read_number b (read_number b v xs) ys"
  by (induction xs arbitrary: v) simp_all

definition number_char :: "u32 \<Rightarrow> u8" where
  "number_char d = ucast (digit_char d)"

lemma number_char_table:
  assumes "unat d < 16"
  shows "digit_of (number_char d) = unat d" "number_char d = 48 \<longleftrightarrow> d = 0" "number_char d \<noteq> 0"
    "unat d < 10 \<Longrightarrow> is_digit (number_char d) \<and> uint (number_char d) - 48 = int (unat d)"
proof -
  have "d \<in> {0, 1, 2, 3, 4, 5, 6, 7, 8, 9, 10, 11, 12, 13, 14, 15}"
  proof -
    have "unat d \<in> {0, 1, 2, 3, 4, 5, 6, 7, 8, 9, 10, 11, 12, 13, 14, 15}" using assms by (simp only: insert_iff empty_iff) arith
    moreover have "d = of_nat (unat d)" by simp
    ultimately show ?thesis by (elim insertE) auto
  qed
  then show "digit_of (number_char d) = unat d" "number_char d = 48 \<longleftrightarrow> d = 0" "number_char d \<noteq> 0"
    "unat d < 10 \<Longrightarrow> is_digit (number_char d) \<and> uint (number_char d) - 48 = int (unat d)"
    by (auto simp: number_char_def digit_char_def digit_of_def is_digit_def word_le_nat_alt)
qed

lemma read_digits:
  "\<forall>d \<in> set ds. unat d < 16 \<Longrightarrow> read_number b 0 (map number_char (rev ds)) = digits_value b (map unat ds)"
  by (induction ds) (simp_all add: read_number_append number_char_table(1) mult.commute)

lemma ucast_up_down: "(ucast (ucast c :: u32) :: u8) = c"
  by (rule bit_word_eqI) (simp add: bit_simps)

text \<open>The bytes of a number do not depend on the field width and the padding in front of them.\<close>

lemma printnum_list:
  assumes "2 \<le> unat base" "unat base \<le> 16" "w \<noteq> - (2 ^ 31)"
  shows "\<exists>ds. printnum list_putch num base w p out = Some (out @ replicate (nat (w - int (length ds))) p @ ds)
    \<and> printnum list_putch num base (- 1) q out' = Some (out' @ ds)
    \<and> ds \<noteq> [] \<and> length ds \<le> 64 \<and> read_number (unat base) 0 ds = unat num
    \<and> (length ds = 1 \<or> hd ds \<noteq> 48) \<and> 0 \<notin> set ds
    \<and> (unat base = 10 \<longrightarrow> list_all is_digit ds \<and> dec_value 0 ds = uint num)"
proof -
  obtain ds where ds: "digs_loop num base = Some ds" "ds \<noteq> []"
    "digits_value (unat base) (map unat ds) = unat num" "\<forall>d \<in> set ds. unat d < unat base"
    "length ds = 1 \<or> last ds \<noteq> 0"
    using digs_loop_digits [of base num] assms by auto
  have lt: "\<forall>d \<in> set ds. unat d < 16" using ds(4) assms(2) by auto
  let ?cs = "map number_char (rev ds)"
  have out: "printnum list_putch num base w' p' o' = Some (o' @ replicate (nat (w' - int (length ?cs))) p' @ ?cs)"
    if "w' \<noteq> - (2 ^ 31)" for w' p' o'
    using ds(1) that by (simp add: printnum_def put_all_list number_char_def comp_def ucast_up_down)
  have "length ds \<le> 64"
  proof (cases "length ds = 1")
    case True
    then show ?thesis by simp
  next
    case False
    with ds(5) have "last (map unat ds) \<noteq> 0" using ds(2) by (simp add: last_map unat_eq_0)
    with digits_value_ge [of "map unat ds" "unat base"] ds(2,3) assms(1)
    have "unat base ^ (length ds - 1) \<le> unat num" by simp
    moreover have "(2 :: nat) ^ (length ds - 1) \<le> unat base ^ (length ds - 1)"
      using assms(1) by (intro power_mono) simp_all
    moreover have "unat num < 2 ^ 64" using unsigned_less [of num, where ?'a = nat] by simp
    ultimately have "(2 :: nat) ^ (length ds - 1) < 2 ^ 64" by linarith
    then have "length ds - 1 < 64" by (subst (asm) power_strict_increasing_iff) simp_all
    then show ?thesis by simp
  qed
  moreover have "read_number (unat base) 0 ?cs = unat num"
    using read_digits [OF lt, of "unat base"] ds(3) by simp
  moreover have "length ?cs = 1 \<or> hd ?cs \<noteq> 48"
    using ds(2,5) lt by (auto simp: hd_map hd_rev number_char_table(2))
  moreover have "number_char d \<noteq> 0" if "d \<in> set ds" for d
    using number_char_table(3) [of d] lt that by blast
  then have "0 \<notin> set ?cs" by force
  moreover have "list_all is_digit ?cs \<and> dec_value 0 ?cs = uint num" if ten: "unat base = 10"
  proof -
    have digit: "is_digit (number_char d)" "uint (number_char d) - 48 = int (digit_of (number_char d))"
      if "d \<in> set ds" for d
      using number_char_table(1,4) [of d] ds(4) ten that by auto
    have "dec_value (int v) cs = int (read_number 10 v cs)"
      if "\<forall>c \<in> set cs. uint c - 48 = int (digit_of c)" for v cs
      using that
    proof (induction cs arbitrary: v)
      case Nil
      then show ?case by simp
    next
      case (Cons c cs)
      have "dec_value (int (v * 10 + digit_of c)) cs = int (read_number 10 (v * 10 + digit_of c) cs)"
        using Cons.prems by (intro Cons.IH) simp
      with Cons.prems show ?case by (simp add: algebra_simps)
    qed
    from this [of ?cs 0] digit(2) have "dec_value 0 ?cs = int (read_number 10 0 ?cs)" by simp
    with read_digits [OF lt, of 10] ds(3) ten have "dec_value 0 ?cs = int (unat num)" by simp
    then have "dec_value 0 ?cs = uint num" by simp
    with digit(1) show ?thesis by (auto simp: list_all_iff)
  qed
  ultimately show ?thesis
    using ds(2) out [OF assms(3), of p out] out [of "- 1" q out'] by (intro exI [of _ ?cs]) simp
qed

section \<open>Properties of formatted output\<close>

text \<open>A number printed in a base from 2 to 16 is at most 64 digits (the size of the buffer) that read
  back to it, with no leading zero, after exactly the padding that fills the field.\<close>

theorem printnum_readable:
  assumes "2 \<le> unat base" "unat base \<le> 16" "w \<noteq> - (2 ^ 31)"
  shows "\<exists>ds. printnum list_putch num base w p out = Some (out @ replicate (nat (w - int (length ds))) p @ ds)
    \<and> ds \<noteq> [] \<and> length ds \<le> 64 \<and> read_number (unat base) 0 ds = unat num
    \<and> (length ds = 1 \<or> hd ds \<noteq> 48)"
  using printnum_list [OF assms] by blast

theorem printnum_readable_witness:
  "\<exists>ds. printnum list_putch 0xBEEF 16 8 0x30 [] = Some (replicate (nat (8 - int (length ds))) 0x30 @ ds)
    \<and> read_number 16 0 ds = 0xBEEF"
  using printnum_readable [of 16 8 "0xBEEF" "0x30" "[]"] by auto

lemma render_ld:
  "rendered [0x25, 0x6C, 0x64] [VInt w] =
     (if sint w < 0
      then if sint w = - (2 ^ 63) then None else printnum list_putch (- w) 10 (- 1) 0x20 [0x2D]
      else printnum list_putch w 10 (- 1) 0x20 [])"
  by (simp add: rendered_def convert_def convert_signed_def getint_def spec0_def list_putch_def
      split: bind_splits)

lemma uint_magnitude:
  assumes "sint w \<noteq> - (2 ^ 63)"
  shows "uint (if sint w < 0 then - w else w) = \<bar>sint w\<bar>" "\<bar>sint (w :: u64)\<bar> < 2 ^ 63"
proof -
  have range: "- (2 ^ 63) \<le> sint w" "sint w < 2 ^ 63"
    using sint_greater_eq [of w] sint_less [of w] by simp_all
  with assms show "\<bar>sint w\<bar> < 2 ^ 63" by linarith
  moreover have "(if sint w < 0 then - w else w) = word_of_int \<bar>sint w\<bar>" by simp
  ultimately show "uint (if sint w < 0 then - w else w) = \<bar>sint w\<bar>"
    by (simp only: uint_word_of_int) simp
qed

text \<open>C40. Printing a \<open>long\<close> into memory with \<open>sprintf("%ld")\<close> and reading it back with \<open>atol\<close> gives the
  same value, for every value but the smallest, whose negation overflows in both.\<close>

theorem sprintf_atol_roundtrip:
  "if sint w = - (2 ^ 63) then sprintf m str [0x25, 0x6C, 0x64] [VInt w] = None
   else \<exists>n m'. sprintf m str [0x25, 0x6C, 0x64] [VInt w] = Some (n, m') \<and> atol m' str = Some (sint w)"
proof (cases "sint w = - (2 ^ 63)")
  case True
  then show ?thesis by (simp add: sprintf_stores render_ld)
next
  case False
  let ?neg = "sint w < 0" and ?num = "if sint w < 0 then - w else w"
  obtain ds where ds: "printnum list_putch ?num 10 (- 1) 0x20 (if ?neg then [0x2D] else []) =
      Some ((if ?neg then [0x2D] else []) @ ds)"
    "length ds \<le> 64" "0 \<notin> set ds" "list_all is_digit ds" "dec_value 0 ds = uint ?num"
    using printnum_list [of 10 "- 1" ?num "0x20" "if ?neg then [0x2D] else []"] by auto
  let ?sg = "if ?neg then [0x2D] else [] :: u8 list"
  note val = uint_magnitude [OF False]
  have "rendered [0x25, 0x6C, 0x64] [VInt w] = Some (?sg @ ds)"
    using ds(1) False by (simp add: render_ld split: if_splits)
  then have sp: "sprintf m str [0x25, 0x6C, 0x64] [VInt w] =
      Some (of_nat (length (?sg @ ds)), put_bytes str ((?sg @ ds) @ [0]) m)"
    by (simp add: sprintf_stores)
  have "str_at (put_bytes str ((?sg @ ds) @ [0]) m) str (replicate 0 0x20 @ ?sg @ ds)"
    using str_at_put [of "?sg @ ds" str m] ds(2,3) by simp
  from atol_decimal [OF this ds(4)] ds(5) val
  have "atol (put_bytes str ((?sg @ ds) @ [0]) m) str = Some (sint w)" by auto
  with sp False show ?thesis by simp
qed

text \<open>The flag \<open>-\<close>, documented as padding on the right, puts dashes on the left: in a field of 1 to 9
  characters the number is preceded by \<open>-\<close> characters.\<close>

theorem minus_flag_pads_left:
  assumes "0x31 \<le> c" "c \<le> 0x39"
  shows "\<exists>ds. rendered [0x25, 0x75] [VInt n] = Some ds
    \<and> rendered [0x25, 0x2D, c, 0x75] [VInt n] = Some (replicate (unat c - 48 - length ds) 0x2D @ ds)"
proof -
  let ?n = "ucast (ucast n :: u32) :: u64"
  have c: "uint c - 48 = int (unat c - 48)" "uint c < 2 ^ 31" "0 \<le> uint c - 48" "c \<noteq> 0x2D" "c \<noteq> 0x30"
  proof -
    have "uint c = int (unat c)" by simp
    moreover have "49 \<le> unat c" "unat c \<le> 57" using assms by (simp_all add: word_le_nat_alt)
    ultimately have "uint c - 48 = int (unat c - 48)" "uint c \<le> 57" "0 \<le> uint c - 48"
      by linarith+
    then show "uint c - 48 = int (unat c - 48)" "uint c < 2 ^ 31" "0 \<le> uint c - 48"
      by simp_all
    show "c \<noteq> 0x2D" "c \<noteq> 0x30" using assms by auto
  qed
  obtain ds where ds: "printnum list_putch ?n 10 (uint c - 48) 0x2D [] =
      Some ([] @ replicate (nat (uint c - 48 - int (length ds))) 0x2D @ ds)"
    "printnum list_putch ?n 10 (- 1) 0x20 [] = Some ([] @ ds)"
    using printnum_list [of 10 "uint c - 48" ?n "0x2D" "[]" "0x20" "[]"] c(3) by auto
  have "rendered [0x25, 0x75] [VInt n] = Some ds"
    using ds(2) by (simp add: rendered_def convert_def convert_unsigned_def getuint_def spec0_def)
  moreover have "scan [0x2D, c, 0x75] spec0 [VInt n] =
      Some (0x75, [], spec0\<lparr>padc := 0x2D, width := uint c - 48\<rparr>, [VInt n])"
    using assms c by (simp add: process_precision_def spec0_def)
  then have "rendered [0x25, 0x2D, c, 0x75] [VInt n] = printnum list_putch ?n 10 (uint c - 48) 0x2D []"
    by (simp add: rendered_def convert_def convert_unsigned_def getuint_def spec0_def del: scan.simps)
  moreover have "nat (uint c - 48 - int (length ds)) = unat c - 48 - length ds"
    using c(1) by simp
  ultimately show ?thesis using ds(1) by simp
qed

theorem minus_flag_pads_left_witness:
  "\<exists>ds. rendered [0x25, 0x75] [VInt 7] = Some ds
    \<and> rendered [0x25, 0x2D, 0x34, 0x75] [VInt 7] = Some (replicate (4 - length ds) 0x2D @ ds)"
  using minus_flag_pads_left [of "0x34" 7] by simp

end
