(* ===== verification/Host.thy ===== *)
theory Host
  imports Printf
begin

text \<open>
  The host interface of the bare-metal tests (\<open>verif/tests/custom/common/syscalls.c\<close>):
  system calls through the \<open>tohost\<close>/\<open>fromhost\<close> words, buffered character output,
  \<open>printf\<close>, the counters, and the start-up code \<open>_init\<close>.

  The host (Spike or the RTL harness) is a parameter: \<open>from_host\<close> is what a read of
  \<open>fromhost\<close> gives after the events so far, \<open>call_result\<close> the word it leaves in
  \<open>magic_mem[0]\<close>.  Each write to \<open>tohost\<close> is an event with the memory of that moment,
  since the host reads the request from memory.  \<open>magic_at\<close> and \<open>putbuf_at\<close> are the
  addresses the linker and the stack give to \<open>magic_mem\<close> and to the buffer of \<open>putchar\<close>.
\<close>

datatype host_event = ToHost u64 mem | FromHost u64 | ClearFromHost

record host_env =
  from_host :: "host_event list \<Rightarrow> u64"
  call_result :: "host_event list \<Rightarrow> u64"
  magic_at :: u64
  putbuf_at :: u64

record htif =
  hmem :: mem
  events :: "host_event list"
  buflen :: nat

section \<open>System calls\<close>

definition store_words :: "u64 \<Rightarrow> u64 list \<Rightarrow> htif \<Rightarrow> htif" where
  "store_words a ws s = s\<lparr>hmem := put_bytes a (concat (map (le_enc 8) ws)) (hmem s)\<rparr>"

definition write_tohost :: "u64 \<Rightarrow> htif \<Rightarrow> htif" where
  "write_tohost w s = s\<lparr>events := ToHost w (hmem s) # events s\<rparr>"

definition read_fromhost :: "host_env \<Rightarrow> htif \<Rightarrow> u64 \<times> htif" where
  "read_fromhost E s = (let v = from_host E (events s) in (v, s\<lparr>events := FromHost v # events s\<rparr>))"

definition SYS_write :: u64 where "SYS_write = 64"

definition syscall :: "host_env \<Rightarrow> u64 \<Rightarrow> u64 \<Rightarrow> u64 \<Rightarrow> u64 \<Rightarrow> htif \<Rightarrow> (u64 \<times> htif) option" where
  "syscall E which arg0 arg1 arg2 s =
     (let s = store_words (magic_at E) [which, arg0, arg1, arg2] s;
          s = write_tohost (drop_bit 16 (push_bit 16 (magic_at E))) s
      in do {
        (_, s) \<leftarrow> poll (\<lambda>s. Some (read_fromhost E s)) (\<lambda>v. v \<noteq> 0) s;
        let s = s\<lparr>events := ClearFromHost # events s\<rparr>;
        let r = call_result E (events s);
        Some (r, store_words (magic_at E) [r] s)
      })"

text \<open>The program ends here: after the write it loops for ever, so the state is the last one.\<close>

definition tohost_exit :: "u64 \<Rightarrow> htif \<Rightarrow> htif" where
  "tohost_exit code s = write_tohost (drop_bit 16 (push_bit 17 code) OR 1) s"

definition exit :: "u32 \<Rightarrow> htif \<Rightarrow> htif" where
  "exit code s = tohost_exit (scast code) s"

definition abort :: "htif \<Rightarrow> htif" where
  "abort s = exit (128 + 6) s"

definition handle_trap :: "htif \<Rightarrow> htif" where
  "handle_trap s = tohost_exit 1337 s"

section \<open>Characters and strings\<close>

definition printstr :: "host_env \<Rightarrow> u64 \<Rightarrow> htif \<Rightarrow> htif option" where
  "printstr E str s = do {
     n \<leftarrow> strlen (hmem s) str;
     (_, s) \<leftarrow> syscall E SYS_write 1 str n s;
     Some s
   }"

definition putchar :: "host_env \<Rightarrow> u32 \<Rightarrow> htif \<Rightarrow> htif option" where
  "putchar E ch s =
     (let s = s\<lparr>hmem := (hmem s)(putbuf_at E + of_nat (buflen s) := ucast ch), buflen := buflen s + 1\<rparr>
      in if ch = 0x0A \<or> buflen s = 64
         then do {
           (_, s) \<leftarrow> syscall E SYS_write 1 (putbuf_at E) (of_nat (buflen s)) s;
           Some (s\<lparr>buflen := 0\<rparr>)
         }
         else Some s)"

partial_function (option) puts_loop :: "host_env \<Rightarrow> u64 \<Rightarrow> htif \<Rightarrow> htif option" where
  "puts_loop E p s =
     (if hmem s p \<noteq> 0
      then Option.bind (putchar E (ucast (hmem s p)) s) (\<lambda>s. puts_loop E (p + 1) s)
      else Some s)"

definition puts :: "host_env \<Rightarrow> u64 \<Rightarrow> htif \<Rightarrow> (int \<times> htif) option" where
  "puts E str s = do { s \<leftarrow> puts_loop E str s; s \<leftarrow> putchar E 0x0A s; Some (0, s) }"

definition printf :: "host_env \<Rightarrow> u8 list \<Rightarrow> vararg list \<Rightarrow> htif \<Rightarrow> (int \<times> htif) option" where
  "printf E fmt ap s = do { s \<leftarrow> vprintfmt (putchar E) fmt ap s; Some (0, s) }"

text \<open>The loop fills \<open>str[15]\<close> down to \<open>str[0]\<close> with the digits of \<open>x\<close>; \<open>str\<close> is its address.\<close>

primrec printhex_digits :: "nat \<Rightarrow> u64 \<Rightarrow> u8 list \<Rightarrow> u8 list" where
  "printhex_digits 0 x ds = ds"
| "printhex_digits (Suc n) x ds =
     printhex_digits n (drop_bit 4 x)
       (ucast ((x AND 0xF) + (if x AND 0xF < 10 then 48 else 97 - 10)) # ds)"

definition printhex :: "host_env \<Rightarrow> u64 \<Rightarrow> u64 \<Rightarrow> htif \<Rightarrow> htif option" where
  "printhex E str x s =
     printstr E str (s\<lparr>hmem := put_bytes str (printhex_digits 16 x [] @ [0]) (hmem s)\<rparr>)"

section \<open>Counters and start-up\<close>

text \<open>The counters and the names given to them; \<open>csr\<close> is what reading \<open>mcycle\<close> and \<open>minstret\<close> gives.\<close>

record counters =
  counts :: "u64 list"
  counter_names :: "u8 list option list"

definition NUM_COUNTERS :: nat where "NUM_COUNTERS = 2"

definition read_ctr :: "bool \<Rightarrow> nat \<Rightarrow> u8 list \<Rightarrow> u64 \<Rightarrow> counters \<Rightarrow> counters" where
  "read_ctr enable i name csr c =
     (if enable then c\<lparr>counts := (counts c)[i := csr]\<rparr>
      else c\<lparr>counts := (counts c)[i := csr - counts c ! i],
             counter_names := (counter_names c)[i := Some name]\<rparr>)"

definition setStats :: "bool \<Rightarrow> u64 \<Rightarrow> u64 \<Rightarrow> counters \<Rightarrow> counters" where
  "setStats enable mcycle minstret c =
     read_ctr enable 1 (bytes_of ''minstret'') minstret
       (read_ctr enable 0 (bytes_of ''mcycle'') mcycle c)"

definition getStats :: "nat \<Rightarrow> counters \<Rightarrow> u64 option" where
  "getStats counterid c = (if counterid < NUM_COUNTERS then Some (counts c ! counterid) else None)"

text \<open>The sections the linker places: \<open>tdata\<close> is copied to the thread pointer and \<open>tbss\<close> cleared.\<close>

definition init_tls :: "u64 \<Rightarrow> u64 \<Rightarrow> u64 \<Rightarrow> u64 \<Rightarrow> mem \<Rightarrow> mem option" where
  "init_tls tp tdata_begin tdata_end tbss_end m =
     (let tdata_size = tdata_end - tdata_begin; tbss_size = tbss_end - tdata_end in do {
        (_, m) \<leftarrow> memcpy m tp tdata_begin tdata_size;
        (_, m) \<leftarrow> memset m (tp + tdata_size) 0 tbss_size;
        Some m
      })"

text \<open>Only core 0 proceeds.\<close>

definition thread_entry :: "u32 \<Rightarrow> htif \<Rightarrow> htif option" where
  "thread_entry cid s = (if cid \<noteq> 0 then None else Some s)"

text \<open>The format \<open>"%s = %zu\n"\<close> of the report.\<close>

definition stats_format :: "u8 list" where
  "stats_format = bytes_of ''%s = %zu'' @ [0x0A]"

text \<open>The loop over the counters, \<open>n\<close> of them left, \<open>pbuf\<close> being where the next line goes.\<close>

primrec report_counters :: "counters \<Rightarrow> nat \<Rightarrow> nat \<Rightarrow> u64 \<Rightarrow> mem \<Rightarrow> (u64 \<times> mem) option" where
  "report_counters c 0 i pbuf m = Some (pbuf, m)"
| "report_counters c (Suc n) i pbuf m =
     (if counts c ! i \<noteq> 0
      then do {
        (k, m) \<leftarrow> sprintf m pbuf stats_format [VStr (counter_names c ! i), VInt (counts c ! i)];
        report_counters c n (i + 1) (pbuf + scast k) m
      }
      else report_counters c n (i + 1) pbuf m)"

text \<open>\<open>_init\<close>, for a \<open>main\<close> that returns its result and the counters it set; \<open>buf\<close> is the local array.\<close>

definition start ::
    "host_env \<Rightarrow> u64 \<Rightarrow> u64 \<Rightarrow> u64 \<Rightarrow> u64 \<Rightarrow> u64 \<Rightarrow> (htif \<Rightarrow> (u32 \<times> counters \<times> htif) option) \<Rightarrow> u32
      \<Rightarrow> htif \<Rightarrow> htif option" where
  "start E tp tdata_begin tdata_end tbss_end buf main cid s = do {
     m \<leftarrow> init_tls tp tdata_begin tdata_end tbss_end (hmem s);
     s \<leftarrow> thread_entry cid (s\<lparr>hmem := m\<rparr>);
     (ret, c, s) \<leftarrow> main s;
     (pbuf, m) \<leftarrow> report_counters c NUM_COUNTERS 0 buf (hmem s);
     let s = s\<lparr>hmem := m\<rparr>;
     s \<leftarrow> (if pbuf \<noteq> buf then printstr E buf s else Some s);
     Some (exit ret s)
   }"

section \<open>What the host sees\<close>

text \<open>
  A write to \<open>tohost\<close> with bit 0 clear names a block of eight words; the host reads the
  call number and its arguments there, and for \<open>write\<close> to the standard output the
  bytes.  (This is the protocol described at the head of \<open>syscalls.c\<close>.)
\<close>

definition magic_word :: "mem \<Rightarrow> u64 \<Rightarrow> nat \<Rightarrow> u64" where
  "magic_word m p i = le_dec (get_bytes (p + of_nat (8 * i)) 8 m)"

definition request_bytes :: "u64 \<Rightarrow> mem \<Rightarrow> u8 list" where
  "request_bytes w m =
     (let p = take_bit 48 w
      in if \<not> bit w 0 \<and> magic_word m p 0 = SYS_write \<and> magic_word m p 1 = 1
         then get_bytes (magic_word m p 2) (unat (magic_word m p 3)) m else [])"

fun host_written :: "host_event list \<Rightarrow> u8 list" where
  "host_written [] = []"
| "host_written (ToHost w m # es) = host_written es @ request_bytes w m"
| "host_written (_ # es) = host_written es"

text \<open>Everything printed so far: what the host got and what still waits in the buffer.\<close>

definition console :: "host_env \<Rightarrow> htif \<Rightarrow> u8 list" where
  "console E s = host_written (events s) @ get_bytes (putbuf_at E) (buflen s) (hmem s)"

definition region :: "u64 \<Rightarrow> nat \<Rightarrow> u64 set" where
  "region a n = (\<lambda>i. a + of_nat i) ` {..<n}"

text \<open>The host answers every call; the block of the call is aligned, below 2^48 (the payload of
  \<open>tohost\<close>), and apart from the buffer of \<open>putchar\<close>.\<close>

definition host_answers :: "host_env \<Rightarrow> bool" where
  "host_answers E \<longleftrightarrow> (\<forall>s. poll (\<lambda>s. Some (read_fromhost E s)) (\<lambda>v. v \<noteq> 0) s \<noteq> None)"

definition host_layout :: "host_env \<Rightarrow> bool" where
  "host_layout E \<longleftrightarrow> host_answers E \<and> take_bit 48 (magic_at E) = magic_at E \<and> \<not> bit (magic_at E) 0
     \<and> region (magic_at E) 32 \<inter> region (putbuf_at E) 64 = {}"

definition host_ok :: "host_env \<Rightarrow> htif \<Rightarrow> bool" where
  "host_ok E s \<longleftrightarrow> host_layout E \<and> buflen s < 64"

lemma clip_payload: "drop_bit 16 (push_bit 16 w) = take_bit 48 (w :: u64)"
  by (rule bit_word_eqI) (auto simp: bit_simps)

lemma put_bytes_region: "a \<notin> region p (length bs) \<Longrightarrow> put_bytes p bs m a = m a"
  by (rule put_bytes_other) (auto simp: region_def)

lemma get_put_middle:
  assumes "k + n \<le> length bs" "length bs \<le> 2 ^ 64"
  shows "get_bytes (a + of_nat k) n (put_bytes a bs m) = take n (drop k bs)"
proof (rule nth_equalityI)
  fix i assume "i < length (get_bytes (a + of_nat k) n (put_bytes a bs m))"
  then have "i < n" by simp
  then show "get_bytes (a + of_nat k) n (put_bytes a bs m) ! i = take n (drop k bs) ! i"
    using assms put_bytes_at [of bs "k + i" a m] by (simp add: get_bytes_def add.assoc)
qed (use assms in simp)

lemma get_bytes_cong:
  "(\<And>a. a \<in> region p n \<Longrightarrow> m a = m' a) \<Longrightarrow> get_bytes p n m = get_bytes p n m'"
  by (simp add: get_bytes_def region_def)

lemma magic_words:
  assumes "length ws = 4" "i < 4"
  shows "magic_word (put_bytes p (concat (map (le_enc 8) ws)) m) p i = ws ! i"
proof -
  have len: "length (concat (map (le_enc 8) ws)) = 32"
    using assms(1) by (simp add: length_concat comp_def sum_list_triv)
  from assms(1) obtain a b c d where ws: "ws = [a, b, c, d]"
    by (auto simp: length_Suc_conv numeral_eq_Suc)
  have "take 8 (drop (8 * i) (concat (map (le_enc 8) ws))) = le_enc 8 (ws ! i)"
    using assms(2) unfolding ws by (auto simp: less_Suc_eq numeral_eq_Suc)
  moreover have "get_bytes (p + of_nat (8 * i)) 8 (put_bytes p (concat (map (le_enc 8) ws)) m) =
      take 8 (drop (8 * i) (concat (map (le_enc 8) ws)))"
    by (rule get_put_middle) (use len assms(2) in simp_all)
  ultimately show ?thesis unfolding magic_word_def by (simp add: le_dec_enc)
qed

lemma syscall_write:
  assumes "host_layout E" "region p (unat n) \<inter> region (magic_at E) 32 = {}"
  obtains r s' where "syscall E SYS_write 1 p n s = Some (r, s')"
    "host_written (events s') = host_written (events s) @ get_bytes p (unat n) (hmem s)"
    "\<And>a. a \<notin> region (magic_at E) 32 \<Longrightarrow> hmem s' a = hmem s a" "buflen s' = buflen s"
proof -
  let ?M = "magic_at E"
  from assms(1) have answers: "host_answers E" and M: "take_bit 48 ?M = ?M" "\<not> bit ?M 0"
    by (simp_all add: host_layout_def)
  define m1 where "m1 = put_bytes ?M (concat (map (le_enc 8) [SYS_write, 1, p, n])) (hmem s)"
  define s1 where "s1 = s\<lparr>hmem := m1, events := ToHost ?M m1 # events s\<rparr>"
  have s1: "write_tohost (drop_bit 16 (push_bit 16 ?M)) (store_words ?M [SYS_write, 1, p, n] s) = s1"
    by (simp add: write_tohost_def store_words_def s1_def m1_def clip_payload M)
  have out: "m1 a = hmem s a" if "a \<notin> region ?M 32" for a
    unfolding m1_def by (rule put_bytes_region) (use that in simp)
  have "magic_word m1 ?M i = [SYS_write, 1, p, n] ! i" if "i < 4" for i
    unfolding m1_def by (rule magic_words) (use that in simp_all)
  from this [of 0] this [of 1] this [of 2] this [of 3]
  have "request_bytes ?M m1 = get_bytes p (unat n) m1"
    using M by (simp add: request_bytes_def Let_def)
  also have "\<dots> = get_bytes p (unat n) (hmem s)"
    by (rule get_bytes_cong) (use assms(2) out in blast)
  finally have req: "request_bytes ?M m1 = get_bytes p (unat n) (hmem s)" .
  from answers obtain v t where t: "poll (\<lambda>s. Some (read_fromhost E s)) (\<lambda>v. v \<noteq> 0) s1 = Some (v, t)"
    unfolding host_answers_def by fast
  have kept: "host_written (events t) = host_written (events s1)" "hmem t = hmem s1" "buflen t = buflen s1"
    by (rule poll_keeps [OF t]; auto simp: read_fromhost_def Let_def)+
  let ?t = "t\<lparr>events := ClearFromHost # events t\<rparr>"
  let ?r = "call_result E (events ?t)" and ?s' = "store_words ?M [call_result E (events ?t)] ?t"
  have "syscall E SYS_write 1 p n s = Some (?r, ?s')"
    using t by (simp add: syscall_def Let_def s1)
  moreover have "host_written (events ?s') = host_written (events s) @ get_bytes p (unat n) (hmem s)"
    using kept(1) req by (simp add: store_words_def s1_def)
  moreover have "hmem ?s' a = hmem s a" if "a \<notin> region ?M 32" for a
  proof -
    have "a \<notin> region ?M 8" using that by (auto simp: region_def)
    then show ?thesis
      using kept(2) out [OF that] put_bytes_region [of a ?M "le_enc 8 ?r"]
      by (simp add: store_words_def s1_def)
  qed
  moreover have "buflen ?s' = buflen s"
    using kept(3) by (simp add: store_words_def s1_def)
  ultimately show ?thesis by (rule that)
qed

section \<open>The console\<close>

definition printed :: "host_env \<Rightarrow> htif \<Rightarrow> u8 list \<Rightarrow> htif \<Rightarrow> bool" where
  "printed E s bs s' \<longleftrightarrow> console E s' = console E s @ bs \<and>
     (\<forall>a. a \<notin> region (magic_at E) 32 \<longrightarrow> a \<notin> region (putbuf_at E) 64 \<longrightarrow> hmem s' a = hmem s a)"

lemma putchar_step:
  assumes "host_ok E s"
  obtains s' where "putchar E c s = Some s'" "host_ok E s'" "printed E s [ucast c] s'"
    "c = 0x0A \<Longrightarrow> buflen s' = 0"
proof -
  let ?B = "putbuf_at E" and ?n = "buflen s"
  from assms have lay: "host_layout E" and n: "?n < 64" by (simp_all add: host_ok_def)
  define t where "t = s\<lparr>hmem := (hmem s)(?B + of_nat ?n := ucast c), buflen := ?n + 1\<rparr>"
  have inb: "?B + of_nat ?n \<in> region ?B 64" using n by (auto simp: region_def)
  have before: "get_bytes ?B ?n (hmem t) = get_bytes ?B ?n (hmem s)"
  proof (rule get_bytes_cong)
    fix a assume "a \<in> region ?B ?n"
    then obtain i where i: "i < ?n" "a = ?B + of_nat i" by (auto simp: region_def)
    have "a \<noteq> ?B + of_nat ?n"
      using word64_offset_inject [of i ?n ?B] i n by auto
    then show "hmem t a = hmem s a" by (simp add: t_def)
  qed
  have buf: "get_bytes ?B (?n + 1) (hmem t) = get_bytes ?B ?n (hmem s) @ [ucast c]"
    using before by (simp add: get_bytes_append) (simp add: get_bytes_def t_def)
  have mem: "hmem t a = hmem s a" if "a \<notin> region ?B 64" for a
    using that inb by (auto simp: t_def)
  show ?thesis
  proof (cases "c = 0x0A \<or> ?n + 1 = 64")
    case False
    have "putchar E c s = Some t" using False by (simp add: putchar_def t_def Let_def)
    moreover have "host_ok E t" using False n lay by (simp add: host_ok_def t_def)
    moreover have "printed E s [ucast c] t"
      using buf mem by (simp add: printed_def console_def t_def)
    ultimately show ?thesis using False that by blast
  next
    case True
    have len: "unat (of_nat (?n + 1) :: u64) = ?n + 1" using n by (subst unat_of_nat) simp
    have "region ?B (?n + 1) \<subseteq> region ?B 64" using n by (auto simp: region_def)
    then have "region ?B (unat (of_nat (?n + 1) :: u64)) \<inter> region (magic_at E) 32 = {}"
      using lay len by (auto simp: host_layout_def)
    then obtain r u where u: "syscall E SYS_write 1 ?B (of_nat (?n + 1)) t = Some (r, u)"
      "host_written (events u) = host_written (events t) @ get_bytes ?B (?n + 1) (hmem t)"
      "\<And>a. a \<notin> region (magic_at E) 32 \<Longrightarrow> hmem u a = hmem t a"
      using syscall_write [OF lay, of ?B "of_nat (?n + 1)" t] len by metis
    have "putchar E c s = Some (u\<lparr>buflen := 0\<rparr>)"
      using True u(1) by (simp add: putchar_def t_def Let_def)
    moreover have "printed E s [ucast c] (u\<lparr>buflen := 0\<rparr>)"
      using u(2,3) buf mem by (simp add: printed_def console_def get_bytes_def) (simp add: t_def)
    moreover have "host_ok E (u\<lparr>buflen := 0\<rparr>)" "buflen (u\<lparr>buflen := 0\<rparr>) = 0"
      using lay by (simp_all add: host_ok_def)
    ultimately show ?thesis using that by metis
  qed
qed

interpretation console: char_sink "putchar E" "host_ok E" "printed E" for E
proof unfold_locales
  show "printed E s [] s" for s by (simp add: printed_def)
  show "printed E s (xs @ ys) u" if "printed E s xs t" "printed E t ys u" for s xs t ys u
    using that by (simp add: printed_def)
  show "\<exists>s'. putchar E c s = Some s' \<and> host_ok E s' \<and> printed E s [ucast c] s'" if "host_ok E s" for s c
    using putchar_step [OF that] by metis
qed

text \<open>A host that answers at once, for the concrete instances.\<close>

definition quiet_host :: host_env where
  "quiet_host = \<lparr>from_host = \<lambda>_. 1, call_result = \<lambda>_. 0, magic_at = 0x8000, putbuf_at = 0x9000\<rparr>"

definition quiet_start :: htif where
  "quiet_start = \<lparr>hmem = put_bytes 0x100 ([0x48, 0x69] @ [0]) (\<lambda>_. 7), events = [], buflen = 0\<rparr>"

lemma region_far:
  assumes "unat a + n \<le> unat b" "unat b + k < 2 ^ 64"
  shows "region a n \<inter> region b k = {}"
proof -
  have "unat (a + of_nat i) = unat a + i" if "i < n" for i
    using that assms by (simp add: unat_word_ariths unat_of_nat)
  moreover have "unat (b + of_nat j) = unat b + j" if "j < k" for j
    using that assms by (simp add: unat_word_ariths unat_of_nat)
  ultimately have "unat x < unat b" "unat b \<le> unat y" if "x \<in> region a n" "y \<in> region b k" for x y
    using that assms(1) by (auto simp: region_def)
  then show ?thesis by (meson disjoint_iff not_less)
qed

lemma quiet_host_layout: "host_layout quiet_host"
proof -
  have "host_answers quiet_host"
    by (simp add: host_answers_def read_fromhost_def quiet_host_def Let_def poll.simps [where ok = "\<lambda>v. v \<noteq> 0"])
  moreover have "region 0x8000 32 \<inter> region 0x9000 64 = {}" by (rule region_far) simp_all
  moreover have "take_bit 48 (0x8000 :: u64) = 0x8000" by simp
  ultimately show ?thesis by (simp add: host_layout_def quiet_host_def)
qed

lemma quiet_host_ok: "host_ok quiet_host quiet_start"
  by (simp add: host_ok_def quiet_host_layout quiet_start_def)

section \<open>Properties of the output functions\<close>

text \<open>Whatever the format and the arguments, \<open>printf\<close> prints to the console exactly the bytes that
  \<open>sprintf\<close> stores, which are as many as it returns; both are undefined together.\<close>

theorem printf_prints_what_sprintf_stores:
  assumes "host_ok E s"
  shows "case sprintf m str fmt ap of
      None \<Rightarrow> printf E fmt ap s = None
    | Some (n, m') \<Rightarrow> \<exists>bs s'. printf E fmt ap s = Some (0, s') \<and> host_ok E s'
        \<and> console E s' = console E s @ bs \<and> n = of_nat (length bs) \<and> m' = put_bytes str (bs @ [0]) m"
  using console.vprintfmt_renders [OF assms, of fmt ap]
  by (auto simp: sprintf_stores printf_def printed_def split: option.splits)

theorem printf_prints_what_sprintf_stores_witness:
  "\<exists>bs s'. printf quiet_host [0x48, 0x69] [] quiet_start = Some (0, s')
    \<and> console quiet_host s' = console quiet_host quiet_start @ bs \<and> (2 :: u32) = of_nat (length bs)"
  using printf_prints_what_sprintf_stores [OF quiet_host_ok, where m = "\<lambda>_. 0" and str = 0 and fmt = "[0x48, 0x69]" and ap = "[]"]
  by (auto simp: sprintf_stores rendered_def list_putch_def)

lemma region_mono: "n \<le> k \<Longrightarrow> region p n \<subseteq> region p k"
  by (auto simp: region_def)

lemma region_Suc: "region p (Suc n) = insert p (region (p + 1) n)"
proof -
  have "{..<Suc n} = insert 0 (Suc ` {..<n})" by (auto simp: lessThan_Suc_eq_insert_0)
  then have "region p (Suc n) = insert p ((\<lambda>i. p + of_nat (Suc i)) ` {..<n})"
    by (simp add: region_def image_image)
  then show ?thesis by (simp add: region_def add.assoc)
qed

lemma str_at_cong:
  "(\<And>a. a \<in> region p (Suc (length cs)) \<Longrightarrow> m a = m' a) \<Longrightarrow> str_at m p cs = str_at m' p cs"
  using get_bytes_cong [of p "Suc (length cs)" m m'] by (simp add: str_at_bytes)

text \<open>Memory the output code does not use.\<close>

definition beside :: "host_env \<Rightarrow> u64 \<Rightarrow> nat \<Rightarrow> bool" where
  "beside E p n \<longleftrightarrow> region p n \<inter> (region (magic_at E) 32 \<union> region (putbuf_at E) 64) = {}"

lemma puts_loop_prints:
  "host_ok E s \<Longrightarrow> str_at (hmem s) p cs \<Longrightarrow> beside E p (Suc (length cs)) \<Longrightarrow>
     \<exists>s'. puts_loop E p s = Some s' \<and> host_ok E s' \<and> console E s' = console E s @ cs"
proof (induction cs arbitrary: s p)
  case Nil
  then show ?case by (simp add: puts_loop.simps [of E p s])
next
  case (Cons c cs)
  obtain t where t: "putchar E (ucast c) s = Some t" "host_ok E t" "printed E s [ucast (ucast c :: u32)] t"
    using Cons.prems(1) by (rule putchar_step)
  have b: "beside E (p + 1) (Suc (length cs))"
    using Cons.prems(3) by (simp add: beside_def region_Suc [of p])
  have "str_at (hmem t) (p + 1) cs = str_at (hmem s) (p + 1) cs"
    by (rule str_at_cong) (use t(3) b in \<open>auto simp: printed_def beside_def\<close>)
  with Cons.IH [OF t(2) _ b] Cons.prems(2) t(1,3) show ?case
    by (auto simp: puts_loop.simps [of E p s] printed_def ucast_up_down)
qed

text \<open>\<open>puts\<close> of a string in memory the output code does not use: the host has got everything printed
  so far, the string and a newline, and nothing is left in the buffer.\<close>

theorem puts_flushes_line:
  assumes "host_ok E s" "str_at (hmem s) p cs" "beside E p (Suc (length cs))"
  shows "\<exists>s'. puts E p s = Some (0, s') \<and> host_ok E s' \<and> buflen s' = 0
    \<and> host_written (events s') = console E s @ cs @ [0x0A]"
proof -
  obtain t where t: "puts_loop E p s = Some t" "host_ok E t" "console E t = console E s @ cs"
    using puts_loop_prints [OF assms] by blast
  obtain u where u: "putchar E 0x0A t = Some u" "host_ok E u" "printed E t [ucast (0x0A :: u32)] u" "buflen u = 0"
    using putchar_step [OF t(2), of "0x0A"] by metis
  from u(3,4) t(3) have "host_written (events u) = console E s @ cs @ [0x0A]"
    by (simp add: printed_def console_def [of E u] get_bytes_def)
  with t(1) u show ?thesis by (simp add: puts_def)
qed

theorem puts_flushes_line_witness:
  "\<exists>s'. puts quiet_host 0x100 quiet_start = Some (0, s') \<and> host_written (events s') = [0x48, 0x69, 0x0A]"
proof -
  have "str_at (hmem quiet_start) 0x100 [0x48, 0x69]"
    using str_at_put [of "[0x48, 0x69]" "0x100" "\<lambda>_. 7"] by (simp add: quiet_start_def)
  moreover have "beside quiet_host 0x100 3"
    using region_far [of "0x100" 3 "0x8000" 32] region_far [of "0x100" 3 "0x9000" 64]
    by (simp add: beside_def quiet_host_def Int_Un_distrib)
  ultimately show ?thesis
    using puts_flushes_line [OF quiet_host_ok, of "0x100" "[0x48, 0x69]"]
    by (auto simp: console_def quiet_start_def get_bytes_def numeral_3_eq_3)
qed

lemma printstr_prints:
  assumes "host_layout E" "str_at (hmem s) p cs" "length cs < 2 ^ 64"
    "region p (length cs) \<inter> region (magic_at E) 32 = {}"
  shows "\<exists>s'. printstr E p s = Some s' \<and> host_written (events s') = host_written (events s) @ cs \<and> buflen s' = buflen s"
proof -
  have n: "strlen (hmem s) p = Some (of_nat (length cs))" "unat (of_nat (length cs) :: u64) = length cs"
    using assms(2,3) by (simp_all add: strlen_def strlen_loop_end unat_of_nat)
  obtain r u where "syscall E SYS_write 1 p (of_nat (length cs)) s = Some (r, u)"
    "host_written (events u) = host_written (events s) @ get_bytes p (length cs) (hmem s)" "buflen u = buflen s"
    using syscall_write [OF assms(1), of p "of_nat (length cs)" s] assms(4) n(2) by metis
  moreover have "get_bytes p (length cs) (hmem s) = cs"
    using assms(2) get_bytes_append [of p "length cs" 1 "hmem s"] by (simp add: str_at_bytes)
  ultimately show ?thesis using n(1) by (simp add: printstr_def)
qed

lemma nibble: "unat (x AND 0xF) = unat x mod 16" "unat (ucast (x AND 0xF) :: u32) = unat x mod 16"
  for x :: u64
proof -
  have "x AND 0xF = take_bit 4 x" by (simp add: take_bit_eq_mask mask_eq_exp_minus_1)
  then show "unat (x AND 0xF) = unat x mod 16"
    by (simp only: unsigned_take_bit_eq) (simp add: take_bit_eq_mod)
  then show "unat (ucast (x AND 0xF) :: u32) = unat x mod 16"
    by (simp add: unsigned_ucast_eq take_bit_nat_eq_self)
qed

lemma nibble_char:
  "(ucast ((x AND 0xF) + (if x AND 0xF < 10 then 48 else 97 - 10)) :: u8) = number_char (ucast (x AND 0xF))"
  for x :: u64
proof -
  have "unat (x AND 0xF) < 16" using nibble(1) [of x] by simp
  then have "unat (x AND 0xF) \<in> {0, 1, 2, 3, 4, 5, 6, 7, 8, 9, 10, 11, 12, 13, 14, 15}"
    by (simp only: insert_iff empty_iff) arith
  moreover have "x AND 0xF = of_nat (unat (x AND 0xF))" by simp
  ultimately have "x AND 0xF \<in> {0, 1, 2, 3, 4, 5, 6, 7, 8, 9, 10, 11, 12, 13, 14, 15}"
    by (elim insertE) auto
  then show ?thesis
    by (elim insertE emptyE; simp only:; simp add: number_char_def digit_char_def word_less_nat_alt word_le_nat_alt)
qed

lemma printhex_digits_value:
  "\<exists>ns. length ns = n \<and> (\<forall>d \<in> set ns. unat d < 16) \<and> digits_value 16 (map unat ns) = unat x mod 16 ^ n
    \<and> printhex_digits n x ds = map number_char (rev ns) @ ds"
proof (induction n arbitrary: x ds)
  case 0
  then show ?case by simp
next
  case (Suc n)
  let ?d = "ucast (x AND 0xF) :: u32"
  obtain ns where ns: "length ns = n" "\<forall>d \<in> set ns. unat d < 16"
    "digits_value 16 (map unat ns) = unat (drop_bit 4 x) mod 16 ^ n"
    "printhex_digits n (drop_bit 4 x) (number_char ?d # ds) = map number_char (rev ns) @ number_char ?d # ds"
    using Suc.IH by blast
  have d: "unat ?d = unat x mod 16" by (rule nibble(2))
  have "unat x mod 16 ^ Suc n = unat x mod 16 + 16 * (unat x div 16 mod 16 ^ n)"
    by (simp add: mod_mult2_eq)
  moreover have "unat (drop_bit 4 x) = unat x div 16" by (simp only: unat_drop_bit_eq) (simp add: drop_bit_eq_div)
  ultimately show ?case
    using ns d by (intro exI [of _ "?d # ns"]) (simp add: nibble_char)
qed

text \<open>\<open>printhex\<close> hands the host sixteen hexadecimal digits that read back to its argument.\<close>

theorem printhex_readable:
  assumes "host_layout E" "region str 17 \<inter> region (magic_at E) 32 = {}"
  shows "\<exists>s' ds. printhex E str x s = Some s' \<and> host_written (events s') = host_written (events s) @ ds
    \<and> length ds = 16 \<and> read_number 16 0 ds = unat x"
proof -
  obtain ns where ns: "length ns = 16" "\<forall>d \<in> set ns. unat d < 16"
    "digits_value 16 (map unat ns) = unat x mod 16 ^ 16" "printhex_digits 16 x [] = map number_char (rev ns) @ []"
    using printhex_digits_value by blast
  let ?cs = "map number_char (rev ns)" and ?s = "s\<lparr>hmem := put_bytes str (map number_char (rev ns) @ [0]) (hmem s)\<rparr>"
  have "str_at (hmem ?s) str ?cs"
    using ns(1,2) str_at_put [of ?cs str "hmem s"] number_char_table(3) by force
  moreover have "region str (length ?cs) \<inter> region (magic_at E) 32 = {}"
    using assms(2) ns(1) region_mono [of 16 17 str] by auto
  ultimately obtain s' where "printstr E str ?s = Some s'" "host_written (events s') = host_written (events s) @ ?cs"
    using printstr_prints [OF assms(1), of ?s str ?cs] ns(1) by auto
  moreover have "unat x mod 16 ^ 16 = unat x" using unsigned_less [of x, where ?'a = nat] by simp
  ultimately show ?thesis
    using ns read_digits [OF ns(2), of 16] by (intro exI [of _ s'] exI [of _ ?cs]) (simp add: printhex_def)
qed

theorem printhex_readable_witness:
  "\<exists>s' ds. printhex quiet_host 0x200 0xC0FFEE quiet_start = Some s'
    \<and> host_written (events s') = ds \<and> read_number 16 0 ds = 0xC0FFEE"
  using printhex_readable [OF quiet_host_layout, of "0x200" "0xC0FFEE" quiet_start]
    region_far [of "0x200" 17 "0x8000" 32]
  by (auto simp: quiet_start_def quiet_host_def)

text \<open>\<open>exit\<close> writes a word the host takes for the end of the program and never for a call: bit 0 is
  set, the device and command bytes are clear, and above bit 0 stand the low 47 bits of the code.\<close>

theorem exit_code_seen:
  "\<exists>w. events (exit code s) = ToHost w (hmem s) # events s \<and> bit w 0 \<and> take_bit 48 w = w
    \<and> drop_bit 1 w = take_bit 47 (scast code) \<and> request_bytes w (hmem s) = []"
proof -
  let ?c = "scast code :: u64" and ?w = "drop_bit 16 (push_bit 17 (scast code)) OR 1 :: u64"
  have bits: "bit ?w i \<longleftrightarrow> i = 0 \<or> 0 < i \<and> i < 48 \<and> bit ?c (i - 1)" for i
    unfolding bit_ops by (cases i) (auto dest: bit_imp_le_length)
  have "take_bit 48 ?w = ?w"
    by (rule bit_word_eqI, simp only: bit_take_bit_iff bits) auto
  moreover have "drop_bit 1 ?w = take_bit 47 ?c"
    by (rule bit_word_eqI, simp only: bit_take_bit_iff bit_drop_bit_eq comp_def bits) auto
  moreover have "bit ?w 0" unfolding bits by simp
  ultimately show ?thesis
    by (simp add: exit_def tohost_exit_def write_tohost_def request_bytes_def Let_def)
qed

lemma put_str_list:
  "0 \<notin> set p \<Longrightarrow> prec < 0 \<Longrightarrow> - (2 ^ 31) \<le> w - int (length p) \<Longrightarrow>
     put_str list_putch prec w p out = Some (w - int (length p), out @ p)"
  by (induction p arbitrary: w out) (auto simp: list_putch_def ucast_up_down)

text \<open>The report of \<open>_init\<close> does not print the counters: \<open>vprintfmt\<close> has no \<open>z\<close> modifier, so the line
  for a counter is its name followed by the text \<open>= %zu\<close>, whatever its value.\<close>

theorem stats_report_omits_counter:
  assumes "0 \<notin> set name" "length name < 2 ^ 31"
  shows "rendered stats_format [VStr (Some name), VInt n] = Some (name @ bytes_of '' = %zu'' @ [0x0A])"
proof -
  have "convert_string list_putch spec0 (Some name) [] = Some name"
    using assms by (simp add: convert_string_def spec0_def Let_def c_string_no_nul put_str_list)
  then show ?thesis
    by (simp add: rendered_def stats_format_def bytes_of_simps convert_def list_putch_def)
qed

theorem stats_report_omits_counter_witness:
  "rendered stats_format [VStr (Some [0x6D, 0x63, 0x79]), VInt 1234] =
     Some ([0x6D, 0x63, 0x79] @ bytes_of '' = %zu'' @ [0x0A])"
  using stats_report_omits_counter [of "[0x6D, 0x63, 0x79]" 1234] by simp

end
