(* ===== verification/Coremark_Util.thy ===== *)
theory Coremark_Util
  imports Prelude
begin

text \<open>
  \<open>core_util.c\<close> of the CoreMark port: the seeds and the 16-bit CRC that every part of
  the benchmark reports with.  \<open>ee_s16\<close> and \<open>ee_u16\<close> are both 16-bit words here; the
  code converts between them without changing a bit.
\<close>

section \<open>Seeds\<close>

text \<open>The volatile seed variables of the three kinds of run, in the order of their numbers.\<close>

datatype run_kind = Validation | Performance | Profile

definition volatile_seeds :: "run_kind \<Rightarrow> u32 \<Rightarrow> u32 list" where
  "volatile_seeds kind ITERATIONS =
     (case kind of
        Validation \<Rightarrow> [0x3415, 0x3415, 0x66, ITERATIONS, 0]
      | Performance \<Rightarrow> [0x0, 0x0, 0x66, ITERATIONS, 0]
      | Profile \<Rightarrow> [0x8, 0x8, 0x8, ITERATIONS, 0])"

definition get_seed_32 :: "u32 list \<Rightarrow> int \<Rightarrow> u32" where
  "get_seed_32 seeds i =
     (if i = 1 then seeds ! 0 else if i = 2 then seeds ! 1 else if i = 3 then seeds ! 2
      else if i = 4 then seeds ! 3 else if i = 5 then seeds ! 4 else 0)"

section \<open>CRC\<close>

text \<open>\<open>n\<close> passes of the loop of \<open>crcu8\<close>.\<close>

primrec crcu8_loop :: "nat \<Rightarrow> u8 \<Rightarrow> u16 \<Rightarrow> u16" where
  "crcu8_loop 0 data crc = crc"
| "crcu8_loop (Suc n) data crc =
     (let x16 = (data AND 1) XOR (ucast crc AND 1);
          data = drop_bit 1 data;
          carry = (x16 = 1);
          crc = (if carry then crc XOR 0x4002 else crc);
          crc = drop_bit 1 crc;
          crc = (if carry then crc OR 0x8000 else crc AND 0x7FFF)
      in crcu8_loop n data crc)"

definition crcu8 :: "u8 \<Rightarrow> u16 \<Rightarrow> u16" where
  "crcu8 data crc = crcu8_loop 8 data crc"

definition crcu16 :: "u16 \<Rightarrow> u16 \<Rightarrow> u16" where
  "crcu16 newval crc =
     (let crc = crcu8 (ucast newval) crc in crcu8 (ucast (drop_bit 8 newval)) crc)"

text \<open>\<open>crc16\<close> of \<open>core_util.c\<close>, named apart from the checksum of the card driver.\<close>

definition core_crc16 :: "u16 \<Rightarrow> u16 \<Rightarrow> u16" where
  "core_crc16 newval crc = crcu16 newval crc"

definition crcu32 :: "u32 \<Rightarrow> u16 \<Rightarrow> u16" where
  "crcu32 newval crc =
     (let crc = core_crc16 (ucast newval) crc in core_crc16 (ucast (drop_bit 16 newval)) crc)"

section \<open>The CRC as a shift register\<close>

text \<open>One step of the reflected CRC-16 register with the polynomial \<open>x^16 + x^15 + x^2 + 1\<close>.\<close>

definition crc_step :: "bool \<Rightarrow> u16 \<Rightarrow> u16" where
  "crc_step b c = (if b \<noteq> bit c 0 then drop_bit 1 c XOR 0xA001 else drop_bit 1 c)"

lemma and_1_cases: "(w AND 1) = (if bit w 0 then 1 else 0)" for w :: "'a::len word"
  by (rule bit_word_eqI) (auto simp: bit_and_iff bit_1_iff intro!: gr0I)

lemma crcu8_loop_step:
  "crcu8_loop (Suc n) d c = crcu8_loop n (drop_bit 1 d) (crc_step (bit d 0) c)"
proof -
  have lsb: "bit (ucast c :: u8) 0 = bit c 0" by (simp add: bit_simps)
  have "((d AND 1) XOR (ucast c AND 1) = (1 :: u8)) \<longleftrightarrow> bit d 0 \<noteq> bit c 0"
    unfolding and_1_cases lsb by simp
  moreover have "drop_bit 1 (c XOR 0x4002) OR 0x8000 = drop_bit 1 c XOR 0xA001"
  proof -
    have top: "w OR 0x8000 = w XOR 0x8000" if "\<not> bit w 15" for w :: u16
    proof -
      have "(0x8000 :: u16) = 2 ^ 15" by simp
      with that show ?thesis
        by (auto intro!: bit_word_eqI simp only: bit_or_iff bit_xor_iff bit_exp_iff)
    qed
    have "drop_bit 1 (c XOR 0x4002) = drop_bit 1 c XOR 0x2001" by (simp add: drop_bit_xor)
    moreover have "\<not> bit (drop_bit 1 c) 15" by (auto simp: bit_drop_bit_eq dest: bit_imp_le_length)
    moreover have "\<not> bit (0x2001 :: u16) 15" by simp
    ultimately have "\<not> bit (drop_bit 1 (c XOR 0x4002)) 15" by (simp only: bit_xor_iff)
    with top have "drop_bit 1 (c XOR 0x4002) OR 0x8000 = (drop_bit 1 c XOR 0x2001) XOR 0x8000"
      using \<open>drop_bit 1 (c XOR 0x4002) = drop_bit 1 c XOR 0x2001\<close> by metis
    then show ?thesis by (simp add: xor.assoc)
  qed
  moreover have "drop_bit 1 c AND 0x7FFF = drop_bit 1 c"
  proof (rule bit_word_eqI)
    fix i assume "i < LENGTH(16)"
    have m: "(0x7FFF :: u16) = mask 15" by (simp add: mask_eq_exp_minus_1)
    show "bit (drop_bit 1 c AND 0x7FFF) i = bit (drop_bit 1 c) i"
      unfolding m by (auto simp: bit_simps dest: bit_imp_le_length)
  qed
  ultimately show ?thesis by (simp add: crc_step_def)
qed

lemma crc_step_data: "crc_step b c = crc_step False (c XOR (if b then 1 else 0))"
proof -
  have "bit (c XOR 1) 0 \<longleftrightarrow> \<not> bit c 0" "drop_bit 1 (c XOR 1) = drop_bit 1 c"
    by (auto intro!: bit_word_eqI simp: bit_xor_iff bit_1_iff bit_drop_bit_eq)
  then show ?thesis by (simp add: crc_step_def)
qed

text \<open>The register is stepped by its own low bit; the data only enters by an exclusive or.\<close>

lemma crc_step_xor: "crc_step False (c XOR drop_bit 0 w) = crc_step (bit w 0) c XOR drop_bit 1 w"
  for w :: u16
proof -
  have "bit (c XOR w) 0 = (bit c 0 \<noteq> bit w 0)" by (simp add: bit_xor_iff)
  moreover have "drop_bit 1 (c XOR w) = drop_bit 1 c XOR drop_bit 1 w" by (simp add: drop_bit_xor)
  ultimately show ?thesis by (auto simp: crc_step_def xor.assoc xor.commute [of "0xA001"])
qed

primrec crc_bits :: "nat \<Rightarrow> u16 \<Rightarrow> u16 \<Rightarrow> u16" where
  "crc_bits 0 v c = c"
| "crc_bits (Suc n) v c = crc_bits n (drop_bit 1 v) (crc_step (bit v 0) c)"

primrec crc_shift :: "nat \<Rightarrow> u16 \<Rightarrow> u16" where
  "crc_shift 0 c = c"
| "crc_shift (Suc n) c = crc_shift n (crc_step False c)"

lemma crcu8_loop_bits:
  "(\<And>i. i < n \<Longrightarrow> bit d i = bit v i) \<Longrightarrow> crcu8_loop n d c = crc_bits n v c"
proof (induction n arbitrary: d v c)
  case 0
  then show ?case by simp
next
  case (Suc n)
  have "crcu8_loop n (drop_bit 1 d) (crc_step (bit v 0) c) = crc_bits n (drop_bit 1 v) (crc_step (bit v 0) c)"
    using Suc.prems by (intro Suc.IH) (simp add: bit_drop_bit_eq)
  with Suc.prems [of 0] show ?case by (simp add: crcu8_loop_step del: crcu8_loop.simps)
qed

lemma crc_bits_add: "crc_bits (m + n) v c = crc_bits n (drop_bit m v) (crc_bits m v c)"
  by (induction m arbitrary: v c) simp_all

lemma crc_shift_xor: "crc_shift n (c XOR v) = crc_bits n v c XOR drop_bit n v"
proof (induction n arbitrary: c v)
  case 0
  then show ?case by simp
next
  case (Suc n)
  have "crc_step False (c XOR v) = crc_step (bit v 0) c XOR drop_bit 1 v"
    using crc_step_xor [of c v] by simp
  with Suc show ?case by simp
qed

lemma crcu16_shift: "crcu16 v c = crc_shift 16 (c XOR v)"
proof -
  have "crcu8 (ucast v) c = crc_bits 8 v c" for c
    unfolding crcu8_def by (rule crcu8_loop_bits) (simp add: bit_simps)
  moreover have "crcu8 (ucast (drop_bit 8 v)) c = crc_bits 8 (drop_bit 8 v) c" for c
    unfolding crcu8_def by (rule crcu8_loop_bits) (simp add: bit_simps)
  ultimately have "crcu16 v c = crc_bits (8 + 8) v c"
    by (simp only: crcu16_def Let_def crc_bits_add)
  moreover have "drop_bit 16 v = 0" by (rule bit_word_eqI) (auto simp: bit_drop_bit_eq dest: bit_imp_le_length)
  ultimately show ?thesis using crc_shift_xor [of 16 c v] by simp
qed

lemma crc_step_inj: "crc_step False c = crc_step False d \<Longrightarrow> c = d"
proof -
  assume eq: "crc_step False c = crc_step False d"
  have top: "bit (crc_step False x) 15 = bit x 0" for x
    by (auto simp: crc_step_def bit_xor_iff bit_drop_bit_eq dest: bit_imp_le_length)
  then have low: "bit c 0 = bit d 0" using eq by metis
  have undo: "x = (x XOR 0xA001) XOR 0xA001" for x :: u16 by (simp add: xor.assoc)
  from low eq have "drop_bit 1 c = drop_bit 1 d"
    unfolding crc_step_def using undo by (auto split: if_splits) metis
  show "c = d"
  proof (rule bit_word_eqI)
    fix i assume "i < LENGTH(16)"
    show "bit c i = bit d i"
    proof (cases i)
      case 0
      with low show ?thesis by simp
    next
      case (Suc j)
      have "bit (drop_bit 1 c) j = bit (drop_bit 1 d) j" by (simp only: \<open>drop_bit 1 c = drop_bit 1 d\<close>)
      with Suc show ?thesis by (simp add: bit_drop_bit_eq)
    qed
  qed
qed

lemma crc_shift_inj: "crc_shift n c = crc_shift n d \<Longrightarrow> c = d"
  by (induction n arbitrary: c d) (auto dest!: crc_step_inj)

lemma crcu16_eq_iff: "crcu16 v c = crcu16 w d \<longleftrightarrow> c XOR v = d XOR w"
  unfolding crcu16_shift
proof
  show "c XOR v = d XOR w" if "crc_shift 16 (c XOR v) = crc_shift 16 (d XOR w)"
    using that by (rule crc_shift_inj)
qed (rule arg_cong)

lemma xor_cancel: "c XOR v = c XOR w \<longleftrightarrow> v = w" "v XOR c = w XOR c \<longleftrightarrow> v = w" for c v w :: u16
proof -
  have undo: "c XOR (c XOR x) = x" for x
    by (rule bit_word_eqI) (simp add: bit_xor_iff)
  show *: "c XOR v = c XOR w \<longleftrightarrow> v = w"
  proof
    assume "c XOR v = c XOR w"
    then have "c XOR (c XOR v) = c XOR (c XOR w)" by (rule arg_cong)
    then show "v = w" unfolding undo .
  qed simp
  then show "v XOR c = w XOR c \<longleftrightarrow> v = w" by (simp only: xor.commute [of v c] xor.commute [of w c])
qed

text \<open>The loop of \<open>crcu8\<close> is the reflected CRC-16 register (polynomial 0x8005), for sequences of
  16-bit values: two that differ in exactly one place never have the same CRC, whatever the start
  value and whatever comes before and after.\<close>

theorem crc_detects_one_change:
  "crcu16 v c = crc_bits 16 v c
   \<and> (fold crcu16 (pre @ x # post) c = fold crcu16 (pre @ y # post) c \<longleftrightarrow> x = y)"
proof
  have "drop_bit 16 v = 0" by (rule bit_word_eqI) (auto simp: bit_drop_bit_eq dest: bit_imp_le_length)
  then show "crcu16 v c = crc_bits 16 v c"
    using crc_shift_xor [of 16 c v] by (simp only: crcu16_shift) simp
  have "fold crcu16 post a = fold crcu16 post b \<longleftrightarrow> a = b" for a b
    by (induction post arbitrary: a b) (simp_all add: crcu16_eq_iff xor_cancel)
  then show "fold crcu16 (pre @ x # post) c = fold crcu16 (pre @ y # post) c \<longleftrightarrow> x = y"
    by (simp add: crcu16_eq_iff xor_cancel)
qed

end
