(* ===== verification/Coremark_State.thy ===== *)
theory Coremark_State
  imports Coremark_Util Cstring
begin

text \<open>
  \<open>core_state.c\<close> of the CoreMark port: the number-recognising state machine, the
  benchmark that runs it over a block of memory before and after corrupting it, and
  the initialisation of that block.  Memory is the one of theory \<open>Cstring\<close>; an array
  of counters indexed by states is a function on states.
\<close>

datatype core_state =
  CORE_START | CORE_INVALID | CORE_S1 | CORE_S2 | CORE_INT | CORE_FLOAT | CORE_EXPONENT | CORE_SCIENTIFIC

text \<open>A loop over the indices below \<open>NUM_CORE_STATES\<close> is one over the states in this order.\<close>

instantiation core_state :: enum
begin

definition enum_core_state :: "core_state list" where
  "enum_core_state = [CORE_START, CORE_INVALID, CORE_S1, CORE_S2, CORE_INT, CORE_FLOAT, CORE_EXPONENT, CORE_SCIENTIFIC]"

definition enum_all_core_state :: "(core_state \<Rightarrow> bool) \<Rightarrow> bool" where
  "enum_all_core_state P = list_all P Enum.enum"

definition enum_ex_core_state :: "(core_state \<Rightarrow> bool) \<Rightarrow> bool" where
  "enum_ex_core_state P = list_ex P Enum.enum"

instance
proof
  show all: "UNIV = set (Enum.enum :: core_state list)"
    using core_state.exhaust by (auto simp: enum_core_state_def)
  show "distinct (Enum.enum :: core_state list)" by (simp add: enum_core_state_def)
  show "Enum.enum_all P = Ball UNIV P" for P :: "core_state \<Rightarrow> bool"
    using all by (simp add: enum_all_core_state_def list_all_iff)
  show "Enum.enum_ex P = Bex UNIV P" for P :: "core_state \<Rightarrow> bool"
    using all by (simp add: enum_ex_core_state_def list_ex_iff)
qed

end

type_synonym counts = "core_state \<Rightarrow> u32"

section \<open>The state machine\<close>

definition ee_isdigit :: "u8 \<Rightarrow> u8" where
  "ee_isdigit c = (if c \<ge> 0x30 \<and> c \<le> 0x39 then 1 else 0)"

definition bump :: "core_state \<Rightarrow> counts \<Rightarrow> counts" where
  "bump st tc = tc(st := tc st + 1)"

text \<open>The \<open>switch\<close> on the state: the next state, and the counters of transitions.\<close>

definition core_switch :: "core_state \<Rightarrow> u8 \<Rightarrow> counts \<Rightarrow> core_state \<times> counts" where
  "core_switch st c tc =
     (case st of
        CORE_START \<Rightarrow>
          (if ee_isdigit c \<noteq> 0 then (CORE_INT, bump CORE_START tc)
           else if c = 0x2B \<or> c = 0x2D then (CORE_S1, bump CORE_START tc)
           else if c = 0x2E then (CORE_FLOAT, bump CORE_START tc)
           else (CORE_INVALID, bump CORE_START (bump CORE_INVALID tc)))
      | CORE_S1 \<Rightarrow>
          (if ee_isdigit c \<noteq> 0 then (CORE_INT, bump CORE_S1 tc)
           else if c = 0x2E then (CORE_FLOAT, bump CORE_S1 tc)
           else (CORE_INVALID, bump CORE_S1 tc))
      | CORE_INT \<Rightarrow>
          (if c = 0x2E then (CORE_FLOAT, bump CORE_INT tc)
           else if ee_isdigit c = 0 then (CORE_INVALID, bump CORE_INT tc)
           else (CORE_INT, tc))
      | CORE_FLOAT \<Rightarrow>
          (if c = 0x45 \<or> c = 0x65 then (CORE_S2, bump CORE_FLOAT tc)
           else if ee_isdigit c = 0 then (CORE_INVALID, bump CORE_FLOAT tc)
           else (CORE_FLOAT, tc))
      | CORE_S2 \<Rightarrow>
          (if c = 0x2B \<or> c = 0x2D then (CORE_EXPONENT, bump CORE_S2 tc)
           else (CORE_INVALID, bump CORE_S2 tc))
      | CORE_EXPONENT \<Rightarrow>
          (if ee_isdigit c \<noteq> 0 then (CORE_SCIENTIFIC, bump CORE_EXPONENT tc)
           else (CORE_INVALID, bump CORE_EXPONENT tc))
      | CORE_SCIENTIFIC \<Rightarrow>
          (if ee_isdigit c = 0 then (CORE_INVALID, bump CORE_INVALID tc)
           else (CORE_SCIENTIFIC, tc))
      | CORE_INVALID \<Rightarrow> (CORE_INVALID, tc))"

text \<open>The loop of \<open>core_state_transition\<close>, with the final \<open>*instr\<close> as second result.\<close>

partial_function (option) transition_loop ::
    "mem \<Rightarrow> u64 \<Rightarrow> core_state \<Rightarrow> counts \<Rightarrow> (core_state \<times> u64 \<times> counts) option" where
  "transition_loop m str st tc =
     (if m str \<noteq> 0 \<and> st \<noteq> CORE_INVALID
      then if m str = 0x2C then Some (st, str + 1, tc)
           else transition_loop m (str + 1) (fst (core_switch st (m str) tc)) (snd (core_switch st (m str) tc))
      else Some (st, str, tc))"

definition core_state_transition :: "mem \<Rightarrow> u64 \<Rightarrow> counts \<Rightarrow> (core_state \<times> u64 \<times> counts) option" where
  "core_state_transition m instr tc = transition_loop m instr CORE_START tc"

section \<open>The benchmark\<close>

partial_function (option) run_machine ::
    "mem \<Rightarrow> u64 \<Rightarrow> counts \<Rightarrow> counts \<Rightarrow> (counts \<times> counts) option" where
  "run_machine m p fc tc =
     (if m p \<noteq> 0
      then Option.bind (core_state_transition m p tc)
        (\<lambda>r. run_machine m (fst (snd r)) (bump (fst r) fc) (snd (snd r)))
      else Some (fc, tc))"

text \<open>The loop that corrupts the block, and the one that undoes it.\<close>

partial_function (option) corrupt :: "mem \<Rightarrow> u64 \<Rightarrow> u64 \<Rightarrow> u16 \<Rightarrow> u16 \<Rightarrow> mem option" where
  "corrupt m p e step seed =
     (if p < e
      then corrupt (if m p \<noteq> 0x2C then m(p := m p XOR ucast seed) else m) (p + scast step) e step seed
      else Some m)"

definition all_states :: "core_state list" where
  "all_states = Enum.enum"

definition crc_counts :: "counts \<Rightarrow> counts \<Rightarrow> u16 \<Rightarrow> u16" where
  "crc_counts fc tc crc = fold (\<lambda>st crc. crcu32 (tc st) (crcu32 (fc st) crc)) all_states crc"

definition core_bench_state ::
    "mem \<Rightarrow> u32 \<Rightarrow> u64 \<Rightarrow> u16 \<Rightarrow> u16 \<Rightarrow> u16 \<Rightarrow> u16 \<Rightarrow> (u16 \<times> mem) option" where
  "core_bench_state m blksize memblock seed1 seed2 step crc = do {
     (fc, tc) \<leftarrow> run_machine m memblock (\<lambda>_. 0) (\<lambda>_. 0);
     m \<leftarrow> corrupt m memblock (memblock + ucast blksize) step seed1;
     (fc, tc) \<leftarrow> run_machine m memblock fc tc;
     m \<leftarrow> corrupt m memblock (memblock + ucast blksize) step seed2;
     Some (crc_counts fc tc crc, m)
   }"

section \<open>Initialisation\<close>

definition intpat :: "u8 list list" where
  "intpat = [bytes_of ''5012'', bytes_of ''1234'', bytes_of ''-874'', bytes_of ''+122'']"

definition floatpat :: "u8 list list" where
  "floatpat = [bytes_of ''35.54400'', bytes_of ''.1234500'', bytes_of ''-110.700'', bytes_of ''+0.64400'']"

definition scipat :: "u8 list list" where
  "scipat = [bytes_of ''5.500e+3'', bytes_of ''-.123e-2'', bytes_of ''-87e+832'', bytes_of ''+0.6e-12'']"

definition errpat :: "u8 list list" where
  "errpat = [bytes_of ''T0.3e-1F'', bytes_of ''-T.T++Tq'', bytes_of ''1T3.4e4z'', bytes_of ''34.0e-T^'']"

text \<open>The \<open>switch\<close> on the seed: the pattern and its length.\<close>

definition next_pattern :: "u16 \<Rightarrow> u8 list \<times> u32" where
  "next_pattern seed =
     (let k = unat (seed AND 0x7); i = unat (drop_bit 3 seed AND 0x3)
      in if k \<le> 2 then (intpat ! i, 4) else if k \<le> 4 then (floatpat ! i, 8)
         else if k \<le> 6 then (scipat ! i, 8) else (errpat ! i, 8))"

definition put_pattern :: "u64 \<Rightarrow> u8 list \<Rightarrow> u32 \<Rightarrow> mem \<Rightarrow> mem" where
  "put_pattern p buf nxt m = put_bytes p (take (unat nxt) buf @ [0x2C]) m"

partial_function (option) fill_patterns ::
    "mem \<Rightarrow> u64 \<Rightarrow> u32 \<Rightarrow> u16 \<Rightarrow> u32 \<Rightarrow> u8 list \<Rightarrow> u32 \<Rightarrow> (u32 \<times> mem) option" where
  "fill_patterns m p sz seed tot buf nxt =
     (if tot + nxt + 1 < sz
      then fill_patterns (if nxt > 0 then put_pattern (p + ucast tot) buf nxt m else m) p sz (seed + 1)
        (if nxt > 0 then tot + (nxt + 1) else tot) (fst (next_pattern (seed + 1))) (snd (next_pattern (seed + 1)))
      else Some (tot, m))"

partial_function (option) fill_zeros :: "mem \<Rightarrow> u64 \<Rightarrow> u32 \<Rightarrow> u32 \<Rightarrow> mem option" where
  "fill_zeros m p tot sz =
     (if tot < sz then fill_zeros (m(p + ucast tot := 0)) p (tot + 1) sz else Some m)"

definition core_init_state :: "mem \<Rightarrow> u32 \<Rightarrow> u16 \<Rightarrow> u64 \<Rightarrow> mem option" where
  "core_init_state m sz seed p = do {
     (tot, m) \<leftarrow> fill_patterns m p (sz - 1) seed 0 [] 0;
     fill_zeros m p tot sz
   }"

section \<open>The language of the machine\<close>

definition delta :: "core_state \<Rightarrow> u8 \<Rightarrow> core_state" where
  "delta st c = fst (core_switch st c (\<lambda>_. 0))"

lemma fst_core_switch: "fst (core_switch st c tc) = delta st c"
  by (cases st) (simp_all add: delta_def core_switch_def)

lemma ee_isdigit_is_digit [simp]: "ee_isdigit c = 0 \<longleftrightarrow> \<not> is_digit c"
  by (simp add: ee_isdigit_def is_digit_def)

definition is_sign :: "u8 \<Rightarrow> bool" where
  "is_sign c \<longleftrightarrow> c = 0x2B \<or> c = 0x2D"

text \<open>Integers, fixed-point numbers (at least the point) and numbers with an exponent.\<close>

definition is_integer :: "u8 list \<Rightarrow> bool" where
  "is_integer bs \<longleftrightarrow> (\<exists>sg ds. bs = sg @ ds \<and> length sg \<le> 1 \<and> list_all is_sign sg \<and> ds \<noteq> [] \<and> list_all is_digit ds)"

definition is_fixed :: "u8 list \<Rightarrow> bool" where
  "is_fixed bs \<longleftrightarrow> (\<exists>sg ds fs. bs = sg @ ds @ 0x2E # fs \<and> length sg \<le> 1 \<and> list_all is_sign sg
     \<and> list_all is_digit ds \<and> list_all is_digit fs)"

definition is_scientific :: "u8 list \<Rightarrow> bool" where
  "is_scientific bs \<longleftrightarrow> (\<exists>fl e sg es. bs = fl @ e # sg # es \<and> is_fixed fl \<and> (e = 0x45 \<or> e = 0x65)
     \<and> is_sign sg \<and> es \<noteq> [] \<and> list_all is_digit es)"

lemma digit_not_special: "is_digit c \<Longrightarrow> c \<noteq> 0x2E \<and> \<not> is_sign c \<and> c \<noteq> 0x45 \<and> c \<noteq> 0x65"
  by (auto simp: is_digit_def is_sign_def)

lemma delta_simps:
  "delta CORE_START c = (if is_digit c then CORE_INT else if is_sign c then CORE_S1
     else if c = 0x2E then CORE_FLOAT else CORE_INVALID)"
  "delta CORE_S1 c = (if is_digit c then CORE_INT else if c = 0x2E then CORE_FLOAT else CORE_INVALID)"
  "delta CORE_INT c = (if c = 0x2E then CORE_FLOAT else if is_digit c then CORE_INT else CORE_INVALID)"
  "delta CORE_FLOAT c = (if c = 0x45 \<or> c = 0x65 then CORE_S2 else if is_digit c then CORE_FLOAT else CORE_INVALID)"
  "delta CORE_S2 c = (if is_sign c then CORE_EXPONENT else CORE_INVALID)"
  "delta CORE_EXPONENT c = (if is_digit c then CORE_SCIENTIFIC else CORE_INVALID)"
  "delta CORE_SCIENTIFIC c = (if is_digit c then CORE_SCIENTIFIC else CORE_INVALID)"
  "delta CORE_INVALID c = CORE_INVALID"
  by (simp_all add: delta_def core_switch_def is_sign_def)

lemma delta_digits:
  assumes "list_all is_digit ds"
  shows "foldl delta CORE_INT ds = CORE_INT" "foldl delta CORE_FLOAT ds = CORE_FLOAT"
    "foldl delta CORE_SCIENTIFIC ds = CORE_SCIENTIFIC"
  using assms by (induction ds) (auto simp: delta_simps dest: digit_not_special)

lemma delta_sign:
  assumes "length sg \<le> 1" "list_all is_sign sg"
  shows "foldl delta CORE_START sg = CORE_START \<and> sg = [] \<or> foldl delta CORE_START sg = CORE_S1"
  using assms digit_not_special by (cases sg) (auto simp: delta_simps)

lemma recognise_integer: "is_integer bs \<Longrightarrow> foldl delta CORE_START bs = CORE_INT"
proof -
  assume "is_integer bs"
  then obtain sg d ds where bs: "bs = sg @ d # ds" "length sg \<le> 1" "list_all is_sign sg" "list_all is_digit (d # ds)"
    unfolding is_integer_def by (metis neq_Nil_conv)
  then show ?thesis
    using delta_sign [OF bs(2,3)] delta_digits(1) [of ds] by (auto simp: delta_simps)
qed

lemma recognise_fixed: "is_fixed bs \<Longrightarrow> foldl delta CORE_START bs = CORE_FLOAT"
proof -
  assume "is_fixed bs"
  then obtain sg ds fs where bs: "bs = sg @ ds @ 0x2E # fs" "length sg \<le> 1" "list_all is_sign sg"
    "list_all is_digit ds" "list_all is_digit fs"
    unfolding is_fixed_def by blast
  have "foldl delta CORE_START (sg @ ds) \<in> {CORE_START, CORE_S1, CORE_INT}"
  proof (cases ds)
    case Nil
    with delta_sign [OF bs(2,3)] show ?thesis by auto
  next
    case (Cons d ds')
    with bs have "is_integer (sg @ ds)" unfolding is_integer_def by blast
    then show ?thesis using recognise_integer by blast
  qed
  then have "delta (foldl delta CORE_START (sg @ ds)) 0x2E = CORE_FLOAT"
    using digit_not_special [of "0x2E"] by (auto simp: delta_simps is_sign_def)
  then show ?thesis using bs(1) delta_digits(2) [OF bs(5)] by simp
qed

lemma recognise_scientific: "is_scientific bs \<Longrightarrow> foldl delta CORE_START bs = CORE_SCIENTIFIC"
proof -
  assume "is_scientific bs"
  then obtain fl e sg d es where bs: "bs = fl @ e # sg # d # es" "is_fixed fl" "e = 0x45 \<or> e = 0x65"
    "is_sign sg" "list_all is_digit (d # es)"
    unfolding is_scientific_def by (metis neq_Nil_conv)
  then show ?thesis
    using recognise_fixed [OF bs(2)] delta_digits(3) [of es] by (auto simp: delta_simps)
qed

text \<open>What a state says about the bytes read.\<close>

fun read_so_far :: "core_state \<Rightarrow> u8 list \<Rightarrow> bool" where
  "read_so_far CORE_START bs = (bs = [])"
| "read_so_far CORE_S1 bs = (\<exists>c. bs = [c] \<and> is_sign c)"
| "read_so_far CORE_INT bs = is_integer bs"
| "read_so_far CORE_FLOAT bs = is_fixed bs"
| "read_so_far CORE_S2 bs = (\<exists>fl e. bs = fl @ [e] \<and> is_fixed fl \<and> (e = 0x45 \<or> e = 0x65))"
| "read_so_far CORE_EXPONENT bs = (\<exists>fl e sg. bs = fl @ [e, sg] \<and> is_fixed fl \<and> (e = 0x45 \<or> e = 0x65) \<and> is_sign sg)"
| "read_so_far CORE_SCIENTIFIC bs = is_scientific bs"
| "read_so_far CORE_INVALID bs = True"

lemma is_integerI: "length sg \<le> 1 \<Longrightarrow> list_all is_sign sg \<Longrightarrow> ds \<noteq> [] \<Longrightarrow> list_all is_digit ds \<Longrightarrow> is_integer (sg @ ds)"
  unfolding is_integer_def by blast

lemma is_fixedI: "length sg \<le> 1 \<Longrightarrow> list_all is_sign sg \<Longrightarrow> list_all is_digit ds \<Longrightarrow> list_all is_digit fs
    \<Longrightarrow> is_fixed (sg @ ds @ 0x2E # fs)"
  unfolding is_fixed_def by blast

lemma is_scientificI: "is_fixed fl \<Longrightarrow> e = 0x45 \<or> e = 0x65 \<Longrightarrow> is_sign sg \<Longrightarrow> es \<noteq> [] \<Longrightarrow> list_all is_digit es
    \<Longrightarrow> is_scientific (fl @ e # sg # es)"
  unfolding is_scientific_def by blast

lemma read_step: "read_so_far st bs \<Longrightarrow> read_so_far (delta st c) (bs @ [c])"
proof (cases st)
  case CORE_START
  assume "read_so_far st bs"
  with CORE_START show ?thesis
    using is_integerI [of "[]" "[c]"] is_fixedI [of "[]" "[]" "[]"] by (simp add: delta_simps)
next
  case CORE_S1
  assume "read_so_far st bs"
  with CORE_S1 obtain s where "bs = [s]" "is_sign s" by auto
  then show ?thesis
    using is_integerI [of "[s]" "[c]"] is_fixedI [of "[s]" "[]" "[]"] CORE_S1 by (simp add: delta_simps)
next
  case CORE_INT
  assume "read_so_far st bs"
  with CORE_INT obtain sg ds where "bs = sg @ ds" "length sg \<le> 1" "list_all is_sign sg" "ds \<noteq> []"
    "list_all is_digit ds" by (auto simp: is_integer_def)
  then show ?thesis
    using is_integerI [of sg "ds @ [c]"] is_fixedI [of sg ds "[]"] CORE_INT by (simp add: delta_simps)
next
  case CORE_FLOAT
  assume fl: "read_so_far st bs"
  with CORE_FLOAT obtain sg ds fs where "bs = sg @ ds @ 0x2E # fs" "length sg \<le> 1" "list_all is_sign sg"
    "list_all is_digit ds" "list_all is_digit fs" by (auto simp: is_fixed_def)
  then show ?thesis
    using is_fixedI [of sg ds "fs @ [c]"] CORE_FLOAT fl by (auto simp: delta_simps)
next
  case CORE_S2
  assume "read_so_far st bs"
  with CORE_S2 show ?thesis by (auto simp: delta_simps)
next
  case CORE_EXPONENT
  assume "read_so_far st bs"
  with CORE_EXPONENT show ?thesis
    using is_scientificI [of _ _ _ "[c]"] by (auto simp: delta_simps)
next
  case CORE_SCIENTIFIC
  assume "read_so_far st bs"
  with CORE_SCIENTIFIC obtain fl e sg es where "bs = fl @ e # sg # es" "is_fixed fl" "e = 0x45 \<or> e = 0x65"
    "is_sign sg" "es \<noteq> []" "list_all is_digit es" by (auto simp: is_scientific_def)
  then show ?thesis
    using is_scientificI [of fl e sg "es @ [c]"] CORE_SCIENTIFIC by (simp add: delta_simps)
next
  case CORE_INVALID
  then show ?thesis by (simp add: delta_simps)
qed

lemma read_invariant: "read_so_far (foldl delta CORE_START bs) bs"
  by (induction bs rule: rev_induct) (simp_all add: read_step)

lemma language:
  "foldl delta CORE_START bs = CORE_INT \<longleftrightarrow> is_integer bs"
  "foldl delta CORE_START bs = CORE_FLOAT \<longleftrightarrow> is_fixed bs"
  "foldl delta CORE_START bs = CORE_SCIENTIFIC \<longleftrightarrow> is_scientific bs"
  using read_invariant [of bs] recognise_integer recognise_fixed recognise_scientific
  by (metis read_so_far.simps(3), metis read_so_far.simps(4), metis read_so_far.simps(7))

section \<open>Tokens in memory\<close>

text \<open>The number of bytes read until the end or the first invalid byte.\<close>

fun token_read :: "core_state \<Rightarrow> u8 list \<Rightarrow> nat" where
  "token_read st [] = 0"
| "token_read st (c # cs) = (if st = CORE_INVALID then 0 else Suc (token_read (delta st c) cs))"

lemma delta_invalid [simp]: "foldl delta CORE_INVALID bs = CORE_INVALID"
  by (induction bs) (simp_all add: delta_simps)

lemma token_read_spec:
  "token_read st bs \<le> length bs"
  "foldl delta st (take (token_read st bs) bs) = foldl delta st bs"
  "j < token_read st bs \<Longrightarrow> foldl delta st (take j bs) \<noteq> CORE_INVALID"
  "foldl delta st bs \<noteq> CORE_INVALID \<Longrightarrow> token_read st bs = length bs"
proof -
  show "token_read st bs \<le> length bs" by (induction bs arbitrary: st) simp_all
  show "foldl delta st (take (token_read st bs) bs) = foldl delta st bs"
    by (induction bs arbitrary: st) (simp_all add: delta_simps(8))
  show "foldl delta st (take j bs) \<noteq> CORE_INVALID" if "j < token_read st bs"
    using that
  proof (induction bs arbitrary: st j)
    case (Cons c bs)
    then show ?case by (cases j) (auto split: if_splits)
  qed simp
  show "token_read st bs = length bs" if "foldl delta st bs \<noteq> CORE_INVALID"
    using that by (induction bs arbitrary: st) (auto simp: delta_simps(8))
qed

text \<open>The bytes \<open>bs\<close> stand at \<open>p\<close>, followed by \<open>e\<close>.\<close>

primrec bytes_at :: "mem \<Rightarrow> u64 \<Rightarrow> u8 list \<Rightarrow> u8 \<Rightarrow> bool" where
  "bytes_at m p [] e = (m p = e)"
| "bytes_at m p (b # bs) e = (m p = b \<and> bytes_at m (p + 1) bs e)"

lemma transition_loop_token:
  assumes "e = 0 \<or> e = 0x2C"
  shows "bytes_at m p bs e \<Longrightarrow> 0 \<notin> set bs \<Longrightarrow> 0x2C \<notin> set bs \<Longrightarrow>
     \<exists>tc'. transition_loop m p st tc = Some (foldl delta st bs,
       if foldl delta st bs = CORE_INVALID then p + of_nat (token_read st bs)
       else if e = 0x2C then p + of_nat (length bs) + 1 else p + of_nat (length bs), tc')"
proof (induction bs arbitrary: p st tc)
  case Nil
  then show ?case using assms by (auto simp: transition_loop.simps [of m p])
next
  case (Cons b bs)
  show ?case
  proof (cases "st = CORE_INVALID")
    case True
    then show ?thesis by (simp add: transition_loop.simps [of m p] delta_simps)
  next
    case False
    then have "transition_loop m p st tc = transition_loop m (p + 1) (delta st b) (snd (core_switch st b tc))"
      using Cons.prems by (simp add: transition_loop.simps [of m p] fst_core_switch)
    with Cons.IH [of "p + 1" "delta st b" "snd (core_switch st b tc)"] Cons.prems False
    show ?thesis by (auto simp: ac_simps)
  qed
qed

text \<open>The state machine classifies a token (bytes up to a comma or the NUL): it ends in \<open>CORE_INT\<close>
  exactly for an optional sign and digits, in \<open>CORE_FLOAT\<close> for digits with a point, in
  \<open>CORE_SCIENTIFIC\<close> for those with an exponent.  A token that is not rejected is consumed with
  its comma; a rejected one up to and including the first byte that makes it invalid.\<close>

theorem core_state_transition_classifies:
  assumes "bytes_at m p bs e" "0 \<notin> set bs" "0x2C \<notin> set bs" "e = 0 \<or> e = 0x2C"
  shows "\<exists>st q tc'. core_state_transition m p tc = Some (st, q, tc')
    \<and> (st = CORE_INT \<longleftrightarrow> is_integer bs) \<and> (st = CORE_FLOAT \<longleftrightarrow> is_fixed bs)
    \<and> (st = CORE_SCIENTIFIC \<longleftrightarrow> is_scientific bs)
    \<and> (st \<noteq> CORE_INVALID \<longrightarrow> q = p + of_nat (length bs) + (if e = 0x2C then 1 else 0))
    \<and> (st = CORE_INVALID \<longrightarrow> (\<exists>k \<le> length bs. q = p + of_nat k
        \<and> foldl delta CORE_START (take k bs) = CORE_INVALID
        \<and> (\<forall>j < k. foldl delta CORE_START (take j bs) \<noteq> CORE_INVALID)))"
proof -
  let ?st = "foldl delta CORE_START bs" and ?k = "token_read CORE_START bs"
  from transition_loop_token [OF assms(4) assms(1-3), of CORE_START tc] obtain tc' where
    "core_state_transition m p tc = Some (?st, if ?st = CORE_INVALID then p + of_nat ?k
       else if e = 0x2C then p + of_nat (length bs) + 1 else p + of_nat (length bs), tc')"
    unfolding core_state_transition_def by blast
  moreover have "\<exists>k \<le> length bs. p + of_nat ?k = p + of_nat k
      \<and> foldl delta CORE_START (take k bs) = CORE_INVALID
      \<and> (\<forall>j < k. foldl delta CORE_START (take j bs) \<noteq> CORE_INVALID)" if "?st = CORE_INVALID"
    using token_read_spec(1,2) [of CORE_START bs] token_read_spec(3) [of _ CORE_START bs] that by (intro exI [of _ ?k]) auto
  ultimately show ?thesis using language [of bs] by auto
qed

theorem core_state_transition_classifies_witness:
  "\<exists>q tc'. core_state_transition ((\<lambda>_. 0)(0x100 := 0x2D, 0x101 := 0x37, 0x102 := 0x2C)) 0x100 (\<lambda>_. 0)
     = Some (CORE_INT, q, tc') \<and> q = 0x103"
proof -
  have "is_integer [0x2D, 0x37]"
    using is_integerI [of "[0x2D]" "[0x37]"] by (simp add: is_sign_def is_digit_def)
  then show ?thesis
    using core_state_transition_classifies [of "(\<lambda>_. 0)(0x100 := 0x2D, 0x101 := 0x37, 0x102 := 0x2C)"
        "0x100" "[0x2D, 0x37]" "0x2C" "\<lambda>_. 0"] by auto
qed

section \<open>Termination and restoration\<close>

lemma transition_loop_string:
  "str_at m p cs \<Longrightarrow> \<exists>r k tc'. transition_loop m p st tc = Some (r, p + of_nat k, tc') \<and> k \<le> length cs
     \<and> (cs \<noteq> [] \<and> st \<noteq> CORE_INVALID \<longrightarrow> 0 < k)"
proof (induction cs arbitrary: p st tc)
  case Nil
  then show ?case by (intro exI [of _ st] exI [of _ 0]) (simp add: transition_loop.simps [of m p])
next
  case (Cons c cs)
  let ?t = "core_switch st c tc"
  obtain r k tc' where IH: "transition_loop m (p + 1) (fst ?t) (snd ?t) = Some (r, p + 1 + of_nat k, tc')"
    "k \<le> length cs"
    using Cons.IH [of "p + 1" "fst ?t" "snd ?t"] Cons.prems by auto
  consider "st = CORE_INVALID" | "st \<noteq> CORE_INVALID" "c = 0x2C" | "st \<noteq> CORE_INVALID" "c \<noteq> 0x2C" by blast
  then show ?case
  proof cases
    case 1
    then show ?thesis by (intro exI [of _ st] exI [of _ 0]) (simp add: transition_loop.simps [of m p])
  next
    case 2
    with Cons.prems show ?thesis
      by (intro exI [of _ st] exI [of _ 1]) (simp add: transition_loop.simps [of m p])
  next
    case 3
    with Cons.prems IH show ?thesis
      by (intro exI [of _ r] exI [of _ "Suc k"]) (simp add: transition_loop.simps [of m p] ac_simps)
  qed
qed

lemma str_at_drop: "str_at m p cs \<Longrightarrow> k \<le> length cs \<Longrightarrow> str_at m (p + of_nat k) (drop k cs)"
proof (induction k arbitrary: p cs)
  case 0
  then show ?case by simp
next
  case (Suc k)
  then obtain c cs' where cs: "cs = c # cs'" by (cases cs) auto
  with Suc.IH [of "p + 1" cs'] Suc.prems show ?case by (simp add: ac_simps)
qed

lemma run_machine_total: "str_at m p cs \<Longrightarrow> \<exists>r. run_machine m p fc tc = Some r"
proof (induction "length cs" arbitrary: p cs fc tc rule: less_induct)
  case less
  show ?case
  proof (cases cs)
    case Nil
    with less.prems show ?thesis by (simp add: run_machine.simps [of m p])
  next
    case (Cons c cs')
    obtain r k tc' where t: "core_state_transition m p tc = Some (r, p + of_nat k, tc')" "k \<le> length cs" "0 < k"
      using transition_loop_string [OF less.prems, of CORE_START tc] Cons
      unfolding core_state_transition_def by auto
    have "\<exists>x. run_machine m (p + of_nat k) (bump r fc) tc' = Some x"
      by (rule less.hyps [OF _ str_at_drop [OF less.prems t(2)]]) (use t(2,3) in simp)
    with less.prems Cons t(1) show ?thesis by (simp add: run_machine.simps [of m p])
  qed
qed

lemma nul_within: "m (p + of_nat n) = 0 \<Longrightarrow> \<exists>cs. str_at m p cs"
proof (induction n arbitrary: p)
  case 0
  then show ?case by (intro exI [of _ "[]"]) simp
next
  case (Suc n)
  then obtain cs where "str_at m (p + 1) cs" by (force simp: ac_simps)
  then show ?case
    by (cases "m p = 0") (auto intro: exI [of _ "[]"] exI [of _ "m p # cs"])
qed

text \<open>The addresses the corruption visits, and its effect on the block.\<close>

definition visited :: "u64 \<Rightarrow> u64 \<Rightarrow> nat \<Rightarrow> u64 set" where
  "visited p e n = {a. unat p \<le> unat a \<and> unat a < unat e \<and> n dvd unat a - unat p}"

definition flipped :: "u64 set \<Rightarrow> u8 \<Rightarrow> mem \<Rightarrow> mem" where
  "flipped A x m = (\<lambda>a. if a \<in> A \<and> m a \<noteq> 0x2C then m a XOR x else m a)"

lemma visited_step:
  assumes "unat p < unat e" "unat e + n < 2 ^ 64" "0 < n"
  shows "visited p e n = insert p (visited (p + of_nat n) e n)" "p \<notin> visited (p + of_nat n) e n"
proof -
  have pn: "unat (p + of_nat n) = unat p + n"
    using assms by (simp add: unat_word_ariths unat_of_nat)
  show "visited p e n = insert p (visited (p + of_nat n) e n)"
  proof (intro set_eqI iffI)
    fix a assume a: "a \<in> visited p e n"
    show "a \<in> insert p (visited (p + of_nat n) e n)"
    proof (cases "a = p")
      case False
      with a have "unat p < unat a" by (auto simp: visited_def word_unat_eq_iff)
      moreover from a have d: "n dvd unat a - unat p" by (simp add: visited_def)
      ultimately have "n \<le> unat a - unat p" by (intro dvd_imp_le) simp_all
      from dvd_diff_nat [OF d dvd_refl] have "n dvd unat a - (unat p + n)" by simp
      moreover have "unat p + n \<le> unat a" using \<open>n \<le> unat a - unat p\<close> \<open>unat p < unat a\<close> by linarith
      ultimately show ?thesis using a by (simp add: visited_def pn)
    qed simp
  next
    fix a assume "a \<in> insert p (visited (p + of_nat n) e n)"
    then consider "a = p" | "a \<in> visited (p + of_nat n) e n" by blast
    then show "a \<in> visited p e n"
    proof cases
      case 1
      then show ?thesis using assms(1) by (simp add: visited_def)
    next
      case 2
      then have d: "n dvd unat a - (unat p + n)" "unat p + n \<le> unat a" "unat a < unat e"
        by (auto simp: visited_def pn)
      from d(2) have eq: "unat a - unat p = (unat a - (unat p + n)) + n" by simp
      have "n dvd unat a - unat p" unfolding eq using d(1) by (rule dvd_add) simp
      with d show ?thesis by (simp add: visited_def)
    qed
  qed
  show "p \<notin> visited (p + of_nat n) e n" using assms(3) by (simp add: visited_def pn)
qed

lemma corrupt_flips:
  assumes "scast step = (of_nat n :: u64)" "0 < n" "unat e + n < 2 ^ 64"
  shows "corrupt m p e step seed = Some (flipped (visited p e n) (ucast seed) m)"
proof (induction "2 ^ 64 - unat p" arbitrary: p m rule: less_induct)
  case less
  show ?case
  proof (cases "p < e")
    case False
    then have "visited p e n = {}" by (auto simp: visited_def word_less_nat_alt)
    with False show ?thesis by (simp add: corrupt.simps [of m p] flipped_def)
  next
    case True
    then have lt: "unat p < unat e" by (simp add: word_less_nat_alt)
    have pn: "unat (p + of_nat n) = unat p + n"
      using lt assms by (simp add: unat_word_ariths unat_of_nat)
    let ?m = "if m p \<noteq> 0x2C then m(p := m p XOR ucast seed) else m"
    have "corrupt ?m (p + of_nat n) e step seed = Some (flipped (visited (p + of_nat n) e n) (ucast seed) ?m)"
      by (rule less.hyps) (use pn lt assms in simp)
    moreover have "flipped (visited (p + of_nat n) e n) (ucast seed) ?m = flipped (visited p e n) (ucast seed) m"
      using visited_step [OF lt assms(3,2)] by (auto simp: flipped_def)
    ultimately show ?thesis using True assms(1) by (simp add: corrupt.simps [of m p])
  qed
qed

lemma xor_twice: "(b XOR x) XOR x = b" for b x :: u8
  by (rule bit_word_eqI) (auto simp: bit_xor_iff)

lemma flipped_back:
  assumes "\<And>a. a \<in> A \<Longrightarrow> m a \<noteq> 0x2C \<Longrightarrow> m a XOR x \<noteq> 0x2C"
  shows "flipped A x (flipped A x m) = m"
  by (rule ext) (use assms xor_twice in \<open>auto simp: flipped_def\<close>)

lemma positive_step:
  assumes "0 < sint (step :: u16)"
  shows "scast step = (of_nat (unat step) :: u64)" "0 < unat step" "unat step < 2 ^ 15"
proof -
  have "uint step = uint (word_of_int (sint step) :: u16)" by simp
  then have "uint step = sint step mod 2 ^ LENGTH(16)" by (simp only: uint_word_of_int)
  moreover have "sint step < 2 ^ 15" using sint_less [of step] by simp
  ultimately have u: "uint step = sint step" using assms by simp
  then have s: "sint step = int (unat step)" by simp
  with assms \<open>sint step < 2 ^ 15\<close> show "0 < unat step" by linarith
  from s have "unat step = nat (sint step)" by (metis nat_int)
  with \<open>sint step < 2 ^ 15\<close> show "unat step < 2 ^ 15" by (simp only: nat_less_iff) simp
  have "scast step = (of_int (sint step) :: u64)" by simp
  also have "\<dots> = of_nat (unat step)" unfolding s by simp
  finally show "scast step = (of_nat (unat step) :: u64)" .
qed

text \<open>With equal seeds and a positive step the state benchmark returns and leaves the block as it
  was, as its comment promises, if two things hold that the code does not check: no byte becomes a
  comma by the corruption (the undo pass would skip it), and some NUL of the block is not one of
  the bytes visited (otherwise the scan of the corrupted block may leave it).\<close>

lemma core_bench_state_restores:
  assumes "0 < sint step" "unat p + unat blksize + 2 ^ 15 < 2 ^ 64"
    and "z < unat blksize" "m (p + of_nat z) = 0" "\<not> unat (step :: u16) dvd z"
    and "\<And>a. a \<in> visited p (p + ucast blksize) (unat step) \<Longrightarrow> m a \<noteq> 0x2C \<Longrightarrow> m a XOR ucast seed \<noteq> 0x2C"
  shows "\<exists>crc'. core_bench_state m blksize p seed seed step crc = Some (crc', m)"
proof -
  let ?e = "p + ucast blksize" and ?n = "unat step"
  have n: "scast step = (of_nat ?n :: u64)" "0 < ?n" "?n < 2 ^ 15"
    using positive_step [OF assms(1)] by simp_all
  have e: "unat ?e = unat p + unat blksize"
    using assms(2) by (simp add: unat_word_ariths unat_widen)
  note flip = corrupt_flips [OF n(1,2), of ?e _ p seed]
  let ?m = "flipped (visited p ?e ?n) (ucast seed) m"
  have "p + of_nat z \<notin> visited p ?e ?n"
    using assms(2,3,5) by (simp add: visited_def unat_word_ariths unat_of_nat)
  with assms(4) have "?m (p + of_nat z) = 0" by (simp add: flipped_def)
  from nul_within [of ?m p z, OF this] obtain cs' where cs': "str_at ?m p cs'" by blast
  from nul_within [of m p z, OF assms(4)] obtain cs where cs: "str_at m p cs" by blast
  obtain fc tc where r1: "run_machine m p (\<lambda>_. 0) (\<lambda>_. 0) = Some (fc, tc)"
    using run_machine_total [OF cs] by fastforce
  obtain fc' tc' where r2: "run_machine ?m p fc tc = Some (fc', tc')"
    using run_machine_total [OF cs'] by fastforce
  have "flipped (visited p ?e ?n) (ucast seed) ?m = m"
    by (rule flipped_back) (rule assms(6))
  then show ?thesis
    using r1 r2 flip e assms(2) n(3) by (simp add: core_bench_state_def)
qed

section \<open>The initial block\<close>

definition patterns :: "u8 list set" where
  "patterns = set intpat \<union> set floatpat \<union> set scipat \<union> set errpat"

definition with_commas :: "u8 list list \<Rightarrow> u8 list" where
  "with_commas toks = concat (map (\<lambda>t. t @ [0x2C]) toks)"

lemma next_pattern_spec:
  "fst (next_pattern seed) \<in> patterns" "unat (snd (next_pattern seed)) = length (fst (next_pattern seed))"
  "snd (next_pattern seed) \<noteq> 0" "length (fst (next_pattern seed)) \<le> 8"
proof -
  let ?i = "unat (drop_bit 3 seed AND 0x3)"
  have "drop_bit 3 seed AND 0x3 = take_bit 2 (drop_bit 3 seed)" by (simp add: take_bit_eq_mask mask_eq_exp_minus_1)
  then have "?i = take_bit 2 (unat (drop_bit 3 seed))" by (simp only: unsigned_take_bit_eq)
  then have "?i < 4" by (simp add: take_bit_eq_mod)
  then have "?i \<in> {0, 1, 2, 3}" by auto
  then have "fst (next_pattern seed) \<in> patterns \<and> unat (snd (next_pattern seed)) = length (fst (next_pattern seed))
      \<and> snd (next_pattern seed) \<noteq> 0 \<and> length (fst (next_pattern seed)) \<le> 8"
    by (elim insertE emptyE)
      (simp_all add: next_pattern_def Let_def patterns_def intpat_def floatpat_def scipat_def errpat_def)
  then show "fst (next_pattern seed) \<in> patterns" "unat (snd (next_pattern seed)) = length (fst (next_pattern seed))"
    "snd (next_pattern seed) \<noteq> 0" "length (fst (next_pattern seed)) \<le> 8" by simp_all
qed

lemma word_unat_eqI: "unat a = unat b \<Longrightarrow> a = b" for a b :: "'a::len word"
  by (simp add: word_unat_eq_iff)

lemma fill_patterns_block:
  assumes "unat sz < 2 ^ 31"
  shows "buf \<in> patterns \<and> unat nxt = length buf \<and> 0 < nxt \<and> length buf \<le> 8 \<Longrightarrow> unat tot \<le> unat sz \<Longrightarrow>
    \<exists>toks tot'. fill_patterns m p sz seed tot buf nxt =
        Some (tot', put_bytes (p + ucast tot) (with_commas toks) m)
      \<and> set toks \<subseteq> patterns \<and> unat tot' = unat tot + length (with_commas toks)
      \<and> (toks = [] \<or> unat tot' < unat sz)"
proof (induction "unat sz - unat tot" arbitrary: m seed tot buf nxt rule: less_induct)
  case less
  have bounds: "unat (tot + nxt + 1) = unat tot + length buf + 1" "unat (tot + (nxt + 1)) = unat tot + length buf + 1"
    using less.prems assms by (simp_all add: unat_word_ariths)
  show ?case
  proof (cases "tot + nxt + 1 < sz")
    case False
    then show ?thesis
      by (intro exI [of _ "[]"] exI [of _ tot]) (simp add: fill_patterns.simps [of m p] with_commas_def)
  next
    case True
    let ?m = "put_pattern (p + ucast tot) buf nxt m" and ?n = "next_pattern (seed + 1)"
    from True have lt: "unat tot + length buf + 1 < unat sz" by (simp add: word_less_nat_alt bounds)
    have "\<exists>toks tot'. fill_patterns ?m p sz (seed + 1) (tot + (nxt + 1)) (fst ?n) (snd ?n) =
        Some (tot', put_bytes (p + ucast (tot + (nxt + 1))) (with_commas toks) ?m)
      \<and> set toks \<subseteq> patterns \<and> unat tot' = unat (tot + (nxt + 1)) + length (with_commas toks)
      \<and> (toks = [] \<or> unat tot' < unat sz)"
      by (rule less.hyps) (use lt bounds next_pattern_spec [of "seed + 1"] in \<open>simp_all add: word_gt_0\<close>)
    then obtain toks tot' where IH: "fill_patterns ?m p sz (seed + 1) (tot + (nxt + 1)) (fst ?n) (snd ?n) =
        Some (tot', put_bytes (p + ucast (tot + (nxt + 1))) (with_commas toks) ?m)"
      "set toks \<subseteq> patterns" "unat tot' = unat (tot + (nxt + 1)) + length (with_commas toks)"
      "toks = [] \<or> unat tot' < unat sz" by blast
    have "(ucast (tot + (nxt + 1)) :: u64) = ucast tot + of_nat (length buf + 1)"
    proof (rule word_unat_eqI)
      have "unat (ucast tot + of_nat (length buf + 1) :: u64) = unat tot + (length buf + 1)"
        using less.prems assms by (simp only: unat_word_ariths unat_widen unat_of_nat) simp
      then show "unat (ucast (tot + (nxt + 1)) :: u64) = unat (ucast tot + of_nat (length buf + 1) :: u64)"
        using bounds(2) by (simp only: unat_widen)
    qed
    then have "p + ucast (tot + (nxt + 1)) = (p + ucast tot) + of_nat (length (buf @ [0x2C]))"
      by (simp add: add.assoc)
    then have "put_bytes (p + ucast (tot + (nxt + 1))) (with_commas toks) ?m =
        put_bytes (p + ucast tot) (with_commas (buf # toks)) m"
      using less.prems by (simp add: put_pattern_def with_commas_def put_bytes_append ac_simps)
    with True IH less.prems bounds lt show ?thesis
      by (intro exI [of _ "buf # toks"] exI [of _ tot'])
        (auto simp: fill_patterns.simps [of m p] with_commas_def)
  qed
qed

lemma fill_zeros_block:
  "unat tot \<le> unat sz \<Longrightarrow> fill_zeros m p tot sz = Some (put_bytes (p + ucast tot) (replicate (unat sz - unat tot) 0) m)"
proof (induction "unat sz - unat tot" arbitrary: m tot)
  case 0
  then show ?case by (simp add: fill_zeros.simps [of m p] word_less_nat_alt)
next
  case (Suc k)
  then have lt: "unat tot < unat sz" by simp
  then have t1: "unat (tot + 1) = unat tot + 1"
    using unsigned_less [of sz, where ?'a = nat] by (simp add: unat_word_ariths)
  have "(ucast (tot + 1) :: u64) = ucast tot + 1"
  proof (rule word_unat_eqI)
    have "unat (ucast tot + 1 :: u64) = unat tot + 1"
      using lt unsigned_less [of sz, where ?'a = nat] by (simp only: unat_word_ariths unat_widen) simp
    then show "unat (ucast (tot + 1) :: u64) = unat (ucast tot + 1 :: u64)"
      using t1 by (simp only: unat_widen)
  qed
  moreover have "fill_zeros (m(p + ucast tot := 0)) p (tot + 1) sz =
      Some (put_bytes (p + ucast (tot + 1)) (replicate (unat sz - unat (tot + 1)) 0) (m(p + ucast tot := 0)))"
    by (rule Suc.hyps(1)) (use Suc.hyps(2) t1 lt in simp_all)
  moreover have "replicate (unat sz - unat tot) (0 :: u8) = 0 # replicate (unat sz - unat (tot + 1)) 0"
    using lt t1 by (simp add: Suc_diff_Suc flip: replicate_Suc)
  ultimately show ?case
    using lt by (simp add: fill_zeros.simps [of m p] word_less_nat_alt add.assoc)
qed

text \<open>\<open>core_init_state\<close> writes exactly its block: a sequence of the sixteen patterns, each followed
  by a comma, and then zeros, at least one, so the block is a C string for the state machine.\<close>

theorem core_init_state_block:
  assumes "1 \<le> unat sz" "unat sz < 2 ^ 31"
  shows "\<exists>toks k. core_init_state m sz seed p = Some (put_bytes p (with_commas toks @ replicate k 0) m)
    \<and> set toks \<subseteq> patterns \<and> length (with_commas toks) + k = unat sz \<and> 1 \<le> k"
proof -
  have "sz \<noteq> 0" using assms(1) by auto
  then have s1: "unat (sz - 1) = unat sz - 1" by (simp add: unat_minus_one)
  have "\<exists>toks tot. fill_patterns m p (sz - 1) seed 0 [] 0 = Some (tot, put_bytes (p + ucast (0 :: u32)) (with_commas toks) m)
      \<and> set toks \<subseteq> patterns \<and> unat tot = length (with_commas toks) \<and> unat tot < unat sz"
  proof (cases "0 + 0 + 1 < sz - 1")
    case False
    with assms(1) show ?thesis
      by (intro exI [of _ "[]"] exI [of _ 0]) (simp add: fill_patterns.simps [of m p] with_commas_def)
  next
    case True
    let ?n = "next_pattern (seed + 1)"
    have "\<exists>toks tot'. fill_patterns m p (sz - 1) (seed + 1) 0 (fst ?n) (snd ?n) =
        Some (tot', put_bytes (p + ucast (0 :: u32)) (with_commas toks) m)
      \<and> set toks \<subseteq> patterns \<and> unat tot' = unat (0 :: u32) + length (with_commas toks)
      \<and> (toks = [] \<or> unat tot' < unat (sz - 1))"
      by (rule fill_patterns_block)
        (use s1 assms next_pattern_spec [of "seed + 1"] in \<open>simp_all add: word_gt_0\<close>)
    then obtain toks tot' where t: "fill_patterns m p (sz - 1) (seed + 1) 0 (fst ?n) (snd ?n) =
        Some (tot', put_bytes (p + ucast (0 :: u32)) (with_commas toks) m)" "set toks \<subseteq> patterns"
      "unat tot' = length (with_commas toks)" "toks = [] \<or> unat tot' < unat (sz - 1)"
      by auto
    from t(3,4) s1 assms(1) have "unat tot' < unat sz" by (auto simp: with_commas_def)
    with True t show ?thesis
      by (intro exI [of _ toks] exI [of _ tot']) (simp add: fill_patterns.simps [of m p _ seed])
  qed
  then obtain toks tot where f: "fill_patterns m p (sz - 1) seed 0 [] 0 = Some (tot, put_bytes p (with_commas toks) m)"
    "set toks \<subseteq> patterns" "unat tot = length (with_commas toks)" "unat tot < unat sz"
    by auto
  have "p + ucast tot = p + of_nat (length (with_commas toks))"
    using f(3) by (simp flip: f(3))
  with f fill_zeros_block [of tot sz "put_bytes p (with_commas toks) m" p]
  show ?thesis
    by (intro exI [of _ toks] exI [of _ "unat sz - unat tot"])
      (simp add: core_init_state_def put_bytes_append)
qed

lemma third_scipat_rejected: "foldl delta CORE_START (scipat ! 2) = CORE_INVALID"
  by (simp add: scipat_def bytes_of_simps delta_simps is_digit_def is_sign_def)

theorem core_init_state_block_witness:
  "\<exists>toks k. core_init_state (\<lambda>_. 7) 666 0 0x1000 = Some (put_bytes 0x1000 (with_commas toks @ replicate k 0) (\<lambda>_. 7))
    \<and> 1 \<le> k"
  using core_init_state_block [of 666 "\<lambda>_. 7" 0 "0x1000"] by auto

end
