(* ===== verification/Coremark_Matrix.thy ===== *)
theory Coremark_Matrix
  imports Coremark_Util "HOL-Library.Signed_Division"
begin

text \<open>
  \<open>core_matrix.c\<close> of the CoreMark port.  The matrices are the arrays in row order: \<open>A\<close>
  and \<open>B\<close> of 16-bit, \<open>C\<close> of 32-bit signed elements, as words; sums of 32-bit
  elements wrap (the C type leaves their overflow open).  The dimension is small
  enough (\<open>N * N\<close> elements are in memory) that the index \<open>i * N + j\<close> is a natural number.
\<close>

type_synonym matdat = "16 word"
type_synonym matres = "32 word"

section \<open>Loops\<close>

text \<open>\<open>for (k = 0; k < n; k++)\<close>, and the nest of loops over the elements.\<close>

definition for_upto :: "nat \<Rightarrow> (nat \<Rightarrow> 's \<Rightarrow> 's) \<Rightarrow> 's \<Rightarrow> 's" where
  "for_upto n body s = fold body [0..<n] s"

definition for_grid :: "nat \<Rightarrow> (nat \<Rightarrow> nat \<Rightarrow> 's \<Rightarrow> 's) \<Rightarrow> 's \<Rightarrow> 's" where
  "for_grid n body s = for_upto n (\<lambda>i. for_upto n (body i)) s"

lemma for_upto_simps [simp]:
  "for_upto 0 body s = s" "for_upto (Suc n) body s = body n (for_upto n body s)"
  by (simp_all add: for_upto_def)

section \<open>The operations\<close>

definition matrix_sum :: "nat \<Rightarrow> matres list \<Rightarrow> matdat \<Rightarrow> u16" where
  "matrix_sum N C clipval =
     fst (for_grid N (\<lambda>i j (ret, tmp, prev).
       (let cur = C ! (i * N + j); tmp = tmp + cur
        in if sint tmp > sint clipval then (ret + 10, 0, cur)
           else (ret + (if sint cur > sint prev then 1 else 0), tmp, cur))) (0 :: u16, 0 :: matres, 0 :: matres))"

definition matrix_mul_const :: "nat \<Rightarrow> matres list \<Rightarrow> matdat list \<Rightarrow> matdat \<Rightarrow> matres list" where
  "matrix_mul_const N C A val =
     for_grid N (\<lambda>i j C. C[i * N + j := scast (A ! (i * N + j)) * scast val]) C"

definition matrix_add_const :: "nat \<Rightarrow> matdat list \<Rightarrow> matdat \<Rightarrow> matdat list" where
  "matrix_add_const N A val =
     for_grid N (\<lambda>i j A. A[i * N + j := A ! (i * N + j) + val]) A"

definition matrix_mul_vect :: "nat \<Rightarrow> matres list \<Rightarrow> matdat list \<Rightarrow> matdat list \<Rightarrow> matres list" where
  "matrix_mul_vect N C A B =
     for_upto N (\<lambda>i C. for_upto N (\<lambda>j C. C[i := C ! i + scast (A ! (i * N + j)) * scast (B ! j)]) (C[i := 0])) C"

definition matrix_mul_matrix :: "nat \<Rightarrow> matres list \<Rightarrow> matdat list \<Rightarrow> matdat list \<Rightarrow> matres list" where
  "matrix_mul_matrix N C A B =
     for_grid N (\<lambda>i j C. for_upto N (\<lambda>k C. C[i * N + j := C ! (i * N + j)
         + scast (A ! (i * N + k)) * scast (B ! (k * N + j))]) (C[i * N + j := 0])) C"

definition bit_extract :: "matres \<Rightarrow> nat \<Rightarrow> nat \<Rightarrow> matres" where
  "bit_extract x from to = signed_drop_bit from x AND NOT (push_bit to 0xFFFFFFFF)"

definition matrix_mul_matrix_bitextract ::
    "nat \<Rightarrow> matres list \<Rightarrow> matdat list \<Rightarrow> matdat list \<Rightarrow> matres list" where
  "matrix_mul_matrix_bitextract N C A B =
     for_grid N (\<lambda>i j C. for_upto N (\<lambda>k C.
         let tmp = scast (A ! (i * N + k)) * scast (B ! (k * N + j))
         in C[i * N + j := C ! (i * N + j) + bit_extract tmp 2 4 * bit_extract tmp 5 7]) (C[i * N + j := 0])) C"

definition matrix_big :: "matdat \<Rightarrow> matdat" where
  "matrix_big x = 0xF000 OR x"

text \<open>The result, and the arrays \<open>C\<close> and \<open>A\<close> afterwards.\<close>

definition matrix_test ::
    "nat \<Rightarrow> matres list \<Rightarrow> matdat list \<Rightarrow> matdat list \<Rightarrow> matdat \<Rightarrow> u16 \<times> matres list \<times> matdat list" where
  "matrix_test N C A B val =
     (let clipval = matrix_big val;
          A = matrix_add_const N A val;
          C = matrix_mul_const N C A val; crc = core_crc16 (matrix_sum N C clipval) 0;
          C = matrix_mul_vect N C A B; crc = core_crc16 (matrix_sum N C clipval) crc;
          C = matrix_mul_matrix N C A B; crc = core_crc16 (matrix_sum N C clipval) crc;
          C = matrix_mul_matrix_bitextract N C A B; crc = core_crc16 (matrix_sum N C clipval) crc;
          A = matrix_add_const N A (- val)
      in (crc, C, A))"

record mat_params =
  mat_N :: nat
  mat_A :: "matdat list"
  mat_B :: "matdat list"
  mat_C :: "matres list"

definition core_bench_matrix :: "mat_params \<Rightarrow> u16 \<Rightarrow> u16 \<Rightarrow> u16 \<times> mat_params" where
  "core_bench_matrix p seed crc =
     (let (r, C, A) = matrix_test (mat_N p) (mat_C p) (mat_A p) (mat_B p) seed
      in (core_crc16 r crc, p\<lparr>mat_A := A, mat_C := C\<rparr>))"

section \<open>Initialisation\<close>

text \<open>The loop that finds the dimension; \<open>i\<close> and \<open>j\<close> are the variables of the code.\<close>

partial_function (option) dim_loop :: "u32 \<Rightarrow> u32 \<Rightarrow> u32 \<Rightarrow> u32 option" where
  "dim_loop blksize i j =
     (if j < blksize then dim_loop blksize (i + 1) ((i + 1) * (i + 1) * 2 * 4) else Some i)"

definition align_mem :: "u64 \<Rightarrow> u64" where
  "align_mem x = 4 + ((x - 1) AND NOT 3)"

definition s32 :: "int \<Rightarrow> int option" where
  "s32 x = (if - (2 ^ 31) \<le> x \<and> x < 2 ^ 31 then Some x else None)"

definition matrix_clip :: "matdat \<Rightarrow> bool \<Rightarrow> matdat" where
  "matrix_clip x y = (if y then x AND 0xFF else x AND 0xFFFF)"

text \<open>The loop over the elements, \<open>n\<close> of them left: \<open>seed\<close> and \<open>order\<close> are 32-bit signed variables,
  \<open>%\<close> truncates towards zero, and the product must stay in range.  The results are the
  elements of \<open>A\<close> and \<open>B\<close> in row order.\<close>

primrec init_elements :: "nat \<Rightarrow> int \<Rightarrow> int \<Rightarrow> (matdat list \<times> matdat list) option" where
  "init_elements 0 order seed = Some ([], [])"
| "init_elements (Suc n) order seed = do {
     p \<leftarrow> s32 (order * seed);
     let seed = p smod 65536;
     let b = matrix_clip (word_of_int (seed + order)) False;
     let a = matrix_clip (word_of_int (sint b + order)) True;
     order \<leftarrow> s32 (order + 1);
     (as, bs) \<leftarrow> init_elements n order seed;
     Some (a # as, b # bs)
   }"

text \<open>The elements of \<open>C\<close> are not initialised: they are whatever \<open>garbage\<close> the memory holds.\<close>

definition core_init_matrix ::
    "u32 \<Rightarrow> int \<Rightarrow> matres list \<Rightarrow> (nat \<times> mat_params) option" where
  "core_init_matrix blksize seed garbage = do {
     i \<leftarrow> dim_loop blksize 0 0;
     let N = unat (i - 1);
     (as, bs) \<leftarrow> init_elements (N * N) 1 (if seed = 0 then 1 else seed);
     Some (N, \<lparr>mat_N = N, mat_A = as, mat_B = bs, mat_C = garbage\<rparr>)
   }"

text \<open>Where the three arrays stand in the block (addresses of their first bytes).\<close>

definition matrix_places :: "u64 \<Rightarrow> nat \<Rightarrow> u64 \<times> u64 \<times> u64" where
  "matrix_places memblk N =
     (let A = align_mem memblk; B = A + of_nat (2 * (N * N)); C = align_mem (B + of_nat (2 * (N * N)))
      in (A, B, C))"

section \<open>Loops over the elements of an array\<close>

lemma for_upto_cong:
  "(\<And>k s. k < n \<Longrightarrow> body k s = body' k s) \<Longrightarrow> for_upto n body s = for_upto n body' s"
  by (induction n) simp_all

lemma length_for_upto:
  "(\<And>k L. length (body k L) = length L) \<Longrightarrow> length (for_upto n body L) = length L"
  by (induction n) simp_all

text \<open>A row: cell \<open>i * N + j\<close> is set to a value that depends on its old contents.\<close>

lemma row_nth:
  assumes "n \<le> N"
  shows "length (for_upto n (\<lambda>j L. L[i * N + j := f j (L ! (i * N + j))]) L) = length L"
    and "x < length L \<Longrightarrow> for_upto n (\<lambda>j L. L[i * N + j := f j (L ! (i * N + j))]) L ! x =
      (if i * N \<le> x \<and> x < i * N + n then f (x - i * N) (L ! x) else L ! x)"
  using assms by (induction n) (auto simp: nth_list_update length_for_upto less_Suc_eq)

lemma grid_nth:
  assumes "n \<le> N"
  shows "x < length L \<Longrightarrow>
     for_upto n (\<lambda>i. for_upto N (\<lambda>j L. L[i * N + j := f i j (L ! (i * N + j))])) L ! x =
       (if x < n * N then f (x div N) (x mod N) (L ! x) else L ! x)"
  using assms
proof (induction n)
  case 0
  then show ?case by simp
next
  case (Suc n)
  let ?row = "\<lambda>i. for_upto N (\<lambda>j L. L[i * N + j := f i j (L ! (i * N + j))])"
  have len: "length (for_upto n ?row L) = length L"
    by (rule length_for_upto) (simp add: length_for_upto)
  have "for_upto (Suc n) ?row L ! x =
      (if n * N \<le> x \<and> x < n * N + N then f n (x - n * N) (for_upto n ?row L ! x) else for_upto n ?row L ! x)"
    using row_nth(2) [of N N x "for_upto n ?row L" n "f n"] Suc.prems(1) len by simp
  moreover have "x div N = n" "x mod N = x - n * N" if "n * N \<le> x" "x < n * N + N"
  proof -
    show "x div N = n" using that by (intro div_nat_eqI) (simp_all add: mult.commute)
    with minus_div_mult_eq_mod [of x N] show "x mod N = x - n * N" by simp
  qed
  ultimately show ?case using Suc by auto
qed

lemma for_grid_nth:
  "x < length L \<Longrightarrow> for_grid N (\<lambda>i j L. L[i * N + j := f i j (L ! (i * N + j))]) L ! x =
     (if x < N * N then f (x div N) (x mod N) (L ! x) else L ! x)"
  unfolding for_grid_def by (rule grid_nth) simp_all

lemma length_for_grid:
  "(\<And>i j L. length (body i j L) = length L) \<Longrightarrow> length (for_grid N body L) = length L"
  unfolding for_grid_def by (intro length_for_upto) blast

lemma cell_sum:
  fixes t :: "nat \<Rightarrow> matres"
  assumes "x < length C"
  shows "for_upto n (\<lambda>k C. C[x := C ! x + t k]) (C[x := 0]) = C[x := (\<Sum>k<n. t k)]"
  using assms by (induction n) simp_all

lemma cell_sum_any:
  "for_upto n (\<lambda>k C. C[x := C ! x + t k]) (C[x := 0]) = C[x := (\<Sum>k<n. t k)]" for t :: "nat \<Rightarrow> matres"
proof (cases "x < length C")
  case True
  then show ?thesis by (rule cell_sum)
next
  case False
  then show ?thesis by (induction n) (simp_all add: list_update_beyond)
qed

section \<open>Properties\<close>

text \<open>\<open>matrix_mul_matrix\<close> stores the matrix product: element \<open>i, j\<close> of \<open>C\<close> is the sum over \<open>k\<close> of
  \<open>A[i,k] * B[k,j]\<close> in 32-bit arithmetic; the bit-extract variant stores the sum of the products
  of the two bit fields.  Memory past the matrix is not touched.\<close>

theorem matrix_mul_matrix_product:
  assumes "N * N \<le> length C" "x < length C"
  shows "matrix_mul_matrix N C A B ! x =
      (if x < N * N then (\<Sum>k<N. scast (A ! (x div N * N + k)) * scast (B ! (k * N + x mod N))) else C ! x)
    \<and> matrix_mul_matrix_bitextract N C A B ! x =
      (if x < N * N then (\<Sum>k<N. bit_extract (scast (A ! (x div N * N + k)) * scast (B ! (k * N + x mod N))) 2 4
           * bit_extract (scast (A ! (x div N * N + k)) * scast (B ! (k * N + x mod N))) 5 7) else C ! x)
    \<and> length (matrix_mul_matrix N C A B) = length C"
proof -
  have eq: "matrix_mul_matrix N C A B = for_grid N (\<lambda>i j C. C[i * N + j :=
      (\<Sum>k<N. scast (A ! (i * N + k)) * scast (B ! (k * N + j)))]) C"
    unfolding matrix_mul_matrix_def by (simp add: cell_sum_any)
  have eq': "matrix_mul_matrix_bitextract N C A B = for_grid N (\<lambda>i j C. C[i * N + j :=
      (\<Sum>k<N. bit_extract (scast (A ! (i * N + k)) * scast (B ! (k * N + j))) 2 4
        * bit_extract (scast (A ! (i * N + k)) * scast (B ! (k * N + j))) 5 7)]) C"
    unfolding matrix_mul_matrix_bitextract_def Let_def by (simp add: cell_sum_any)
  show ?thesis
    using for_grid_nth [OF assms(2), of N "\<lambda>i j _. \<Sum>k<N. scast (A ! (i * N + k)) * scast (B ! (k * N + j))"]
      for_grid_nth [OF assms(2), of N "\<lambda>i j _. \<Sum>k<N. bit_extract (scast (A ! (i * N + k)) * scast (B ! (k * N + j))) 2 4
        * bit_extract (scast (A ! (i * N + k)) * scast (B ! (k * N + j))) 5 7"]
    by (simp add: eq eq' length_for_grid)
qed

theorem matrix_mul_matrix_product_witness:
  "matrix_mul_matrix 2 [9, 9, 9, 9, 7] [1, 2, 3, 4] [5, 6, 7, 8] ! 3 = 50"
proof -
  have "{..<2 :: nat} = {0, 1}" by auto
  then show ?thesis
    using matrix_mul_matrix_product [of 2 "[9, 9, 9, 9, 7]" 3 "[1, 2, 3, 4]" "[5, 6, 7, 8]"] by simp
qed

lemma matrix_add_const_nth:
  "x < length A \<Longrightarrow> matrix_add_const N A val ! x = (if x < N * N then A ! x + val else A ! x)"
  unfolding matrix_add_const_def using for_grid_nth [of x A N "\<lambda>i j a. a + val"] by simp

lemma length_matrix_add_const [simp]: "length (matrix_add_const N A val) = length A"
  unfolding matrix_add_const_def by (rule length_for_grid) simp

text \<open>The matrix benchmark leaves the operands as they were: \<open>B\<close> is never written, and the constant
  added to every element of \<open>A\<close> is taken away again, also when the addition wraps.\<close>

lemma core_bench_matrix_restores:
  "mat_A (snd (core_bench_matrix p seed crc)) = mat_A p \<and> mat_B (snd (core_bench_matrix p seed crc)) = mat_B p
   \<and> mat_N (snd (core_bench_matrix p seed crc)) = mat_N p
   \<and> length (mat_C (snd (core_bench_matrix p seed crc))) = length (mat_C p)"
proof -
  have "matrix_add_const N (matrix_add_const N A val) (- val) = A" for N A val
    by (rule nth_equalityI) (simp_all add: matrix_add_const_nth)
  moreover have "length (matrix_mul_const N C A val) = length C"
    "length (matrix_mul_vect N C A B) = length C" "length (matrix_mul_matrix N C A B) = length C"
    "length (matrix_mul_matrix_bitextract N C A B) = length C" for N C A B val
    unfolding matrix_mul_const_def matrix_mul_vect_def matrix_mul_matrix_def matrix_mul_matrix_bitextract_def Let_def
    by (simp_all add: length_for_grid length_for_upto)
  ultimately show ?thesis
    by (simp add: core_bench_matrix_def matrix_test_def Let_def)
qed

lemma dim_loop_square:
  assumes "0 < unat blksize" "unat blksize \<le> 2 ^ 30"
  shows "unat i \<le> 2 ^ 14 \<Longrightarrow> i = 0 \<or> 8 * (unat i - 1) * (unat i - 1) < unat blksize \<Longrightarrow>
     \<exists>r. dim_loop blksize i (i * i * 2 * 4) = Some r \<and> unat i \<le> unat r \<and> 0 < unat r
       \<and> 8 * (unat r - 1) * (unat r - 1) < unat blksize \<and> unat blksize \<le> 8 * unat r * unat r"
proof (induction "2 ^ 14 - unat i" arbitrary: i rule: less_induct)
  case less
  have "unat i * unat i \<le> 2 ^ 14 * 2 ^ 14" using less.prems(1) by (intro mult_le_mono) simp_all
  then have sq: "unat (i * i * 2 * 4) = 8 * unat i * unat i"
    by (simp add: unat_word_ariths)
  show ?case
  proof (cases "i * i * 2 * 4 < blksize")
    case False
    then have ge: "unat blksize \<le> 8 * unat i * unat i"
      unfolding word_less_nat_alt sq by simp
    with assms(1) have "0 < unat i" by (cases "unat i = 0") simp_all
    with False ge less.prems(2) show ?thesis
      by (intro exI [of _ i]) (auto simp: dim_loop.simps [of blksize i])
  next
    case True
    then have lt: "8 * unat i * unat i < unat blksize" unfolding word_less_nat_alt sq .
    have "unat i < 2 ^ 14"
    proof (rule ccontr)
      assume "\<not> unat i < 2 ^ 14"
      with less.prems(1) have "unat i = 2 ^ 14" by simp
      with lt assms(2) show False by simp
    qed
    moreover from this have i1: "unat (i + 1) = unat i + 1" by (simp add: unat_word_ariths)
    ultimately have "\<exists>r. dim_loop blksize (i + 1) ((i + 1) * (i + 1) * 2 * 4) = Some r \<and> unat (i + 1) \<le> unat r
       \<and> 0 < unat r \<and> 8 * (unat r - 1) * (unat r - 1) < unat blksize \<and> unat blksize \<le> 8 * unat r * unat r"
      using lt by (intro less.hyps) simp_all
    with True i1 show ?thesis by (auto simp: dim_loop.simps [of blksize i])
  qed
qed

lemma align_mem_up:
  assumes "unat x \<le> 2 ^ 63" "0 < unat x"
  shows "unat (align_mem x) = 4 * ((unat x + 3) div 4)"
proof -
  let ?y = "x - 1"
  have "?y AND NOT 3 = push_bit 2 (drop_bit 2 ?y)"
  proof -
    have three: "(3 :: u64) = mask 2" by (simp add: mask_eq_exp_minus_1)
    show ?thesis unfolding three
    proof (rule bit_word_eqI)
      fix n assume "n < LENGTH(64)"
      moreover have "2 + (n - 2) = n" if "2 \<le> n" using that by simp
      ultimately show "bit (?y AND NOT (mask 2)) n = bit (push_bit 2 (drop_bit 2 ?y)) n"
        by (auto simp: bit_and_iff bit_not_iff bit_mask_iff bit_push_bit_iff bit_drop_bit_eq)
    qed
  qed
  moreover have "unat (push_bit 2 (drop_bit 2 ?y)) = 4 * (unat ?y div 4)"
  proof -
    define w where "w = drop_bit 2 ?y"
    have w: "unat w = unat ?y div 4"
      unfolding w_def by (simp only: unat_drop_bit_eq) (simp add: drop_bit_eq_div)
    moreover have "unat ?y < 2 ^ 64" using unsigned_less [of ?y, where ?'a = nat] by simp
    ultimately have "unat w < 2 ^ 62" by simp
    then have "unat (push_bit 2 w) = 4 * unat w" by (simp add: push_bit_eq_mult unat_word_ariths)
    then show ?thesis by (simp only: w_def [symmetric] w)
  qed
  moreover have "x \<noteq> 0" using assms(2) by auto
  then have "unat ?y = unat x - 1" by (simp add: unat_minus_one)
  moreover have "4 * ((unat x - 1) div 4) \<le> unat x - 1" by simp
  ultimately have "unat (align_mem x) = 4 + 4 * ((unat x - 1) div 4)"
    using assms(1) by (simp add: align_mem_def unat_word_ariths)
  moreover from assms(2) have "unat x + 3 = (unat x - 1) + 4" by simp
  then have "(unat x + 3) div 4 = (unat x - 1) div 4 + 1" by simp
  ultimately show ?thesis by simp
qed

lemma unat_offset: "unat a + k < 2 ^ 64 \<Longrightarrow> unat (a + of_nat k :: u64) = unat a + k"
  by (simp add: unat_word_ariths unat_of_nat)

lemma init_elements_length: "init_elements n order seed = Some (as, bs) \<Longrightarrow> length as = n \<and> length bs = n"
  by (induction n arbitrary: order seed as bs) (auto simp: Let_def elim!: bind_SomeE bind_pair_SomeE)

text \<open>The dimension is the largest whose three matrices fit in the block, and the arrays follow each
  other without overlap from the first aligned address of the block.  They end inside a block
  that starts at an aligned address; otherwise at most two bytes past its end.\<close>

theorem core_init_matrix_fits:
  assumes "0 < unat blksize" "unat blksize \<le> 2 ^ 30" "0 < unat memblk" "unat memblk < 2 ^ 62"
    and "core_init_matrix blksize seed garbage = Some (N, p)"
  shows "8 * (N * N) < unat blksize \<and> unat blksize \<le> 8 * ((N + 1) * (N + 1))
    \<and> length (mat_A p) = N * N \<and> length (mat_B p) = N * N
    \<and> (let (A, B, C) = matrix_places memblk N
       in unat memblk \<le> unat A \<and> unat A + 2 * (N * N) = unat B \<and> unat B + 2 * (N * N) = unat C
        \<and> unat C + 4 * (N * N) \<le> unat memblk + unat blksize + 2
        \<and> (4 dvd unat memblk \<longrightarrow> unat C + 4 * (N * N) \<le> unat memblk + unat blksize))"
proof -
  obtain i where i: "dim_loop blksize 0 0 = Some i" "0 < unat i"
    "8 * (unat i - 1) * (unat i - 1) < unat blksize" "unat blksize \<le> 8 * unat i * unat i"
    using dim_loop_square [OF assms(1,2), of 0] by auto
  have "i \<noteq> 0" using i(2) by auto
  with i assms(5) have N: "N = unat i - 1" "length (mat_A p) = N * N" "length (mat_B p) = N * N"
    by (auto simp: core_init_matrix_def Let_def unat_minus_one
        elim!: bind_pair_SomeE dest: init_elements_length)
  have sq: "8 * (N * N) < unat blksize" "unat blksize \<le> 8 * ((N + 1) * (N + 1))"
    using i(2-4) N(1) by (simp_all add: mult.assoc)
  let ?A = "align_mem memblk"
  have A: "unat ?A = 4 * ((unat memblk + 3) div 4)"
    using assms by (intro align_mem_up) simp_all
  then have up: "unat memblk \<le> unat ?A" "unat ?A \<le> unat memblk + 3" "4 dvd unat memblk \<longrightarrow> unat ?A = unat memblk"
    "4 dvd unat ?A" by presburger+
  have "unat ?A + 2 * (N * N) < 2 ^ 64" using up(2) sq(1) assms(2,4) by simp
  then have B: "unat (?A + of_nat (2 * (N * N))) = unat ?A + 2 * (N * N)" by (rule unat_offset)
  have "unat (?A + of_nat (2 * (N * N))) + 2 * (N * N) < 2 ^ 64"
    using B up(2) sq(1) assms(2,4) by simp
  from unat_offset [OF this] B
  have B2: "unat (?A + of_nat (2 * (N * N)) + of_nat (2 * (N * N))) = unat ?A + 4 * (N * N)" by simp
  have "unat (align_mem (?A + of_nat (2 * (N * N)) + of_nat (2 * (N * N)))) = 4 * ((unat ?A + 4 * (N * N) + 3) div 4)"
    using up sq(1) assms(2-4) by (subst align_mem_up) (simp_all only: B2, simp_all)
  also have "\<dots> = unat ?A + 4 * (N * N)"
    using up(4) by presburger
  finally show ?thesis
    using up sq N(2,3) B by (simp add: matrix_places_def Let_def)
qed

theorem core_init_matrix_fits_witness:
  "\<exists>N p. core_init_matrix 17 0 [] = Some (N, p) \<and> 8 * (N * N) < 17"
proof -
  have d: "dim_loop 17 0 0 = Some 2"
    by (simp add: dim_loop.simps [of 17 0] dim_loop.simps [of 17 1] dim_loop.simps [of 17 2])
  obtain as bs where e: "init_elements 1 1 1 = Some (as, bs)"
    by (simp add: s32_def Let_def numeral_2_eq_2)
  have "core_init_matrix 17 0 [] = Some (1, \<lparr>mat_N = 1, mat_A = as, mat_B = bs, mat_C = []\<rparr>)"
    using d e by (simp add: core_init_matrix_def Let_def)
  from core_init_matrix_fits [OF _ _ _ _ this, of "0x1000"] this show ?thesis by auto
qed

end
