(* ===== verification/Coremark_List.thy ===== *)
theory Coremark_List
  imports Coremark_State Coremark_Matrix "HOL-Library.Multiset"
begin

text \<open>
  \<open>core_list_join.c\<close> of the CoreMark port: the linked list benchmark, which calls the
  other two benchmarks while it sorts.  The heap is split by field: for the address
  of a \<open>list_head\<close> its \<open>next\<close> and \<open>info\<close>, for the address of a \<open>list_data\<close> its \<open>data16\<close>
  and \<open>idx\<close>; address 0 is \<open>NULL\<close>, and following it has no defined result.  The
  record also holds what the list code uses of \<open>core_results\<close>: the operands of the
  matrix benchmark, the memory of the state benchmark and the checksums.
\<close>

type_synonym ptr = u64

record coremark =
  next_of :: "ptr \<Rightarrow> ptr"
  info_of :: "ptr \<Rightarrow> ptr"
  data16 :: "ptr \<Rightarrow> u16"
  idx :: "ptr \<Rightarrow> u16"
  state_mem :: mem
  memblock3 :: u64
  mat :: mat_params
  res_size :: u32
  seed1 :: u16
  seed2 :: u16
  seed3 :: u16
  iterations :: u32
  res_list :: ptr
  crc :: u16
  crclist :: u16
  crcmatrix :: u16
  crcstate :: u16

section \<open>Fields of list items\<close>

definition get_next :: "ptr \<Rightarrow> coremark \<Rightarrow> ptr option" where
  "get_next p s = (if p = 0 then None else Some (next_of s p))"

definition get_info :: "ptr \<Rightarrow> coremark \<Rightarrow> ptr option" where
  "get_info p s = (if p = 0 then None else Some (info_of s p))"

definition set_next :: "ptr \<Rightarrow> ptr \<Rightarrow> coremark \<Rightarrow> coremark option" where
  "set_next p v s = (if p = 0 then None else Some (s\<lparr>next_of := (next_of s)(p := v)\<rparr>))"

definition set_info :: "ptr \<Rightarrow> ptr \<Rightarrow> coremark \<Rightarrow> coremark option" where
  "set_info p v s = (if p = 0 then None else Some (s\<lparr>info_of := (info_of s)(p := v)\<rparr>))"

definition get_data16 :: "ptr \<Rightarrow> coremark \<Rightarrow> u16 option" where
  "get_data16 d s = (if d = 0 then None else Some (data16 s d))"

definition get_idx :: "ptr \<Rightarrow> coremark \<Rightarrow> u16 option" where
  "get_idx d s = (if d = 0 then None else Some (idx s d))"

definition set_data16 :: "ptr \<Rightarrow> u16 \<Rightarrow> coremark \<Rightarrow> coremark option" where
  "set_data16 d v s = (if d = 0 then None else Some (s\<lparr>data16 := (data16 s)(d := v)\<rparr>))"

definition set_idx :: "ptr \<Rightarrow> u16 \<Rightarrow> coremark \<Rightarrow> coremark option" where
  "set_idx d v s = (if d = 0 then None else Some (s\<lparr>idx := (idx s)(d := v)\<rparr>))"

lemmas field_defs = get_next_def get_info_def set_next_def set_info_def get_data16_def get_idx_def
  set_data16_def set_idx_def

section \<open>Values of items\<close>

definition calc_func :: "ptr \<Rightarrow> coremark \<Rightarrow> (u16 \<times> coremark) option" where
  "calc_func pdata s = do {
     data \<leftarrow> get_data16 pdata s;
     if drop_bit 7 data AND 1 \<noteq> 0 then Some (data AND 0x7F, s)
     else do {
       let flag = data AND 0x7;
       let dtype = drop_bit 3 data AND 0xF;
       let dtype = dtype OR push_bit 4 dtype;
       (retval, s) \<leftarrow>
         (if flag = 0 then do {
            let dtype = (if sint dtype < 0x22 then 0x22 else dtype);
            (r, m) \<leftarrow> core_bench_state (state_mem s) (res_size s) (memblock3 s) (seed1 s) (seed2 s) dtype (crc s);
            let s = s\<lparr>state_mem := m\<rparr>;
            Some (r, if crcstate s = 0 then s\<lparr>crcstate := r\<rparr> else s)
          }
          else if flag = 1 then do {
            let (r, m) = core_bench_matrix (mat s) dtype (crc s);
            let s = s\<lparr>mat := m\<rparr>;
            Some (r, if crcmatrix s = 0 then s\<lparr>crcmatrix := r\<rparr> else s)
          }
          else Some (data, s));
       let s = s\<lparr>crc := crcu16 retval (crc s)\<rparr>;
       let retval = retval AND 0x7F;
       s \<leftarrow> set_data16 pdata ((data AND 0xFF00) OR 0x80 OR retval) s;
       Some (retval, s)
     }
   }"

type_synonym list_cmp = "ptr \<Rightarrow> ptr \<Rightarrow> coremark \<Rightarrow> (int \<times> coremark) option"

definition cmp_complex :: list_cmp where
  "cmp_complex a b s = do {
     (val1, s) \<leftarrow> calc_func a s;
     (val2, s) \<leftarrow> calc_func b s;
     Some (sint val1 - sint val2, s)
   }"

text \<open>\<open>cmp_idx\<close> with \<open>res == NULL\<close>, the only way it is called: it regenerates the data.\<close>

definition regenerate :: "ptr \<Rightarrow> coremark \<Rightarrow> coremark option" where
  "regenerate a s = do {
     d \<leftarrow> get_data16 a s;
     set_data16 a ((d AND 0xFF00) OR (0x00FF AND signed_drop_bit 8 d)) s
   }"

definition cmp_idx :: list_cmp where
  "cmp_idx a b s = do {
     s \<leftarrow> regenerate a s;
     s \<leftarrow> regenerate b s;
     i \<leftarrow> get_idx a s;
     j \<leftarrow> get_idx b s;
     Some (sint i - sint j, s)
   }"

section \<open>List operations\<close>

text \<open>\<open>info\<close> is passed as its two fields.\<close>

partial_function (option) core_list_find :: "ptr \<Rightarrow> u16 \<Rightarrow> u16 \<Rightarrow> coremark \<Rightarrow> ptr option" where
  "core_list_find list info_idx info_data s =
     (if list = 0 then Some 0
      else Option.bind (get_info list s) (\<lambda>d.
        if sint info_idx \<ge> 0
        then Option.bind (get_idx d s) (\<lambda>i.
          if i \<noteq> info_idx then core_list_find (next_of s list) info_idx info_data s else Some list)
        else Option.bind (get_data16 d s) (\<lambda>v.
          if v AND 0xFF \<noteq> info_data then core_list_find (next_of s list) info_idx info_data s else Some list)))"

partial_function (option) reverse_loop :: "ptr \<Rightarrow> ptr \<Rightarrow> coremark \<Rightarrow> (ptr \<times> coremark) option" where
  "reverse_loop list nxt s =
     (if list \<noteq> 0
      then reverse_loop (next_of s list) list (s\<lparr>next_of := (next_of s)(list := nxt)\<rparr>)
      else Some (nxt, s))"

definition core_list_reverse :: "ptr \<Rightarrow> coremark \<Rightarrow> (ptr \<times> coremark) option" where
  "core_list_reverse list s = reverse_loop list 0 s"

definition core_list_remove :: "ptr \<Rightarrow> coremark \<Rightarrow> (ptr \<times> coremark) option" where
  "core_list_remove item s = do {
     ret \<leftarrow> get_next item s;
     tmp \<leftarrow> get_info item s;
     i \<leftarrow> get_info ret s;
     s \<leftarrow> set_info item i s;
     s \<leftarrow> set_info ret tmp s;
     n \<leftarrow> get_next item s;
     n \<leftarrow> get_next n s;
     s \<leftarrow> set_next item n s;
     s \<leftarrow> set_next ret 0 s;
     Some (ret, s)
   }"

definition core_list_undo_remove :: "ptr \<Rightarrow> ptr \<Rightarrow> coremark \<Rightarrow> (ptr \<times> coremark) option" where
  "core_list_undo_remove item_removed item_modified s = do {
     tmp \<leftarrow> get_info item_removed s;
     i \<leftarrow> get_info item_modified s;
     s \<leftarrow> set_info item_removed i s;
     s \<leftarrow> set_info item_modified tmp s;
     n \<leftarrow> get_next item_modified s;
     s \<leftarrow> set_next item_removed n s;
     s \<leftarrow> set_next item_modified item_removed s;
     Some (item_removed, s)
   }"

definition copy_info :: "ptr \<Rightarrow> u16 \<Rightarrow> u16 \<Rightarrow> coremark \<Rightarrow> coremark option" where
  "copy_info to from_data from_idx s = do {
     s \<leftarrow> set_data16 to from_data s;
     set_idx to from_idx s
   }"

text \<open>A \<open>list_head\<close> has 16 bytes and a \<open>list_data\<close> 4.  The free blocks are passed and returned.\<close>

definition core_list_insert_new ::
    "ptr \<Rightarrow> u16 \<Rightarrow> u16 \<Rightarrow> ptr \<Rightarrow> ptr \<Rightarrow> ptr \<Rightarrow> ptr \<Rightarrow> coremark \<Rightarrow> (ptr \<times> ptr \<times> ptr \<times> coremark) option" where
  "core_list_insert_new insert_point info_data info_idx memblock datablock memblock_end datablock_end s =
     (if memblock + 16 \<ge> memblock_end then Some (0, memblock, datablock, s)
      else if datablock + 4 \<ge> datablock_end then Some (0, memblock, datablock, s)
      else do {
        n \<leftarrow> get_next insert_point s;
        s \<leftarrow> set_next memblock n s;
        s \<leftarrow> set_next insert_point memblock s;
        s \<leftarrow> set_info memblock datablock s;
        i \<leftarrow> get_info memblock s;
        s \<leftarrow> copy_info i info_data info_idx s;
        Some (memblock, memblock + 16, datablock + 4, s)
      })"

section \<open>Merge sort\<close>

text \<open>Step \<open>insize\<close> places along from \<open>q\<close>: the \<open>for\<close> loop, with its counter \<open>psize\<close>.\<close>

primrec step_along :: "nat \<Rightarrow> ptr \<Rightarrow> nat \<Rightarrow> coremark \<Rightarrow> (ptr \<times> nat) option" where
  "step_along 0 q psize s = Some (q, psize)"
| "step_along (Suc n) q psize s = do {
     q \<leftarrow> get_next q s;
     if q = 0 then Some (q, psize + 1) else step_along n q (psize + 1) s
   }"

text \<open>Whether the next element comes from \<open>p\<close>.\<close>

definition from_p :: "list_cmp \<Rightarrow> ptr \<Rightarrow> ptr \<Rightarrow> nat \<Rightarrow> nat \<Rightarrow> coremark \<Rightarrow> (bool \<times> coremark) option" where
  "from_p cmp p q psize qsize s =
     (if psize = 0 then Some (False, s)
      else if qsize = 0 \<or> q = 0 then Some (True, s)
      else do {
        a \<leftarrow> get_info p s;
        b \<leftarrow> get_info q s;
        (r, s) \<leftarrow> cmp a b s;
        Some (r \<le> 0, s)
      })"

text \<open>Add \<open>e\<close> to the merged list; the result is the head.\<close>

definition link :: "ptr \<Rightarrow> ptr \<Rightarrow> ptr \<Rightarrow> coremark \<Rightarrow> (ptr \<times> coremark) option" where
  "link list tail e s =
     (if tail \<noteq> 0 then do { s \<leftarrow> set_next tail e s; Some (list, s) } else Some (e, s))"

text \<open>The merge of two runs: the results are \<open>q\<close>, \<open>list\<close> and \<open>tail\<close>.\<close>

partial_function (option) merge_loop ::
    "list_cmp \<Rightarrow> ptr \<Rightarrow> ptr \<Rightarrow> nat \<Rightarrow> nat \<Rightarrow> ptr \<Rightarrow> ptr \<Rightarrow> coremark \<Rightarrow> (ptr \<times> ptr \<times> ptr \<times> coremark) option" where
  "merge_loop cmp p q psize qsize list tail s =
     (if psize > 0 \<or> qsize > 0 \<and> q \<noteq> 0
      then Option.bind (from_p cmp p q psize qsize s) (\<lambda>r.
        if fst r
        then Option.bind (get_next p (snd r)) (\<lambda>p'.
          Option.bind (link list tail p (snd r)) (\<lambda>l.
            merge_loop cmp p' q (psize - 1) qsize (fst l) p (snd l)))
        else Option.bind (get_next q (snd r)) (\<lambda>q'.
          Option.bind (link list tail q (snd r)) (\<lambda>l.
            merge_loop cmp p q' psize (qsize - 1) (fst l) q (snd l))))
      else Some (q, list, tail, s))"

text \<open>One pass over the list: the results are \<open>list\<close>, \<open>tail\<close> and \<open>nmerges\<close>.\<close>

partial_function (option) merge_pass ::
    "list_cmp \<Rightarrow> nat \<Rightarrow> ptr \<Rightarrow> ptr \<Rightarrow> ptr \<Rightarrow> nat \<Rightarrow> coremark \<Rightarrow> (ptr \<times> ptr \<times> nat \<times> coremark) option" where
  "merge_pass cmp insize p list tail nmerges s =
     (if p \<noteq> 0
      then Option.bind (step_along insize p 0 s) (\<lambda>q.
        Option.bind (merge_loop cmp p (fst q) (snd q) insize list tail s) (\<lambda>r.
          merge_pass cmp insize (fst r) (fst (snd r)) (fst (snd (snd r))) (nmerges + 1) (snd (snd (snd r)))))
      else Some (list, tail, nmerges, s))"

partial_function (option) sort_loop ::
    "list_cmp \<Rightarrow> nat \<Rightarrow> ptr \<Rightarrow> coremark \<Rightarrow> (ptr \<times> coremark) option" where
  "sort_loop cmp insize list s =
     Option.bind (merge_pass cmp insize list 0 0 0 s) (\<lambda>r.
       Option.bind (set_next (fst (snd r)) 0 (snd (snd (snd r)))) (\<lambda>s.
         if fst (snd (snd r)) \<le> 1 then Some (fst r, s)
         else sort_loop cmp (insize * 2) (fst r) s))"

definition core_list_mergesort :: "list_cmp \<Rightarrow> ptr \<Rightarrow> coremark \<Rightarrow> (ptr \<times> coremark) option" where
  "core_list_mergesort cmp list s = sort_loop cmp 1 list s"

section \<open>The benchmark\<close>

text \<open>One pass of the find loop: the new head, whether something was found, what is added to
  \<open>retval\<close>, and the state.\<close>

definition move_to_front :: "ptr \<Rightarrow> ptr \<Rightarrow> coremark \<Rightarrow> coremark option" where
  "move_to_front list this_find s = do {
     finder \<leftarrow> get_next this_find s;
     if finder \<noteq> 0 then do {
       n \<leftarrow> get_next finder s;
       s \<leftarrow> set_next this_find n s;
       n \<leftarrow> get_next list s;
       s \<leftarrow> set_next finder n s;
       set_next list finder s
     } else Some s
   }"

definition find_step :: "ptr \<Rightarrow> u16 \<Rightarrow> u16 \<Rightarrow> coremark \<Rightarrow> (ptr \<times> bool \<times> u16 \<times> coremark) option" where
  "find_step list info_idx info_data s = do {
     this_find \<leftarrow> core_list_find list info_idx info_data s;
     (list, s) \<leftarrow> core_list_reverse list s;
     if this_find = 0 then do {
       n \<leftarrow> get_next list s;
       d \<leftarrow> get_info n s;
       v \<leftarrow> get_data16 d s;
       Some (list, False, signed_drop_bit 8 v AND 1, s)
     } else do {
       d \<leftarrow> get_info this_find s;
       v \<leftarrow> get_data16 d s;
       let r = (if v AND 1 \<noteq> 0 then signed_drop_bit 9 v AND 1 else 0);
       s \<leftarrow> move_to_front list this_find s;
       Some (list, True, r, s)
     }
   }"

text \<open>The loop with its counter \<open>i\<close>.  \<open>info.data16\<close> has no value before the first pass.\<close>

partial_function (option) find_loop ::
    "u16 \<Rightarrow> u16 \<Rightarrow> ptr \<Rightarrow> u16 \<Rightarrow> u16 option \<Rightarrow> u16 \<Rightarrow> u16 \<Rightarrow> u16 \<Rightarrow> coremark
      \<Rightarrow> (ptr \<times> u16 \<times> u16 option \<times> u16 \<times> coremark) option" where
  "find_loop i find_num list info_idx info_data found missed retval s =
     (if sint i < sint find_num
      then Option.bind (find_step list info_idx (i AND 0xFF) s) (\<lambda>r.
        find_loop (i + 1) find_num (fst r)
          (if sint info_idx \<ge> 0 then info_idx + 1 else info_idx) (Some (i AND 0xFF))
          (if fst (snd r) then found + 1 else found) (if fst (snd r) then missed else missed + 1)
          (retval + fst (snd (snd r))) (snd (snd (snd r))))
      else Some (list, info_idx, info_data, retval + (found * 4 - missed), s))"

partial_function (option) crc_loop :: "ptr \<Rightarrow> ptr \<Rightarrow> u16 \<Rightarrow> coremark \<Rightarrow> u16 option" where
  "crc_loop list finder retval s =
     (if finder \<noteq> 0
      then Option.bind (get_info list s) (\<lambda>d.
        Option.bind (get_data16 d s) (\<lambda>v. crc_loop list (next_of s finder) (core_crc16 v retval) s))
      else Some retval)"

text \<open>Remove one item, checksum from the item found on, and undo the removal.\<close>

definition crc_without_one :: "ptr \<Rightarrow> u16 \<Rightarrow> u16 option \<Rightarrow> u16 \<Rightarrow> coremark \<Rightarrow> (u16 \<times> coremark) option" where
  "crc_without_one list info_idx info_data retval s = do {
     n \<leftarrow> get_next list s;
     (remover, s) \<leftarrow> core_list_remove n s;
     info_data \<leftarrow> (if sint info_idx \<ge> 0 then Some 0 else info_data);
     finder \<leftarrow> core_list_find list info_idx info_data s;
     finder \<leftarrow> (if finder = 0 then get_next list s else Some finder);
     retval \<leftarrow> crc_loop list finder retval s;
     n \<leftarrow> get_next list s;
     (remover, s) \<leftarrow> core_list_undo_remove remover n s;
     Some (retval, s)
   }"

definition core_bench_list :: "u16 \<Rightarrow> coremark \<Rightarrow> (u16 \<times> coremark) option" where
  "core_bench_list finder_idx s = do {
     (list, info_idx, info_data, retval, s) \<leftarrow>
       find_loop 0 (seed3 s) (res_list s) finder_idx None 0 0 0 s;
     (list, s) \<leftarrow> (if sint finder_idx > 0 then core_list_mergesort cmp_complex list s else Some (list, s));
     (retval, s) \<leftarrow> crc_without_one list info_idx info_data retval s;
     (list, s) \<leftarrow> core_list_mergesort cmp_idx list s;
     finder \<leftarrow> get_next list s;
     retval \<leftarrow> crc_loop list finder retval s;
     Some (retval, s)
   }"

section \<open>Building the list\<close>

definition item_pattern :: "u16 \<Rightarrow> u32 \<Rightarrow> u16" where
  "item_pattern seed i =
     (let datpat = (seed XOR ucast i) AND 0xF;
          dat = push_bit 3 datpat OR (ucast i AND 7)
      in push_bit 8 dat OR dat)"

primrec insert_items ::
    "nat \<Rightarrow> u32 \<Rightarrow> u16 \<Rightarrow> ptr \<Rightarrow> u16 \<Rightarrow> ptr \<Rightarrow> ptr \<Rightarrow> ptr \<Rightarrow> ptr \<Rightarrow> coremark \<Rightarrow> coremark option" where
  "insert_items 0 i seed list info_idx memblock datablock memblock_end datablock_end s = Some s"
| "insert_items (Suc n) i seed list info_idx memblock datablock memblock_end datablock_end s = do {
     (_, memblock, datablock, s) \<leftarrow>
       core_list_insert_new list (item_pattern seed i) info_idx memblock datablock memblock_end datablock_end s;
     insert_items n (i + 1) seed list info_idx memblock datablock memblock_end datablock_end s
   }"

definition index_of :: "u32 \<Rightarrow> u16 \<Rightarrow> u32 \<Rightarrow> u16" where
  "index_of sz seed i =
     (if i < sz div 5 then ucast i
      else 0x3FFF AND (push_bit 8 (ucast (i + 1) AND 7) OR (ucast i XOR seed)))"

partial_function (option) index_items :: "u32 \<Rightarrow> u16 \<Rightarrow> ptr \<Rightarrow> u32 \<Rightarrow> coremark \<Rightarrow> coremark option" where
  "index_items sz seed finder i s =
     Option.bind (get_next finder s) (\<lambda>n.
       if n \<noteq> 0
       then Option.bind (get_info finder s) (\<lambda>d.
         Option.bind (set_idx d (index_of sz seed i) s) (\<lambda>s.
           index_items sz seed (next_of s finder) (i + 1) s))
       else Some s)"

definition core_list_init :: "u32 \<Rightarrow> ptr \<Rightarrow> u16 \<Rightarrow> coremark \<Rightarrow> (ptr \<times> coremark) option" where
  "core_list_init blksize memblock seed s = do {
     let per_item = 16 + 4;
     let sz = blksize div per_item - 2;
     let memblock_end = memblock + 16 * ucast sz;
     let datablock = memblock_end;
     let datablock_end = datablock + 4 * ucast sz;
     let list = memblock;
     s \<leftarrow> set_next list 0 s;
     s \<leftarrow> set_info list datablock s;
     s \<leftarrow> copy_info datablock 0x8080 0 s;
     (_, memblock, datablock, s) \<leftarrow>
       core_list_insert_new list 0xFFFF 0x7FFF (memblock + 16) (datablock + 4) memblock_end datablock_end s;
     s \<leftarrow> insert_items (unat sz) 0 seed list 0x7FFF memblock datablock memblock_end datablock_end s;
     finder \<leftarrow> get_next list s;
     s \<leftarrow> index_items sz seed finder 1 s;
     core_list_mergesort cmp_idx list s
   }"

end
