(* ===== verification/Merge_Spec.thy ===== *)
theory Merge_Spec
  imports "HOL-Library.Multiset"
begin

text \<open>
  What a bottom-up merge sort does to a sequence, without the pointers: two runs are
  merged, a pass merges neighbouring runs of length \<open>k\<close>, and passes with doubled runs are
  made until one merge covers everything.  The order is given by two relations, \<open>le p q\<close>
  when the sort takes \<open>p\<close> and \<open>gt p q\<close> when it takes \<open>q\<close>, so that an answer of the
  comparison that is not an order still has a meaning here: the result is then only some
  rearrangement.
\<close>

section \<open>Merging\<close>

inductive merges :: "('a \<Rightarrow> 'a \<Rightarrow> bool) \<Rightarrow> ('a \<Rightarrow> 'a \<Rightarrow> bool) \<Rightarrow> 'a list \<Rightarrow> 'a list \<Rightarrow> 'a list \<Rightarrow> bool"
  for le gt where
  merged: "merges le gt [] [] []"
| only_q: "merges le gt [] qs zs \<Longrightarrow> merges le gt [] (q # qs) (q # zs)"
| only_p: "merges le gt ps [] zs \<Longrightarrow> merges le gt (p # ps) [] (p # zs)"
| take_p: "le p q \<Longrightarrow> merges le gt ps (q # qs) zs \<Longrightarrow> merges le gt (p # ps) (q # qs) (p # zs)"
| take_q: "gt p q \<Longrightarrow> merges le gt (p # ps) qs zs \<Longrightarrow> merges le gt (p # ps) (q # qs) (q # zs)"

inductive merge_runs :: "('a \<Rightarrow> 'a \<Rightarrow> bool) \<Rightarrow> ('a \<Rightarrow> 'a \<Rightarrow> bool) \<Rightarrow> nat \<Rightarrow> 'a list \<Rightarrow> nat \<Rightarrow> 'a list \<Rightarrow> bool"
  for le gt k where
  no_run: "merge_runs le gt k [] 0 []"
| next_run: "xs \<noteq> [] \<Longrightarrow> merges le gt (take k xs) (take k (drop k xs)) ms \<Longrightarrow>
    merge_runs le gt k (drop (2 * k) xs) n ys \<Longrightarrow> merge_runs le gt k xs (Suc n) (ms @ ys)"

inductive bottom_up :: "('a \<Rightarrow> 'a \<Rightarrow> bool) \<Rightarrow> ('a \<Rightarrow> 'a \<Rightarrow> bool) \<Rightarrow> nat \<Rightarrow> 'a list \<Rightarrow> 'a list \<Rightarrow> bool"
  for le gt where
  last_pass: "merge_runs le gt k xs n ys \<Longrightarrow> n \<le> 1 \<Longrightarrow> bottom_up le gt k xs ys"
| more_passes: "merge_runs le gt k xs n ys \<Longrightarrow> 1 < n \<Longrightarrow> bottom_up le gt (2 * k) ys zs \<Longrightarrow> bottom_up le gt k xs zs"

section \<open>Any order: a rearrangement\<close>

lemma merges_mset: "merges le gt ps qs zs \<Longrightarrow> mset zs = mset ps + mset qs"
  by (induction rule: merges.induct) simp_all

lemma merges_set: "merges le gt ps qs zs \<Longrightarrow> set zs = set ps \<union> set qs"
  using mset_eq_setD [of zs "ps @ qs"] by (simp add: merges_mset)

lemma merges_length: "merges le gt ps qs zs \<Longrightarrow> length zs = length ps + length qs"
  by (induction rule: merges.induct) simp_all

lemma two_runs: "take k xs @ take k (drop k xs) @ drop (2 * k) xs = xs"
  by (metis append_take_drop_id drop_drop mult_2)

lemma merge_runs_mset: "merge_runs le gt k xs n ys \<Longrightarrow> mset ys = mset xs"
proof (induction rule: merge_runs.induct)
  case (next_run xs ms n ys)
  then show ?case
    using arg_cong [OF two_runs [of k xs], of mset] by (simp add: merges_mset add.assoc)
qed simp

lemma bottom_up_mset: "bottom_up le gt k xs zs \<Longrightarrow> mset zs = mset xs"
  by (induction rule: bottom_up.induct) (simp_all add: merge_runs_mset)

inductive_cases merge_runs_NilE: "merge_runs le gt k [] n ys"

lemma merge_runs_short:
  assumes "merge_runs le gt k xs n ys" "length xs \<le> 2 * k"
  shows "n \<le> 1"
  using assms(1)
proof (cases rule: merge_runs.cases)
  case (next_run ms n' ys')
  then show ?thesis using assms(2) by (auto elim: merge_runs_NilE)
qed simp

lemma merge_runs_one: "merge_runs le gt k xs n ys \<Longrightarrow> n \<le> 1 \<Longrightarrow> length xs \<le> 2 * k"
  by (cases rule: merge_runs.cases) (auto elim: merge_runs.cases)

section \<open>Runs\<close>

text \<open>Every run of length \<open>k\<close> of \<open>xs\<close> has the property \<open>P\<close>.\<close>

definition runs_all :: "('a list \<Rightarrow> bool) \<Rightarrow> nat \<Rightarrow> 'a list \<Rightarrow> bool" where
  "runs_all P k xs \<longleftrightarrow> (\<forall>i. P (take k (drop (i * k) xs)))"

lemma runs_all_mono: "runs_all P k xs \<Longrightarrow> (\<And>r. P r \<Longrightarrow> Q r) \<Longrightarrow> runs_all Q k xs"
  by (simp add: runs_all_def)

lemma runs_all_first_two: "runs_all P k xs \<Longrightarrow> P (take k xs) \<and> P (take k (drop k xs))"
  using spec [of "\<lambda>i. P (take k (drop (i * k) xs))" 0] spec [of "\<lambda>i. P (take k (drop (i * k) xs))" 1]
  by (simp add: runs_all_def)

lemma runs_all_drop: "runs_all P k xs \<Longrightarrow> runs_all P k (drop (2 * k) xs)"
  unfolding runs_all_def
proof
  fix i assume "\<forall>i. P (take k (drop (i * k) xs))"
  from spec [OF this, of "i + 2"] show "P (take k (drop (i * k) (drop (2 * k) xs)))"
    by (simp add: mult_2 add.assoc add.commute add.left_commute)
qed

lemma runs_all_append:
  assumes "length ms = n \<or> length ms \<le> n \<and> ys = []" "P ms" "P []" "runs_all P n ys"
  shows "runs_all P n (ms @ ys)"
  unfolding runs_all_def
proof
  fix i show "P (take n (drop (i * n) (ms @ ys)))"
  proof (cases i)
    case (Suc j)
    then show ?thesis using assms spec [OF assms(4) [unfolded runs_all_def], of j] by auto
  qed (use assms in auto)
qed

lemma runs_all_singletons: "P [] \<Longrightarrow> (\<And>x. P [x]) \<Longrightarrow> runs_all P 1 xs"
  unfolding runs_all_def
proof
  fix i assume "P []" "\<And>x. P [x]"
  then show "P (take 1 (drop (i * 1) xs))" by (cases "drop i xs") simp_all
qed

lemma runs_all_whole: "runs_all P k xs \<Longrightarrow> length xs \<le> k \<Longrightarrow> P xs"
  using spec [of "\<lambda>i. P (take k (drop (i * k) xs))" 0] by (simp add: runs_all_def)

text \<open>A merged pair of runs is full, or it was the last.\<close>

lemma merged_pair:
  assumes "merges le gt (take k xs) (take k (drop k xs)) ms" "merge_runs le gt k (drop (2 * k) xs) n ys"
  shows "length ms = 2 * k \<or> length ms \<le> 2 * k \<and> ys = []"
proof (cases "length xs \<le> 2 * k")
  case True
  with assms(2) have "ys = []" by (auto elim: merge_runs.cases)
  then show ?thesis using merges_length [OF assms(1)] by (auto simp: min_def)
qed (use merges_length [OF assms(1)] in simp)

section \<open>An order given by a key: a stable sort\<close>

definition stable :: "('a \<Rightarrow> 'b) \<Rightarrow> 'a list \<Rightarrow> 'a list \<Rightarrow> bool" where
  "stable f xs ys \<longleftrightarrow> (\<forall>v. filter (\<lambda>x. f x = v) ys = filter (\<lambda>x. f x = v) xs)"

definition sorted_runs :: "('a \<Rightarrow> 'b::linorder) \<Rightarrow> nat \<Rightarrow> 'a list \<Rightarrow> bool" where
  "sorted_runs f = runs_all (\<lambda>r. sorted (map f r))"

lemma merges_sorted:
  fixes f :: "'a \<Rightarrow> 'b::linorder"
  assumes "merges le gt ps qs zs" "\<And>p q. le p q \<Longrightarrow> f p \<le> f q" "\<And>p q. gt p q \<Longrightarrow> f q < f p"
    and "sorted (map f ps)" "sorted (map f qs)"
  shows "sorted (map f zs) \<and> stable f (ps @ qs) zs"
  using assms(1,4,5)
proof (induction rule: merges.induct)
  case (take_p p q ps qs zs)
  have "set zs = set ps \<union> set (q # qs)" using merges_set [OF take_p.hyps(2)] .
  then show ?case using take_p.IH take_p.prems assms(2) [OF take_p.hyps(1)]
    by (force simp: stable_def)
next
  case (take_q p q ps qs zs)
  have less: "\<forall>x\<in>set (p # ps). f q < f x"
    using take_q.prems(1) assms(3) [OF take_q.hyps(1)] by force
  then have "filter (\<lambda>x. f x = f q) (p # ps) = []" by (auto simp: filter_empty_conv)
  moreover have "set zs = set (p # ps) \<union> set qs" using merges_set [OF take_q.hyps(2)] .
  moreover have "sorted (map f zs)" "stable f ((p # ps) @ qs) zs" using take_q by simp_all
  ultimately show ?case using less take_q.prems(2)
    by (auto simp: stable_def less_imp_le)
qed (auto simp: stable_def dest!: merges_set)

lemma merge_runs_sorted:
  fixes f :: "'a \<Rightarrow> 'b::linorder"
  assumes "merge_runs le gt k xs n ys" "\<And>p q. le p q \<Longrightarrow> f p \<le> f q" "\<And>p q. gt p q \<Longrightarrow> f q < f p"
    and "sorted_runs f k xs"
  shows "sorted_runs f (2 * k) ys \<and> stable f xs ys"
  using assms(1,4)
proof (induction rule: merge_runs.induct)
  case no_run
  then show ?case by (simp add: sorted_runs_def stable_def runs_all_def)
next
  case (next_run xs ms n ys)
  have r: "sorted (map f (take k xs))" "sorted (map f (take k (drop k xs)))"
    using runs_all_first_two [OF next_run.prems [unfolded sorted_runs_def]] by simp_all
  have IH: "sorted_runs f (2 * k) ys" "stable f (drop (2 * k) xs) ys"
    using next_run.IH runs_all_drop [OF next_run.prems [unfolded sorted_runs_def]] by (simp_all add: sorted_runs_def)
  from merges_sorted [OF next_run.hyps(2) assms(2,3) r]
  have m: "sorted (map f ms)" "stable f (take k xs @ take k (drop k xs)) ms" by simp_all
  have "stable f xs (ms @ ys)"
    using m(2) IH(2) unfolding stable_def by (metis append.assoc filter_append two_runs)
  moreover have "sorted_runs f (2 * k) (ms @ ys)"
    unfolding sorted_runs_def
    by (rule runs_all_append [OF merged_pair [OF next_run.hyps(2,3)]]) (use m(1) IH(1) in \<open>simp_all add: sorted_runs_def\<close>)
  ultimately show ?case by simp
qed

lemma sorted_runs_1: "sorted_runs f 1 xs"
  unfolding sorted_runs_def by (rule runs_all_singletons) simp_all

lemma stable_mset: "mset ys = mset xs \<Longrightarrow> sorted (map f ys) \<Longrightarrow> stable f xs ys \<Longrightarrow> ys = sort_key f xs"
  by (rule properties_for_sort_key [symmetric]) (simp_all add: stable_def eq_commute)

lemma bottom_up_sort_key:
  fixes f :: "'a \<Rightarrow> 'b::linorder"
  assumes "bottom_up le gt k xs zs" "\<And>p q. le p q \<Longrightarrow> f p \<le> f q" "\<And>p q. gt p q \<Longrightarrow> f q < f p"
    and "sorted_runs f k xs"
  shows "zs = sort_key f xs"
proof -
  have "sorted (map f zs) \<and> stable f xs zs"
    using assms(1,4)
  proof (induction rule: bottom_up.induct)
    case (last_pass k xs n ys)
    have "length ys \<le> 2 * k"
      using merge_runs_one [OF last_pass.hyps] merge_runs_mset [OF last_pass.hyps(1)] mset_eq_length by metis
    then show ?case using merge_runs_sorted [OF last_pass.hyps(1) assms(2,3) last_pass.prems]
      by (auto simp: sorted_runs_def dest: runs_all_whole)
  next
    case (more_passes k xs n ys zs)
    then show ?case using merge_runs_sorted [OF more_passes.hyps(1) assms(2,3) more_passes.prems]
      by (simp add: stable_def)
  qed
  then show ?thesis using stable_mset bottom_up_mset [OF assms(1)] by blast
qed

end
