(* ===== verification/Coremark_Sort.thy ===== *)
theory Coremark_Sort
  imports Coremark_List Merge_Spec
begin

text \<open>
  The merge sort of \<open>core_list_join.c\<close> implements the bottom-up merge sort of
  \<open>Merge_Spec\<close> on the nodes of a list: it returns, rearranges the nodes by their \<open>next\<close>
  fields alone, and touches no node outside the list.
\<close>

section \<open>Lists in the heap\<close>

text \<open>\<open>lseg n p xs z\<close>: following \<open>n\<close> from \<open>p\<close> visits the nodes \<open>xs\<close> and then stands at \<open>z\<close>.\<close>

primrec lseg :: "(ptr \<Rightarrow> ptr) \<Rightarrow> ptr \<Rightarrow> ptr list \<Rightarrow> ptr \<Rightarrow> bool" where
  "lseg n p [] z = (p = z)"
| "lseg n p (x # xs) z = (p = x \<and> x \<noteq> 0 \<and> lseg n (n x) xs z)"

primrec path :: "(ptr \<Rightarrow> ptr) \<Rightarrow> ptr \<Rightarrow> ptr list \<Rightarrow> bool" where
  "path n p [] = True"
| "path n p (x # xs) = (p = x \<and> x \<noteq> 0 \<and> path n (n x) xs)"

lemma lseg_append: "lseg n p (xs @ ys) z \<longleftrightarrow> (\<exists>m. lseg n p xs m \<and> lseg n m ys z)"
  by (induction xs arbitrary: p) auto

lemma lseg_cong: "(\<And>x. x \<in> set xs \<Longrightarrow> n' x = n x) \<Longrightarrow> lseg n' p xs z = lseg n p xs z"
  by (induction xs arbitrary: p) auto

lemma path_cong: "(\<And>x. x \<in> set xs \<Longrightarrow> n' x = n x) \<Longrightarrow> path n' p xs = path n p xs"
  by (induction xs arbitrary: p) auto

lemma lseg_nonzero: "lseg n p xs z \<Longrightarrow> 0 \<notin> set xs"
  by (induction xs arbitrary: p) auto

lemma lseg_path: "lseg n p xs z \<Longrightarrow> path n p (take k xs)"
  by (induction xs arbitrary: p k) (auto simp: take_Cons split: nat.split)

lemma lseg_head: "lseg n p xs 0 \<Longrightarrow> (p = 0) = (xs = [])"
  by (cases xs) auto

lemma lseg_unique: "lseg n p xs 0 \<Longrightarrow> lseg n p ys 0 \<Longrightarrow> xs = ys"
proof (induction xs arbitrary: p ys)
  case Nil
  then show ?case by (cases ys) auto
next
  case (Cons x xs)
  then show ?case by (cases ys) auto
qed

lemma lseg_distinct: "lseg n p xs 0 \<Longrightarrow> distinct xs"
proof (induction xs arbitrary: p)
  case (Cons x xs)
  have "x \<notin> set xs"
  proof
    assume "x \<in> set xs"
    then obtain us vs where "xs = us @ x # vs" by (blast dest: split_list)
    with Cons.prems have "lseg n x (x # vs) 0" by (auto simp: lseg_append)
    with Cons.prems have "x # vs = x # xs" using lseg_unique [of n x "x # vs" "x # xs"] by simp
    with \<open>xs = us @ x # vs\<close> show False by (auto dest: arg_cong [where f = length])
  qed
  with Cons show ?case by auto
qed simp

text \<open>A list under construction: its last node is \<open>tail\<close>, whose \<open>next\<close> is not yet set.\<close>

definition front :: "(ptr \<Rightarrow> ptr) \<Rightarrow> ptr \<Rightarrow> ptr list \<Rightarrow> ptr \<Rightarrow> bool" where
  "front n list ms tail \<longleftrightarrow>
     (if ms = [] then tail = 0 else tail \<noteq> 0 \<and> (\<exists>us. ms = us @ [tail] \<and> lseg n list us tail))"

lemma front_cong:
  assumes "\<And>x. x \<in> set ms \<Longrightarrow> n' x = n x" "front n list ms tail"
  shows "front n' list ms tail"
proof (cases "ms = []")
  case False
  with assms(2) obtain us where us: "ms = us @ [tail]" "tail \<noteq> 0" "lseg n list us tail"
    by (auto simp: front_def)
  have "lseg n' list us tail = lseg n list us tail" by (rule lseg_cong) (simp add: assms(1) us(1))
  with us show ?thesis by (simp add: front_def)
qed (use assms(2) in \<open>simp add: front_def\<close>)

lemma front_close:
  assumes "front n list ms tail" "ms \<noteq> []" "distinct ms"
  shows "tail \<noteq> 0 \<and> tail \<in> set ms \<and> lseg (n(tail := v)) list ms v"
proof -
  obtain us where us: "ms = us @ [tail]" "tail \<noteq> 0" "lseg n list us tail"
    using assms(1,2) by (auto simp: front_def)
  have "lseg (n(tail := v)) list us tail = lseg n list us tail"
    by (rule lseg_cong) (use assms(3) us(1) in auto)
  with us show ?thesis by (simp add: lseg_append)
qed

lemma link_front:
  assumes "front (next_of s) list ms tail" "distinct ms" "e \<noteq> 0"
  shows "\<exists>l n. link list tail e s = Some (l, s\<lparr>next_of := n\<rparr>) \<and> front n l (ms @ [e]) e
    \<and> (\<forall>x. x \<notin> set ms \<longrightarrow> n x = next_of s x)"
proof (cases "ms = []")
  case True
  with assms have "link list tail e s = Some (e, s\<lparr>next_of := next_of s\<rparr>)" by (simp add: front_def link_def)
  with True assms show ?thesis
    by (intro exI [of _ e] exI [of _ "next_of s"]) (simp add: front_def)
next
  case False
  from front_close [OF assms(1) False assms(2), of e]
  have t: "tail \<noteq> 0" "tail \<in> set ms" "lseg ((next_of s)(tail := e)) list ms e" by simp_all
  then have "link list tail e s = Some (list, s\<lparr>next_of := (next_of s)(tail := e)\<rparr>)"
    by (simp add: link_def set_next_def)
  with t assms(3) show ?thesis
    by (intro exI [of _ list] exI [of _ "(next_of s)(tail := e)"]) (auto simp: front_def)
qed

section \<open>The sort of any comparison\<close>

text \<open>What the sort relies on: for the data of list items the comparison returns, and leaves
  the \<open>next\<close> and \<open>info\<close> fields alone.  \<open>seen\<close> are the data items the comparison has worked on.\<close>

locale comparator =
  fixes cmp :: list_cmp and ok :: "coremark \<Rightarrow> bool" and data_of :: "ptr \<Rightarrow> ptr" and D :: "ptr set"
    and le :: "ptr \<Rightarrow> ptr \<Rightarrow> bool" and gt :: "ptr \<Rightarrow> ptr \<Rightarrow> bool" and seen :: "coremark \<Rightarrow> ptr set"
  assumes ok_info: "ok s \<Longrightarrow> info_of s = data_of"
    and ok_next: "ok s \<Longrightarrow> ok (s\<lparr>next_of := n\<rparr>)"
    and seen_next: "seen (s\<lparr>next_of := n\<rparr>) = seen s"
    and cmp_returns: "ok s \<Longrightarrow> a \<in> D \<Longrightarrow> b \<in> D \<Longrightarrow>
      \<exists>r s'. cmp a b s = Some (r, s') \<and> (if r \<le> 0 then le a b else gt a b) \<and> ok s'
        \<and> next_of s' = next_of s \<and> {a, b} \<union> seen s \<subseteq> seen s'"
begin

abbreviation "node_le x y \<equiv> le (data_of x) (data_of y)"
abbreviation "node_gt x y \<equiv> gt (data_of x) (data_of y)"

lemma from_p_cases:
  assumes "ok s" "p \<noteq> 0" "data_of p \<in> D" "q \<noteq> 0" "data_of q \<in> D"
  obtains b s' where "from_p cmp p q (Suc m) (Suc n) s = Some (b, s')" "if b then node_le p q else node_gt p q"
    "ok s'" "next_of s' = next_of s" "{data_of p, data_of q} \<union> seen s \<subseteq> seen s'"
proof -
  obtain r s' where "cmp (data_of p) (data_of q) s = Some (r, s')" "if r \<le> 0 then node_le p q else node_gt p q"
    "ok s'" "next_of s' = next_of s" "{data_of p, data_of q} \<union> seen s \<subseteq> seen s'"
    using cmp_returns [OF assms(1,3,5)] by blast
  with assms that [of "r \<le> 0" s'] show thesis by (simp add: from_p_def get_info_def ok_info)
qed

text \<open>One element linked to the merged list, from either run.\<close>

lemma link_ok:
  assumes "ok s" "front (next_of s) list ms tail" "distinct (ms @ e # rest)" "e \<noteq> 0"
  obtains l s' where "link list tail e s = Some (l, s')" "ok s'" "front (next_of s') l (ms @ [e]) e"
    "\<And>x. x \<notin> set ms \<Longrightarrow> next_of s' x = next_of s x" "seen s' = seen s"
proof -
  obtain l n where "link list tail e s = Some (l, s\<lparr>next_of := n\<rparr>)" "front n l (ms @ [e]) e"
    "\<forall>x. x \<notin> set ms \<longrightarrow> n x = next_of s x"
    using link_front [OF assms(2) _ assms(4)] assms(3) by auto
  then show thesis using that [of l "s\<lparr>next_of := n\<rparr>"] assms(1) by (simp add: ok_next seen_next)
qed

text \<open>The state of a merge: \<open>ps\<close> and \<open>ys\<close> are still to be merged, \<open>ms\<close> already is.\<close>

definition merging :: "coremark \<Rightarrow> ptr \<Rightarrow> ptr list \<Rightarrow> ptr \<Rightarrow> ptr list \<Rightarrow> ptr \<Rightarrow> ptr list \<Rightarrow> ptr \<Rightarrow> bool" where
  "merging s p ps q ys list ms tail \<longleftrightarrow> ok s \<and> path (next_of s) p ps \<and> lseg (next_of s) q ys 0
     \<and> front (next_of s) list ms tail \<and> distinct (ms @ ps @ ys) \<and> data_of ` (set ps \<union> set ys) \<subseteq> D"

lemma merging_p:
  assumes "merging s p (x # ps) q ys list ms tail"
  obtains l s' where "link list tail x s = Some (l, s')" "merging s' (next_of s x) ps q ys l (ms @ [x]) x"
    "\<And>x. x \<notin> set ms \<Longrightarrow> next_of s' x = next_of s x" "seen s' = seen s" "p = x" "x \<noteq> 0"
proof -
  from assms have a: "ok s" "front (next_of s) list ms tail" "distinct (ms @ x # ps @ ys)" "x \<noteq> 0" "p = x"
      "path (next_of s) (next_of s x) ps" "lseg (next_of s) q ys 0" "data_of ` (set ps \<union> set ys) \<subseteq> D"
    by (auto simp: merging_def)
  obtain l s' where l: "link list tail x s = Some (l, s')" "ok s'" "front (next_of s') l (ms @ [x]) x"
    "\<And>x. x \<notin> set ms \<Longrightarrow> next_of s' x = next_of s x" "seen s' = seen s"
    using link_ok [OF a(1-4)] by blast
  have "path (next_of s') (next_of s x) ps = path (next_of s) (next_of s x) ps"
    by (rule path_cong) (use a(3) l(4) in auto)
  moreover have "lseg (next_of s') q ys 0 = lseg (next_of s) q ys 0"
    by (rule lseg_cong) (use a(3) l(4) in auto)
  ultimately show thesis using a l that [of l s'] by (auto simp: merging_def)
qed

lemma merging_q:
  assumes "merging s p ps q (y # ys) list ms tail"
  obtains l s' where "link list tail y s = Some (l, s')" "merging s' p ps (next_of s y) ys l (ms @ [y]) y"
    "\<And>x. x \<notin> set ms \<Longrightarrow> next_of s' x = next_of s x" "seen s' = seen s" "q = y" "y \<noteq> 0"
proof -
  from assms have a: "ok s" "front (next_of s) list ms tail" "distinct (ms @ y # ps @ ys)" "y \<noteq> 0" "q = y"
      "path (next_of s) p ps" "lseg (next_of s) (next_of s y) ys 0" "data_of ` (set ps \<union> set ys) \<subseteq> D"
    by (auto simp: merging_def)
  obtain l s' where l: "link list tail y s = Some (l, s')" "ok s'" "front (next_of s') l (ms @ [y]) y"
    "\<And>x. x \<notin> set ms \<Longrightarrow> next_of s' x = next_of s x" "seen s' = seen s"
    using link_ok [OF a(1-4)] by blast
  have "path (next_of s') p ps = path (next_of s) p ps"
    by (rule path_cong) (use a(3) l(4) in auto)
  moreover have "lseg (next_of s') (next_of s y) ys 0 = lseg (next_of s) (next_of s y) ys 0"
    by (rule lseg_cong) (use a(3) l(4) in auto)
  ultimately show thesis using a l that [of l s'] by (auto simp: merging_def)
qed

lemma merging_state: "merging s p ps q ys list ms tail \<Longrightarrow> ok s' \<Longrightarrow> next_of s' = next_of s \<Longrightarrow>
    merging s' p ps q ys list ms tail"
  by (simp add: merging_def)

text \<open>What the merge loop leaves.\<close>

definition merge_post :: "coremark \<Rightarrow> ptr list \<Rightarrow> ptr list \<Rightarrow> ptr list \<Rightarrow> nat \<Rightarrow> ptr \<times> ptr \<times> ptr \<times> coremark \<Rightarrow> bool" where
  "merge_post s ps ys ms qsize r \<longleftrightarrow> (case r of (q', list', tail', s') \<Rightarrow>
     (\<exists>zs. merges node_le node_gt ps (take qsize ys) zs \<and> merging s' 0 [] q' (drop qsize ys) list' (ms @ zs) tail')
     \<and> (\<forall>x. x \<notin> set ms \<union> set ps \<union> set (take qsize ys) \<longrightarrow> next_of s' x = next_of s x)
     \<and> seen s \<subseteq> seen s' \<and> (ps \<noteq> [] \<and> take qsize ys \<noteq> [] \<longrightarrow> {data_of (hd ps), data_of (hd ys)} \<subseteq> seen s'))"

lemma merge_post_p:
  assumes "merge_post s' ps ys (ms @ [x]) qsize r" "\<And>y. y \<notin> set ms \<Longrightarrow> next_of s' y = next_of s y" "seen s \<subseteq> seen s'"
    and "take qsize ys = [] \<or> node_le x (hd ys) \<and> {data_of x, data_of (hd ys)} \<subseteq> seen s'"
  shows "merge_post s (x # ps) ys ms qsize r"
proof -
  obtain q' list' tail' t where r: "r = (q', list', tail', t)" by (cases r)
  from assms(1) obtain zs where "merges node_le node_gt ps (take qsize ys) zs"
    "merging t 0 [] q' (drop qsize ys) list' (ms @ x # zs) tail'" by (auto simp: merge_post_def r)
  moreover from this(1) have "merges node_le node_gt (x # ps) (take qsize ys) (x # zs)"
    using assms(4) by (cases qsize; cases ys) (auto intro: merges.intros)
  ultimately have "\<exists>zs. merges node_le node_gt (x # ps) (take qsize ys) zs
    \<and> merging t 0 [] q' (drop qsize ys) list' (ms @ zs) tail'" by blast
  then show ?thesis using assms by (auto simp: merge_post_def r)
qed

lemma merge_post_q:
  assumes "merge_post s' ps ys (ms @ [y]) k r" "\<And>x. x \<notin> set ms \<Longrightarrow> next_of s' x = next_of s x" "seen s \<subseteq> seen s'"
    and "ps = [] \<or> node_gt (hd ps) y \<and> {data_of (hd ps), data_of y} \<subseteq> seen s'"
  shows "merge_post s ps (y # ys) ms (Suc k) r"
proof -
  obtain q' list' tail' t where r: "r = (q', list', tail', t)" by (cases r)
  from assms(1) obtain zs where "merges node_le node_gt ps (take k ys) zs"
    "merging t 0 [] q' (drop k ys) list' (ms @ y # zs) tail'" by (auto simp: merge_post_def r)
  moreover from this(1) have "merges node_le node_gt ps (y # take k ys) (y # zs)"
    using assms(4) by (cases ps) (auto intro: merges.intros)
  ultimately have "\<exists>zs. merges node_le node_gt ps (y # take k ys) zs
    \<and> merging t 0 [] q' (drop k ys) list' (ms @ zs) tail'" by blast
  then show ?thesis using assms by (auto simp: merge_post_def r)
qed

lemma merge_loop_merges:
  assumes "merging s p ps q ys list ms tail" "psize = length ps"
  shows "\<exists>r. merge_loop cmp p q psize qsize list tail s = Some r \<and> merge_post s ps ys ms qsize r"
  using assms
proof (induction "length ps + length (take qsize ys)" arbitrary: s p ps q ys list ms tail psize qsize rule: less_induct)
  case less
  note m = less.prems(1) and psize = less.prems(2)
  have ok: "ok s" and q0: "(q = 0) = (ys = [])"
    using m lseg_head by (auto simp: merging_def)
  have link_p: ?case
    if "from_p cmp p q psize qsize s = Some (True, t)" "ok t" "next_of t = next_of s" "seen s \<subseteq> seen t"
      "ps = x # ps'" "take qsize ys = [] \<or> node_le x (hd ys) \<and> {data_of x, data_of (hd ys)} \<subseteq> seen t" for t x ps'
  proof -
    from merging_state [OF m that(2,3)] that(5) have "merging t p (x # ps') q ys list ms tail" by simp
    from merging_p [OF this] obtain l s' where l: "link list tail x t = Some (l, s')"
      "merging s' (next_of t x) ps' q ys l (ms @ [x]) x" "\<And>x. x \<notin> set ms \<Longrightarrow> next_of s' x = next_of t x"
      "seen s' = seen t" "p = x" "x \<noteq> 0" by blast
    from less.hyps [OF _ l(2) refl, of qsize] that(5) obtain r where r:
      "merge_loop cmp (next_of t x) q (length ps') qsize l x s' = Some r" "merge_post s' ps' ys (ms @ [x]) qsize r"
      by auto
    have "merge_loop cmp p q psize qsize list tail s = Some r"
      using that(1,5) l(1,5,6) psize r(1) by (subst merge_loop.simps) (simp add: get_next_def)
    moreover have "merge_post s ps ys ms qsize r"
      unfolding that(5) by (rule merge_post_p [OF r(2)]) (use that l in auto)
    ultimately show ?thesis by blast
  qed
  have link_q: ?case
    if "from_p cmp p q psize qsize s = Some (False, t)" "ok t" "next_of t = next_of s" "seen s \<subseteq> seen t"
      "ys = y # ys'" "qsize = Suc k" "ps = [] \<or> node_gt (hd ps) y \<and> {data_of (hd ps), data_of y} \<subseteq> seen t" for t y ys' k
  proof -
    from merging_state [OF m that(2,3)] that(5) have "merging t p ps q (y # ys') list ms tail" by simp
    from merging_q [OF this] obtain l s' where l: "link list tail y t = Some (l, s')"
      "merging s' p ps (next_of t y) ys' l (ms @ [y]) y" "\<And>x. x \<notin> set ms \<Longrightarrow> next_of s' x = next_of t x"
      "seen s' = seen t" "q = y" "y \<noteq> 0" by blast
    from less.hyps [OF _ l(2) psize, of k] that(5,6) obtain r where r:
      "merge_loop cmp p (next_of t y) psize k l y s' = Some r" "merge_post s' ps ys' (ms @ [y]) k r"
      by auto
    have "merge_loop cmp p q psize qsize list tail s = Some r"
      using that(1,6) l(1,5,6) r(1) by (subst merge_loop.simps) (simp add: get_next_def)
    moreover have "merge_post s ps ys ms qsize r"
      unfolding that(5,6) by (rule merge_post_q [OF r(2)]) (use that l in auto)
    ultimately show ?thesis by blast
  qed
  consider "ps = []" "qsize = 0 \<or> ys = []" | y ys' k where "ps = []" "ys = y # ys'" "qsize = Suc k"
    | x ps' where "ps = x # ps'" "qsize = 0 \<or> ys = []" | x ps' y ys' k where "ps = x # ps'" "ys = y # ys'" "qsize = Suc k"
    by (metis not0_implies_Suc neq_Nil_conv)
  then show ?case
  proof cases
    case 1
    then have "merge_loop cmp p q psize qsize list tail s = Some (q, list, tail, s)"
      using psize q0 by (subst merge_loop.simps) auto
    moreover have "merge_post s ps ys ms qsize (q, list, tail, s)"
      using 1 m by (auto simp: merge_post_def merging_def intro!: exI [of _ "[]"] merges.intros)
    ultimately show ?thesis by blast
  next
    case 2
    then show ?thesis using link_q [of s] ok psize by (simp add: from_p_def)
  next
    case 3
    then show ?thesis using link_p [of s] ok psize q0 by (auto simp: from_p_def)
  next
    case 4
    have "p = x" "x \<noteq> 0" "data_of x \<in> D" "q = y" "y \<noteq> 0" "data_of y \<in> D"
      using m 4 by (auto simp: merging_def)
    then obtain b t where "from_p cmp p q psize qsize s = Some (b, t)" "if b then node_le x y else node_gt x y"
      "ok t" "next_of t = next_of s" "{data_of x, data_of y} \<union> seen s \<subseteq> seen t"
      using from_p_cases [OF ok, of p q "length ps'" k] 4 psize by auto
    then show ?thesis using link_p [of t] link_q [of t] 4 by (cases b) auto
  qed
qed

lemma step_along_run:
  "lseg (next_of s) q xs 0 \<Longrightarrow> xs \<noteq> [] \<Longrightarrow>
   \<exists>q'. step_along k q c s = Some (q', c + min k (length xs)) \<and> lseg (next_of s) q' (drop k xs) 0"
proof (induction k arbitrary: q xs c)
  case (Suc k)
  then obtain x xs' where xs: "xs = x # xs'" "q = x" "x \<noteq> 0" "lseg (next_of s) (next_of s x) xs' 0"
    by (cases xs) auto
  show ?case
  proof (cases "xs' = []")
    case True
    then show ?thesis using xs by (simp add: get_next_def)
  next
    case False
    then have "next_of s x \<noteq> 0" using lseg_head [OF xs(4)] by simp
    with Suc.IH [OF xs(4) False, of "c + 1"] show ?thesis using xs by (auto simp: get_next_def)
  qed
qed simp

text \<open>All data of a run of two or more has been worked on.\<close>

definition worked :: "ptr set \<Rightarrow> ptr list \<Rightarrow> bool" where
  "worked S r \<longleftrightarrow> (2 \<le> length r \<longrightarrow> data_of ` set r \<subseteq> S)"

lemma worked_mono: "worked S r \<Longrightarrow> S \<subseteq> T \<Longrightarrow> worked T r"
  by (auto simp: worked_def)

lemma worked_merge:
  assumes "merges node_le node_gt ps qs zs" "worked S ps" "worked S qs" "S \<subseteq> T" "ps \<noteq> []"
    and "ps \<noteq> [] \<and> qs \<noteq> [] \<longrightarrow> {data_of (hd ps), data_of (hd qs)} \<subseteq> T"
  shows "worked T zs"
proof (cases "qs = []")
  case True
  with assms show ?thesis using merges_set [OF assms(1)] merges_length [OF assms(1)] by (auto simp: worked_def)
next
  case False
  have "data_of ` set r \<subseteq> T" if "worked S r" "r \<noteq> []" "data_of (hd r) \<in> T" for r
  proof (cases "length r < 2")
    case True
    with that(2) have "r = [hd r]" by (cases r) auto
    with that(3) show ?thesis by (metis empty_subsetI image_empty image_insert insert_subset list.set(1) list.simps(15))
  qed (use that assms(4) in \<open>auto simp: worked_def\<close>)
  with assms False have "data_of ` set ps \<subseteq> T" "data_of ` set qs \<subseteq> T" by auto
  with merges_set [OF assms(1)] show ?thesis by (auto simp: worked_def)
qed

text \<open>What a pass leaves.\<close>

definition pass_post :: "nat \<Rightarrow> coremark \<Rightarrow> ptr list \<Rightarrow> ptr list \<Rightarrow> ptr \<Rightarrow> ptr \<Rightarrow> nat \<Rightarrow> coremark \<Rightarrow> ptr list \<Rightarrow> bool" where
  "pass_post k s xs ms list' tail' n s' ys \<longleftrightarrow>
     merge_runs node_le node_gt k xs n ys \<and> ok s' \<and> front (next_of s') list' (ms @ ys) tail'
     \<and> (\<forall>x. x \<notin> set ms \<union> set xs \<longrightarrow> next_of s' x = next_of s x) \<and> seen s \<subseteq> seen s'
     \<and> (runs_all (worked (seen s)) k xs \<longrightarrow> runs_all (worked (seen s')) (2 * k) ys)"

lemma merge_pass_runs:
  assumes "ok s" "lseg (next_of s) p xs 0" "front (next_of s) list ms tail" "distinct (ms @ xs)"
    and "data_of ` set xs \<subseteq> D" "0 < k"
  shows "\<exists>list' tail' n s' ys. merge_pass cmp k p list tail c s = Some (list', tail', c + n, s')
     \<and> pass_post k s xs ms list' tail' n s' ys"
  using assms(1-5)
proof (induction "length xs" arbitrary: s p xs list ms tail c rule: less_induct)
  case less
  note ok = less.prems(1) and xs = less.prems(2) and fr = less.prems(3) and dist = less.prems(4) and sub = less.prems(5)
  show ?case
  proof (cases "xs = []")
    case True
    then have "merge_pass cmp k p list tail c s = Some (list, tail, c + 0, s)"
      using xs by (subst merge_pass.simps) simp
    moreover have "pass_post k s xs ms list tail 0 s []"
      using True ok fr by (simp add: pass_post_def merge_runs.no_run runs_all_def worked_def)
    ultimately show ?thesis by blast
  next
    case False
    then have p: "p \<noteq> 0" using lseg_head [OF xs] by simp
    let ?ps = "take k xs" and ?ys = "drop k xs"
    obtain q where q: "step_along k p 0 s = Some (q, min k (length xs))" "lseg (next_of s) q ?ys 0"
      using step_along_run [OF xs False, of k 0] by auto
    have parts: "set xs = set ?ps \<union> set ?ys" by (metis append_take_drop_id set_append)
    have "distinct (ms @ ?ps @ ?ys)" using dist by simp
    with parts have "merging s p ?ps q ?ys list ms tail"
      using ok lseg_path [OF xs] q(2) fr sub by (simp add: merging_def)
    from merge_loop_merges [OF this, of "min k (length xs)" k] obtain q1 l1 t1 s1 where
      m: "merge_loop cmp p q (min k (length xs)) k list tail s = Some (q1, l1, t1, s1)"
      "merge_post s ?ps ?ys ms k (q1, l1, t1, s1)" by (auto simp: min.commute)
    then obtain zs where zs: "merges node_le node_gt ?ps (take k ?ys) zs"
      "merging s1 0 [] q1 (drop k ?ys) l1 (ms @ zs) t1" by (auto simp: merge_post_def)
    let ?rest = "drop (2 * k) xs"
    have rest: "drop k ?ys = ?rest" by (simp add: mult_2)
    have shorter: "length ?rest < length xs" using False assms(6) by simp
    have z: "ok s1" "lseg (next_of s1) q1 ?rest 0" "front (next_of s1) l1 (ms @ zs) t1"
        "distinct ((ms @ zs) @ ?rest)" "data_of ` set ?rest \<subseteq> D"
      using zs(2) unfolding merging_def rest by auto
    obtain list' tail' n s' ys where r:
      "merge_pass cmp k q1 l1 t1 (c + 1) s1 = Some (list', tail', c + 1 + n, s')"
      "pass_post k s1 ?rest (ms @ zs) list' tail' n s' ys"
      using less.hyps [OF shorter z] by blast
    have "merge_pass cmp k p list tail c s = Some (list', tail', c + Suc n, s')"
      using p q(1) m(1) r(1) by (subst merge_pass.simps) simp
    moreover have "pass_post k s xs ms list' tail' (Suc n) s' (zs @ ys)"
    proof -
      have set_zs: "set zs = set ?ps \<union> set (take k ?ys)" by (rule merges_set [OF zs(1)])
      have in_xs: "set ?ps \<union> set (take k ?ys) \<union> set ?rest \<subseteq> set xs"
        by (meson Un_least order_trans set_drop_subset set_take_subset)
      have runs: "merge_runs node_le node_gt k ?rest n ys" and mono: "seen s \<subseteq> seen s1" "seen s1 \<subseteq> seen s'"
        using r(2) m(2) by (auto simp: pass_post_def merge_post_def)
      have "runs_all (worked (seen s')) (2 * k) (zs @ ys)" if "runs_all (worked (seen s)) k xs"
      proof (rule runs_all_append [OF merged_pair [OF zs(1) runs]])
        have "worked (seen s1) zs"
          using m(2) runs_all_first_two [OF that] False assms(6)
          by (intro worked_merge [OF zs(1) _ _ mono(1)]) (auto simp: merge_post_def)
        then show "worked (seen s') zs" using mono(2) by (rule worked_mono)
        have "runs_all (worked (seen s1)) k ?rest"
          using runs_all_drop [OF that] worked_mono [OF _ mono(1)] runs_all_mono by blast
        then show "runs_all (worked (seen s')) (2 * k) ys" using r(2) by (simp add: pass_post_def)
      qed (simp add: worked_def)
      then show ?thesis
        using r(2) m(2) set_zs in_xs merge_runs.next_run [OF False zs(1) runs] mono
        unfolding pass_post_def merge_post_def by auto
    qed
    ultimately show ?thesis by blast
  qed
qed

text \<open>The whole sort.\<close>

definition sort_post :: "nat \<Rightarrow> coremark \<Rightarrow> ptr list \<Rightarrow> ptr \<Rightarrow> coremark \<Rightarrow> ptr list \<Rightarrow> bool" where
  "sort_post k s xs list' s' zs \<longleftrightarrow>
     bottom_up node_le node_gt k xs zs \<and> ok s' \<and> lseg (next_of s') list' zs 0
     \<and> (\<forall>x. x \<notin> set xs \<longrightarrow> next_of s' x = next_of s x) \<and> seen s \<subseteq> seen s'
     \<and> (runs_all (worked (seen s)) k xs \<longrightarrow> worked (seen s') zs)"

lemma sort_loop_bottom_up:
  assumes "ok s" "lseg (next_of s) list xs 0" "xs \<noteq> []" "data_of ` set xs \<subseteq> D" "0 < k"
  shows "\<exists>list' s' zs. sort_loop cmp k list s = Some (list', s') \<and> sort_post k s xs list' s' zs"
  using assms
proof (induction "length xs - k" arbitrary: s list xs k rule: less_induct)
  case less
  note ok = less.prems(1) and xs = less.prems(2) and ne = less.prems(3) and sub = less.prems(4) and k = less.prems(5)
  have dist: "distinct xs" by (rule lseg_distinct [OF xs])
  obtain l1 t1 n s1 ys where m: "merge_pass cmp k list 0 0 0 s = Some (l1, t1, n, s1)"
    "pass_post k s xs [] l1 t1 n s1 ys"
    using merge_pass_runs [OF ok xs _ _ sub k, of 0 "[]" 0 0] dist by (auto simp: front_def)
  have runs: "merge_runs node_le node_gt k xs n ys" and ok1: "ok s1" and fr: "front (next_of s1) l1 ys t1"
    and frame: "\<forall>x. x \<notin> set xs \<longrightarrow> next_of s1 x = next_of s x" and mono: "seen s \<subseteq> seen s1"
    and work: "runs_all (worked (seen s)) k xs \<longrightarrow> runs_all (worked (seen s1)) (2 * k) ys"
    using m(2) by (simp_all add: pass_post_def)
  have ys: "mset ys = mset xs" by (rule merge_runs_mset [OF runs])
  then have ys': "set ys = set xs" "length ys = length xs" "distinct ys" "ys \<noteq> []"
    using dist ne mset_eq_setD [OF ys] mset_eq_length [OF ys] mset_eq_imp_distinct_iff [OF ys] by auto
  let ?s2 = "s1\<lparr>next_of := (next_of s1)(t1 := 0)\<rparr>"
  have t: "t1 \<noteq> 0" "t1 \<in> set xs" "lseg (next_of ?s2) l1 ys 0"
    using front_close [OF fr ys'(4,3), of 0] ys'(1) by simp_all
  then have step: "sort_loop cmp k list s = (if n \<le> 1 then Some (l1, ?s2) else sort_loop cmp (k * 2) l1 ?s2)"
    using m(1) by (subst sort_loop.simps) (simp add: set_next_def)
  show ?case
  proof (cases "n \<le> 1")
    case True
    have "worked (seen s1) ys" if "runs_all (worked (seen s)) k xs"
      using runs_all_whole [of _ "2 * k" ys] work that merge_runs_one [OF runs True] ys'(2) by simp
    then have "sort_post k s xs l1 ?s2 ys"
      using True runs ok1 frame mono t by (auto simp: sort_post_def ok_next seen_next intro: last_pass)
    with step True show ?thesis by auto
  next
    case False
    have "k < length xs" using merge_runs_short [OF runs] False k by linarith
    then have "length ys - k * 2 < length xs - k" using k ys'(2) by linarith
    from less.hyps [OF this, of ?s2 l1] obtain list' s' zs where
      r: "sort_loop cmp (k * 2) l1 ?s2 = Some (list', s')" "sort_post (k * 2) ?s2 ys list' s' zs"
      using ok1 t(3) ys' sub k by (auto simp: ok_next)
    have "sort_post k s xs list' s' zs"
      using r(2) runs False frame t(2) ys'(1) mono work
      by (auto simp: sort_post_def seen_next mult.commute intro: more_passes)
    with step r(1) False show ?thesis by auto
  qed
qed

lemma core_list_mergesort_bottom_up:
  assumes "ok s" "lseg (next_of s) list xs 0" "xs \<noteq> []" "data_of ` set xs \<subseteq> D"
  shows "\<exists>list' s' zs. core_list_mergesort cmp list s = Some (list', s')
     \<and> bottom_up node_le node_gt 1 xs zs \<and> ok s' \<and> lseg (next_of s') list' zs 0
     \<and> (\<forall>x. x \<notin> set xs \<longrightarrow> next_of s' x = next_of s x) \<and> (2 \<le> length xs \<longrightarrow> data_of ` set xs \<subseteq> seen s')"
proof -
  obtain list' s' zs where r: "sort_loop cmp 1 list s = Some (list', s')" "sort_post 1 s xs list' s' zs"
    using sort_loop_bottom_up [OF assms, of 1] by auto
  have "runs_all (worked (seen s)) 1 xs" by (rule runs_all_singletons) (simp_all add: worked_def)
  moreover have "mset zs = mset xs" using r(2) bottom_up_mset by (auto simp: sort_post_def)
  then have "set zs = set xs" "length zs = length xs" by (rule mset_eq_setD, rule mset_eq_length)
  ultimately show ?thesis using r by (auto simp: sort_post_def worked_def core_list_mergesort_def)
qed

end

text \<open>A comparison that orders the data by a key.\<close>

locale key_comparator = comparator +
  fixes key :: "ptr \<Rightarrow> int"
  assumes le_key: "le a b \<Longrightarrow> key a \<le> key b" and gt_key: "gt a b \<Longrightarrow> key b < key a"
begin

lemma core_list_mergesort_sorts:
  assumes "ok s" "lseg (next_of s) list xs 0" "xs \<noteq> []" "data_of ` set xs \<subseteq> D"
  shows "\<exists>list' s'. core_list_mergesort cmp list s = Some (list', s') \<and> ok s'
     \<and> lseg (next_of s') list' (sort_key (\<lambda>p. key (data_of p)) xs) 0
     \<and> (\<forall>x. x \<notin> set xs \<longrightarrow> next_of s' x = next_of s x) \<and> (2 \<le> length xs \<longrightarrow> data_of ` set xs \<subseteq> seen s')"
proof -
  obtain list' s' zs where r: "core_list_mergesort cmp list s = Some (list', s')" "ok s'"
    "bottom_up node_le node_gt 1 xs zs" "lseg (next_of s') list' zs 0"
    "\<forall>x. x \<notin> set xs \<longrightarrow> next_of s' x = next_of s x" "2 \<le> length xs \<longrightarrow> data_of ` set xs \<subseteq> seen s'"
    using core_list_mergesort_bottom_up [OF assms] by auto
  have "zs = sort_key (\<lambda>p. key (data_of p)) xs"
    by (rule bottom_up_sort_key [OF r(3)]) (use le_key gt_key sorted_runs_1 in auto)
  with r show ?thesis by auto
qed

end

text \<open>The empty list has no defined result: \<open>tail\<close> is still \<open>NULL\<close> when its link is cleared.\<close>

lemma mergesort_empty: "core_list_mergesort cmp 0 s = None"
  by (simp add: core_list_mergesort_def sort_loop.simps [of cmp "Suc 0" 0] merge_pass.simps [of cmp "Suc 0" 0] set_next_def)

end
