(* ===== verification/Coremark_Bench.thy ===== *)
theory Coremark_Bench
  imports Coremark_Sort
begin

text \<open>
  What the comparisons of \<open>core_list_join.c\<close> promise the merge sort, and the list
  benchmark as a whole: it leaves the list, the data, the matrices and the state
  block as it found them, so that every iteration does the same work.
\<close>

section \<open>What the benchmark may change\<close>

text \<open>The low byte of the data \<open>D\<close>, the links and the running checksums; the high byte of every data
  item is the backup of the low one.\<close>

definition agree :: "ptr set \<Rightarrow> coremark \<Rightarrow> coremark \<Rightarrow> bool" where
  "agree D s0 s \<longleftrightarrow> (\<exists>nx dt C c cm cs.
     s = s0\<lparr>next_of := nx, data16 := dt, mat := mat s0\<lparr>mat_C := C\<rparr>, crc := c, crcmatrix := cm, crcstate := cs\<rparr>
     \<and> (\<forall>d. d \<notin> D \<longrightarrow> dt d = data16 s0 d) \<and> (\<forall>d. dt d AND 0xFF00 = data16 s0 d AND 0xFF00))"

lemma agreeI:
  "s = s0\<lparr>next_of := nx, data16 := dt, mat := mat s0\<lparr>mat_C := C\<rparr>, crc := c, crcmatrix := cm, crcstate := cs\<rparr>
    \<Longrightarrow> (\<And>d. d \<notin> D \<Longrightarrow> dt d = data16 s0 d) \<Longrightarrow> (\<And>d. dt d AND 0xFF00 = data16 s0 d AND 0xFF00) \<Longrightarrow> agree D s0 s"
  unfolding agree_def by blast

lemma agree_refl: "agree D s s"
  by (rule agreeI [where nx = "next_of s" and dt = "data16 s" and C = "mat_C (mat s)" and c = "crc s"
        and cm = "crcmatrix s" and cs = "crcstate s"]) simp_all

text \<open>Updates of what may change.\<close>

lemma agree_update:
  assumes "agree D s0 s"
  shows agree_next: "agree D s0 (s\<lparr>next_of := n\<rparr>)" and agree_crc: "agree D s0 (s\<lparr>crc := v\<rparr>)"
    and agree_crcmatrix: "agree D s0 (s\<lparr>crcmatrix := v\<rparr>)" and agree_crcstate: "agree D s0 (s\<lparr>crcstate := v\<rparr>)"
    and agree_mat: "agree D s0 (s\<lparr>mat := mat s\<lparr>mat_C := C'\<rparr>\<rparr>)"
proof -
  obtain nx dt C c cm cs where
    a: "s = s0\<lparr>next_of := nx, data16 := dt, mat := mat s0\<lparr>mat_C := C\<rparr>, crc := c, crcmatrix := cm, crcstate := cs\<rparr>"
    "\<And>d. d \<notin> D \<Longrightarrow> dt d = data16 s0 d" "\<And>d. dt d AND 0xFF00 = data16 s0 d AND 0xFF00"
    using assms unfolding agree_def by blast
  note I = agreeI [where dt = dt and D = D and ?s0.0 = s0, OF _ a(2,3)]
  show "agree D s0 (s\<lparr>next_of := n\<rparr>)"
    by (rule I [where nx = n and C = C and c = c and cm = cm and cs = cs]) (simp_all add: a)
  show "agree D s0 (s\<lparr>crc := v\<rparr>)"
    by (rule I [where nx = nx and C = C and c = v and cm = cm and cs = cs]) (simp_all add: a)
  show "agree D s0 (s\<lparr>crcmatrix := v\<rparr>)"
    by (rule I [where nx = nx and C = C and c = c and cm = v and cs = cs]) (simp_all add: a)
  show "agree D s0 (s\<lparr>crcstate := v\<rparr>)"
    by (rule I [where nx = nx and C = C and c = c and cm = cm and cs = v]) (simp_all add: a)
  show "agree D s0 (s\<lparr>mat := mat s\<lparr>mat_C := C'\<rparr>\<rparr>)"
    by (rule I [where nx = nx and C = C' and c = c and cm = cm and cs = cs]) (simp_all add: a)
qed

lemma agree_fields:
  assumes "agree D s0 s"
  shows "info_of s = info_of s0" "idx s = idx s0" "state_mem s = state_mem s0" "memblock3 s = memblock3 s0"
    "res_size s = res_size s0" "seed1 s = seed1 s0" "seed2 s = seed2 s0" "seed3 s = seed3 s0"
    "res_list s = res_list s0" "iterations s = iterations s0" "crclist s = crclist s0"
    "d \<notin> D \<Longrightarrow> data16 s d = data16 s0 d" "data16 s d AND 0xFF00 = data16 s0 d AND 0xFF00"
  using assms by (auto simp: agree_def)

lemma agree_data:
  assumes "agree D s0 s" "d \<in> D" "v AND 0xFF00 = data16 s0 d AND 0xFF00"
  shows "agree D s0 (s\<lparr>data16 := (data16 s)(d := v)\<rparr>)"
proof -
  obtain nx dt C c cm cs where
    a: "s = s0\<lparr>next_of := nx, data16 := dt, mat := mat s0\<lparr>mat_C := C\<rparr>, crc := c, crcmatrix := cm, crcstate := cs\<rparr>"
    "\<And>d. d \<notin> D \<Longrightarrow> dt d = data16 s0 d" "\<And>d. dt d AND 0xFF00 = data16 s0 d AND 0xFF00"
    using assms(1) unfolding agree_def by blast
  show ?thesis
    by (rule agreeI [where nx = nx and dt = "dt(d := v)" and C = C and c = c and cm = cm and cs = cs])
      (use a assms(2,3) in auto)
qed

section \<open>The comparison by index\<close>

definition fresh :: "u16 \<Rightarrow> u16" where
  "fresh w = (w AND 0xFF00) OR (0x00FF AND signed_drop_bit 8 w)"

lemma bit_bytes: "bit (0xFF00 :: u16) n \<longleftrightarrow> 8 \<le> n \<and> n < 16" "bit (0x00FF :: u16) n \<longleftrightarrow> n < 8"
proof -
  have h: "(0xFF00 :: u16) = push_bit 8 (mask 8)" and l: "(0x00FF :: u16) = mask 8"
    by (simp_all add: mask_eq_exp_minus_1 push_bit_eq_mult)
  show "bit (0xFF00 :: u16) n \<longleftrightarrow> 8 \<le> n \<and> n < 16"
    unfolding h by (simp only: bit_push_bit_iff bit_mask_iff possible_bit_word) auto
  show "bit (0x00FF :: u16) n \<longleftrightarrow> n < 8"
    unfolding l by (simp only: bit_mask_iff possible_bit_word) auto
qed

lemma bit_low: "bit (0x80 :: u16) n \<longleftrightarrow> n = 7" "bit (0x7F :: u16) n \<longleftrightarrow> n < 7"
proof -
  have h: "(0x80 :: u16) = 2 ^ 7" and l: "(0x7F :: u16) = mask 7" by (simp_all add: mask_eq_exp_minus_1)
  show "bit (0x80 :: u16) n \<longleftrightarrow> n = 7"
    unfolding h by (simp only: bit_exp_iff possible_bit_word) auto
  show "bit (0x7F :: u16) n \<longleftrightarrow> n < 7"
    unfolding l by (simp only: bit_mask_iff possible_bit_word) auto
qed

lemma cached_high: "((w AND 0xFF00) OR 0x80 OR (r AND 0x7F)) AND 0xFF00 = w AND 0xFF00" for w r :: u16
  by (rule bit_word_eqI) (unfold bit_and_iff bit_or_iff bit_bytes bit_low, auto)

lemma bit_fresh: "bit (fresh w) n \<longleftrightarrow> (if n < 8 then bit w (n + 8) else bit w n)"
  unfolding fresh_def bit_or_iff bit_and_iff bit_bytes bit_signed_drop_bit_iff
  by (auto simp: add.commute dest: bit_imp_le_length)

lemma fresh_high: "fresh w AND 0xFF00 = w AND 0xFF00"
  by (rule bit_word_eqI) (unfold bit_and_iff bit_bytes bit_fresh, simp)

lemma fresh_only_high: "v AND 0xFF00 = w AND 0xFF00 \<Longrightarrow> fresh v = fresh w"
proof (rule bit_word_eqI)
  fix n assume "v AND 0xFF00 = w AND 0xFF00" "n < LENGTH(16)"
  then have "bit v m = bit w m" if "8 \<le> m" "m < 16" for m
    using that by (metis bit_and_iff bit_bytes(1))
  with \<open>n < LENGTH(16)\<close> show "bit (fresh v) n = bit (fresh w) n" by (simp add: bit_fresh)
qed

lemma fresh_fresh: "fresh (fresh w) = fresh w"
  by (rule fresh_only_high) (rule fresh_high)

lemma regenerate_fresh: "a \<noteq> 0 \<Longrightarrow> regenerate a s = Some (s\<lparr>data16 := (data16 s)(a := fresh (data16 s a))\<rparr>)"
  by (simp add: regenerate_def field_defs fresh_def)

definition refreshed :: "coremark \<Rightarrow> ptr set" where
  "refreshed s = {d. fresh (data16 s d) = data16 s d}"

lemma regenerate_ok:
  assumes "agree D s0 s" "a \<in> D - {0}"
  obtains s' where "regenerate a s = Some s'" "agree D s0 s'" "next_of s' = next_of s" "insert a (refreshed s) \<subseteq> refreshed s'"
proof -
  have "agree D s0 (s\<lparr>data16 := (data16 s)(a := fresh (data16 s a))\<rparr>)"
    using assms by (intro agree_data) (simp_all add: fresh_high agree_fields(13) [OF assms(1)])
  then show thesis using assms(2)
    by (intro that [of "s\<lparr>data16 := (data16 s)(a := fresh (data16 s a))\<rparr>"])
      (auto simp: regenerate_fresh refreshed_def fresh_fresh)
qed

lemma cmp_idx_returns:
  assumes "agree D s0 s" "a \<in> D - {0}" "b \<in> D - {0}"
  shows "\<exists>r s'. cmp_idx a b s = Some (r, s')
     \<and> (if r \<le> 0 then sint (idx s0 a) \<le> sint (idx s0 b) else sint (idx s0 b) < sint (idx s0 a))
     \<and> agree D s0 s' \<and> next_of s' = next_of s \<and> {a, b} \<union> refreshed s \<subseteq> refreshed s'"
proof -
  obtain s1 where s1: "regenerate a s = Some s1" "agree D s0 s1" "next_of s1 = next_of s"
    "insert a (refreshed s) \<subseteq> refreshed s1" by (rule regenerate_ok [OF assms(1,2)])
  obtain s2 where s2: "regenerate b s1 = Some s2" "agree D s0 s2" "next_of s2 = next_of s1"
    "insert b (refreshed s1) \<subseteq> refreshed s2" by (rule regenerate_ok [OF s1(2) assms(3)])
  have "cmp_idx a b s = Some (sint (idx s0 a) - sint (idx s0 b), s2)"
    using assms(2,3) s1(1) s2(1) agree_fields(2) [OF s2(2)] by (simp add: cmp_idx_def get_idx_def)
  then show ?thesis using s1 s2
    by (intro exI [of _ "sint (idx s0 a) - sint (idx s0 b)"] exI [of _ s2]) auto
qed

interpretation by_idx: key_comparator cmp_idx "agree D s0" "info_of s0" "D - {0}"
    "\<lambda>a b. sint (idx s0 a) \<le> sint (idx s0 b)" "\<lambda>a b. sint (idx s0 b) < sint (idx s0 a)" refreshed
    "\<lambda>d. sint (idx s0 d)" for D s0
  using cmp_idx_returns by unfold_locales (simp_all add: agree_fields agree_next refreshed_def)

section \<open>The comparison by computed value\<close>

text \<open>When the state benchmark can run: equal seeds, a NUL of the block that no step in use visits (they are the
  multiples of 17 from \<open>0x22\<close> to \<open>0xFF\<close>), and no byte that the corruption turns into a comma.\<close>

definition calc_ready :: "coremark \<Rightarrow> bool" where
  "calc_ready s \<longleftrightarrow> seed1 s = seed2 s \<and> unat (memblock3 s) + unat (res_size s) + 2 ^ 15 < 2 ^ 64
     \<and> (\<exists>z < unat (res_size s). state_mem s (memblock3 s + of_nat z) = 0 \<and> \<not> 17 dvd z)
     \<and> (\<forall>k < unat (res_size s). state_mem s (memblock3 s + of_nat k) \<noteq> 0x2C
           \<longrightarrow> state_mem s (memblock3 s + of_nat k) XOR ucast (seed1 s) \<noteq> 0x2C)"

lemma calc_ready_agree: "agree D s0 s \<Longrightarrow> calc_ready s = calc_ready s0"
  by (simp add: calc_ready_def agree_fields)

text \<open>The second operand of the operation: four bits, twice, and at least \<open>0x22\<close>.\<close>

definition nibble_twice :: "u16 \<Rightarrow> u16" where
  "nibble_twice data = (drop_bit 3 data AND 0xF) OR push_bit 4 (drop_bit 3 data AND 0xF)"

lemma nibble_twice_17: "\<exists>k < 16. nibble_twice data = of_nat (17 * k)"
proof -
  define k where "k = unat (drop_bit 3 data AND 0xF)"
  have m: "(15 :: nat) = mask 4" by (simp add: mask_eq_exp_minus_1)
  have "k = unat (drop_bit 3 data) AND 15" by (simp add: k_def unsigned_and_eq)
  then have "k < 16" unfolding m by (simp add: flip: take_bit_eq_mask) (simp add: take_bit_eq_mod)
  moreover have "\<forall>k\<in>set [0..<16]. (of_nat k OR push_bit 4 (of_nat k) :: u16) = of_nat (17 * k)" by code_simp
  moreover have "drop_bit 3 data AND 0xF = of_nat k" by (simp add: k_def)
  ultimately show ?thesis by (auto simp: nibble_twice_def)
qed

lemma dtype_step:
  fixes data :: u16
  defines "t \<equiv> (if sint (nibble_twice data) < 0x22 then 0x22 else nibble_twice data)"
  shows "0 < sint t" "17 dvd unat t"
proof -
  obtain k where k: "k < 16" "nibble_twice data = of_nat (17 * k)" using nibble_twice_17 by blast
  have "\<forall>k\<in>set [0..<16]. sint (of_nat (17 * k) :: u16) = 17 * int k \<and> unat (of_nat (17 * k) :: u16) = 17 * k"
    by code_simp
  with k(1) have "sint (of_nat (17 * k) :: u16) = 17 * int k" "unat (of_nat (17 * k) :: u16) = 17 * k" by auto
  then show "0 < sint t" "17 dvd unat t" unfolding t_def k(2) by auto
qed

lemma core_bench_matrix_result: "\<exists>r C. core_bench_matrix p seed c = (r, p\<lparr>mat_C := C\<rparr>)"
proof -
  obtain r q where q: "core_bench_matrix p seed c = (r, q)" by fastforce
  then have "q = p\<lparr>mat_C := mat_C q\<rparr>"
    using core_bench_matrix_restores [of p seed c] by (cases p, cases q) simp
  with q show ?thesis by metis
qed

lemma core_bench_state_result:
  assumes "agree D s0 s" "calc_ready s0" "0 < sint t" "17 dvd unat t"
  shows "\<exists>r. core_bench_state (state_mem s) (res_size s) (memblock3 s) (seed1 s) (seed2 s) t (crc s) = Some (r, state_mem s)"
proof -
  from assms(2) have ready: "calc_ready s" using calc_ready_agree [OF assms(1)] by simp
  then obtain z where z: "z < unat (res_size s)" "state_mem s (memblock3 s + of_nat z) = 0" "\<not> 17 dvd z"
    by (auto simp: calc_ready_def)
  have "\<not> unat t dvd z" using z(3) assms(4) dvd_trans by blast
  moreover have "state_mem s a XOR ucast (seed1 s) \<noteq> 0x2C"
    if "a \<in> visited (memblock3 s) (memblock3 s + ucast (res_size s)) (unat t)" "state_mem s a \<noteq> 0x2C" for a
  proof -
    have e: "unat (memblock3 s + ucast (res_size s)) = unat (memblock3 s) + unat (res_size s)"
      using ready by (simp add: unat_word_ariths unat_widen calc_ready_def)
    define k where "k = unat a - unat (memblock3 s)"
    have "k < unat (res_size s)" "a = memblock3 s + of_nat k"
      using that(1) e unfolding k_def visited_def by (auto simp: unat_word_ariths intro!: word_unat_eqI)
    moreover from ready have "\<forall>k < unat (res_size s). state_mem s (memblock3 s + of_nat k) \<noteq> 0x2C
        \<longrightarrow> state_mem s (memblock3 s + of_nat k) XOR ucast (seed1 s) \<noteq> 0x2C"
      unfolding calc_ready_def by (elim conjE)
    ultimately show ?thesis using that(2) by simp
  qed
  ultimately show ?thesis
    using ready z core_bench_state_restores [of t "memblock3 s" "res_size s" z "state_mem s" "seed1 s" "crc s"] assms(3)
    by (simp add: calc_ready_def)
qed

lemma calc_func_returns:
  assumes "agree D s0 s" "d \<in> D - {0}" "calc_ready s0"
  shows "\<exists>v s'. calc_func d s = Some (v, s') \<and> agree D s0 s' \<and> next_of s' = next_of s"
proof (cases "drop_bit 7 (data16 s d) AND 1 \<noteq> 0")
  case True
  then show ?thesis using assms by (simp add: calc_func_def get_data16_def)
next
  case False
  let ?data = "data16 s d" and ?dtype = "nibble_twice (data16 s d)"
  let ?t = "if sint ?dtype < 0x22 then 0x22 else ?dtype"
  have cache: "\<exists>v s'. Option.bind (set_data16 d ((?data AND 0xFF00) OR 0x80 OR (r AND 0x7F)) (t\<lparr>crc := c\<rparr>))
      (\<lambda>s. Some (r AND 0x7F, s)) = Some (v, s') \<and> agree D s0 s' \<and> next_of s' = next_of s"
    if "agree D s0 t" "next_of t = next_of s" "data16 t = data16 s" for r c t
  proof -
    have "((?data AND 0xFF00) OR 0x80 OR (r AND 0x7F)) AND 0xFF00 = data16 s0 d AND 0xFF00"
      using agree_fields(13) [OF assms(1), of d] by (simp only: cached_high)
    then show ?thesis using assms(2) that agree_data [OF agree_crc [OF that(1)]] by (simp add: set_data16_def)
  qed
  consider "?data AND 7 = 0" | "?data AND 7 = 1" | "?data AND 7 \<noteq> 0" "?data AND 7 \<noteq> 1" by blast
  then show ?thesis
  proof cases
    case 1
    obtain r where r: "core_bench_state (state_mem s) (res_size s) (memblock3 s) (seed1 s) (seed2 s) ?t (crc s)
        = Some (r, state_mem s)"
      using core_bench_state_result [OF assms(1,3) dtype_step] by blast
    let ?u = "if crcstate s = 0 then s\<lparr>crcstate := r\<rparr> else s"
    have "calc_func d s = Option.bind (set_data16 d ((?data AND 0xFF00) OR 0x80 OR (r AND 0x7F)) (?u\<lparr>crc := crcu16 r (crc ?u)\<rparr>))
        (\<lambda>s. Some (r AND 0x7F, s))"
      using False 1 assms(2) r unfolding calc_func_def Let_def nibble_twice_def [symmetric]
      by (simp add: get_data16_def)
    then show ?thesis using cache [of ?u] assms(1) by (simp add: agree_crcstate)
  next
    case 2
    obtain r C where r: "core_bench_matrix (mat s) ?dtype (crc s) = (r, (mat s)\<lparr>mat_C := C\<rparr>)"
      using core_bench_matrix_result by blast
    let ?v = "s\<lparr>mat := (mat s)\<lparr>mat_C := C\<rparr>\<rparr>"
    let ?u = "if crcmatrix ?v = 0 then ?v\<lparr>crcmatrix := r\<rparr> else ?v"
    have "calc_func d s = Option.bind (set_data16 d ((?data AND 0xFF00) OR 0x80 OR (r AND 0x7F)) (?u\<lparr>crc := crcu16 r (crc ?u)\<rparr>))
        (\<lambda>s. Some (r AND 0x7F, s))"
      using False 2 assms(2) r unfolding calc_func_def Let_def nibble_twice_def [symmetric]
      by (simp add: get_data16_def)
    then show ?thesis using cache [of ?u] assms(1) by (simp add: agree_crcmatrix agree_mat)
  next
    case 3
    have "calc_func d s = Option.bind (set_data16 d ((?data AND 0xFF00) OR 0x80 OR (?data AND 0x7F)) (s\<lparr>crc := crcu16 ?data (crc s)\<rparr>))
        (\<lambda>s. Some (?data AND 0x7F, s))"
      using False 3 assms(2) by (simp add: calc_func_def get_data16_def Let_def)
    then show ?thesis using cache [of s] assms(1) by simp
  qed
qed

lemma cmp_complex_returns:
  assumes "agree D s0 s" "a \<in> D - {0}" "b \<in> D - {0}" "calc_ready s0"
  shows "\<exists>r s'. cmp_complex a b s = Some (r, s') \<and> agree D s0 s' \<and> next_of s' = next_of s"
proof -
  obtain v1 s1 where 1: "calc_func a s = Some (v1, s1)" "agree D s0 s1" "next_of s1 = next_of s"
    using calc_func_returns [OF assms(1,2,4)] by blast
  obtain v2 s2 where 2: "calc_func b s1 = Some (v2, s2)" "agree D s0 s2" "next_of s2 = next_of s1"
    using calc_func_returns [OF 1(2) assms(3,4)] by blast
  with 1 show ?thesis by (simp add: cmp_complex_def)
qed

interpretation by_value: comparator cmp_complex "\<lambda>s. calc_ready s0 \<and> agree D s0 s" "info_of s0" "D - {0}"
    "\<lambda>_ _. True" "\<lambda>_ _. True" "\<lambda>_. UNIV" for D s0
  using cmp_complex_returns by unfold_locales (auto simp: agree_fields agree_next)

section \<open>The list operations\<close>

lemma lseg_upd [simp]: "x \<notin> set xs \<Longrightarrow> lseg (n(x := v)) p xs z = lseg n p xs z"
  by (rule lseg_cong) auto

lemma lseg_suffix: "lseg n p xs 0 \<Longrightarrow> x \<in> set xs \<Longrightarrow> \<exists>zs. lseg n x zs 0 \<and> set zs \<subseteq> set xs"
proof (induction xs arbitrary: p)
  case (Cons y ys)
  show ?case
  proof (cases "x = y")
    case True
    with Cons.prems(1) show ?thesis by (intro exI [of _ "y # ys"]) simp
  next
    case False
    with Cons show ?thesis by fastforce
  qed
qed simp

lemma lseg_next_unique: "lseg n p xs 0 \<Longrightarrow> lseg m q xs 0 \<Longrightarrow> x \<in> set xs \<Longrightarrow> n x = m x"
proof (induction xs arbitrary: p q)
  case (Cons y ys)
  then have "n y = m y" by (cases ys) auto
  with Cons show ?case by auto
qed simp

text \<open>\<open>core_list_find\<close> returns the first match.\<close>

definition item_matches :: "coremark \<Rightarrow> u16 \<Rightarrow> u16 \<Rightarrow> ptr \<Rightarrow> bool" where
  "item_matches s i d p \<longleftrightarrow>
     (if 0 \<le> sint i then idx s (info_of s p) = i else data16 s (info_of s p) AND 0xFF = d)"

lemma core_list_find_first:
  assumes "lseg (next_of s) list xs 0" "\<forall>p\<in>set xs. info_of s p \<noteq> 0"
  shows "core_list_find list i d s = Some (case find (item_matches s i d) xs of None \<Rightarrow> 0 | Some p \<Rightarrow> p)"
  using assms
proof (induction xs arbitrary: list)
  case Nil
  then show ?case by (simp add: core_list_find.simps [of 0])
next
  case (Cons x xs)
  then show ?case
    by (subst core_list_find.simps) (simp add: field_defs item_matches_def [of s i d x])
qed

lemma find_zero_or_member: "(case find P xs of None \<Rightarrow> 0 | Some p \<Rightarrow> p) \<in> insert (0 :: ptr) (set xs)"
  by (auto simp: find_Some_iff split: option.split)

lemma reverse_loop_reverses:
  assumes "lseg (next_of s) list xs 0" "lseg (next_of s) nxt ys 0" "distinct (xs @ ys)"
  shows "\<exists>r n. reverse_loop list nxt s = Some (r, s\<lparr>next_of := n\<rparr>) \<and> lseg n r (rev xs @ ys) 0
    \<and> (\<forall>x. x \<notin> set xs \<longrightarrow> n x = next_of s x)"
  using assms
proof (induction xs arbitrary: s list nxt ys)
  case Nil
  then have "reverse_loop list nxt s = Some (nxt, s\<lparr>next_of := next_of s\<rparr>)"
    by (subst reverse_loop.simps) simp
  with Nil show ?case by (intro exI [of _ nxt] exI [of _ "next_of s"]) simp
next
  case (Cons x xs)
  let ?n = "(next_of s)(x := nxt)"
  have "\<exists>r n. reverse_loop (next_of s x) x (s\<lparr>next_of := ?n\<rparr>) = Some (r, s\<lparr>next_of := ?n\<rparr>\<lparr>next_of := n\<rparr>)
      \<and> lseg n r (rev xs @ x # ys) 0 \<and> (\<forall>y. y \<notin> set xs \<longrightarrow> n y = next_of (s\<lparr>next_of := ?n\<rparr>) y)"
    (is "\<exists>r n. ?Q r n") using Cons.prems by (intro Cons.IH) (simp_all add: fun_upd_same del: fun_upd_apply)
  then obtain r n where "?Q r n" by blast
  moreover have "reverse_loop list nxt s = reverse_loop (next_of s x) x (s\<lparr>next_of := ?n\<rparr>)"
    using Cons.prems(1) by (subst reverse_loop.simps) simp
  ultimately show ?case by (intro exI [of _ r] exI [of _ n]) simp
qed

lemma core_list_reverse_spec:
  assumes "lseg (next_of s) list xs 0"
  shows "\<exists>r n. core_list_reverse list s = Some (r, s\<lparr>next_of := n\<rparr>) \<and> lseg n r (rev xs) 0
    \<and> (\<forall>x. x \<notin> set xs \<longrightarrow> n x = next_of s x)"
  using reverse_loop_reverses [OF assms, of 0 "[]"] lseg_distinct [OF assms] by (simp add: core_list_reverse_def)

lemma move_to_front_spec:
  assumes "lseg (next_of s) list xs 0" "t \<in> set xs"
  shows "\<exists>n zs. move_to_front list t s = Some (s\<lparr>next_of := n\<rparr>) \<and> lseg n list zs 0 \<and> mset zs = mset xs
    \<and> (\<forall>x. x \<notin> set xs \<longrightarrow> n x = next_of s x)"
proof -
  have dist: "distinct xs" by (rule lseg_distinct [OF assms(1)])
  obtain us vs where xs: "xs = us @ t # vs" using assms(2) by (blast dest: split_list)
  have t: "t \<noteq> 0" "lseg (next_of s) (next_of s t) vs 0" "lseg (next_of s) list us t"
    using assms(1) by (auto simp: xs lseg_append)
  show ?thesis
  proof (cases vs)
    case Nil
    then have "move_to_front list t s = Some (s\<lparr>next_of := next_of s\<rparr>)" using t by (simp add: move_to_front_def get_next_def)
    then show ?thesis using assms(1) by (intro exI [of _ "next_of s"] exI [of _ xs]) simp
  next
    case (Cons f vs')
    have f: "next_of s t = f" "f \<noteq> 0" "lseg (next_of s) (next_of s f) vs' 0" using t(2) Cons by auto
    show ?thesis
    proof (cases us)
      case Nil
      then have "list = t" using t(3) by simp
      then have "move_to_front list t s = Some (s\<lparr>next_of := next_of s\<rparr>)" using t f dist xs Cons
        by (simp add: move_to_front_def field_defs fun_upd_idem_iff fun_upd_twist)
      then show ?thesis using assms(1) by (intro exI [of _ "next_of s"] exI [of _ xs]) simp
    next
      case (Cons h us')
      then have h: "list = h" "h \<noteq> 0" "lseg (next_of s) (next_of s h) us' t" using t(3) by auto
      let ?n = "(next_of s)(t := next_of s f, f := next_of s h, h := f)"
      have ne: "h \<noteq> t" "h \<noteq> f" "t \<noteq> f" "distinct us'" "h \<notin> set us'" "t \<notin> set us'" "f \<notin> set us'"
          "h \<notin> set vs'" "t \<notin> set vs'" "f \<notin> set vs'"
        using dist xs Cons \<open>vs = f # vs'\<close> by auto
      have "lseg ?n list (h # f # us' @ t # vs') 0"
        using h f t ne by (simp add: lseg_append)
      moreover have "move_to_front list t s = Some (s\<lparr>next_of := ?n\<rparr>)"
        using t f h ne by (simp add: move_to_front_def field_defs)
      ultimately show ?thesis
        using xs Cons \<open>vs = f # vs'\<close> by (intro exI [of _ ?n] exI [of _ "h # f # us' @ t # vs'"]) auto
    qed
  qed
qed

text \<open>One find: a rearrangement of the list.\<close>

definition rearranged :: "coremark \<Rightarrow> ptr list \<Rightarrow> ptr \<Rightarrow> coremark \<Rightarrow> bool" where
  "rearranged s xs list' s' \<longleftrightarrow> (\<exists>n zs. s' = s\<lparr>next_of := n\<rparr> \<and> lseg n list' zs 0 \<and> mset zs = mset xs
     \<and> (\<forall>x. x \<notin> set xs \<longrightarrow> n x = next_of s x))"

lemma rearranged_trans:
  assumes "rearranged s xs l s1" "lseg (next_of s1) l ys 0" "rearranged s1 ys l' s2"
  shows "rearranged s xs l' s2"
proof -
  obtain n1 zs1 where 1: "s1 = s\<lparr>next_of := n1\<rparr>" "lseg n1 l zs1 0" "mset zs1 = mset xs"
    "\<forall>x. x \<notin> set xs \<longrightarrow> n1 x = next_of s x" using assms(1) by (auto simp: rearranged_def)
  then have "zs1 = ys" using lseg_unique assms(2) by simp
  with 1 have ys: "mset ys = mset xs" "set ys = set xs" using mset_eq_setD by auto
  obtain n2 zs2 where "s2 = s1\<lparr>next_of := n2\<rparr>" "lseg n2 l' zs2 0" "mset zs2 = mset ys"
    "\<forall>x. x \<notin> set ys \<longrightarrow> n2 x = next_of s1 x" using assms(3) by (auto simp: rearranged_def)
  with 1 ys show ?thesis unfolding rearranged_def by (intro exI [of _ n2] exI [of _ zs2]) simp
qed

lemma rearrangedE:
  assumes "rearranged s xs l t"
  obtains n zs where "t = s\<lparr>next_of := n\<rparr>" "lseg n l zs 0" "set zs = set xs" "length zs = length xs" "mset zs = mset xs"
    "\<And>x. x \<notin> set xs \<Longrightarrow> n x = next_of s x"
proof -
  from assms obtain n zs where "t = s\<lparr>next_of := n\<rparr>" "lseg n l zs 0" and m: "mset zs = mset xs"
    and "\<And>x. x \<notin> set xs \<Longrightarrow> n x = next_of s x" by (auto simp: rearranged_def)
  then show thesis by (intro that [of n zs]) (auto simp only: mset_eq_setD [OF m] mset_eq_length [OF m])
qed

lemma find_step_rearranges:
  assumes "lseg (next_of s) list xs 0" "2 \<le> length xs" "\<forall>p\<in>set xs. info_of s p \<noteq> 0"
  shows "\<exists>list' b r s'. find_step list i d s = Some (list', b, r, s') \<and> rearranged s xs list' s'"
proof -
  obtain t where t: "core_list_find list i d s = Some t" "t \<in> insert 0 (set xs)"
    using core_list_find_first [OF assms(1,3)] find_zero_or_member by blast
  obtain l n where rev: "core_list_reverse list s = Some (l, s\<lparr>next_of := n\<rparr>)" "lseg n l (rev xs) 0"
    "\<forall>x. x \<notin> set xs \<longrightarrow> n x = next_of s x" using core_list_reverse_spec [OF assms(1)] by blast
  obtain a b ys where ys: "rev xs = a # b # ys"
    using assms(2) by (metis Suc_le_length_iff length_rev numeral_2_eq_2)
  have l: "l = a" "a \<noteq> 0" "n a = b" "b \<noteq> 0" using rev(2) by (auto simp: ys)
  have "b \<in> set xs" using ys by (metis list.set_intros(1,2) set_rev)
  show ?thesis
  proof (cases "t = 0")
    case True
    then have "find_step list i d s
        = Some (l, False, signed_drop_bit 8 (data16 s (info_of s b)) AND 1, s\<lparr>next_of := n\<rparr>)"
      using t rev(1) l assms(3) \<open>b \<in> set xs\<close> by (simp add: find_step_def field_defs)
    moreover have "rearranged s xs l (s\<lparr>next_of := n\<rparr>)"
      unfolding rearranged_def using rev by (intro exI [of _ n] exI [of _ "rev xs"]) simp
    ultimately show ?thesis by blast
  next
    case False
    then have "t \<in> set (rev xs)" "info_of s t \<noteq> 0" using t(2) assms(3) by auto
    with move_to_front_spec [of "s\<lparr>next_of := n\<rparr>" l "rev xs" t] rev(2) obtain m zs where
      m: "move_to_front l t (s\<lparr>next_of := n\<rparr>) = Some (s\<lparr>next_of := m\<rparr>)" "lseg m l zs 0" "mset zs = mset xs"
      "\<forall>x. x \<notin> set xs \<longrightarrow> m x = n x" by auto
    have "\<exists>r. find_step list i d s = Some (l, True, r, s\<lparr>next_of := m\<rparr>)"
      using t(1) rev(1) m(1) False \<open>info_of s t \<noteq> 0\<close> by (simp add: find_step_def field_defs)
    moreover have "rearranged s xs l (s\<lparr>next_of := m\<rparr>)"
      unfolding rearranged_def using m rev(3) by (intro exI [of _ m] exI [of _ zs]) simp
    ultimately show ?thesis by blast
  qed
qed

lemma sint_next: "sint i < sint n \<Longrightarrow> sint (i + 1) = sint i + 1" for i n :: u16
proof -
  assume "sint i < sint n"
  then have "- (2 ^ 15) \<le> sint i + 1" "sint i + 1 < 2 ^ 15"
    using sint_greater_eq [of i] sint_less [of n] by simp_all
  then show ?thesis by (simp add: sint_word_ariths signed_take_bit_int_eq_self)
qed

lemma find_loop_rearranges:
  assumes "lseg (next_of s) list xs 0" "2 \<le> length xs" "\<forall>p\<in>set xs. info_of s p \<noteq> 0"
  shows "\<exists>list' i' d' r s'. find_loop k n list i d found missed retval s = Some (list', i', d', r, s')
     \<and> rearranged s xs list' s' \<and> (d \<noteq> None \<or> sint k < sint n \<longrightarrow> d' \<noteq> None) \<and> (\<not> sint k < sint n \<longrightarrow> i' = i)"
  using assms
proof (induction "nat (sint n - sint k)" arbitrary: s list xs k i d found missed retval rule: less_induct)
  case less
  show ?case
  proof (cases "sint k < sint n")
    case False
    then have "find_loop k n list i d found missed retval s
        = Some (list, i, d, retval + (found * 4 - missed), s\<lparr>next_of := next_of s\<rparr>)"
      by (subst find_loop.simps) simp
    moreover have "rearranged s xs list (s\<lparr>next_of := next_of s\<rparr>)"
      using less.prems(1) unfolding rearranged_def by (intro exI [of _ "next_of s"] exI [of _ xs]) simp
    ultimately show ?thesis using False by auto
  next
    case True
    obtain l b r s1 where st: "find_step list i (k AND 0xFF) s = Some (l, b, r, s1)" "rearranged s xs l s1"
      using find_step_rearranges [OF less.prems] by blast
    obtain m zs where m: "s1 = s\<lparr>next_of := m\<rparr>" "lseg m l zs 0" "set zs = set xs" "length zs = length xs"
      using st(2) by (rule rearrangedE)
    have "nat (sint n - sint (k + 1)) < nat (sint n - sint k)" using sint_next [OF True] True by simp
    from less.hyps [OF this, of s1 l zs "if 0 \<le> sint i then i + 1 else i" "Some (k AND 0xFF)"
        "if b then found + 1 else found" "if b then missed else missed + 1" "retval + r"]
    obtain list' i' d' r' s' where
      r: "find_loop (k + 1) n l (if 0 \<le> sint i then i + 1 else i) (Some (k AND 0xFF))
        (if b then found + 1 else found) (if b then missed else missed + 1) (retval + r) s1 = Some (list', i', d', r', s')"
      "rearranged s1 zs list' s'" "d' \<noteq> None"
      using m less.prems(2,3) by auto
    have "find_loop k n list i d found missed retval s = Some (list', i', d', r', s')"
      using True st(1) r(1) by (subst find_loop.simps) simp
    moreover have "rearranged s xs list' s'" using rearranged_trans [OF st(2) _ r(2)] m by simp
    ultimately show ?thesis using True r(3) by blast
  qed
qed

lemma crc_loop_returns:
  assumes "lseg (next_of s) finder zs 0" "list \<noteq> 0" "info_of s list \<noteq> 0"
  shows "\<exists>r. crc_loop list finder retval s = Some r"
  using assms
proof (induction zs arbitrary: finder retval)
  case Nil
  then show ?case by (subst crc_loop.simps) simp
next
  case (Cons z zs)
  then show ?case by (subst crc_loop.simps) (simp add: field_defs)
qed

lemma undo_remove:
  assumes "item \<noteq> 0" "next_of s item \<noteq> 0" "next_of s item \<noteq> item"
  shows "\<exists>s'. core_list_remove item s = Some (next_of s item, s') \<and> core_list_undo_remove (next_of s item) item s' = Some (next_of s item, s)
    \<and> next_of s' = (next_of s)(item := next_of s (next_of s item), next_of s item := 0)
    \<and> info_of s' = (info_of s)(item := info_of s (next_of s item), next_of s item := info_of s item)"
  using assms by (simp add: core_list_remove_def core_list_undo_remove_def field_defs fun_upd_twist)

lemma crc_without_one_restores:
  assumes "lseg (next_of s) list xs 0" "3 \<le> length xs" "\<forall>p\<in>set xs. info_of s p \<noteq> 0" "0 \<le> sint i \<or> d \<noteq> None"
  shows "\<exists>r. crc_without_one list i d retval s = Some (r, s)"
proof -
  obtain h it r rest where xs: "xs = h # it # r # rest"
    using assms(2) by (metis Suc_le_length_iff numeral_3_eq_3)
  then have l: "list = h" "h \<noteq> 0" "next_of s h = it" "it \<noteq> 0" "next_of s it = r" "r \<noteq> 0" "lseg (next_of s) (next_of s r) rest 0"
    using assms(1) by auto
  have ne: "h \<noteq> it" "h \<noteq> r" "it \<noteq> r" "h \<notin> set rest" "it \<notin> set rest" "r \<notin> set rest"
    using lseg_distinct [OF assms(1)] by (auto simp: xs)
  obtain s' where s': "core_list_remove it s = Some (r, s')" "core_list_undo_remove r it s' = Some (r, s)"
    "next_of s' = (next_of s)(it := next_of s r, r := 0)" "info_of s' = (info_of s)(it := info_of s r, r := info_of s it)"
    using undo_remove [of it s] l ne by auto
  have ls: "lseg (next_of s') h (h # it # rest) 0"
    using l ne s'(3) by (simp add: fun_upd_other fun_upd_same del: fun_upd_apply)
  have info: "\<forall>p\<in>set (h # it # rest). info_of s' p \<noteq> 0"
    using ne assms(3) s'(4) by (auto simp: xs)
  have next_h: "next_of s' h = it" using s'(3) l ne by simp
  obtain v where v: "(if sint i \<ge> 0 then Some 0 else d) = Some v"
    using assms(4) by (cases "0 \<le> sint i") auto
  obtain f where f: "core_list_find h i v s' = Some f" "f \<in> insert 0 (set (h # it # rest))"
    using core_list_find_first [OF ls info] find_zero_or_member by blast
  let ?f = "if f = 0 then it else f"
  have "?f \<in> set (h # it # rest)" using f(2) by auto
  then obtain zs where "lseg (next_of s') ?f zs 0" using lseg_suffix [OF ls] by blast
  then obtain c where c: "crc_loop h ?f retval s' = Some c"
    using crc_loop_returns [of s' ?f zs h retval] l(2) info by auto
  have "(if f = 0 then get_next h s' else Some f) = Some ?f" using next_h l(2) by (simp add: get_next_def)
  with l s' v f(1) c next_h show ?thesis
    by (simp add: crc_without_one_def get_next_def del: if_split split: if_split_asm)
qed

section \<open>The benchmark as a whole\<close>

text \<open>The list as \<open>core_list_init\<close> leaves it: in the order of its indices, every data item with its backup.\<close>

definition list_ready :: "ptr list \<Rightarrow> coremark \<Rightarrow> bool" where
  "list_ready xs s \<longleftrightarrow> lseg (next_of s) (res_list s) xs 0 \<and> 3 \<le> length xs
     \<and> (\<forall>p\<in>set xs. info_of s p \<noteq> 0 \<and> fresh (data16 s (info_of s p)) = data16 s (info_of s p))
     \<and> sorted_wrt (<) (map (\<lambda>p. sint (idx s (info_of s p))) xs)"

lemma sort_back:
  fixes f :: "'a \<Rightarrow> int"
  assumes "sorted_wrt (<) (map f xs)" "mset zs = mset xs"
  shows "sort_key f zs = xs"
  using assms by (intro sort_key_inj_key_eq) (auto simp: strict_sorted_iff distinct_map dest: mset_eq_setD)

text \<open>After a sort by index the state is the one before, but for the checksums and the result matrix.\<close>

lemma sorted_back:
  assumes "list_ready xs s0" "agree (info_of s0 ` set xs) s0 s" "lseg (next_of s) list zs 0" "mset zs = mset xs"
    and "\<forall>x. x \<notin> set xs \<longrightarrow> next_of s x = next_of s0 x"
  shows "\<exists>C c cm cs. core_list_mergesort cmp_idx list s
    = Some (res_list s0, s0\<lparr>mat := mat s0\<lparr>mat_C := C\<rparr>, crc := c, crcmatrix := cm, crcstate := cs\<rparr>)"
proof -
  let ?D = "info_of s0 ` set xs"
  have set_zs: "set zs = set xs" "length zs = length xs" using mset_eq_setD [OF assms(4)] mset_eq_length [OF assms(4)] .
  have D: "info_of s0 ` set zs \<subseteq> ?D - {0}" "zs \<noteq> []" "2 \<le> length zs"
    using assms(1) set_zs by (auto simp: list_ready_def)
  obtain l t where t: "core_list_mergesort cmp_idx list s = Some (l, t)" "agree ?D s0 t"
    "lseg (next_of t) l (sort_key (\<lambda>p. sint (idx s0 (info_of s0 p))) zs) 0"
    "\<forall>x. x \<notin> set zs \<longrightarrow> next_of t x = next_of s x" "info_of s0 ` set zs \<subseteq> refreshed t"
    using by_idx.core_list_mergesort_sorts [OF assms(2,3) D(2,1)] D(3) by auto
  have "sort_key (\<lambda>p. sint (idx s0 (info_of s0 p))) zs = xs"
    by (rule sort_back) (use assms(1,4) in \<open>simp_all add: list_ready_def\<close>)
  with t(3) have xs: "lseg (next_of t) l xs 0" by simp
  have xs0: "lseg (next_of s0) (res_list s0) xs 0" using assms(1) by (simp add: list_ready_def)
  have next_t: "next_of t = next_of s0"
  proof
    fix x show "next_of t x = next_of s0 x"
      using lseg_next_unique [OF xs xs0, of x] t(4) assms(5) set_zs by (cases "x \<in> set xs") simp_all
  qed
  have data_t: "data16 t = data16 s0"
  proof
    fix d show "data16 t d = data16 s0 d"
    proof (cases "d \<in> ?D")
      case True
      then obtain p where p: "p \<in> set xs" "d = info_of s0 p" by blast
      have "d \<in> refreshed t" using True t(5) unfolding set_zs by blast
      then have a: "fresh (data16 t d) = data16 t d" by (simp only: refreshed_def mem_Collect_eq)
      have b: "fresh (data16 s0 d) = data16 s0 d" using assms(1) p unfolding list_ready_def by blast
      show ?thesis using fresh_only_high [OF agree_fields(13) [OF t(2), of d]] unfolding a b .
    qed (rule agree_fields(12) [OF t(2)])
  qed
  have "l = res_list s0" using xs xs0 assms(1) by (cases xs) (simp_all add: list_ready_def)
  obtain nx dt C c cm cs where
    t_eq: "t = s0\<lparr>next_of := nx, data16 := dt, mat := mat s0\<lparr>mat_C := C\<rparr>, crc := c, crcmatrix := cm, crcstate := cs\<rparr>"
    using t(2) unfolding agree_def by blast
  have "nx = next_of s0" "dt = data16 s0" using next_t data_t unfolding t_eq by simp_all
  then have "t = s0\<lparr>next_of := next_of s0, data16 := data16 s0, mat := mat s0\<lparr>mat_C := C\<rparr>, crc := c, crcmatrix := cm, crcstate := cs\<rparr>"
    by (simp only: t_eq)
  also have "\<dots> = s0\<lparr>mat := mat s0\<lparr>mat_C := C\<rparr>, crc := c, crcmatrix := cm, crcstate := cs\<rparr>"
    by (rule coremark.equality) simp_all
  finally have "t = s0\<lparr>mat := mat s0\<lparr>mat_C := C\<rparr>, crc := c, crcmatrix := cm, crcstate := cs\<rparr>" .
  with \<open>l = res_list s0\<close> t(1) show ?thesis by blast
qed

lemma bench_list_restores:
  assumes ready: "list_ready xs s" and calc: "sint finder_idx > 0 \<longrightarrow> calc_ready s"
    and dat: "0 < sint (seed3 s) \<or> 0 \<le> sint finder_idx"
  shows "\<exists>r C c cm cs. core_bench_list finder_idx s
    = Some (r, s\<lparr>mat := mat s\<lparr>mat_C := C\<rparr>, crc := c, crcmatrix := cm, crcstate := cs\<rparr>)"
proof -
  let ?D = "info_of s ` set xs"
  have xs: "lseg (next_of s) (res_list s) xs 0" "3 \<le> length xs" "\<forall>p\<in>set xs. info_of s p \<noteq> 0"
    using ready by (simp_all add: list_ready_def)
  obtain l1 i1 d1 r1 s1 where f: "find_loop 0 (seed3 s) (res_list s) finder_idx None 0 0 0 s = Some (l1, i1, d1, r1, s1)"
    "rearranged s xs l1 s1" "sint (0 :: u16) < sint (seed3 s) \<longrightarrow> d1 \<noteq> None" "\<not> sint (0 :: u16) < sint (seed3 s) \<longrightarrow> i1 = finder_idx"
    using find_loop_rearranges [OF xs(1) _ xs(3), of 0 "seed3 s" finder_idx None 0 0 0] xs(2) by auto
  obtain n zs1 where 1: "s1 = s\<lparr>next_of := n\<rparr>" "lseg n l1 zs1 0" "set zs1 = set xs" "length zs1 = length xs" "mset zs1 = mset xs"
    "\<And>x. x \<notin> set xs \<Longrightarrow> n x = next_of s x" using f(2) by (rule rearrangedE) blast
  have agree1: "agree ?D s s1" using agree_next [OF agree_refl] 1(1) by simp
  have "\<exists>l2 s2 zs2. (if sint finder_idx > 0 then core_list_mergesort cmp_complex l1 s1 else Some (l1, s1)) = Some (l2, s2)
    \<and> agree ?D s s2 \<and> lseg (next_of s2) l2 zs2 0 \<and> mset zs2 = mset xs \<and> (\<forall>x. x \<notin> set xs \<longrightarrow> next_of s2 x = next_of s x)"
  proof (cases "sint finder_idx > 0")
    case True
    then have "calc_ready s \<and> agree ?D s s1" using calc agree1 by simp
    moreover have "info_of s ` set zs1 \<subseteq> ?D - {0}" "zs1 \<noteq> []" using 1(3,4) xs(2,3) by auto
    ultimately obtain l2 s2 zs2 where "core_list_mergesort cmp_complex l1 s1 = Some (l2, s2)" "agree ?D s s2"
      "bottom_up (\<lambda>x y. True) (\<lambda>x y. True) 1 zs1 zs2" "lseg (next_of s2) l2 zs2 0"
      "\<forall>x. x \<notin> set zs1 \<longrightarrow> next_of s2 x = next_of s1 x"
      using by_value.core_list_mergesort_bottom_up [of s ?D s1 l1 zs1] 1(1,2) by auto
    with True 1 show ?thesis using bottom_up_mset by fastforce
  next
    case False
    with 1 agree1 show ?thesis by auto
  qed
  then obtain l2 s2 zs2 where 2: "(if sint finder_idx > 0 then core_list_mergesort cmp_complex l1 s1 else Some (l1, s1)) = Some (l2, s2)"
    "agree ?D s s2" "lseg (next_of s2) l2 zs2 0" "mset zs2 = mset xs" "\<forall>x. x \<notin> set xs \<longrightarrow> next_of s2 x = next_of s x"
    by blast
  have zs2: "set zs2 = set xs" "length zs2 = length xs" using mset_eq_setD [OF 2(4)] mset_eq_length [OF 2(4)] .
  obtain r2 where 3: "crc_without_one l2 i1 d1 r1 s2 = Some (r2, s2)"
    using crc_without_one_restores [OF 2(3), of i1 d1 r1] zs2 xs(2,3) agree_fields(1) [OF 2(2)] f(3,4) dat by auto
  obtain C c cm cs where 4: "core_list_mergesort cmp_idx l2 s2
      = Some (res_list s, s\<lparr>mat := mat s\<lparr>mat_C := C\<rparr>, crc := c, crcmatrix := cm, crcstate := cs\<rparr>)" (is "_ = Some (_, ?t)")
    using sorted_back [OF ready 2(2-5)] by blast
  obtain h rest where h: "xs = h # rest" "res_list s = h" "h \<noteq> 0" "lseg (next_of s) (next_of s h) rest 0"
    using xs(1,2) by (cases xs) auto
  obtain r3 where "crc_loop h (next_of ?t h) r2 ?t = Some r3"
    using crc_loop_returns [of ?t "next_of ?t h" rest h r2] h xs(3) by auto
  then have "core_bench_list finder_idx s = Some (r3, ?t)"
    using f(1) 2(1) 3 4 h by (simp add: core_bench_list_def get_next_def)
  then show ?thesis by blast
qed

section \<open>Properties\<close>


definition two_items :: "coremark \<Rightarrow> coremark" where
  "two_items s = s\<lparr>next_of := (\<lambda>_. 0)(16 := 32), info_of := (\<lambda>_. 64)(32 := 68), idx := (\<lambda>_. 7)(68 := 3)\<rparr>"


lemma cached_bit: "drop_bit 7 ((w AND 0xFF00) OR 0x80 OR (r AND 0x7F)) AND 1 \<noteq> 0" for w r :: u16
proof -
  have "bit ((w AND 0xFF00) OR 0x80 OR (r AND 0x7F)) 7" unfolding bit_and_iff bit_or_iff bit_bytes bit_low by simp
  then show ?thesis unfolding and_1_cases bit_drop_bit_eq by simp
qed

lemma cached_value: "((w AND 0xFF00) OR 0x80 OR (r AND 0x7F)) AND 0x7F = r AND 0x7F" for w r :: u16
  by (rule bit_word_eqI) (unfold bit_and_iff bit_or_iff bit_bytes bit_low, auto)

lemma calc_func_cached:
  assumes "d \<noteq> 0" "data16 s d = (w AND 0xFF00) OR 0x80 OR (r AND 0x7F)"
  shows "calc_func d s = Some (r AND 0x7F, s)"
  using assms(1) cached_bit [of w r] cached_value [of w r] by (simp add: calc_func_def get_data16_def assms(2))

lemma calc_func_stores:
  assumes "calc_func d s = Some (v, s')" "drop_bit 7 (data16 s d) AND 1 = 0"
  shows "v AND 0x7F = v \<and> data16 s' d = (data16 s d AND 0xFF00) OR 0x80 OR v"
proof -
  have d: "d \<noteq> 0" using assms by (auto simp: calc_func_def get_data16_def)
  have fin: "v AND 0x7F = v \<and> data16 s' d = (data16 s d AND 0xFF00) OR 0x80 OR v"
    if "Option.bind X (\<lambda>(retval, t). Option.bind (set_data16 d ((data16 s d AND 0xFF00) OR 0x80 OR (retval AND 0x7F))
      (t\<lparr>crc := crcu16 retval (crc t)\<rparr>)) (\<lambda>u. Some (retval AND 0x7F, u))) = Some (v, s')" for X :: "(u16 \<times> coremark) option"
    using that d by (auto simp: set_data16_def ac_simps elim!: bind_pair_SomeE)
  show ?thesis
    by (rule fin) (use assms d in \<open>simp only: calc_func_def get_data16_def Let_def if_False simp_thms Option.bind.simps\<close>)
qed

text \<open>A computed value is cached: asked again for the same item, \<open>calc_func\<close> gives the same value and changes
  nothing, so the order of the list by value does not move during a sort.\<close>

theorem calc_func_caches:
  assumes "calc_func d s = Some (v, s')"
  shows "calc_func d s' = Some (v, s')"
proof (cases "drop_bit 7 (data16 s d) AND 1 = 0")
  case False
  with assms show ?thesis by (auto simp: calc_func_def get_data16_def split: if_splits)
next
  case True
  have "d \<noteq> 0" using assms by (auto simp: calc_func_def get_data16_def)
  with calc_func_stores [OF assms True] calc_func_cached [of d s' "data16 s d" v] show ?thesis by simp
qed

theorem calc_func_caches_witness:
  "\<forall>s. \<exists>v s'. calc_func 64 (s\<lparr>data16 := \<lambda>_. 0x0707\<rparr>) = Some (v, s') \<and> calc_func 64 s' = Some (v, s')"
proof
  fix s
  obtain v s' where "calc_func 64 (s\<lparr>data16 := \<lambda>_. 0x0707\<rparr>) = Some (v, s')"
    by (simp add: calc_func_def get_data16_def set_data16_def)
  with calc_func_caches [OF this] show "\<exists>v s'. calc_func 64 (s\<lparr>data16 := \<lambda>_. 0x0707\<rparr>) = Some (v, s') \<and> calc_func 64 s' = Some (v, s')"
    by blast
qed

end
