(* ===== verification/Coremark_Init.thy ===== *)
theory Coremark_Init
  imports Coremark_Bench
begin

text \<open>
  \<open>core_list_init\<close>: the list it builds in the memory block.  With \<open>n\<close> the number of items
  the block is divided for, list head \<open>k\<close> stands at \<open>16 k\<close> from the start of the block and
  its data at \<open>16 n + 4 k\<close>; the last place of each region stays free.
\<close>

definition node :: "ptr \<Rightarrow> nat \<Rightarrow> ptr" where
  "node b k = b + 16 * of_nat k"

definition item :: "ptr \<Rightarrow> nat \<Rightarrow> nat \<Rightarrow> ptr" where
  "item b n k = b + 16 * of_nat n + 4 * of_nat k"

text \<open>The block fits in the address space and does not start at \<open>NULL\<close>.\<close>

definition list_room :: "ptr \<Rightarrow> nat \<Rightarrow> bool" where
  "list_room b n \<longleftrightarrow> b \<noteq> 0 \<and> unat b + 20 * n < 2 ^ 64"

lemma unat_node: "list_room b n \<Longrightarrow> k \<le> n \<Longrightarrow> unat (node b k) = unat b + 16 * k"
  using unat_offset [of b "16 * k"] by (simp add: list_room_def node_def)

lemma unat_item: "list_room b n \<Longrightarrow> k \<le> n \<Longrightarrow> unat (item b n k) = unat b + 16 * n + 4 * k"
  using unat_offset [of b "16 * n + 4 * k"] by (simp add: list_room_def item_def add.assoc)

lemma node_eq:
  assumes "list_room b n" "j \<le> n" "k \<le> n"
  shows "node b j = node b k \<longleftrightarrow> j = k"
proof
  assume "node b j = node b k"
  then have "unat (node b j) = unat (node b k)" by (rule arg_cong)
  then show "j = k" unfolding unat_node [OF assms(1,2)] unat_node [OF assms(1,3)] by linarith
qed (rule arg_cong)

lemma item_eq:
  assumes "list_room b n" "j \<le> n" "k \<le> n"
  shows "item b n j = item b n k \<longleftrightarrow> j = k"
proof
  assume "item b n j = item b n k"
  then have "unat (item b n j) = unat (item b n k)" by (rule arg_cong)
  then show "j = k" unfolding unat_item [OF assms(1,2)] unat_item [OF assms(1,3)] by linarith
qed (rule arg_cong)

lemma node_nonzero:
  assumes "list_room b n" "k \<le> n"
  shows "node b k \<noteq> 0"
proof
  assume "node b k = 0"
  then have "unat b = 0" using unat_node [OF assms] by simp
  with assms(1) show False by (simp add: list_room_def unsigned_eq_0_iff)
qed

lemma item_nonzero:
  assumes "list_room b n" "k \<le> n"
  shows "item b n k \<noteq> 0"
proof
  assume "item b n k = 0"
  then have "unat b = 0" using unat_item [OF assms] by simp
  with assms(1) show False by (simp add: list_room_def unsigned_eq_0_iff)
qed

section \<open>Inserting\<close>

text \<open>The list of \<open>k\<close> items: the head, then the others, the last inserted first.  Nothing but the first \<open>k\<close> places
  of the two regions has been written.\<close>

definition nodes :: "ptr \<Rightarrow> nat \<Rightarrow> ptr list" where
  "nodes b k = map (node b) (0 # rev [1..<k])"

definition built :: "ptr \<Rightarrow> nat \<Rightarrow> coremark \<Rightarrow> nat \<Rightarrow> coremark \<Rightarrow> bool" where
  "built b n s0 k s \<longleftrightarrow> (\<exists>nx info dt ix. s = s0\<lparr>next_of := nx, info_of := info, data16 := dt, idx := ix\<rparr>
     \<and> lseg nx b (nodes b k) 0
     \<and> (\<forall>j<k. info (node b j) = item b n j \<and> fresh (dt (item b n j)) = dt (item b n j)
          \<and> ix (item b n j) = (if j = 0 then 0 else 0x7FFF))
     \<and> (\<forall>x. x \<notin> node b ` {..<k} \<longrightarrow> nx x = next_of s0 x \<and> info x = info_of s0 x)
     \<and> (\<forall>d. d \<notin> item b n ` {..<k} \<longrightarrow> dt d = data16 s0 d \<and> ix d = idx s0 d))"

lemma nodes_Suc: "1 \<le> k \<Longrightarrow> nodes b (Suc k) = b # node b k # tl (nodes b k)"
  by (simp add: nodes_def node_def)

lemma set_nodes: "1 \<le> k \<Longrightarrow> set (nodes b k) = node b ` {..<k}"
proof -
  assume "1 \<le> k"
  then have "{..<k} = insert 0 {1..<k}" by auto
  then show ?thesis by (simp add: nodes_def)
qed

lemma insert_full: "list_room b n \<Longrightarrow> k = n - 1 \<Longrightarrow> 1 \<le> n \<Longrightarrow>
    core_list_insert_new b v i (node b k) (item b n k) (node b n) (item b n n) s = Some (0, node b k, item b n k, s)"
  by (simp add: core_list_insert_new_def node_def word_le_nat_alt of_nat_diff algebra_simps)

lemma insert_one:
  assumes "list_room b n" "built b n s0 k s" "1 \<le> k" "k + 1 < n" "fresh v = v"
  shows "\<exists>s'. core_list_insert_new b v 0x7FFF (node b k) (item b n k) (node b n) (item b n n) s
    = Some (node b k, node b (Suc k), item b n (Suc k), s') \<and> built b n s0 (Suc k) s'"
proof -
  obtain nx info dt ix where s: "s = s0\<lparr>next_of := nx, info_of := info, data16 := dt, idx := ix\<rparr>"
    "lseg nx b (nodes b k) 0"
    "\<And>j. j < k \<Longrightarrow> info (node b j) = item b n j \<and> fresh (dt (item b n j)) = dt (item b n j)
          \<and> ix (item b n j) = (if j = 0 then 0 else 0x7FFF)"
    "\<And>x. x \<notin> node b ` {..<k} \<Longrightarrow> nx x = next_of s0 x \<and> info x = info_of s0 x"
    "\<And>d. d \<notin> item b n ` {..<k} \<Longrightarrow> dt d = data16 s0 d \<and> ix d = idx s0 d"
    using assms(2) unfolding built_def by blast
  have suc: "node b k + 16 = node b (Suc k)" "item b n k + 4 = item b n (Suc k)"
    by (simp_all add: node_def item_def)
  have small: "\<not> node b n \<le> node b (Suc k)" "\<not> item b n n \<le> item b n (Suc k)"
    using assms(1,4) by (simp_all add: word_le_nat_alt unat_node unat_item)
  have nz: "b \<noteq> 0" "node b k \<noteq> 0" "item b n k \<noteq> 0"
    using assms(1,4) node_nonzero [of b n k] item_nonzero [of b n k] by (simp_all add: list_room_def)
  have b0: "b = node b 0" by (simp add: node_def)
  have ne: "b \<noteq> node b k" using node_eq [of b n 0 k] assms by (simp add: node_def)
  let ?nx = "nx(node b k := nx b, b := node b k)" and ?info = "info(node b k := item b n k)"
    and ?dt = "dt(item b n k := v)" and ?ix = "ix(item b n k := 0x7FFF)"
  let ?s = "s0\<lparr>next_of := ?nx, info_of := ?info, data16 := ?dt, idx := ?ix\<rparr>"
  have "core_list_insert_new b v 0x7FFF (node b k) (item b n k) (node b n) (item b n n) s
    = Some (node b k, node b (Suc k), item b n (Suc k), ?s)"
    using small nz ne by (simp add: core_list_insert_new_def suc field_defs copy_info_def s(1))
  moreover have "built b n s0 (Suc k) ?s"
    unfolding built_def
  proof (intro exI conjI)
    have "nodes b k = b # tl (nodes b k)" by (simp add: nodes_def node_def)
    then have tl: "lseg nx (nx b) (tl (nodes b k)) 0" "b \<notin> set (tl (nodes b k))"
      using s(2) lseg_distinct [OF s(2)] by (metis lseg.simps(2), metis distinct.simps(2))
    have "node b k \<notin> set (nodes b k)"
      using assms(1,3,4) node_eq by (auto simp: set_nodes)
    then have "node b k \<notin> set (tl (nodes b k))" by (metis list.set_sel(2) tl_Nil)
    with tl nz ne show "lseg ?nx b (nodes b (Suc k)) 0"
      unfolding nodes_Suc [OF assms(3)] by (simp add: fun_upd_other fun_upd_same del: fun_upd_apply)
    show "\<forall>j<Suc k. ?info (node b j) = item b n j \<and> fresh (?dt (item b n j)) = ?dt (item b n j)
          \<and> ?ix (item b n j) = (if j = 0 then 0 else 0x7FFF)"
      using s(3) assms node_eq [OF assms(1)] item_eq [OF assms(1)] by (auto simp: less_Suc_eq)
    show "\<forall>x. x \<notin> node b ` {..<Suc k} \<longrightarrow> ?nx x = next_of s0 x \<and> ?info x = info_of s0 x"
      using s(4) assms(3) b0 by (auto simp: lessThan_Suc)
    show "\<forall>d. d \<notin> item b n ` {..<Suc k} \<longrightarrow> ?dt d = data16 s0 d \<and> ?ix d = idx s0 d"
      using s(5) by (auto simp: lessThan_Suc)
  qed (rule refl)
  ultimately show ?thesis by blast
qed

lemma fresh_item_pattern: "fresh (item_pattern seed i) = item_pattern seed i"
proof (rule bit_word_eqI)
  define dat where "dat = push_bit 3 ((seed XOR ucast i) AND 0xF) OR (ucast i AND 7 :: u16)"
  have l: "(0xF :: u16) = mask 4" "(7 :: u16) = mask 3" by (simp_all add: mask_eq_exp_minus_1)
  have small: "bit dat m \<Longrightarrow> m < 7" for m
    unfolding dat_def l bit_or_iff bit_push_bit_iff bit_and_iff bit_mask_iff by auto
  have pat: "bit (item_pattern seed i) m = (if m < 8 then bit dat m else bit dat (m - 8))" if "m < 16" for m
    using that small [of m] unfolding item_pattern_def Let_def dat_def [symmetric] bit_or_iff bit_push_bit_iff by auto
  fix k assume "k < LENGTH(16)"
  then show "bit (fresh (item_pattern seed i)) k = bit (item_pattern seed i) k"
    by (simp add: bit_fresh pat)
qed

lemma insert_items_built:
  assumes "list_room b n" "built b n s0 k s" "1 \<le> k" "k \<le> n - 1"
  shows "\<exists>s'. insert_items m i seed b 0x7FFF (node b k) (item b n k) (node b n) (item b n n) s = Some s'
    \<and> built b n s0 (min (k + m) (n - 1)) s'"
  using assms(2-4)
proof (induction m arbitrary: k i s)
  case 0
  then show ?case by (simp add: min_absorb1)
next
  case (Suc m)
  show ?case
  proof (cases "k + 1 < n")
    case True
    obtain s1 where s1: "core_list_insert_new b (item_pattern seed i) 0x7FFF (node b k) (item b n k) (node b n) (item b n n) s
        = Some (node b k, node b (Suc k), item b n (Suc k), s1)" "built b n s0 (Suc k) s1"
      using insert_one [OF assms(1) Suc.prems(1,2) True fresh_item_pattern] by blast
    have le: "1 \<le> Suc k" "Suc k \<le> n - 1" using True by auto
    obtain s2 where "insert_items m (i + 1) seed b 0x7FFF (node b (Suc k)) (item b n (Suc k)) (node b n) (item b n n) s1 = Some s2"
      "built b n s0 (min (Suc k + m) (n - 1)) s2"
      using Suc.IH [OF s1(2) le, of "i + 1"] by blast
    with s1(1) show ?thesis by simp
  next
    case False
    then have k: "k = n - 1" "1 \<le> n" using Suc.prems(2,3) by auto
    have "core_list_insert_new b (item_pattern seed i) 0x7FFF (node b k) (item b n k) (node b n) (item b n n) s
        = Some (0, node b k, item b n k, s)"
      by (rule insert_full [OF assms(1) k])
    then show ?thesis using Suc.IH [OF Suc.prems, of "i + 1"] k by simp
  qed
qed

section \<open>Indexing\<close>

fun index_upd :: "(ptr \<Rightarrow> ptr) \<Rightarrow> u32 \<Rightarrow> u16 \<Rightarrow> ptr list \<Rightarrow> u32 \<Rightarrow> (ptr \<Rightarrow> u16) \<Rightarrow> ptr \<Rightarrow> u16" where
  "index_upd info sz seed (y # z # ys) i ix = index_upd info sz seed (z # ys) (i + 1) (ix(info y := index_of sz seed i))"
| "index_upd info sz seed ys i ix = ix"

lemma index_items_upd:
  assumes "lseg (next_of s) finder ys 0" "ys \<noteq> []" "\<forall>y\<in>set ys. info_of s y \<noteq> 0"
  shows "index_items sz seed finder i s = Some (s\<lparr>idx := index_upd (info_of s) sz seed ys i (idx s)\<rparr>)"
  using assms
proof (induction ys arbitrary: finder i s rule: induct_list012)
  case (2 y)
  then show ?case by (subst index_items.simps) (simp add: get_next_def)
next
  case (3 y z ys)
  let ?s = "s\<lparr>idx := (idx s)(info_of s y := index_of sz seed i)\<rparr>"
  have "index_items sz seed z (i + 1) ?s = Some (?s\<lparr>idx := index_upd (info_of ?s) sz seed (z # ys) (i + 1) (idx ?s)\<rparr>)"
    using "3.prems" by (intro "3.IH"(2)) simp_all
  with "3.prems" show ?case by (subst index_items.simps) (simp add: field_defs)
qed simp

lemma index_upd_other: "d \<notin> info ` set (butlast ys) \<Longrightarrow> index_upd info sz seed ys i ix d = ix d"
  by (induction info sz seed ys i ix rule: index_upd.induct) auto

lemma index_upd_at: "inj_on info (set ys) \<Longrightarrow> distinct ys \<Longrightarrow> Suc p < length ys \<Longrightarrow>
    index_upd info sz seed ys i ix (info (ys ! p)) = index_of sz seed (i + of_nat p)"
proof (induction info sz seed ys i ix arbitrary: p rule: index_upd.induct)
  case (1 info sz seed y z ys i ix)
  show ?case
  proof (cases p)
    case 0
    have "info y \<notin> info ` set (butlast (z # ys))"
      using "1.prems"(1,2) in_set_butlastD [of _ "z # ys"] by (force simp: inj_on_def)
    then show ?thesis using 0 by (simp add: index_upd_other)
  next
    case (Suc q)
    then show ?thesis using "1.IH" [of q] "1.prems" by (simp add: inj_on_def add.assoc del: fun_upd_apply)
  qed
qed simp_all

section \<open>The whole initialisation\<close>

lemma items_inj: "list_room b n \<Longrightarrow> \<forall>j<k. info (node b j) = item b n j \<Longrightarrow> k \<le> n \<Longrightarrow> 1 \<le> k \<Longrightarrow> inj_on info (set (nodes b k))"
  by (auto simp: inj_on_def set_nodes item_eq)

lemma tl_nodes: "3 \<le> n \<Longrightarrow> tl (nodes b (n - 1)) = map (node b) (rev [1..<n - 1])"
  by (simp add: nodes_def)

lemma nth_tl_nodes:
  assumes "3 \<le> n" "p < n - 2"
  shows "tl (nodes b (n - 1)) ! p = node b (n - 2 - p)"
proof -
  have "rev [1..<n - 1] ! p = [1..<n - 1] ! (length [1..<n - 1] - Suc p)" using assms by (intro rev_nth) simp
  also have "\<dots> = n - 2 - p" using assms by (subst nth_upt) auto
  finally show ?thesis unfolding tl_nodes [OF assms(1)] using assms by simp
qed

text \<open>The state before the sort.\<close>

lemma built_first:
  assumes "list_room b n" "3 \<le> n"
  shows "\<exists>s'. Option.bind (set_next b 0 s) (\<lambda>s. Option.bind (set_info b (item b n 0) s) (\<lambda>s. copy_info (item b n 0) 0x8080 0 s))
    = Some s' \<and> built b n s 1 s'"
proof -
  have nz: "b \<noteq> 0" "item b n 0 \<noteq> 0" using assms item_nonzero [of b n 0] by (simp_all add: list_room_def)
  have "fresh 0x8080 = 0x8080" by (simp add: fresh_def)
  have "built b n s 1 (s\<lparr>next_of := (next_of s)(b := 0), info_of := (info_of s)(b := item b n 0),
      data16 := (data16 s)(item b n 0 := 0x8080), idx := (idx s)(item b n 0 := 0)\<rparr>)"
    unfolding built_def
    by (rule exI [of _ "(next_of s)(b := 0)"], rule exI [of _ "(info_of s)(b := item b n 0)"],
        rule exI [of _ "(data16 s)(item b n 0 := 0x8080)"], rule exI [of _ "(idx s)(item b n 0 := 0)"])
      (use nz \<open>fresh 0x8080 = 0x8080\<close> in \<open>auto simp: nodes_def node_def\<close>)
  with nz show ?thesis by (simp add: field_defs copy_info_def)
qed

text \<open>The tail, the items and the index.\<close>

definition indexed :: "ptr \<Rightarrow> nat \<Rightarrow> u16 \<Rightarrow> nat \<Rightarrow> u16" where
  "indexed b n seed j = (if j = 0 then 0 else if j = 1 then 0x7FFF else index_of (of_nat n) seed (of_nat (n - 1 - j)))"

lemma built_all:
  assumes "list_room b n" "3 \<le> n" "built b n s0 1 s"
  obtains s1 s2 where
    "core_list_insert_new b 0xFFFF 0x7FFF (node b 1) (item b n 1) (node b n) (item b n n) s
      = Some (node b 1, node b 2, item b n 2, s1)"
    "insert_items m 0 seed b 0x7FFF (node b 2) (item b n 2) (node b n) (item b n n) s1 = Some s2"
    "built b n s0 (min (2 + m) (n - 1)) s2"
proof -
  have "fresh 0xFFFF = 0xFFFF" by (simp add: fresh_def)
  then obtain s1 where 1: "core_list_insert_new b 0xFFFF 0x7FFF (node b 1) (item b n 1) (node b n) (item b n n) s
      = Some (node b 1, node b 2, item b n 2, s1)" "built b n s0 2 s1"
    using insert_one [OF assms(1,3), of "0xFFFF"] assms(2) by (auto simp: numeral_2_eq_2)
  then show thesis
    using that insert_items_built [OF assms(1) 1(2), of m 0 seed] assms(2) by fastforce
qed

lemma index_built:
  assumes r: "list_room b n" "3 \<le> n" and "built b n s0 (n - 1) s"
  shows "\<exists>s'. index_items sz seed (next_of s b) 1 s = Some s' \<and> next_of s' = next_of s \<and> info_of s' = info_of s
    \<and> data16 s' = data16 s \<and> (sz = of_nat n \<longrightarrow> (\<forall>j<n - 1. idx s' (item b n j) = indexed b n seed j))
    \<and> (\<forall>d. d \<notin> item b n ` {..<n - 1} \<longrightarrow> idx s' d = idx s0 d)"
proof -
  let ?ys = "tl (nodes b (n - 1))"
  have facts: "lseg (next_of s) b (nodes b (n - 1)) 0" "\<forall>j<n - 1. info_of s (node b j) = item b n j"
      "\<forall>j<n - 1. idx s (item b n j) = (if j = 0 then 0 else 0x7FFF)"
      "\<forall>d. d \<notin> item b n ` {..<n - 1} \<longrightarrow> idx s d = idx s0 d"
    using assms(3) by (auto simp: built_def)
  have ns: "nodes b (n - 1) = b # ?ys" by (simp add: nodes_def node_def)
  have ys: "lseg (next_of s) (next_of s b) ?ys 0" using facts(1) ns by (metis lseg.simps(2))
  have len: "length ?ys = n - 2" "?ys \<noteq> []" unfolding tl_nodes [OF r(2)] using r(2) by simp_all
  have set_ys: "set ?ys = node b ` {1..<n - 1}" unfolding tl_nodes [OF r(2)] by simp
  have nz: "\<forall>y\<in>set ?ys. info_of s y \<noteq> 0" unfolding set_ys using facts(2) item_nonzero [OF r(1)] by auto
  let ?s = "s\<lparr>idx := index_upd (info_of s) sz seed ?ys 1 (idx s)\<rparr>"
  have inj: "inj_on (info_of s) (set ?ys)"
    unfolding set_ys using facts(2) item_eq [OF r(1)] by (auto simp: inj_on_def)
  have last: "set (butlast ?ys) = node b ` {2..<n - 1}"
  proof -
    have "[1..<n - 1] = 1 # [2..<n - 1]" using r(2) by (simp add: upt_conv_Cons numeral_2_eq_2)
    then show ?thesis unfolding tl_nodes [OF r(2)] by (simp add: butlast_append map_butlast [symmetric])
  qed
  have at: "idx ?s (item b n j) = index_of sz seed (of_nat (n - 1 - j))" if "2 \<le> j" "j < n - 1" for j
  proof -
    have p: "Suc (n - 2 - j) < length ?ys" "n - 2 - j < n - 2" "n - 2 - (n - 2 - j) = j" using that len by auto
    have y: "?ys ! (n - 2 - j) = node b j" using nth_tl_nodes [OF r(2) p(2), of b] p(3) by simp
    have e: "(1 + of_nat (n - 2 - j) :: u32) = of_nat (n - 1 - j)"
    proof -
      have "n - 1 - j = Suc (n - 2 - j)" using that by simp
      then show ?thesis by simp
    qed
    have i: "info_of s (?ys ! (n - 2 - j)) = item b n j" unfolding y using facts(2) that(2) by blast
    show ?thesis
      using index_upd_at [OF inj distinct_tl [OF lseg_distinct [OF facts(1)]] p(1), of sz seed 1 "idx s"] unfolding i e by simp
  qed
  have other: "idx ?s d = idx s d" if "d \<notin> item b n ` {2..<n - 1}" for d
  proof -
    have "info_of s ` set (butlast ?ys) = item b n ` {2..<n - 1}"
      unfolding last image_image using facts(2) by (intro image_cong) simp_all
    then show ?thesis using that index_upd_other [of d "info_of s" ?ys] by simp
  qed
  have "idx ?s (item b n j) = indexed b n seed j" if "j < n - 1" "sz = of_nat n" for j
  proof (cases "2 \<le> j")
    case True
    with at [OF True that(1)] that(2) show ?thesis by (simp add: indexed_def)
  next
    case False
    then have "item b n j \<notin> item b n ` {2..<n - 1}" using item_eq [OF r(1)] that(1) by auto
    with other [of "item b n j"] facts(3) that(1) False show ?thesis by (auto simp: indexed_def)
  qed
  moreover have "idx ?s d = idx s0 d" if "d \<notin> item b n ` {..<n - 1}" for d
  proof -
    have "d \<notin> item b n ` {2..<n - 1}" using that by force
    then show ?thesis using other facts(4) that by simp
  qed
  moreover have "index_items sz seed (next_of s b) 1 s = Some ?s"
    by (rule index_items_upd [OF ys len(2) nz])
  ultimately show ?thesis by (intro exI [of _ ?s]) simp
qed

text \<open>\<open>core_list_init\<close> builds the list in its block: with \<open>n\<close> the number of items the block is divided for
  (two less than \<open>blksize / 20\<close>), the list has the \<open>n - 1\<close> list heads and data of the block, sorted by index; every
  data item carries its backup; the head has index 0, the tail the largest and the others their seed order; and
  no other address is written.\<close>

theorem core_list_init_builds:
  assumes "n = unat blksize div 20 - 2" "3 \<le> n" "b \<noteq> 0" "unat b + unat blksize < 2 ^ 64"
  shows "\<exists>list' s'. core_list_init blksize b seed s = Some (list', s')
    \<and> lseg (next_of s') list' (sort_key (\<lambda>p. sint (idx s' (info_of s' p))) (nodes b (n - 1))) 0
    \<and> (\<forall>j<n - 1. info_of s' (node b j) = item b n j \<and> fresh (data16 s' (item b n j)) = data16 s' (item b n j)
         \<and> idx s' (item b n j) = indexed b n seed j)
    \<and> (\<forall>x. x \<notin> node b ` {..<n - 1} \<longrightarrow> next_of s' x = next_of s x \<and> info_of s' x = info_of s x)
    \<and> (\<forall>d. d \<notin> item b n ` {..<n - 1} \<longrightarrow> data16 s' d = data16 s d \<and> idx s' d = idx s d)"
proof -
  have r: "list_room b n" using assms by (simp add: list_room_def)
  have n32: "n < 2 ^ 32" using assms(1) unsigned_less [of blksize, where ?'a = nat] by simp
  have "unat (blksize div 20) = unat blksize div 20" by (simp add: unat_div)
  moreover have "unat (blksize div 20 - 2) = unat (blksize div 20) - unat (2 :: u32)"
    using assms(1,2) calculation by (intro unat_sub) (simp add: word_le_nat_alt)
  ultimately have "unat (blksize div (16 + 4) - 2) = n" using assms(1) by simp
  moreover have c: "(ucast (of_nat n :: u32) :: u64) = of_nat n" "unat (of_nat n :: u32) = n"
  proof -
    show u: "unat (of_nat n :: u32) = n" using n32 by (simp add: unat_of_nat)
    have "unat (of_nat n :: u64) = n" using n32 by (simp add: unat_of_nat)
    with u show "(ucast (of_nat n :: u32) :: u64) = of_nat n" by (intro word_unat_eqI) (simp add: unat_widen)
  qed
  ultimately have sz: "blksize div (16 + 4) - 2 = of_nat n" by (intro word_unat_eqI) (simp only:)
  obtain s1 where 1: "Option.bind (set_next b 0 s) (\<lambda>s. Option.bind (set_info b (item b n 0) s) (\<lambda>s. copy_info (item b n 0) 0x8080 0 s))
    = Some s1" "built b n s 1 s1" using built_first [OF r assms(2)] by blast
  obtain s2 s3 where 2: "core_list_insert_new b 0xFFFF 0x7FFF (node b 1) (item b n 1) (node b n) (item b n n) s1
      = Some (node b 1, node b 2, item b n 2, s2)"
    "insert_items n 0 seed b 0x7FFF (node b 2) (item b n 2) (node b n) (item b n n) s2 = Some s3"
    "built b n s (min (2 + n) (n - 1)) s3" by (rule built_all [OF r assms(2) 1(2)])
  then have b3: "built b n s (n - 1) s3" by simp
  then obtain s4 where 4: "index_items (of_nat n) seed (next_of s3 b) 1 s3 = Some s4" "next_of s4 = next_of s3"
    "info_of s4 = info_of s3" "data16 s4 = data16 s3" "\<forall>j<n - 1. idx s4 (item b n j) = indexed b n seed j"
    "\<forall>d. d \<notin> item b n ` {..<n - 1} \<longrightarrow> idx s4 d = idx s d"
    using index_built [OF r assms(2) b3] by blast
  have f: "lseg (next_of s4) b (nodes b (n - 1)) 0" "\<forall>j<n - 1. info_of s4 (node b j) = item b n j"
    "\<forall>x. x \<notin> node b ` {..<n - 1} \<longrightarrow> next_of s4 x = next_of s x \<and> info_of s4 x = info_of s x"
    "\<forall>d. d \<notin> item b n ` {..<n - 1} \<longrightarrow> data16 s4 d = data16 s d"
    using b3 4(2-4) by (auto simp: built_def)
  have set_n: "set (nodes b (n - 1)) = node b ` {..<n - 1}" using assms(2) by (intro set_nodes) simp
  then have D: "info_of s4 ` set (nodes b (n - 1)) = item b n ` {..<n - 1}"
    using f(2) by (auto simp: image_image)
  have "info_of s4 ` set (nodes b (n - 1)) \<subseteq> info_of s4 ` set (nodes b (n - 1)) - {0}"
    unfolding D using item_nonzero [OF r] by auto
  from by_idx.core_list_mergesort_sorts [OF agree_refl f(1) _ this] obtain l s5 where
    5: "core_list_mergesort cmp_idx b s4 = Some (l, s5)" "agree (info_of s4 ` set (nodes b (n - 1))) s4 s5"
    "lseg (next_of s5) l (sort_key (\<lambda>p. sint (idx s4 (info_of s4 p))) (nodes b (n - 1))) 0"
    "\<forall>x. x \<notin> set (nodes b (n - 1)) \<longrightarrow> next_of s5 x = next_of s4 x"
    "2 \<le> length (nodes b (n - 1)) \<longrightarrow> info_of s4 ` set (nodes b (n - 1)) \<subseteq> refreshed s5"
    by (auto simp: nodes_def)
  have ends: "b + 16 * ucast (of_nat n :: u32) = item b n 0" "b + 16 * ucast (of_nat n :: u32) = node b n"
      "node b n + 4 * ucast (of_nat n :: u32) = item b n n" "b + 16 = node b 1" "item b n 0 + 4 = item b n 1"
    by (simp_all add: c item_def node_def)
  have "core_list_init blksize b seed s = Some (l, s5)"
  proof -
    from 1(1) obtain t u where "set_next b 0 s = Some t" "set_info b (item b n 0) t = Some u"
      "copy_info (item b n 0) 0x8080 0 u = Some s1" by (auto elim!: bind_SomeE)
    moreover have "get_next b s3 = Some (next_of s3 b)" using assms(3) by (simp add: get_next_def)
    ultimately show ?thesis
      using 2(1,2) 4(1) 5(1) ends unfolding core_list_init_def Let_def sz c(2) by simp
  qed
  moreover have "fresh (data16 s5 (item b n j)) = data16 s5 (item b n j)" if "j < n - 1" for j
  proof -
    have "2 \<le> length (nodes b (n - 1))" using assms(2) by (simp add: nodes_def)
    with 5(5) have "item b n ` {..<n - 1} \<subseteq> refreshed s5" unfolding D by blast
    then show ?thesis using that by (auto simp: refreshed_def)
  qed
  ultimately show ?thesis
    using 5(3,4) 4(5,6) f set_n D agree_fields(1,2,12) [OF 5(2)] by (intro exI [of _ l] exI [of _ s5]) simp
qed

theorem core_list_init_builds_witness:
  "\<forall>s. \<exists>list' s'. core_list_init 120 0x1000 7 s = Some (list', s')
    \<and> lseg (next_of s') list' (sort_key (\<lambda>p. sint (idx s' (info_of s' p))) (nodes 0x1000 3)) 0"
proof
  fix s
  have "nodes 0x1000 (4 - 1) = nodes 0x1000 3" by simp
  then show "\<exists>list' s'. core_list_init 120 0x1000 7 s = Some (list', s')
      \<and> lseg (next_of s') list' (sort_key (\<lambda>p. sint (idx s' (info_of s' p))) (nodes 0x1000 3)) 0"
    using core_list_init_builds [of 4 120 "0x1000" 7 s] by auto
qed

end
