(* ===== verification/Coremark_Main.thy ===== *)
theory Coremark_Main
  imports Coremark_Bench
begin

text \<open>
  \<open>coremark_main.c\<close> of the CoreMark port: the seeds and the split of the memory block,
  the iterations, and the verdict on the checksums.  One context (\<open>MULTITHREAD\<close> is 1) with
  a static block; the printed report is left to \<open>Printf\<close>, only its verdict is here.
\<close>

section \<open>Parameters of a run\<close>

definition list_known_crc :: "u16 list" where
  "list_known_crc = [0xd4b0, 0x3340, 0x6a79, 0xe714, 0xe3c1]"

definition matrix_known_crc :: "u16 list" where
  "matrix_known_crc = [0xbe52, 0x1199, 0x5608, 0x1fd7, 0x0747]"

definition state_known_crc :: "u16 list" where
  "state_known_crc = [0x5e47, 0x39bf, 0xe5a4, 0x8e3a, 0x8d84]"

text \<open>Bits of \<open>execs\<close>: 0 is the list, 1 the matrix, 2 the state benchmark.\<close>

definition ALL_ALGORITHMS_MASK :: u32 where "ALL_ALGORITHMS_MASK = 7"

definition TOTAL_DATA_SIZE :: u32 where "TOTAL_DATA_SIZE = 2 * 1000"

text \<open>The three seeds, \<open>iterations\<close> and \<open>execs\<close> from the seed variables, with the defaults for the
  two special combinations.\<close>

definition run_seeds :: "u32 list \<Rightarrow> u16 \<times> u16 \<times> u16 \<times> u32 \<times> u32" where
  "run_seeds seeds =
     (let s1 = ucast (get_seed_32 seeds 1); s2 = ucast (get_seed_32 seeds 2); s3 = ucast (get_seed_32 seeds 3);
          iters = get_seed_32 seeds 4;
          execs = get_seed_32 seeds 5; execs = (if execs = 0 then ALL_ALGORITHMS_MASK else execs);
          (s1, s2, s3) = (if s1 = 0 \<and> s2 = 0 \<and> s3 = 0 then (0, 0, 0x66) else (s1, s2, s3));
          (s1, s2, s3) = (if s1 = 1 \<and> s2 = 0 \<and> s3 = 0 then (0x3415, 0x3415, 0x66) else (s1, s2, s3))
      in (s1, s2, s3, iters, execs))"

definition num_algorithms :: "u32 \<Rightarrow> nat" where
  "num_algorithms execs = length (filter (\<lambda>i. push_bit i 1 AND execs \<noteq> 0) [0, 1, 2])"

text \<open>The size of each share, and the share of algorithm \<open>i\<close>: the shares follow each other.\<close>

definition share_size :: "u32 \<Rightarrow> u32 option" where
  "share_size execs = (if num_algorithms execs = 0 then None else Some (TOTAL_DATA_SIZE div of_nat (num_algorithms execs)))"

definition share :: "u32 \<Rightarrow> u64 \<Rightarrow> u32 \<Rightarrow> nat \<Rightarrow> u64" where
  "share execs memblk sz i = memblk + ucast (sz * of_nat (length (filter (\<lambda>k. push_bit k 1 AND execs \<noteq> 0) [0..<i])))"

definition call_inits :: "u32 \<Rightarrow> u64 \<Rightarrow> matres list \<Rightarrow> coremark \<Rightarrow> coremark option" where
  "call_inits execs memblk garbage s = do {
     sz \<leftarrow> share_size execs;
     let s = s\<lparr>res_size := sz, memblock3 := share execs memblk sz 2\<rparr>;
     s \<leftarrow> (if execs AND 1 \<noteq> 0
          then do { (l, s) \<leftarrow> core_list_init sz (share execs memblk sz 0) (seed1 s) s; Some (s\<lparr>res_list := l\<rparr>) }
          else Some s);
     s \<leftarrow> (if execs AND 2 \<noteq> 0
          then do { (_, p) \<leftarrow> core_init_matrix sz (sint (scast (seed1 s) OR push_bit 16 (scast (seed2 s)) :: u32)) garbage;
                    Some (s\<lparr>mat := p\<rparr>) }
          else Some s);
     if execs AND 4 \<noteq> 0
     then do { m \<leftarrow> core_init_state (state_mem s) sz (seed1 s) (memblock3 s); Some (s\<lparr>state_mem := m\<rparr>) }
     else Some s
   }"

section \<open>Iterations\<close>

primrec iterate_loop :: "nat \<Rightarrow> u32 \<Rightarrow> coremark \<Rightarrow> coremark option" where
  "iterate_loop 0 i s = Some s"
| "iterate_loop (Suc n) i s = do {
     (c, s) \<leftarrow> core_bench_list 1 s;
     let s = s\<lparr>crc := crcu16 c (crc s)\<rparr>;
     (c, s) \<leftarrow> core_bench_list (- 1) s;
     let s = s\<lparr>crc := crcu16 c (crc s)\<rparr>;
     let s = (if i = 0 then s\<lparr>crclist := crc s\<rparr> else s);
     iterate_loop n (i + 1) s
   }"

definition iterate :: "coremark \<Rightarrow> coremark option" where
  "iterate s = iterate_loop (unat (iterations s)) 0 (s\<lparr>crc := 0, crclist := 0, crcmatrix := 0, crcstate := 0\<rparr>)"

definition time_in_secs :: "u64 \<Rightarrow> u32" where
  "time_in_secs ticks = ucast ticks div 1000000"

text \<open>The number of iterations when none is given: \<open>ticks\<close> is what the counter says after a run.
  \<open>secs_ret\<close> is an unsigned integer on this port.\<close>

partial_function (option) find_iterations :: "(coremark \<Rightarrow> u64) \<Rightarrow> u32 \<Rightarrow> coremark \<Rightarrow> coremark option" where
  "find_iterations ticks secs s =
     (if secs < 1
      then Option.bind (iterate (s\<lparr>iterations := iterations s * 10\<rparr>)) (\<lambda>s.
        find_iterations ticks (time_in_secs (ticks s)) s)
      else let divisor = (if secs = 0 then 1 else secs)
           in Some (s\<lparr>iterations := iterations s * (1 + 10 div divisor)\<rparr>))"

definition run_benchmark :: "(coremark \<Rightarrow> u64) \<Rightarrow> coremark \<Rightarrow> coremark option" where
  "run_benchmark ticks s = do {
     s \<leftarrow> (if iterations s = 0 then find_iterations ticks 0 (s\<lparr>iterations := 1\<rparr>) else Some s);
     s \<leftarrow> iterate s;
     iterate s
   }"

section \<open>The verdict\<close>

definition seedcrc :: "coremark \<Rightarrow> u16" where
  "seedcrc s = core_crc16 (ucast (res_size s)) (core_crc16 (seed3 s) (core_crc16 (seed2 s) (core_crc16 (seed1 s) 0)))"

definition known_id :: "u16 \<Rightarrow> int" where
  "known_id c = (if c = 0x8a02 then 0 else if c = 0x7b05 then 1 else if c = 0x4eaf then 2
     else if c = 0xe9f5 then 3 else if c = 0x18f2 then 4 else - 1)"

definition crc_errors :: "u32 \<Rightarrow> nat \<Rightarrow> coremark \<Rightarrow> int" where
  "crc_errors execs kid s =
     (if execs AND 1 \<noteq> 0 \<and> crclist s \<noteq> list_known_crc ! kid then 1 else 0)
     + (if execs AND 2 \<noteq> 0 \<and> crcmatrix s \<noteq> matrix_known_crc ! kid then 1 else 0)
     + (if execs AND 4 \<noteq> 0 \<and> crcstate s \<noteq> state_known_crc ! kid then 1 else 0)"

text \<open>The sizes of the data types of this port against the sizes expected.\<close>

definition check_data_types :: int where
  "check_data_types = int (length (filter (\<lambda>(a, b). a \<noteq> b) [(1, 1), (2, 2), (2, 2), (4, 4), (4, 4), (8, 8 :: nat)]))"

definition total_errors :: "u32 \<Rightarrow> bool \<Rightarrow> u32 \<Rightarrow> coremark \<Rightarrow> int" where
  "total_errors execs SKIP_TIME_CHECK secs s =
     (let kid = known_id (seedcrc s);
          tot = (if kid \<ge> 0 then crc_errors execs (nat kid) s else - 1);
          tot = tot + check_data_types
      in if \<not> SKIP_TIME_CHECK \<and> secs < 10 then tot + 1 else tot)"

datatype verdict = Validated | Errors_detected | Cannot_validate

definition verdict_of :: "int \<Rightarrow> verdict" where
  "verdict_of tot = (if tot = 0 then Validated else if tot > 0 then Errors_detected else Cannot_validate)"

section \<open>Every iteration starts from the same data\<close>

text \<open>Neither condition speaks of what the benchmark writes.\<close>

lemma ready_update [simp]:
  "list_ready xs (s\<lparr>mat := v0\<rparr>) = list_ready xs s"
  "list_ready xs (s\<lparr>crc := v1\<rparr>) = list_ready xs s"
  "list_ready xs (s\<lparr>crclist := v2\<rparr>) = list_ready xs s"
  "list_ready xs (s\<lparr>crcmatrix := v3\<rparr>) = list_ready xs s"
  "list_ready xs (s\<lparr>crcstate := v4\<rparr>) = list_ready xs s"
  "calc_ready (s\<lparr>mat := v0\<rparr>) = calc_ready s"
  "calc_ready (s\<lparr>crc := v1\<rparr>) = calc_ready s"
  "calc_ready (s\<lparr>crclist := v2\<rparr>) = calc_ready s"
  "calc_ready (s\<lparr>crcmatrix := v3\<rparr>) = calc_ready s"
  "calc_ready (s\<lparr>crcstate := v4\<rparr>) = calc_ready s"
  by (simp_all add: list_ready_def calc_ready_def)

lemma iterate_loop_restores:
  assumes "list_ready xs s" "calc_ready s" "0 < sint (seed3 s)"
  shows "\<exists>C c cl cm cs. iterate_loop n i s
    = Some (s\<lparr>mat := mat s\<lparr>mat_C := C\<rparr>, crc := c, crclist := cl, crcmatrix := cm, crcstate := cs\<rparr>)"
  using assms
proof (induction n arbitrary: i s)
  case 0
  have "s\<lparr>mat := mat s\<lparr>mat_C := mat_C (mat s)\<rparr>, crc := crc s, crclist := crclist s, crcmatrix := crcmatrix s,
      crcstate := crcstate s\<rparr> = s" by simp
  then show ?case unfolding iterate_loop.simps by metis
next
  case (Suc n)
  obtain r1 C1 c1 cm1 cs1 where 1: "core_bench_list 1 s
      = Some (r1, s\<lparr>mat := mat s\<lparr>mat_C := C1\<rparr>, crc := c1, crcmatrix := cm1, crcstate := cs1\<rparr>)"
    using bench_list_restores [OF Suc.prems(1), of 1] Suc.prems by auto
  let ?s1 = "s\<lparr>mat := mat s\<lparr>mat_C := C1\<rparr>, crcmatrix := cm1, crcstate := cs1, crc := crcu16 r1 c1\<rparr>"
  obtain r2 C2 c2 cm2 cs2 where 2: "core_bench_list (- 1) ?s1
      = Some (r2, ?s1\<lparr>mat := mat ?s1\<lparr>mat_C := C2\<rparr>, crc := c2, crcmatrix := cm2, crcstate := cs2\<rparr>)"
    using bench_list_restores [of xs ?s1 "- 1"] Suc.prems by auto
  let ?c = "crcu16 r2 c2"
  let ?t = "s\<lparr>mat := mat s\<lparr>mat_C := C2\<rparr>, crcmatrix := cm2, crcstate := cs2, crc := ?c\<rparr>"
  have step: "iterate_loop (Suc n) i s = iterate_loop n (i + 1) (if i = 0 then ?t\<lparr>crclist := ?c\<rparr> else ?t)"
    using 1 2 by (simp add: Let_def)
  show ?case
  proof (cases "i = 0")
    case True
    have "list_ready xs (?t\<lparr>crclist := ?c\<rparr>)" "calc_ready (?t\<lparr>crclist := ?c\<rparr>)" "0 < sint (seed3 (?t\<lparr>crclist := ?c\<rparr>))"
      using Suc.prems by simp_all
    from Suc.IH [OF this, of "i + 1"] show ?thesis using True unfolding step by simp
  next
    case False
    have "list_ready xs ?t" "calc_ready ?t" "0 < sint (seed3 ?t)" using Suc.prems by simp_all
    from Suc.IH [OF this, of "i + 1"] show ?thesis using False unfolding step by simp
  qed
qed

text \<open>A run of any number of iterations returns, and the list (links, data and indices), the operands
  of the matrices and the state block are exactly what they were: every iteration measures the same work,
  as the comments promise.  Asked for is a list in index order with its backups (\<open>list_ready\<close>), a state
  block the scans cannot leave (\<open>calc_ready\<close>) and at least one find.\<close>

theorem iterate_restores:
  assumes "list_ready xs s" "calc_ready s" "0 < sint (seed3 s)"
  shows "\<exists>C c cl cm cs. iterate s
    = Some (s\<lparr>mat := mat s\<lparr>mat_C := C\<rparr>, crc := c, crclist := cl, crcmatrix := cm, crcstate := cs\<rparr>)"
proof -
  let ?s = "s\<lparr>crc := 0, crclist := 0, crcmatrix := 0, crcstate := 0\<rparr>"
  have "list_ready xs ?s" "calc_ready ?s" "0 < sint (seed3 ?s)"
    using assms by simp_all
  from iterate_loop_restores [OF this, of "unat (iterations s)" 0] show ?thesis
    by (simp add: iterate_def)
qed

text \<open>A list of three items and a state block of two NULs.\<close>

definition small_run :: coremark where
  "small_run = \<lparr>next_of = (\<lambda>_. 0)(16 := 32, 32 := 48), info_of = (\<lambda>_. 0)(16 := 256, 32 := 260, 48 := 264), data16 = \<lambda>_. 0,
     idx = (\<lambda>_. 0)(260 := 1, 264 := 2), state_mem = \<lambda>_. 0, memblock3 = 4096,
     mat = \<lparr>mat_N = 0, mat_A = [], mat_B = [], mat_C = []\<rparr>, res_size = 2, seed1 = 8, seed2 = 8, seed3 = 2,
     iterations = 3, res_list = 16, crc = 0, crclist = 0, crcmatrix = 0, crcstate = 0\<rparr>"

theorem iterate_restores_witness:
  "\<exists>C c cl cm cs. iterate small_run
    = Some (small_run\<lparr>mat := mat small_run\<lparr>mat_C := C\<rparr>, crc := c, crclist := cl, crcmatrix := cm, crcstate := cs\<rparr>)"
proof -
  have "list_ready [16, 32, 48] small_run"
    by (simp add: list_ready_def small_run_def fresh_def)
  moreover have "calc_ready small_run"
    by (auto simp: calc_ready_def small_run_def intro!: exI [of _ 1])
  moreover have "0 < sint (seed3 small_run)" by (simp add: small_run_def)
  ultimately show ?thesis by (rule iterate_restores)
qed

section \<open>Known runs\<close>

definition with_parameters :: "u16 \<Rightarrow> u16 \<Rightarrow> u16 \<Rightarrow> u32 \<Rightarrow> coremark \<Rightarrow> coremark" where
  "with_parameters s1 s2 s3 sz s = s\<lparr>seed1 := s1, seed2 := s2, seed3 := s3, res_size := sz\<rparr>"

lemma seedcrc_parameters: "seedcrc (with_parameters s1 s2 s3 sz s) = core_crc16 (ucast sz) (core_crc16 s3 (core_crc16 s2 (core_crc16 s1 0)))"
  by (simp add: seedcrc_def with_parameters_def)

lemma seedcrc_6k_performance: "core_crc16 (ucast (2000 :: u32)) (core_crc16 0x66 (core_crc16 0 (core_crc16 0 0))) = 0x8a02" by code_simp
lemma seedcrc_6k_validation: "core_crc16 (ucast (2000 :: u32)) (core_crc16 0x66 (core_crc16 0x3415 (core_crc16 0x3415 0))) = 0x7b05" by code_simp
lemma seedcrc_profile: "core_crc16 (ucast (400 :: u32)) (core_crc16 8 (core_crc16 8 (core_crc16 8 0))) = 0x4eaf" by code_simp
lemma seedcrc_2k_performance: "core_crc16 (ucast (666 :: u32)) (core_crc16 0x66 (core_crc16 0 (core_crc16 0 0))) = 0xe9f5" by code_simp
lemma seedcrc_2k_validation: "core_crc16 (ucast (666 :: u32)) (core_crc16 0x66 (core_crc16 0x3415 (core_crc16 0x3415 0))) = 0x18f2" by code_simp

text \<open>The five parameter sets named in the comments give the five checksums of the seeds that the code
  looks for, so each is checked against its own row of known results.\<close>

theorem known_runs_recognised:
  "known_id (seedcrc (with_parameters 0 0 0x66 2000 s)) = 0 \<and> known_id (seedcrc (with_parameters 0x3415 0x3415 0x66 2000 s)) = 1
   \<and> known_id (seedcrc (with_parameters 8 8 8 400 s)) = 2 \<and> known_id (seedcrc (with_parameters 0 0 0x66 666 s)) = 3
   \<and> known_id (seedcrc (with_parameters 0x3415 0x3415 0x66 666 s)) = 4"
  by (simp only: seedcrc_parameters seedcrc_6k_performance seedcrc_6k_validation seedcrc_profile seedcrc_2k_performance
      seedcrc_2k_validation) (simp add: known_id_def)

text \<open>With the time check compiled in, a short run with unknown seeds is reported as validated: the penalty for
  the short run takes the marker of the unknown seeds back to 0.\<close>

lemma unknown_short_run_validated:
  "known_id (seedcrc s) = - 1 \<Longrightarrow> secs < 10 \<Longrightarrow> verdict_of (total_errors execs False secs s) = Validated"
  by (simp add: total_errors_def check_data_types_def verdict_of_def)

lemma unknown_run_not_validated:
  "known_id (seedcrc s) = - 1 \<Longrightarrow> verdict_of (total_errors execs True secs s) = Cannot_validate"
  by (simp add: total_errors_def check_data_types_def verdict_of_def)

end
