(* ===== verification/Cache_Directory.thy ===== *)
theory Cache_Directory
  imports Prelude
begin

text \<open>
  The reference cache directory of the HPDcache test bench
  (\<open>generic_cache_directory_base.h\<close>, \<open>generic_cache_directory_plru.h\<close>): tags and valid
  bits of a set-associative cache, and the pseudo-LRU replacement.  Sizes are natural
  numbers, addresses and tags 64-bit words; the arrays are lists indexed as the code
  indexes them.  Output parameters are results.
\<close>

record dir =
  ways_m :: nat
  sets_m :: nat
  bytes_m :: nat
  tag_m :: "u64 list"
  val_m :: "bool list"
  plru_m :: "bool list"

section \<open>The base class\<close>

definition cell :: "dir \<Rightarrow> nat \<Rightarrow> nat \<Rightarrow> nat" where
  "cell d way sx = way * sets_m d + sx"

definition getCacheTag :: "dir \<Rightarrow> nat \<Rightarrow> nat \<Rightarrow> u64" where
  "getCacheTag d way sx = tag_m d ! cell d way sx"

definition getCacheValid :: "dir \<Rightarrow> nat \<Rightarrow> nat \<Rightarrow> bool" where
  "getCacheValid d way sx = val_m d ! cell d way sx"

definition putCacheTag :: "nat \<Rightarrow> nat \<Rightarrow> u64 \<Rightarrow> dir \<Rightarrow> dir" where
  "putCacheTag way sx t d = d\<lparr>tag_m := (tag_m d)[cell d way sx := t]\<rparr>"

definition putCacheValid :: "nat \<Rightarrow> nat \<Rightarrow> bool \<Rightarrow> dir \<Rightarrow> dir" where
  "putCacheValid way sx v d = d\<lparr>val_m := (val_m d)[cell d way sx := v]\<rparr>"

definition getNline :: "dir \<Rightarrow> u64 \<Rightarrow> nat \<Rightarrow> u64" where
  "getNline d t sx = t * of_nat (sets_m d) + of_nat sx"

definition getAddrNline :: "dir \<Rightarrow> u64 \<Rightarrow> u64" where
  "getAddrNline d addr = addr div of_nat (bytes_m d)"

definition getAddr :: "dir \<Rightarrow> u64 \<Rightarrow> nat \<Rightarrow> u64" where
  "getAddr d t sx = getNline d t sx * of_nat (bytes_m d)"

definition getAddrTag :: "dir \<Rightarrow> u64 \<Rightarrow> u64" where
  "getAddrTag d addr = of_nat (unat addr div (sets_m d * bytes_m d))"

definition getAddrSet :: "dir \<Rightarrow> u64 \<Rightarrow> nat" where
  "getAddrSet d addr = (unat addr div bytes_m d) mod sets_m d"

text \<open>The constructor allocates the arrays and does not initialise them.\<close>

definition newDirectory :: "nat \<Rightarrow> nat \<Rightarrow> nat \<Rightarrow> u64 list \<Rightarrow> bool list \<Rightarrow> bool list \<Rightarrow> dir option" where
  "newDirectory nways nsets nbytes tags vals plrus =
     (if nsets > 0 \<and> nways > 0 \<and> nbytes > 0
      then Some \<lparr>ways_m = nways, sets_m = nsets, bytes_m = nbytes, tag_m = take (nways * nsets) tags,
                 val_m = take (nways * nsets) vals, plru_m = take (nways * nsets) plrus\<rparr>
      else None)"

definition over_cells :: "(nat \<Rightarrow> nat \<Rightarrow> dir \<Rightarrow> dir) \<Rightarrow> dir \<Rightarrow> dir" where
  "over_cells f d = fold (\<lambda>way. fold (\<lambda>sx. f way sx) [0..<sets_m d]) [0..<ways_m d] d"

definition base_reset :: "dir \<Rightarrow> dir" where
  "base_reset d = over_cells (\<lambda>way sx d. putCacheTag way sx 0 (putCacheValid way sx False d)) d"

definition UINT_MAX :: nat where "UINT_MAX = 2 ^ 32 - 1"

text \<open>The way of a valid line with the tag of \<open>addr\<close>.\<close>

definition find_way :: "dir \<Rightarrow> u64 \<Rightarrow> nat option" where
  "find_way d addr = find (\<lambda>way. getCacheValid d way (getAddrSet d addr)
     \<and> getAddrTag d addr = getCacheTag d way (getAddrSet d addr)) [0..<ways_m d]"

definition hit :: "dir \<Rightarrow> u64 \<Rightarrow> bool \<times> nat \<times> nat" where
  "hit d addr = (case find_way d addr of
      Some way \<Rightarrow> (True, way, getAddrSet d addr)
    | None \<Rightarrow> (False, UINT_MAX, UINT_MAX))"

definition inval_way :: "nat \<Rightarrow> nat \<Rightarrow> dir \<Rightarrow> bool \<times> dir" where
  "inval_way way sx d = (getCacheValid d way sx, putCacheValid way sx False d)"

definition inval :: "u64 \<Rightarrow> dir \<Rightarrow> bool \<times> dir" where
  "inval addr d =
     (case find (\<lambda>way. getCacheTag d way (getAddrSet d addr) = getAddrTag d addr) [0..<ways_m d] of
        Some way \<Rightarrow> (True, putCacheValid way (getAddrSet d addr) False d)
      | None \<Rightarrow> (False, d))"

text \<open>The replacement policy is virtual in the base class: here an argument.\<close>

definition access :: "(nat \<Rightarrow> nat \<Rightarrow> dir \<Rightarrow> dir) \<Rightarrow> u64 \<Rightarrow> bool \<Rightarrow> dir \<Rightarrow> (bool \<times> nat \<times> nat) \<times> dir" where
  "access replUpdate addr update_repl_flags d =
     (let (h, way, sx) = hit d addr
      in if h then ((True, way, sx), if update_repl_flags then replUpdate way sx d else d)
         else ((False, UINT_MAX, UINT_MAX), d))"

section \<open>Pseudo-LRU\<close>

definition getCachePlru :: "dir \<Rightarrow> nat \<Rightarrow> nat \<Rightarrow> bool" where
  "getCachePlru d way sx = plru_m d ! cell d way sx"

definition putCachePlru :: "nat \<Rightarrow> nat \<Rightarrow> bool \<Rightarrow> dir \<Rightarrow> dir" where
  "putCachePlru way sx v d = d\<lparr>plru_m := (plru_m d)[cell d way sx := v]\<rparr>"

definition reset :: "dir \<Rightarrow> dir" where
  "reset d = over_cells (\<lambda>way sx. putCachePlru way sx False) (base_reset d)"

definition replUpdate :: "nat \<Rightarrow> nat \<Rightarrow> dir \<Rightarrow> dir" where
  "replUpdate way sx d =
     (let d = putCachePlru way sx True d;
          rst = list_all (\<lambda>w. getCachePlru d w sx) [0..<ways_m d]
      in if rst then fold (\<lambda>w d. if w \<noteq> way then putCachePlru w sx False d else d) [0..<ways_m d] d else d)"

record victim =
  replaced :: bool
  victim_tag :: u64
  victim_way :: nat
  victim_set :: nat

text \<open>\<open>None\<close> is the failed assertion.\<close>

definition repl :: "u64 \<Rightarrow> dir \<Rightarrow> (victim \<times> dir) option" where
  "repl addr d =
     (let sx = getAddrSet d addr; t = getAddrTag d addr
      in case find (\<lambda>way. \<not> getCacheValid d way sx) [0..<ways_m d] of
           Some way \<Rightarrow>
             Some (\<lparr>replaced = False, victim_tag = 0, victim_way = way, victim_set = sx\<rparr>,
                   replUpdate way sx (putCacheTag way sx t (putCacheValid way sx True d)))
         | None \<Rightarrow>
             (case find (\<lambda>way. \<not> getCachePlru d way sx) [0..<ways_m d] of
                Some way \<Rightarrow>
                  Some (\<lparr>replaced = True, victim_tag = getCacheTag d way sx, victim_way = way, victim_set = sx\<rparr>,
                        replUpdate way sx (putCacheTag way sx t d))
              | None \<Rightarrow> None))"

definition alloc :: "u64 \<Rightarrow> dir \<Rightarrow> (victim \<times> dir) option" where
  "alloc addr d = repl addr d"

section \<open>Cells\<close>

definition dir_ok :: "dir \<Rightarrow> bool" where
  "dir_ok d \<longleftrightarrow> 0 < ways_m d \<and> 0 < sets_m d \<and> 0 < bytes_m d \<and> length (tag_m d) = ways_m d * sets_m d
     \<and> length (val_m d) = ways_m d * sets_m d \<and> length (plru_m d) = ways_m d * sets_m d"

lemma cell_less: "way < ways_m d \<Longrightarrow> sx < sets_m d \<Longrightarrow> cell d way sx < ways_m d * sets_m d"
proof -
  assume "way < ways_m d" "sx < sets_m d"
  then have "way * sets_m d + sx < Suc way * sets_m d" "Suc way * sets_m d \<le> ways_m d * sets_m d"
    by (simp, intro mult_le_mono1, simp)
  then show ?thesis by (simp add: cell_def)
qed

lemma cell_eq: "sx < sets_m d \<Longrightarrow> sx' < sets_m d \<Longrightarrow> cell d way sx = cell d way' sx' \<longleftrightarrow> way = way' \<and> sx = sx'"
proof
  assume b: "sx < sets_m d" "sx' < sets_m d" and e: "cell d way sx = cell d way' sx'"
  have "cell d way sx div sets_m d = way" "cell d way' sx' div sets_m d = way'"
    "cell d way sx mod sets_m d = sx" "cell d way' sx' mod sets_m d = sx'"
    using b by (simp_all add: cell_def)
  with e show "way = way' \<and> sx = sx'" by simp
qed simp

lemma getAddrSet_less: "dir_ok d \<Longrightarrow> getAddrSet d addr < sets_m d"
  by (simp add: dir_ok_def getAddrSet_def)

text \<open>Reading a cell after writing one.\<close>

lemma put_get:
  assumes "dir_ok d" "way < ways_m d" "sx < sets_m d" "sx' < sets_m d"
  shows "getCacheTag (putCacheTag way sx t d) way' sx' = (if way' = way \<and> sx' = sx then t else getCacheTag d way' sx')"
    and "getCacheValid (putCacheValid way sx v d) way' sx' = (if way' = way \<and> sx' = sx then v else getCacheValid d way' sx')"
    and "getCachePlru (putCachePlru way sx v d) way' sx' = (if way' = way \<and> sx' = sx then v else getCachePlru d way' sx')"
  using assms cell_less [of way d sx] cell_eq [of sx d sx' way way']
  by (auto simp: getCacheTag_def putCacheTag_def getCacheValid_def putCacheValid_def getCachePlru_def putCachePlru_def
      dir_ok_def cell_def nth_list_update)

lemma put_other [simp]:
  "getCacheTag (putCacheValid way sx v d) = getCacheTag d" "getCacheTag (putCachePlru way sx v d) = getCacheTag d"
  "getCacheValid (putCacheTag way sx t d) = getCacheValid d" "getCacheValid (putCachePlru way sx v d) = getCacheValid d"
  "getCachePlru (putCacheTag way sx t d) = getCachePlru d" "getCachePlru (putCacheValid way sx v d) = getCachePlru d"
  by (simp_all add: fun_eq_iff getCacheTag_def putCacheTag_def getCacheValid_def putCacheValid_def getCachePlru_def
      putCachePlru_def cell_def)

lemma put_sizes [simp]:
  "ways_m (putCacheTag way sx t d) = ways_m d" "sets_m (putCacheTag way sx t d) = sets_m d" "bytes_m (putCacheTag way sx t d) = bytes_m d"
  "ways_m (putCacheValid way sx v d) = ways_m d" "sets_m (putCacheValid way sx v d) = sets_m d" "bytes_m (putCacheValid way sx v d) = bytes_m d"
  "ways_m (putCachePlru way sx v d) = ways_m d" "sets_m (putCachePlru way sx v d) = sets_m d" "bytes_m (putCachePlru way sx v d) = bytes_m d"
  "dir_ok (putCacheTag way sx t d) = dir_ok d" "dir_ok (putCacheValid way sx v d) = dir_ok d" "dir_ok (putCachePlru way sx v d) = dir_ok d"
  by (simp_all add: putCacheTag_def putCacheValid_def putCachePlru_def dir_ok_def)

section \<open>The lines in the cache\<close>

definition shape :: "dir \<Rightarrow> nat \<times> nat \<times> nat" where
  "shape d = (ways_m d, sets_m d, bytes_m d)"

lemma shape_addr: "shape d' = shape d \<Longrightarrow> getAddrSet d' = getAddrSet d \<and> getAddrTag d' = getAddrTag d
    \<and> ways_m d' = ways_m d \<and> sets_m d' = sets_m d"
  by (simp add: shape_def fun_eq_iff getAddrSet_def getAddrTag_def)

text \<open>A line is its set and its tag.\<close>

definition line_of :: "dir \<Rightarrow> u64 \<Rightarrow> nat \<times> u64" where
  "line_of d addr = (getAddrSet d addr, getAddrTag d addr)"

definition cached :: "dir \<Rightarrow> (nat \<times> u64) set" where
  "cached d = {(sx, getCacheTag d way sx) | way sx. way < ways_m d \<and> sx < sets_m d \<and> getCacheValid d way sx}"

definition unique :: "dir \<Rightarrow> bool" where
  "unique d \<longleftrightarrow> (\<forall>sx < sets_m d. \<forall>w < ways_m d. \<forall>w' < ways_m d.
     getCacheValid d w sx \<and> getCacheValid d w' sx \<and> getCacheTag d w sx = getCacheTag d w' sx \<longrightarrow> w = w')"

lemma find_upt: "find P [0..<n] = Some k \<longleftrightarrow> k < n \<and> P k \<and> (\<forall>j < k. \<not> P j)"
  by (auto simp: find_Some_iff)

lemma find_upt_None: "find P [0..<n] = None \<longleftrightarrow> (\<forall>k < n. \<not> P k)"
  by (auto simp: find_None_iff)

lemma hit_find_way: "fst (hit d addr) \<longleftrightarrow> find_way d addr \<noteq> None"
  by (simp add: hit_def split: option.split)

lemma hit_iff: "dir_ok d \<Longrightarrow> fst (hit d addr) \<longleftrightarrow> line_of d addr \<in> cached d"
proof -
  assume ok: "dir_ok d"
  have "fst (hit d addr) \<longleftrightarrow> find_way d addr \<noteq> None" by (rule hit_find_way)
  also have "\<dots> \<longleftrightarrow> (\<exists>w < ways_m d. getCacheValid d w (getAddrSet d addr) \<and> getAddrTag d addr = getCacheTag d w (getAddrSet d addr))"
    unfolding find_way_def find_upt_None by auto
  also have "\<dots> \<longleftrightarrow> line_of d addr \<in> cached d"
    using getAddrSet_less [OF ok, of addr] by (auto simp: line_of_def cached_def)
  finally show ?thesis .
qed

lemma hit_way:
  assumes "dir_ok d" "hit d addr = (True, way, sx)"
  shows "way < ways_m d \<and> sx = getAddrSet d addr \<and> getCacheValid d way sx \<and> getCacheTag d way sx = getAddrTag d addr"
  using assms by (auto simp: hit_def find_way_def find_upt split: option.splits)

text \<open>An address names its line, and tag and set give back the first address of the line.\<close>

lemma line_start:
  assumes "dir_ok d" "sets_m d * bytes_m d < 2 ^ 64"
  shows "unat (getAddr d (getAddrTag d addr) (getAddrSet d addr)) = unat addr div bytes_m d * bytes_m d"
proof -
  let ?s = "sets_m d" and ?b = "bytes_m d" and ?a = "unat addr"
  have pos: "0 < ?s" "0 < ?b" using assms(1) by (simp_all add: dir_ok_def)
  have a: "?a < 2 ^ 64" using unsigned_less [of addr, where ?'a = nat] by simp
  have nline: "?a div (?s * ?b) * ?s + ?a div ?b mod ?s = ?a div ?b"
    by (metis div_mult2_eq div_mult_mod_eq mult.commute)
  have lt: "?a div ?b * ?b \<le> ?a" "?a div ?b \<le> ?a" by (simp_all add: div_times_less_eq_dividend)
  have "getAddr d (getAddrTag d addr) (getAddrSet d addr)
      = of_nat ((?a div (?s * ?b) * ?s + ?a div ?b mod ?s) * ?b)"
    by (simp add: getAddr_def getNline_def getAddrTag_def getAddrSet_def)
  also have "\<dots> = of_nat (?a div ?b * ?b)" unfolding nline ..
  finally have g: "getAddr d (getAddrTag d addr) (getAddrSet d addr) = of_nat (?a div ?b * ?b)" .
  have "?a div ?b * ?b < 2 ^ 64" by (rule le_less_trans [OF lt(1) a])
  then show ?thesis unfolding g unat_of_nat by simp
qed

section \<open>The replacement policy\<close>

text \<open>What the base class relies on: an update of the policy's own state, and a victim that is an empty way of the
  set of the address or a valid one.\<close>

locale replacement =
  fixes upd :: "nat \<Rightarrow> nat \<Rightarrow> dir \<Rightarrow> dir" and rp :: "u64 \<Rightarrow> dir \<Rightarrow> (victim \<times> dir) option" and ok :: "dir \<Rightarrow> bool"
  assumes ok_dir: "ok d \<Longrightarrow> dir_ok d"
    and upd_ok: "ok d \<Longrightarrow> w < ways_m d \<Longrightarrow> sx < sets_m d \<Longrightarrow> ok (upd w sx d)"
    and upd_keeps: "shape (upd w sx d) = shape d" "getCacheTag (upd w sx d) = getCacheTag d"
      "getCacheValid (upd w sx d) = getCacheValid d"
    and rp_returns: "ok d \<Longrightarrow> \<exists>v d' e. rp addr d = Some (v, d') \<and> ok d' \<and> victim_way v < ways_m d \<and> victim_set v = getAddrSet d addr
      \<and> replaced v = getCacheValid d (victim_way v) (getAddrSet d addr)
      \<and> (replaced v \<longrightarrow> victim_tag v = getCacheTag d (victim_way v) (getAddrSet d addr))
      \<and> e = putCacheTag (victim_way v) (getAddrSet d addr) (getAddrTag d addr) (putCacheValid (victim_way v) (getAddrSet d addr) True d)
      \<and> shape d' = shape d \<and> getCacheTag d' = getCacheTag e \<and> getCacheValid d' = getCacheValid e"
begin

lemma access_spec:
  assumes "ok d"
  shows "\<exists>h w sx d'. access upd addr flag d = ((h, w, sx), d') \<and> ok d' \<and> shape d' = shape d \<and> cached d' = cached d
    \<and> (unique d \<longrightarrow> unique d') \<and> (h \<longleftrightarrow> line_of d addr \<in> cached d)
    \<and> (h \<longrightarrow> w < ways_m d \<and> sx = getAddrSet d addr \<and> getCacheTag d w sx = getAddrTag d addr)"
proof (cases "hit d addr")
  case (fields h w sx)
  show ?thesis
  proof (cases h)
    case True
    with fields have "hit d addr = (True, w, sx)" by simp
    then have w: "w < ways_m d" "sx = getAddrSet d addr" "getCacheTag d w sx = getAddrTag d addr"
      using hit_way [OF ok_dir [OF assms], of addr w sx] by blast+
    have ok': "ok (upd w sx d)" using upd_ok [OF assms w(1)] getAddrSet_less [OF ok_dir [OF assms]] w(2) by simp
    have "cached (upd w sx d) = cached d" "unique d \<longrightarrow> unique (upd w sx d)"
      using upd_keeps [of w sx d] shape_addr [OF upd_keeps(1), of w sx d] by (simp_all add: cached_def unique_def)
    with True fields w ok' assms hit_iff [OF ok_dir [OF assms], of addr] show ?thesis
      by (intro exI [of _ True] exI [of _ w] exI [of _ sx] exI [of _ "if flag then upd w sx d else d"])
        (simp add: access_def upd_keeps(1))
  next
    case False
    with fields assms hit_iff [OF ok_dir [OF assms], of addr] show ?thesis
      by (intro exI [of _ False] exI [of _ UINT_MAX] exI [of _ d]) (simp add: access_def)
  qed
qed

text \<open>An allocation after a miss replaces at most the reported victim by the new line.\<close>

lemma alloc_spec:
  assumes "ok d" "unique d" "line_of d addr \<notin> cached d"
  shows "\<exists>v d'. rp addr d = Some (v, d') \<and> ok d' \<and> shape d' = shape d \<and> unique d'
    \<and> (replaced v \<longrightarrow> (victim_set v, victim_tag v) \<in> cached d)
    \<and> cached d' = insert (line_of d addr) (cached d - (if replaced v then {(victim_set v, victim_tag v)} else {}))"
proof -
  let ?s = "getAddrSet d addr" and ?t = "getAddrTag d addr"
  obtain v d' where v: "rp addr d = Some (v, d')" "ok d'" "victim_way v < ways_m d" "victim_set v = ?s"
      "replaced v = getCacheValid d (victim_way v) ?s" "replaced v \<longrightarrow> victim_tag v = getCacheTag d (victim_way v) ?s"
      "shape d' = shape d"
    and e: "getCacheTag d' = getCacheTag (putCacheTag (victim_way v) ?s ?t (putCacheValid (victim_way v) ?s True d))"
      "getCacheValid d' = getCacheValid (putCacheTag (victim_way v) ?s ?t (putCacheValid (victim_way v) ?s True d))"
    using rp_returns [OF assms(1), of addr] by blast
  have s: "?s < sets_m d" by (rule getAddrSet_less [OF ok_dir [OF assms(1)]])
  have tag: "getCacheTag d' w sx = (if w = victim_way v \<and> sx = ?s then ?t else getCacheTag d w sx)" if "sx < sets_m d" for w sx
    using e(1) put_get(1) [of "putCacheValid (victim_way v) ?s True d" "victim_way v" ?s sx ?t w]
      ok_dir [OF assms(1)] v(3) s that by simp
  have val: "getCacheValid d' w sx = (w = victim_way v \<and> sx = ?s \<or> getCacheValid d w sx)" if "sx < sets_m d" for w sx
    using e(2) put_get(2) [OF ok_dir [OF assms(1)] v(3) s that, of True w] by auto
  have sz: "ways_m d' = ways_m d" "sets_m d' = sets_m d" using shape_addr [OF v(7)] by simp_all
  have new: "getCacheTag d w ?s \<noteq> ?t" if "w < ways_m d" "getCacheValid d w ?s" for w
    using assms(3) that s by (auto simp: line_of_def cached_def)
  have "unique d'"
    unfolding unique_def sz
  proof (intro allI impI)
    fix sx w w' assume a: "sx < sets_m d" "w < ways_m d" "w' < ways_m d"
      "getCacheValid d' w sx \<and> getCacheValid d' w' sx \<and> getCacheTag d' w sx = getCacheTag d' w' sx"
    then show "w = w'"
      using new [of w] new [of w'] assms(2) unfolding tag [OF a(1)] val [OF a(1)]
      by (auto simp: unique_def split: if_splits)
  qed
  moreover have "cached d' = insert (?s, ?t) (cached d - (if replaced v then {(?s, victim_tag v)} else {}))"
  proof (rule equalityI; rule subrelI)
    fix sx t assume "(sx, t) \<in> cached d'"
    then obtain w where w: "w < ways_m d" "sx < sets_m d" "getCacheValid d' w sx" "t = getCacheTag d' w sx"
      by (auto simp: cached_def sz)
    show "(sx, t) \<in> insert (?s, ?t) (cached d - (if replaced v then {(?s, victim_tag v)} else {}))"
    proof (cases "w = victim_way v \<and> sx = ?s")
      case True
      then show ?thesis using w tag [OF w(2)] by simp
    next
      case False
      then have "(sx, t) \<in> cached d" "t = getCacheTag d w sx" "getCacheValid d w sx"
        using w tag [OF w(2)] val [OF w(2)] by (auto simp: cached_def)
      moreover have "\<not> (replaced v \<and> sx = ?s \<and> t = victim_tag v)"
        using assms(2) calculation False w v(3,5,6) s unfolding unique_def by metis
      ultimately show ?thesis by auto
    qed
  next
    fix sx t assume a: "(sx, t) \<in> insert (?s, ?t) (cached d - (if replaced v then {(?s, victim_tag v)} else {}))"
    show "(sx, t) \<in> cached d'"
    proof (cases "(sx, t) = (?s, ?t)")
      case True
      then show ?thesis using tag [OF s] val [OF s] v(3) s by (auto simp: cached_def sz intro!: exI [of _ "victim_way v"])
    next
      case False
      with a obtain w where w: "w < ways_m d" "sx < sets_m d" "getCacheValid d w sx" "t = getCacheTag d w sx"
        "replaced v \<longrightarrow> (sx, t) \<noteq> (?s, victim_tag v)" by (auto simp: cached_def split: if_splits)
      then have "\<not> (w = victim_way v \<and> sx = ?s)" using v(5,6) by auto
      with w show ?thesis using tag [OF w(2)] val [OF w(2)] by (auto simp: cached_def sz intro!: exI [of _ w])
    qed
  qed
  moreover have "replaced v \<longrightarrow> (?s, victim_tag v) \<in> cached d" using v(3,5,6) s by (auto simp: cached_def)
  ultimately show ?thesis using v by (auto simp: line_of_def)
qed

end

section \<open>Pseudo-LRU never runs out of victims\<close>

lemma put_shape [simp]: "shape (putCacheTag w sx t d) = shape d" "shape (putCacheValid w sx v d) = shape d"
  "shape (putCachePlru w sx v d) = shape d"
  by (simp_all add: shape_def)

text \<open>The loop that clears the other bits.\<close>

definition clear_others :: "nat \<Rightarrow> nat \<Rightarrow> nat list \<Rightarrow> dir \<Rightarrow> dir" where
  "clear_others way sx ws d = fold (\<lambda>w d. if w \<noteq> way then putCachePlru w sx False d else d) ws d"

lemma clear_others_simps [simp]: "clear_others way sx [] d = d"
  "clear_others way sx (w # ws) d = clear_others way sx ws (if w \<noteq> way then putCachePlru w sx False d else d)"
  by (simp_all add: clear_others_def)

lemma clear_others_keeps: "shape (clear_others way sx ws d) = shape d" "getCacheTag (clear_others way sx ws d) = getCacheTag d"
  "getCacheValid (clear_others way sx ws d) = getCacheValid d" "dir_ok (clear_others way sx ws d) = dir_ok d"
  by (induction ws arbitrary: d) simp_all

lemma clear_others_plru:
  assumes "dir_ok d" "sx < sets_m d" "sx' < sets_m d" "\<forall>w\<in>set ws. w < ways_m d"
  shows "getCachePlru (clear_others way sx ws d) w sx' =
    (if sx' = sx \<and> w \<noteq> way \<and> w \<in> set ws then False else getCachePlru d w sx')"
  using assms
proof (induction ws arbitrary: d)
  case (Cons v ws)
  then show ?case by (auto simp: put_get(3))
qed simp

lemma replUpdate_eq: "replUpdate way sx d = (let d = putCachePlru way sx True d
    in if \<forall>w < ways_m d. getCachePlru d w sx then clear_others way sx [0..<ways_m d] d else d)"
  by (auto simp: replUpdate_def clear_others_def Let_def list_all_iff)

lemma replUpdate_keeps: "shape (replUpdate w sx d) = shape d" "getCacheTag (replUpdate w sx d) = getCacheTag d"
  "getCacheValid (replUpdate w sx d) = getCacheValid d" "dir_ok (replUpdate w sx d) = dir_ok d"
  by (simp_all add: replUpdate_eq Let_def clear_others_keeps)

text \<open>The used way is marked; another way is left unmarked when there is another way at all.\<close>

lemma replUpdate_plru:
  assumes "dir_ok d" "way < ways_m d" "sx < sets_m d"
  shows "getCachePlru (replUpdate way sx d) way sx"
    and "2 \<le> ways_m d \<Longrightarrow> \<exists>w < ways_m d. \<not> getCachePlru (replUpdate way sx d) w sx"
    and "sx' < sets_m d \<Longrightarrow> sx' \<noteq> sx \<Longrightarrow> getCachePlru (replUpdate way sx d) w sx' = getCachePlru d w sx'"
proof -
  let ?d = "putCachePlru way sx True d"
  have c: "getCachePlru (clear_others way sx [0..<ways_m d] ?d) w sx' =
      (if sx' = sx \<and> w \<noteq> way \<and> w < ways_m d then False else getCachePlru ?d w sx')" if "sx' < sets_m d" for w sx'
    using clear_others_plru [of ?d sx sx' "[0..<ways_m d]" way w] assms that by simp
  have p: "getCachePlru ?d w sx' = (w = way \<and> sx' = sx \<or> getCachePlru d w sx')" if "sx' < sets_m d" for w sx'
    using put_get(3) [OF assms that, of True w] by auto
  show "getCachePlru (replUpdate way sx d) way sx"
    using assms(3) by (simp add: replUpdate_eq Let_def c p)
  show "\<exists>w < ways_m d. \<not> getCachePlru (replUpdate way sx d) w sx" if "2 \<le> ways_m d"
  proof (cases "\<forall>w < ways_m d. getCachePlru ?d w sx")
    case True
    define w where "w = (if way = 0 then 1 else 0 :: nat)"
    have "w < ways_m d" "w \<noteq> way" using that by (auto simp: w_def)
    with True assms(3) show ?thesis by (intro exI [of _ w]) (simp add: replUpdate_eq Let_def c)
  next
    case False
    then show ?thesis by (auto simp: replUpdate_eq Let_def)
  qed
  show "getCachePlru (replUpdate way sx d) w sx' = getCachePlru d w sx'" if "sx' < sets_m d" "sx' \<noteq> sx"
    using that by (simp add: replUpdate_eq Let_def c p)
qed

definition plru_ok :: "dir \<Rightarrow> bool" where
  "plru_ok d \<longleftrightarrow> dir_ok d \<and> 2 \<le> ways_m d \<and> (\<forall>sx < sets_m d. \<exists>w < ways_m d. \<not> getCachePlru d w sx)"

lemma plru_ok_put: "plru_ok (putCacheTag w sx t d) = plru_ok d" "plru_ok (putCacheValid w sx v d) = plru_ok d"
  by (simp_all add: plru_ok_def)

lemma replUpdate_ok:
  assumes "plru_ok d" "w < ways_m d" "sx < sets_m d"
  shows "plru_ok (replUpdate w sx d)"
proof -
  have ok: "dir_ok d" "2 \<le> ways_m d" using assms(1) by (simp_all add: plru_ok_def)
  have sz: "ways_m (replUpdate w sx d) = ways_m d" "sets_m (replUpdate w sx d) = sets_m d"
    using shape_addr [OF replUpdate_keeps(1), of w sx d] by simp_all
  have "\<exists>v < ways_m d. \<not> getCachePlru (replUpdate w sx d) v sx'" if "sx' < sets_m d" for sx'
  proof (cases "sx' = sx")
    case True
    then show ?thesis using replUpdate_plru(2) [OF ok(1) assms(2,3) ok(2)] by simp
  next
    case False
    then show ?thesis using replUpdate_plru(3) [OF ok(1) assms(2,3) that] assms(1) that by (simp add: plru_ok_def)
  qed
  then show ?thesis using ok by (simp add: plru_ok_def sz replUpdate_keeps(4))
qed

lemma repl_returns:
  assumes "plru_ok d"
  shows "\<exists>v d' e. repl addr d = Some (v, d') \<and> plru_ok d' \<and> victim_way v < ways_m d \<and> victim_set v = getAddrSet d addr
      \<and> replaced v = getCacheValid d (victim_way v) (getAddrSet d addr)
      \<and> (replaced v \<longrightarrow> victim_tag v = getCacheTag d (victim_way v) (getAddrSet d addr))
      \<and> e = putCacheTag (victim_way v) (getAddrSet d addr) (getAddrTag d addr) (putCacheValid (victim_way v) (getAddrSet d addr) True d)
      \<and> shape d' = shape d \<and> getCacheTag d' = getCacheTag e \<and> getCacheValid d' = getCacheValid e"
proof -
  let ?s = "getAddrSet d addr" and ?t = "getAddrTag d addr"
  have ok: "dir_ok d" using assms by (simp add: plru_ok_def)
  have s: "?s < sets_m d" by (rule getAddrSet_less [OF ok])
  show ?thesis
  proof (cases "find (\<lambda>way. \<not> getCacheValid d way ?s) [0..<ways_m d]")
    case (Some w)
    then have w: "w < ways_m d" "\<not> getCacheValid d w ?s" by (auto simp: find_upt)
    have "plru_ok (replUpdate w ?s (putCacheTag w ?s ?t (putCacheValid w ?s True d)))"
      by (rule replUpdate_ok) (simp_all add: plru_ok_put assms w s)
    then show ?thesis using Some w by (simp add: repl_def Let_def replUpdate_keeps)
  next
    case None
    then have valid: "\<And>w. w < ways_m d \<Longrightarrow> getCacheValid d w ?s" by (auto simp: find_upt_None)
    obtain w0 where "w0 < ways_m d" "\<not> getCachePlru d w0 ?s" using assms s by (auto simp: plru_ok_def)
    then obtain w where w: "find (\<lambda>way. \<not> getCachePlru d way ?s) [0..<ways_m d] = Some w" "w < ways_m d"
      by (cases "find (\<lambda>way. \<not> getCachePlru d way ?s) [0..<ways_m d]") (auto simp: find_upt_None find_upt)
    have "plru_ok (replUpdate w ?s (putCacheTag w ?s ?t d))"
      by (rule replUpdate_ok) (simp_all add: plru_ok_put assms w s)
    moreover have "val_m d ! cell d w ?s = True" using valid [OF w(2)] by (simp add: getCacheValid_def)
    then have "putCacheValid w ?s True d = d" by (simp add: putCacheValid_def list_update_same_conv cell_less [OF w(2) s] ok [unfolded dir_ok_def])
    ultimately show ?thesis using None w valid [OF w(2)] by (simp add: repl_def Let_def replUpdate_keeps)
  qed
qed

lemma plru_ok_dir: "plru_ok d \<Longrightarrow> dir_ok d"
  by (simp add: plru_ok_def)

interpretation plru: replacement replUpdate repl plru_ok
  by unfold_locales (fact plru_ok_dir replUpdate_ok replUpdate_keeps repl_returns)+

section \<open>Reset\<close>

lemma over_cells_inv:
  assumes "P d" "\<And>way sx d. P d \<Longrightarrow> P (f way sx d)"
  shows "P (over_cells f d)"
proof -
  have inner: "P (fold (f way) ss d)" if "P d" for way ss d
    using that assms(2) by (induction ss arbitrary: d) auto
  have "P (fold (\<lambda>way. fold (f way) ss) ws d)" for ss ws
    using assms(1) inner by (induction ws arbitrary: d) auto
  then show ?thesis by (simp add: over_cells_def)
qed

text \<open>The nested loop visits every cell.\<close>

lemma over_cells_all:
  assumes f: "\<And>way sx d. I d \<Longrightarrow> way < nw \<Longrightarrow> sx < ns \<Longrightarrow> I (f way sx d) \<and> R (f way sx d) way sx
      \<and> (\<forall>w < nw. \<forall>s < ns. R d w s \<longrightarrow> R (f way sx d) w s)"
    and "I d" "ways_m d = nw" "sets_m d = ns"
  shows "I (over_cells f d) \<and> (\<forall>w < nw. \<forall>s < ns. R (over_cells f d) w s)"
proof -
  have inner: "I (fold (f way) [0..<k] d) \<and> (\<forall>s < k. R (fold (f way) [0..<k] d) way s)
      \<and> (\<forall>w < nw. \<forall>s < ns. R d w s \<longrightarrow> R (fold (f way) [0..<k] d) w s)"
    if "I d" "way < nw" "k \<le> ns" for way k d
    using that(3)
  proof (induction k)
    case 0
    then show ?case using that by simp
  next
    case (Suc k)
    let ?e = "fold (f way) [0..<k] d"
    from Suc have "I ?e" "\<forall>s < k. R ?e way s" "\<forall>w < nw. \<forall>s < ns. R d w s \<longrightarrow> R ?e w s" by auto
    then show ?case using f [of ?e way k] Suc.prems that(2) by (auto simp: less_Suc_eq)
  qed
  have "I (fold (\<lambda>way. fold (f way) [0..<ns]) [0..<k] d)
      \<and> (\<forall>w < k. \<forall>s < ns. R (fold (\<lambda>way. fold (f way) [0..<ns]) [0..<k] d) w s)" if "k \<le> nw" for k
    using that
  proof (induction k)
    case (Suc k)
    let ?e = "fold (\<lambda>way. fold (f way) [0..<ns]) [0..<k] d"
    from Suc have "I ?e" "\<forall>w < k. \<forall>s < ns. R ?e w s" by auto
    then show ?case using inner [of ?e k ns] Suc.prems by (auto simp: less_Suc_eq)
  qed (simp add: assms)
  from this [of nw] show ?thesis using assms by (simp add: over_cells_def)
qed

lemma reset_clears:
  assumes "dir_ok d"
  shows "shape (reset d) = shape d" "dir_ok (reset d)"
    and "w < ways_m d \<Longrightarrow> sx < sets_m d \<Longrightarrow> \<not> getCacheValid (reset d) w sx \<and> \<not> getCachePlru (reset d) w sx"
proof -
  let ?I = "\<lambda>e. dir_ok e \<and> ways_m e = ways_m d \<and> sets_m e = sets_m d \<and> bytes_m e = bytes_m d"
  have b: "?I (base_reset d) \<and> (\<forall>w < ways_m d. \<forall>s < sets_m d. \<not> getCacheValid (base_reset d) w s)"
    unfolding base_reset_def
    by (rule over_cells_all [where I = ?I and R = "\<lambda>e w s. \<not> getCacheValid e w s"])
      (auto simp: put_get(2) assms)
  have "?I (reset d) \<and> (\<forall>w < ways_m d. \<forall>s < sets_m d. \<not> getCachePlru (reset d) w s)"
    unfolding reset_def
    by (rule over_cells_all [where I = ?I and R = "\<lambda>e w s. \<not> getCachePlru e w s"])
      (use b in \<open>auto simp: put_get(3)\<close>)
  moreover have "getCacheValid (reset d) = getCacheValid (base_reset d)"
    unfolding reset_def by (rule over_cells_inv) simp_all
  ultimately show "shape (reset d) = shape d" "dir_ok (reset d)"
    "w < ways_m d \<Longrightarrow> sx < sets_m d \<Longrightarrow> \<not> getCacheValid (reset d) w sx \<and> \<not> getCachePlru (reset d) w sx"
    using b by (auto simp: shape_def)
qed

lemma reset_empty:
  assumes "dir_ok d"
  shows "cached (reset d) = {}" "unique (reset d)" "2 \<le> ways_m d \<Longrightarrow> plru_ok (reset d)"
proof -
  have sz: "ways_m (reset d) = ways_m d" "sets_m (reset d) = sets_m d"
    using shape_addr [OF reset_clears(1) [OF assms]] by simp_all
  show "cached (reset d) = {}" "unique (reset d)"
    using reset_clears(3) [OF assms] by (auto simp: cached_def unique_def sz)
  show "2 \<le> ways_m d \<Longrightarrow> plru_ok (reset d)"
    using reset_clears(2,3) [OF assms] unfolding plru_ok_def sz by (metis assms dir_ok_def)
qed

section \<open>The directory in use\<close>

text \<open>A client looks a line up, allocates it after a miss, and invalidates by way or by address.\<close>

inductive dir_step :: "dir \<Rightarrow> dir \<Rightarrow> bool" where
  access: "access replUpdate addr flag d = (r, d') \<Longrightarrow> dir_step d d'"
| alloc: "\<not> fst (hit d addr) \<Longrightarrow> alloc addr d = Some (v, d') \<Longrightarrow> dir_step d d'"
| inval: "inval addr d = (r, d') \<Longrightarrow> dir_step d d'"
| inval_way: "way < ways_m d \<Longrightarrow> sx < sets_m d \<Longrightarrow> inval_way way sx d = (r, d') \<Longrightarrow> dir_step d d'"
| reset: "dir_step d (reset d)"

inductive dir_reach :: "dir \<Rightarrow> dir \<Rightarrow> bool" for d0 where
  start: "dir_reach d0 (reset d0)"
| step: "dir_reach d0 d \<Longrightarrow> dir_step d d' \<Longrightarrow> dir_reach d0 d'"

definition dir_inv :: "dir \<Rightarrow> bool" where
  "dir_inv d \<longleftrightarrow> plru_ok d \<and> unique d"

lemma dir_invI: "plru_ok d \<Longrightarrow> unique d \<Longrightarrow> dir_inv d"
  by (simp add: dir_inv_def)

lemma unvalid_inv:
  assumes "dir_inv d" "way < ways_m d" "sx < sets_m d"
  shows "dir_inv (putCacheValid way sx False d)"
proof -
  have d: "plru_ok d" "unique d" "dir_ok d" using assms(1) by (simp_all add: dir_inv_def plru_ok_dir)
  have v: "getCacheValid (putCacheValid way sx False d) w s \<Longrightarrow> getCacheValid d w s" if "s < sets_m d" for w s
    using put_get(2) [OF d(3) assms(2,3) that, of False w] by (simp split: if_splits)
  have "unique (putCacheValid way sx False d)"
    unfolding unique_def put_sizes put_other
  proof (intro allI impI)
    fix s w w'
    assume s: "s < sets_m d" and w: "w < ways_m d" "w' < ways_m d"
      and e: "getCacheValid (putCacheValid way sx False d) w s \<and> getCacheValid (putCacheValid way sx False d) w' s
        \<and> getCacheTag d w s = getCacheTag d w' s"
    have "getCacheValid d w s" "getCacheValid d w' s" using e v [OF s] by auto
    then show "w = w'" using d(2) s w e unfolding unique_def by blast
  qed
  then show ?thesis using d(1) by (simp add: dir_inv_def plru_ok_put)
qed

lemma dir_step_inv:
  assumes "dir_step d d'" "dir_inv d"
  shows "dir_inv d' \<and> shape d' = shape d"
  using assms
proof (induction rule: dir_step.induct)
  case (access addr flag d r d')
  then have p: "plru_ok d" "unique d" by (simp_all add: dir_inv_def)
  show ?case using plru.access_spec [OF p(1), of addr flag] p(2) access(1) by (auto intro: dir_invI)
next
  case (alloc d addr v d')
  then have p: "plru_ok d" "unique d" by (simp_all add: dir_inv_def)
  have "line_of d addr \<notin> cached d" using alloc(1) hit_iff [OF plru_ok_dir [OF p(1)], of addr] by simp
  from plru.alloc_spec [OF p this] alloc(2) show ?case by (auto simp: alloc_def intro: dir_invI)
next
  case (inval addr d r d')
  then have "getAddrSet d addr < sets_m d" by (auto simp: dir_inv_def intro: getAddrSet_less plru_ok_dir)
  with inval unvalid_inv [OF inval(2)] show ?case
    by (auto simp: inval_def find_upt split: option.splits)
next
  case (inval_way way d sx r d')
  then show ?case using unvalid_inv by (auto simp: inval_way_def)
next
  case (reset d)
  then have p: "dir_ok d" "2 \<le> ways_m d" by (simp_all add: dir_inv_def plru_ok_def)
  then show ?case using reset_empty [OF p(1)] reset_clears(1) [OF p(1)] by (simp add: dir_inv_def)
qed

lemma dir_reach_inv:
  assumes "dir_reach d0 d" "dir_ok d0" "2 \<le> ways_m d0"
  shows "dir_inv d \<and> shape d = shape d0"
  using assms(1)
proof (induction rule: dir_reach.induct)
  case start
  then show ?case using reset_empty [OF assms(2)] reset_clears(1) [OF assms(2)] assms(3) by (simp add: dir_inv_def)
next
  case (step d d')
  then show ?case using dir_step_inv by auto
qed


section \<open>Properties\<close>

definition sample_dir :: dir where
  "sample_dir = \<lparr>ways_m = 2, sets_m = 2, bytes_m = 64, tag_m = [9, 9, 9, 9], val_m = [True, True, True, True],
     plru_m = [True, True, True, True]\<rparr>"

lemma sample_dir_ok: "dir_ok sample_dir" "2 \<le> ways_m sample_dir"
  by (simp_all add: dir_ok_def sample_dir_def)

text \<open>C13. From a reset on, whatever lines are looked up, allocated after a miss and invalidated, the directory holds no
  line twice and every set with two ways or more has a victim: \<open>repl\<close> never reaches its assertion, and the victim
  is a way of the set of the address.\<close>

theorem dir_never_stuck:
  assumes "dir_ok d0" "2 \<le> ways_m d0" "dir_reach d0 d"
  shows "unique d \<and> (\<exists>v d'. alloc addr d = Some (v, d') \<and> victim_set v = getAddrSet d addr \<and> victim_way v < ways_m d)"
proof -
  have "dir_inv d" using dir_reach_inv [OF assms(3,1,2)] by simp
  then show ?thesis using plru.rp_returns [of d addr] by (auto simp: dir_inv_def alloc_def)
qed

lemma dir_never_stuck_witness:
  "unique (reset sample_dir) \<and> (\<exists>v d'. alloc 64 (reset sample_dir) = Some (v, d')
     \<and> victim_set v = getAddrSet (reset sample_dir) 64 \<and> victim_way v < ways_m (reset sample_dir))"
  by (rule dir_never_stuck [OF sample_dir_ok dir_reach.start])

text \<open>C5. The directory implements a set of lines: a reset empties it, a lookup answers whether the line is in it and
  changes nothing, and an allocation after a miss adds the line and removes at most the victim it reports, which
  was in it.\<close>

theorem dir_implements_line_set:
  assumes "dir_ok d0" "2 \<le> ways_m d0" "dir_reach d0 d"
  shows "cached (reset d) = {}
    \<and> (\<forall>flag h w sx d'. access replUpdate addr flag d = ((h, w, sx), d') \<longrightarrow> (h \<longleftrightarrow> line_of d addr \<in> cached d) \<and> cached d' = cached d)
    \<and> (line_of d addr \<notin> cached d \<longrightarrow> (\<exists>v d'. alloc addr d = Some (v, d')
        \<and> (replaced v \<longrightarrow> (victim_set v, victim_tag v) \<in> cached d)
        \<and> cached d' = insert (line_of d addr) (cached d - (if replaced v then {(victim_set v, victim_tag v)} else {}))))"
proof -
  have inv: "plru_ok d" "unique d" using dir_reach_inv [OF assms(3,1,2)] by (simp_all add: dir_inv_def)
  have empty: "cached (reset d) = {}" by (rule reset_empty(1) [OF plru_ok_dir [OF inv(1)]])
  have look: "(h \<longleftrightarrow> line_of d addr \<in> cached d) \<and> cached d' = cached d" if "access replUpdate addr flag d = ((h, w, sx), d')"
    for flag h w sx d'
    using plru.access_spec [OF inv(1), of addr flag] that by auto
  have add: "\<exists>v d'. alloc addr d = Some (v, d') \<and> (replaced v \<longrightarrow> (victim_set v, victim_tag v) \<in> cached d)
      \<and> cached d' = insert (line_of d addr) (cached d - (if replaced v then {(victim_set v, victim_tag v)} else {}))"
    if "line_of d addr \<notin> cached d"
    using plru.alloc_spec [OF inv that] by (auto simp: alloc_def)
  show ?thesis using empty look add by blast
qed

lemma dir_implements_line_set_witness:
  "\<exists>v d'. alloc 64 (reset sample_dir) = Some (v, d')
     \<and> cached d' = insert (line_of (reset sample_dir) 64) (cached (reset sample_dir)
         - (if replaced v then {(victim_set v, victim_tag v)} else {}))"
proof -
  have "line_of (reset sample_dir) 64 \<notin> cached (reset sample_dir)"
    by (simp add: reset_empty(1) [OF sample_dir_ok(1)])
  with dir_implements_line_set [OF sample_dir_ok dir_reach.start, of 64] show ?thesis by blast
qed

text \<open>C31. Recency: the way a lookup just used is not the victim of the next allocation in that set, as long as the set
  is full.\<close>

theorem just_used_not_victim:
  assumes "dir_ok d0" "2 \<le> ways_m d0" "dir_reach d0 d"
    and "access replUpdate addr True d = ((True, way, sx), d')"
    and "getAddrSet d addr' = sx" "\<forall>w < ways_m d. getCacheValid d w sx"
  shows "\<exists>v d''. alloc addr' d' = Some (v, d'') \<and> victim_way v \<noteq> way"
proof -
  have inv: "plru_ok d" "dir_ok d" using dir_reach_inv [OF assms(3,1,2)] by (simp_all add: dir_inv_def plru_ok_dir)
  have h: "hit d addr = (True, way, sx)" and d': "d' = replUpdate way sx d"
    using assms(4) by (auto simp: access_def split: prod.splits if_splits)
  have w: "way < ways_m d" "sx < sets_m d" using hit_way [OF inv(2) h] getAddrSet_less [OF inv(2)] by simp_all
  have sz: "ways_m d' = ways_m d" "getAddrSet d' addr' = sx"
    using shape_addr [OF replUpdate_keeps(1), of way sx d] assms(5) by (simp_all add: d')
  have full: "find (\<lambda>w. \<not> getCacheValid d' w sx) [0..<ways_m d] = None"
    using assms(6) by (simp add: find_upt_None d' replUpdate_keeps(3))
  obtain v e where a: "alloc addr' d' = Some (v, e)"
    using repl_returns [OF replUpdate_ok [OF inv(1) w], of addr'] by (auto simp: alloc_def d')
  then have "\<not> getCachePlru d' (victim_way v) sx"
    unfolding alloc_def repl_def Let_def sz full by (auto simp: find_upt split: option.splits)
  then have "victim_way v \<noteq> way" using replUpdate_plru(1) [OF inv(2) w] by (auto simp: d')
  with a show ?thesis by blast
qed

definition full_dir :: dir where
  "full_dir = snd (the (alloc 128 (snd (the (alloc 0 (reset sample_dir))))))"

lemma full_dir_eq: "full_dir = \<lparr>ways_m = 2, sets_m = 2, bytes_m = 64, tag_m = [0, 0, 1, 0],
    val_m = [True, False, True, False], plru_m = [False, False, True, False]\<rparr>"
  by code_simp

lemma full_dir_reach: "dir_reach sample_dir full_dir"
proof -
  define d1 where "d1 = snd (the (alloc 0 (reset sample_dir)))"
  have "find_way (reset sample_dir) 0 = None" "alloc 0 (reset sample_dir) \<noteq> None" by code_simp+
  then have "\<not> fst (hit (reset sample_dir) 0)" "alloc 0 (reset sample_dir) = Some (fst (the (alloc 0 (reset sample_dir))), d1)"
    unfolding hit_find_way d1_def by simp_all
  then have s1: "dir_step (reset sample_dir) d1" by (rule dir_step.alloc)
  have "find_way d1 128 = None" "alloc 128 d1 \<noteq> None" unfolding d1_def by code_simp+
  then have "\<not> fst (hit d1 128)" "alloc 128 d1 = Some (fst (the (alloc 128 d1)), full_dir)"
    unfolding hit_find_way full_dir_def d1_def by simp_all
  then have "dir_step d1 full_dir" by (rule dir_step.alloc)
  with s1 show ?thesis by (blast intro: dir_reach.intros)
qed

lemma just_used_not_victim_witness:
  "\<exists>v d''. alloc 256 (snd (access replUpdate 0 True full_dir)) = Some (v, d'') \<and> victim_way v \<noteq> 0"
proof (rule just_used_not_victim [OF sample_dir_ok full_dir_reach, of 0 0 0])
  have "find_way full_dir 0 = Some 0" "getAddrSet full_dir 0 = 0" by code_simp+
  then show "access replUpdate 0 True full_dir = ((True, 0, 0), snd (access replUpdate 0 True full_dir))"
    by (simp add: access_def hit_def)
  show "getAddrSet full_dir 256 = 0" by code_simp
  show "\<forall>w < ways_m full_dir. getCacheValid full_dir w 0"
    by (simp add: full_dir_eq getCacheValid_def cell_def less_2_cases_iff)
qed

text \<open>With one way the first allocation of a set uses up its last victim: after it, every bit of the set is set and the
  next allocation in the set fails.\<close>

definition one_way_dir :: dir where
  "one_way_dir = \<lparr>ways_m = 1, sets_m = 1, bytes_m = 64, tag_m = [0], val_m = [False], plru_m = [False]\<rparr>"

lemma one_way_stuck: "map_option (\<lambda>(v, d). alloc 64 d) (alloc 0 (reset one_way_dir)) = Some None"
  by code_simp

text \<open>\<open>inval\<close> compares tags only: it reports a line that was never cached.\<close>

lemma inval_reports_invalid_line: "fst (inval 0 (reset sample_dir)) \<and> \<not> fst (hit (reset sample_dir) 0)"
proof -
  have "fst (inval 0 (reset sample_dir))" "find_way (reset sample_dir) 0 = None" by code_simp+
  then show ?thesis unfolding hit_find_way by simp
qed

end
