(* ===== verification/Hpd_Memory.thy ===== *)
theory Hpd_Memory
  imports Prelude
begin

text \<open>
  The memories of the HPDcache test bench: the byte store of the scoreboard
  (\<open>ram_model.h\<close>), which remembers which bytes were ever written, the sparse word memory
  behind the cache (\<open>mem_model.h\<close>), which makes up the contents of a word on first use, and the
  data array of the reference cache (\<open>generic_cache_data.h\<close>).  \<open>None\<close> is an access
  outside the arrays or a shift the language leaves undefined.
\<close>

section \<open>The byte store of the scoreboard\<close>

text \<open>The template parameter \<open>N\<close> is the first argument; the contents of the array are what they happen to be.\<close>

record ram =
  mem_m :: "u64 \<Rightarrow> u8"
  bmap_m :: "u64 \<Rightarrow> u8"

definition ram_model :: "(u64 \<Rightarrow> u8) \<Rightarrow> ram" where
  "ram_model junk = \<lparr>mem_m = junk, bmap_m = (\<lambda>_. 0)\<rparr>"

definition getBit :: "u8 \<Rightarrow> nat \<Rightarrow> bool" where
  "getBit byte pos \<longleftrightarrow> drop_bit pos byte AND 1 = 1"

definition setBit :: "u8 \<Rightarrow> nat \<Rightarrow> u8" where
  "setBit byte pos = byte OR push_bit pos 1"

definition getBmap :: "u64 \<Rightarrow> ram \<Rightarrow> u64 \<Rightarrow> bool" where
  "getBmap N r addr = (let off = addr mod N in getBit (bmap_m r (off div 8)) (unat (off mod 8)))"

definition setBmap :: "u64 \<Rightarrow> u64 \<Rightarrow> ram \<Rightarrow> ram" where
  "setBmap N addr r =
     (let off = addr mod N
      in r\<lparr>bmap_m := (bmap_m r)(off div 8 := setBit (bmap_m r (off div 8)) (unat (off mod 8)))\<rparr>)"

definition read_valid :: "u64 \<Rightarrow> ram \<Rightarrow> u64 \<Rightarrow> nat \<Rightarrow> u8 list \<Rightarrow> u8 list" where
  "read_valid N r off i valid =
     (if getBmap N r (off + of_nat i) then valid[i div 8 := setBit (valid ! (i div 8)) (i mod 8)] else valid)"

definition ram_read :: "u64 \<Rightarrow> nat \<Rightarrow> u64 \<Rightarrow> ram \<Rightarrow> (u8 list \<times> u8 list) option" where
  "ram_read N n addr r =
     (let off = addr mod N
      in if uint off + int n \<le> uint N
         then Some (map (\<lambda>i. mem_m r (off + of_nat i)) [0..<n],
                    fold (read_valid N r off) [0..<n] (replicate ((n + 7) div 8) 0))
         else None)"

definition write_byte :: "u64 \<Rightarrow> u8 list \<Rightarrow> u8 list \<Rightarrow> u64 \<Rightarrow> nat \<Rightarrow> ram \<Rightarrow> ram" where
  "write_byte N buf be off i r =
     (if getBit (be ! (i div 8)) (i mod 8)
      then setBmap N (off + of_nat i) (r\<lparr>mem_m := (mem_m r)(off + of_nat i := buf ! i)\<rparr>) else r)"

definition ram_write :: "u64 \<Rightarrow> u8 list \<Rightarrow> u8 list \<Rightarrow> nat \<Rightarrow> u64 \<Rightarrow> ram \<Rightarrow> ram option" where
  "ram_write N buf be n addr r =
     (let off = addr mod N
      in if list_all (\<lambda>i. getBit (be ! (i div 8)) (i mod 8) \<longrightarrow> uint off + int i < uint N) [0..<n]
         then Some (fold (write_byte N buf be off) [0..<n] r) else None)"

section \<open>What the scoreboard knows\<close>

text \<open>The abstract store: the bytes written so far, by their place in the array.\<close>

definition ram_abs :: "u64 \<Rightarrow> ram \<Rightarrow> u64 \<Rightarrow> u8 option" where
  "ram_abs N r off = (if off < N \<and> getBmap N r off then Some (mem_m r off) else None)"

lemma getBit_bit: "getBit b p = bit b p"
  by (simp add: getBit_def and_one_eq bit_iff_odd_drop_bit odd_iff_mod_2_eq_one)

lemma getBit_setBit: "p < 8 \<Longrightarrow> getBit (setBit b p) q \<longleftrightarrow> q = p \<or> getBit b q"
  by (auto simp: getBit_bit setBit_def bit_simps)

lemma getBit_0 [simp]: "\<not> getBit 0 p"
  by (simp add: getBit_bit)

lemma div_mod_8: "(a :: u64) div 8 = b div 8 \<Longrightarrow> a mod 8 = b mod 8 \<Longrightarrow> a = b"
  by (metis div_mult_mod_eq)

lemma unat_mod_8: "unat ((a :: u64) mod 8) < 8"
  using word_mod_less_divisor [of "8 :: u64" a] by (simp add: word_less_nat_alt)

lemma getBmap_setBmap:
  assumes "off < N" "off' < N"
  shows "getBmap N (setBmap N off r) off' \<longleftrightarrow> off' = off \<or> getBmap N r off'"
proof -
  have "off mod N = off" "off' mod N = off'" using assms by (simp_all add: mod_word_less)
  moreover have "off' div 8 = off div 8 \<and> unat (off' mod 8) = unat (off mod 8) \<longleftrightarrow> off' = off"
    using div_mod_8 [of off' off] word_unat_eq_iff [of "off' mod 8" "off mod 8"] by blast
  ultimately show ?thesis
    by (cases "off' div 8 = off div 8") (auto simp: getBmap_def setBmap_def Let_def getBit_setBit unat_mod_8)
qed

lemma mem_setBmap [simp]: "mem_m (setBmap N off r) = mem_m r"
  by (simp add: setBmap_def Let_def)

lemma getBmap_mem [simp]: "getBmap N (r\<lparr>mem_m := m\<rparr>) off = getBmap N r off"
  by (simp add: getBmap_def)

lemma ram_abs_byte:
  assumes "off < N" "off' < N"
  shows "ram_abs N (setBmap N off (r\<lparr>mem_m := (mem_m r)(off := b)\<rparr>)) off' = (if off' = off then Some b else ram_abs N r off')"
  using assms by (simp add: ram_abs_def getBmap_setBmap)


text \<open>Places in the array do not wrap.\<close>

lemma place:
  assumes "uint (off :: u64) + int i < uint (N :: u64)"
  shows "off + of_nat i < N" "unat (off + of_nat i) = unat off + i"
proof -
  have "int (unat off + i) < int (unat N)" using assms by simp
  then have l: "unat off + i < unat N" by linarith
  moreover have "unat N < 2 ^ 64" using unsigned_less [of N, where ?'a = nat] by simp
  ultimately show u: "unat (off + of_nat i) = unat off + i"
    by (simp add: unat_word_ariths unat_of_nat)
  show "off + of_nat i < N" using l u by (simp add: word_less_nat_alt)
qed

lemma place_eq:
  assumes "uint (off :: u64) + int i < uint (N :: u64)" "uint off + int j < uint N"
  shows "off + of_nat i = off + of_nat j \<longleftrightarrow> i = j"
  using place(2) [OF assms(1)] place(2) [OF assms(2)] by (metis add_left_cancel)

text \<open>The bytes a write changes, as an update of the abstract store.\<close>

definition put_known :: "u64 \<Rightarrow> u8 list \<Rightarrow> (nat \<Rightarrow> bool) \<Rightarrow> nat \<Rightarrow> (u64 \<Rightarrow> u8 option) \<Rightarrow> u64 \<Rightarrow> u8 option" where
  "put_known off buf en n m = fold (\<lambda>i m. if en i then m(off + of_nat i \<mapsto> buf ! i) else m) [0..<n] m"

definition enabled :: "u8 list \<Rightarrow> nat \<Rightarrow> bool" where
  "enabled be i = getBit (be ! (i div 8)) (i mod 8)"

lemma put_known_Suc: "put_known off buf en (Suc n) m =
    (if en n then (put_known off buf en n m)(off + of_nat n \<mapsto> buf ! n) else put_known off buf en n m)"
  by (simp add: put_known_def)

lemma put_known_at:
  assumes "uint (off :: u64) + int n \<le> uint (N :: u64)" "i < n"
  shows "put_known off buf en n m (off + of_nat i) = (if en i then Some (buf ! i) else m (off + of_nat i))"
  using assms
proof (induction n)
  case (Suc n)
  show ?case
  proof (cases "i = n")
    case True
    have "put_known off buf en k m (off + of_nat n) = m (off + of_nat n)" if "k \<le> n" for k
      using that
    proof (induction k)
      case (Suc k)
      moreover have "off + of_nat n \<noteq> off + (of_nat k :: u64)"
        using place_eq [of off n N k] Suc.prems \<open>uint off + int (Suc n) \<le> uint N\<close> by simp
      ultimately show ?case by (simp add: put_known_Suc)
    qed (simp add: put_known_def)
    with True show ?thesis by (simp add: put_known_Suc)
  next
    case False
    then have "off + of_nat i \<noteq> off + (of_nat n :: u64)"
      using place_eq [of off i N n] Suc.prems by simp
    with False Suc show ?thesis by (simp add: put_known_Suc)
  qed
qed simp

lemma put_known_outside: "(\<And>i. i < n \<Longrightarrow> x \<noteq> off + of_nat i) \<Longrightarrow> put_known off buf en n m x = m x"
  by (induction n) (auto simp: put_known_Suc put_known_def)

lemma write_byte_abs:
  assumes "off < N" "enabled be i \<longrightarrow> uint off + int i < uint N"
  shows "ram_abs N (write_byte N buf be off i r)
    = (if enabled be i then (ram_abs N r)(off + of_nat i \<mapsto> buf ! i) else ram_abs N r)"
proof (cases "enabled be i")
  case True
  with assms have l: "off + of_nat i < N" using place(1) by blast
  show ?thesis
  proof
    fix x
    show "ram_abs N (write_byte N buf be off i r) x
        = (if enabled be i then (ram_abs N r)(off + of_nat i \<mapsto> buf ! i) else ram_abs N r) x"
    proof (cases "x < N")
      case x: True
      show ?thesis using True ram_abs_byte [OF l x, of r "buf ! i"] by (simp add: write_byte_def enabled_def)
    next
      case False
      with l True show ?thesis by (auto simp: ram_abs_def)
    qed
  qed
qed (simp add: write_byte_def enabled_def)

lemma mod_less: "N \<noteq> 0 \<Longrightarrow> (addr :: u64) mod N < N"
  by (simp add: word_mod_less_divisor word_gt_0)

text \<open>A write is defined when the enabled bytes are inside, and updates exactly those.\<close>

lemma ram_write_Some:
  assumes "N \<noteq> 0"
  shows "ram_write N buf be n addr r \<noteq> None \<longleftrightarrow>
      (\<forall>i < n. enabled be i \<longrightarrow> uint (addr mod N) + int i < uint N)"
    and "ram_write N buf be n addr r = Some r' \<Longrightarrow>
      ram_abs N r' = put_known (addr mod N) buf (enabled be) n (ram_abs N r)"
proof -
  show "ram_write N buf be n addr r \<noteq> None \<longleftrightarrow> (\<forall>i < n. enabled be i \<longrightarrow> uint (addr mod N) + int i < uint N)"
    by (auto simp: ram_write_def Let_def enabled_def list_all_iff)
  have "ram_abs N (fold (write_byte N buf be (addr mod N)) [0..<k] r) = put_known (addr mod N) buf (enabled be) k (ram_abs N r)"
    if "\<forall>i < k. enabled be i \<longrightarrow> uint (addr mod N) + int i < uint N" for k
    using that
  proof (induction k)
    case (Suc k)
    then show ?case using write_byte_abs [OF mod_less [OF assms, of addr], of be k]
      by (simp add: put_known_Suc del: fun_upd_apply)
  qed (simp add: put_known_def)
  then show "ram_abs N r' = put_known (addr mod N) buf (enabled be) n (ram_abs N r)"
    if "ram_write N buf be n addr r = Some r'"
    using that by (auto simp: ram_write_def Let_def enabled_def list_all_iff split: if_splits)
qed

lemma read_valid_bits:
  assumes "\<forall>i < k. i div 8 < length v"
  shows "length (fold (read_valid N r off) [0..<k] v) = length v"
    and "i div 8 < length v \<Longrightarrow> enabled (fold (read_valid N r off) [0..<k] v) i
      \<longleftrightarrow> enabled v i \<or> i < k \<and> getBmap N r (off + of_nat i)"
  using assms
proof (induction k)
  case (Suc k)
  let ?v = "fold (read_valid N r off) [0..<k] v"
  { case 1
    then show ?case using Suc by (simp add: read_valid_def)
  next
    case 2
    have eq: "i div 8 = k div 8 \<and> i mod 8 = k mod 8 \<longleftrightarrow> i = k" by (metis div_mult_mod_eq)
    have len: "k div 8 < length ?v" "\<forall>i < k. i div 8 < length v" using 2(2) Suc(1) by simp_all
    have "enabled (read_valid N r off k ?v) i \<longleftrightarrow> enabled ?v i \<or> i = k \<and> getBmap N r (off + of_nat k)"
    proof (cases "i div 8 = k div 8")
      case True
      then show ?thesis using eq len(1) by (auto simp: read_valid_def enabled_def getBit_setBit)
    next
      case False
      then show ?thesis using eq by (auto simp: read_valid_def enabled_def)
    qed
    then show ?case using Suc(2) [OF 2(1) len(2)] by (auto simp: less_Suc_eq) }
qed simp_all

text \<open>A read returns the contents, and marks exactly the bytes that were written.\<close>

lemma ram_read_Some:
  assumes "N \<noteq> 0"
  shows "ram_read N n addr r \<noteq> None \<longleftrightarrow> uint (addr mod N) + int n \<le> uint N"
    and "ram_read N n addr r = Some (buf, valid) \<Longrightarrow> length buf = n \<and> length valid = (n + 7) div 8 \<and>
      (\<forall>i < n. (enabled valid i \<longleftrightarrow> ram_abs N r (addr mod N + of_nat i) \<noteq> None)
         \<and> (enabled valid i \<longrightarrow> ram_abs N r (addr mod N + of_nat i) = Some (buf ! i)))"
proof -
  show "ram_read N n addr r \<noteq> None \<longleftrightarrow> uint (addr mod N) + int n \<le> uint N"
    by (simp add: ram_read_def Let_def)
  assume "ram_read N n addr r = Some (buf, valid)"
  then have l: "uint (addr mod N) + int n \<le> uint N"
    and b: "buf = map (\<lambda>i. mem_m r (addr mod N + of_nat i)) [0..<n]"
    and v: "valid = fold (read_valid N r (addr mod N)) [0..<n] (replicate ((n + 7) div 8) 0)"
    by (auto simp: ram_read_def Let_def split: if_splits)
  have d: "i div 8 < (n + 7) div 8" if "i < n" for i using that by linarith
  have "enabled (replicate ((n + 7) div 8) 0) i = False" if "i < n" for i using d [OF that] by (simp add: enabled_def)
  then have e: "enabled valid i \<longleftrightarrow> getBmap N r (addr mod N + of_nat i)" "addr mod N + of_nat i < N" if "i < n" for i
    using read_valid_bits(2) [of n "replicate ((n + 7) div 8) 0" i N r "addr mod N"] that l place(1) [of "addr mod N" i N]
      d by (simp_all add: v)
  then show "length buf = n \<and> length valid = (n + 7) div 8 \<and>
      (\<forall>i < n. (enabled valid i \<longleftrightarrow> ram_abs N r (addr mod N + of_nat i) \<noteq> None)
         \<and> (enabled valid i \<longrightarrow> ram_abs N r (addr mod N + of_nat i) = Some (buf ! i)))"
    using b read_valid_bits(1) [of n "replicate ((n + 7) div 8) 0" N r "addr mod N"]
      d by (simp add: v ram_abs_def)
qed


text \<open>What a client of the store relies on.\<close>

locale byte_store =
  fixes wr :: "u8 list \<Rightarrow> u8 list \<Rightarrow> nat \<Rightarrow> u64 \<Rightarrow> 's \<Rightarrow> 's option"
    and rd :: "nat \<Rightarrow> u64 \<Rightarrow> 's \<Rightarrow> (u8 list \<times> u8 list) option"
    and known :: "'s \<Rightarrow> u64 \<Rightarrow> u8 option" and sz :: u64
  assumes sz_pos: "sz \<noteq> 0"
    and wr_inside: "wr buf be n addr s \<noteq> None \<longleftrightarrow> (\<forall>i < n. enabled be i \<longrightarrow> uint (addr mod sz) + int i < uint sz)"
    and wr_known: "wr buf be n addr s = Some s' \<Longrightarrow> known s' = put_known (addr mod sz) buf (enabled be) n (known s)"
    and rd_inside: "rd n addr s \<noteq> None \<longleftrightarrow> uint (addr mod sz) + int n \<le> uint sz"
    and rd_known: "rd n addr s = Some (buf, valid) \<Longrightarrow> length buf = n \<and> length valid = (n + 7) div 8 \<and>
      (\<forall>i < n. (enabled valid i \<longleftrightarrow> known s (addr mod sz + of_nat i) \<noteq> None)
         \<and> (enabled valid i \<longrightarrow> known s (addr mod sz + of_nat i) = Some (buf ! i)))"
begin

lemma inside_returns:
  assumes "uint (addr mod sz) + int n \<le> uint sz"
  shows "\<exists>s'. wr buf be n addr s = Some s'" "\<exists>buf valid. rd n addr s = Some (buf, valid)"
proof -
  have "wr buf be n addr s \<noteq> None" unfolding wr_inside using assms by auto
  then show "\<exists>s'. wr buf be n addr s = Some s'" by simp
  have "rd n addr s \<noteq> None" unfolding rd_inside by (rule assms)
  then show "\<exists>buf valid. rd n addr s = Some (buf, valid)" by auto
qed

lemma load_after_store:
  assumes "wr buf be n addr s = Some s'" "rd n addr s' = Some (buf', valid')" "rd n addr s = Some (buf0, valid0)" "i < n"
  shows "enabled valid' i \<longleftrightarrow> enabled be i \<or> enabled valid0 i"
    and "enabled be i \<Longrightarrow> buf' ! i = buf ! i" and "\<not> enabled be i \<Longrightarrow> enabled valid0 i \<Longrightarrow> buf' ! i = buf0 ! i"
proof -
  have "rd n addr s \<noteq> None" using assms(3) by simp
  then have l: "uint (addr mod sz) + int n \<le> uint sz" unfolding rd_inside .
  have k: "enabled valid' i \<longleftrightarrow> known s' (addr mod sz + of_nat i) \<noteq> None"
      "enabled valid' i \<longrightarrow> known s' (addr mod sz + of_nat i) = Some (buf' ! i)"
    using rd_known [OF assms(2)] assms(4) by simp_all
  have k0: "enabled valid0 i \<longleftrightarrow> known s (addr mod sz + of_nat i) \<noteq> None"
      "enabled valid0 i \<longrightarrow> known s (addr mod sz + of_nat i) = Some (buf0 ! i)"
    using rd_known [OF assms(3)] assms(4) by simp_all
  have w: "known s' (addr mod sz + of_nat i) = (if enabled be i then Some (buf ! i) else known s (addr mod sz + of_nat i))"
    using wr_known [OF assms(1)] put_known_at [OF l assms(4), of buf "enabled be" "known s"] by simp
  show "enabled valid' i \<longleftrightarrow> enabled be i \<or> enabled valid0 i" using k(1) k0(1) w by auto
  show "buf' ! i = buf ! i" if "enabled be i" using k w that by auto
  show "buf' ! i = buf0 ! i" if "\<not> enabled be i" "enabled valid0 i" using k k0 w that by auto
qed

end

definition SCOREBOARD_RAM_SIZE :: u64 where
  "SCOREBOARD_RAM_SIZE = push_bit 20 16"

lemma SCOREBOARD_RAM_SIZE: "SCOREBOARD_RAM_SIZE = 0x1000000"
  by (simp add: SCOREBOARD_RAM_SIZE_def)

interpretation sb_ram: byte_store "ram_write SCOREBOARD_RAM_SIZE" "ram_read SCOREBOARD_RAM_SIZE"
  "ram_abs SCOREBOARD_RAM_SIZE" SCOREBOARD_RAM_SIZE
proof -
  have nz: "SCOREBOARD_RAM_SIZE \<noteq> 0" by (simp add: SCOREBOARD_RAM_SIZE)
  show "byte_store (ram_write SCOREBOARD_RAM_SIZE) (ram_read SCOREBOARD_RAM_SIZE) (ram_abs SCOREBOARD_RAM_SIZE) SCOREBOARD_RAM_SIZE"
    by unfold_locales (fact nz ram_write_Some [OF nz] ram_read_Some [OF nz])+
qed

section \<open>The sparse memory behind the cache\<close>

datatype mem_model_init_mode_e = MEM_MODEL_INIT_VALUE | MEM_MODEL_INIT_RANDOM

text \<open>\<open>rand_m\<close> is the sequence of values \<open>rand()\<close> gives, \<open>drawn_m\<close> how many were drawn.\<close>

record mem_model =
  mem_array_m :: "u64 \<Rightarrow> u64 option"
  init_mode_m :: mem_model_init_mode_e
  init_val_m :: u64
  rand_m :: "nat \<Rightarrow> u32"
  drawn_m :: nat

text \<open>The constructor ignores its argument \<open>init_mode\<close>.\<close>

definition new_mem_model :: "mem_model_init_mode_e \<Rightarrow> u64 \<Rightarrow> (nat \<Rightarrow> u32) \<Rightarrow> mem_model" where
  "new_mem_model init_mode init_val rnd =
     \<lparr>mem_array_m = Map.empty, init_mode_m = MEM_MODEL_INIT_RANDOM, init_val_m = init_val, rand_m = rnd, drawn_m = 0\<rparr>"

text \<open>The language leaves open which of the two calls of \<open>rand()\<close> comes first; the left one is taken first.\<close>

definition fresh_value :: "mem_model \<Rightarrow> u64 \<times> mem_model" where
  "fresh_value m =
     (case init_mode_m m of
        MEM_MODEL_INIT_RANDOM \<Rightarrow>
          (push_bit 32 (ucast (rand_m m (drawn_m m))) OR ucast (rand_m m (drawn_m m + 1)), m\<lparr>drawn_m := drawn_m m + 2\<rparr>)
      | MEM_MODEL_INIT_VALUE \<Rightarrow> (init_val_m m, m))"

definition readMemory :: "u64 \<Rightarrow> mem_model \<Rightarrow> u64 \<times> mem_model" where
  "readMemory word_addr m =
     (case mem_array_m m word_addr of
        Some x \<Rightarrow> (x, m)
      | None \<Rightarrow> (let (x, m) = fresh_value m in (x, m\<lparr>mem_array_m := (mem_array_m m)(word_addr \<mapsto> x)\<rparr>)))"

definition writeMemory :: "u64 \<Rightarrow> u64 \<Rightarrow> u64 \<Rightarrow> mem_model \<Rightarrow> mem_model" where
  "writeMemory word_addr data msk m =
     (case mem_array_m m word_addr of
        Some x \<Rightarrow> m\<lparr>mem_array_m := (mem_array_m m)(word_addr \<mapsto> (x AND NOT msk) OR (data AND msk))\<rparr>
      | None \<Rightarrow>
         (let (x, m) = fresh_value m
          in m\<lparr>mem_array_m := (mem_array_m m)(word_addr \<mapsto> (x AND NOT msk) OR (data AND msk))\<rparr>))"

definition beToMask :: "u8 \<Rightarrow> u64" where
  "beToMask be = fold (\<lambda>j msk. if drop_bit j be AND 1 = 1 then msk OR push_bit (j * 8) 0xff else msk) [0..<8] 0"

section \<open>The data array of the reference cache\<close>

record cache_data =
  data_m :: "u64 list"
  cd_ways_m :: nat
  cd_sets_m :: nat
  cd_words_m :: nat

definition newCacheData :: "nat \<Rightarrow> nat \<Rightarrow> nat \<Rightarrow> cache_data option" where
  "newCacheData nways nsets nwords =
     (if nsets > 0 \<and> nways > 0 \<and> nwords > 0
      then Some \<lparr>data_m = replicate (nways * nsets * nwords) 0, cd_ways_m = nways, cd_sets_m = nsets, cd_words_m = nwords\<rparr>
      else None)"

definition dataAddrSet :: "cache_data \<Rightarrow> u64 \<Rightarrow> u64" where
  "dataAddrSet d addr = (addr div of_nat (cd_words_m d * 8)) mod of_nat (cd_sets_m d)"

definition dataAddrWord :: "cache_data \<Rightarrow> u64 \<Rightarrow> u64" where
  "dataAddrWord d addr = (addr div 8) mod of_nat (cd_words_m d)"

definition dataIndex :: "cache_data \<Rightarrow> nat \<Rightarrow> nat \<Rightarrow> nat \<Rightarrow> nat" where
  "dataIndex d way sx word = way * (cd_sets_m d * cd_words_m d) + sx * cd_words_m d + word"

text \<open>The mask is built with shifts of the \<open>int\<close> 0xff: byte 3 ends in the sign bit, which the conversion to 64 bits
  copies to the upper half, and from byte 4 on the shift is undefined.\<close>

definition dataMask :: "u8 \<Rightarrow> u64 option" where
  "dataMask be =
     fold (\<lambda>i m. Option.bind m (\<lambda>msk.
         if drop_bit i be AND 1 = 1
         then (if i * 8 < 32 then Some (msk OR scast (push_bit (i * 8) 0xff :: u32)) else None)
         else Some msk)) [0..<8] (Some 0)"

definition dataRead :: "nat \<Rightarrow> nat \<Rightarrow> nat \<Rightarrow> cache_data \<Rightarrow> u64 option" where
  "dataRead way sx word d =
     (if dataIndex d way sx word < length (data_m d) then Some (data_m d ! dataIndex d way sx word) else None)"

definition dataWrite :: "u64 \<Rightarrow> u8 \<Rightarrow> nat \<Rightarrow> nat \<Rightarrow> nat \<Rightarrow> cache_data \<Rightarrow> cache_data option" where
  "dataWrite wdata be way sx word d =
     do {
       msk \<leftarrow> dataMask be;
       prev \<leftarrow> dataRead way sx word d;
       Some (d\<lparr>data_m := (data_m d)[dataIndex d way sx word := (prev AND NOT msk) OR (wdata AND msk)]\<rparr>)
     }"


section \<open>Byte enables\<close>

definition byte_of :: "u64 \<Rightarrow> nat \<Rightarrow> u8" where
  "byte_of w j = ucast (drop_bit (8 * j) w)"

lemma bit_byte_of: "bit (byte_of w j) k \<longleftrightarrow> k < 8 \<and> bit w (8 * j + k)"
  by (auto simp: byte_of_def bit_simps)

lemma word_bytes_eqI:
  assumes "\<And>j. j < 8 \<Longrightarrow> byte_of v j = byte_of w j"
  shows "v = w"
proof (rule bit_word_eqI)
  fix n assume "n < LENGTH(64)"
  then have "n div 8 < 8" "n = 8 * (n div 8) + n mod 8" "n mod 8 < 8" by simp_all
  with assms [of "n div 8"] show "bit v n = bit w n"
    using bit_byte_of [of v "n div 8" "n mod 8"] bit_byte_of [of w "n div 8" "n mod 8"] by simp
qed

lemma bit_beToMask: "bit (beToMask be) n \<longleftrightarrow> n < 64 \<and> bit be (n div 8)"
proof -
  have step: "bit (fold (\<lambda>j msk. if drop_bit j be AND 1 = 1 then msk OR push_bit (j * 8) 0xff else msk) [0..<k] 0 :: u64) n
      \<longleftrightarrow> n < 64 \<and> n div 8 < k \<and> bit be (n div 8)" for k
  proof (induction k)
    case (Suc k)
    have "drop_bit k be AND 1 = 1 \<longleftrightarrow> bit be k" using getBit_bit [of be k] by (simp add: getBit_def)
    moreover have "bit (push_bit (k * 8) 0xff :: u64) n \<longleftrightarrow> n < 64 \<and> n div 8 = k"
      unfolding ff_mask by (auto simp: bit_simps)
    ultimately show ?case using Suc by (auto simp: bit_simps less_Suc_eq)
  qed simp
  have "n div 8 < 8" if "n < 64" using that by linarith
  then show ?thesis using step [of 8] by (auto simp: beToMask_def)
qed

text \<open>Merging under the mask replaces exactly the enabled bytes.\<close>

lemma merge_bytes:
  assumes "j < 8"
  shows "byte_of ((old AND NOT (beToMask be)) OR (new AND beToMask be)) j = (if bit be j then byte_of new j else byte_of old j)"
proof (rule bit_word_eqI)
  fix k assume "k < LENGTH(8)"
  then have "8 * j + k < 64" "(8 * j + k) div 8 = j" using assms by simp_all
  with \<open>k < LENGTH(8)\<close> show "bit (byte_of ((old AND NOT (beToMask be)) OR (new AND beToMask be)) j) k
      = bit (if bit be j then byte_of new j else byte_of old j) k"
    by (auto simp: bit_byte_of bit_simps bit_beToMask)
qed

section \<open>Properties\<close>



text \<open>The sparse memory behaves as a memory whatever it is filled with: a word read once reads the same until it is
  written, a masked write replaces exactly the bytes of the byte enable, and other words keep their value.\<close>

theorem memory_reads_writes:
  assumes "readMemory a m = (old, m1)"
  shows "readMemory a m1 = (old, m1)
    \<and> (\<exists>new. readMemory a (writeMemory a data (beToMask be) m1) = (new, writeMemory a data (beToMask be) m1)
        \<and> (\<forall>j < 8. byte_of new j = (if bit be j then byte_of data j else byte_of old j)))
    \<and> (\<forall>b. a \<noteq> b \<longrightarrow> fst (readMemory b (writeMemory a data (beToMask be) m1)) = fst (readMemory b m1))"
proof -
  have old: "mem_array_m m1 a = Some old"
    using assms by (auto simp: readMemory_def split: option.splits prod.splits)
  have same: "readMemory a m1 = (old, m1)" using old by (simp add: readMemory_def)
  have written: "\<exists>new. readMemory a (writeMemory a data (beToMask be) m1) = (new, writeMemory a data (beToMask be) m1)
      \<and> (\<forall>j < 8. byte_of new j = (if bit be j then byte_of data j else byte_of old j))"
    using old by (simp add: readMemory_def writeMemory_def merge_bytes)
  have other: "fst (readMemory b (writeMemory a data (beToMask be) m1)) = fst (readMemory b m1)" if "a \<noteq> b" for b
    using old that
    by (auto simp: readMemory_def writeMemory_def fresh_value_def split: option.splits prod.splits mem_model_init_mode_e.splits)
  show ?thesis using same written other by blast
qed

definition sample_memory :: mem_model where
  "sample_memory = new_mem_model MEM_MODEL_INIT_VALUE 0 (\<lambda>k. of_nat k + 1)"

lemma memory_reads_writes_witness:
  "\<exists>new. readMemory 5 (writeMemory 5 0xaabbccdd (beToMask 3) (snd (readMemory 5 sample_memory)))
      = (new, writeMemory 5 0xaabbccdd (beToMask 3) (snd (readMemory 5 sample_memory)))
    \<and> (\<forall>j < 8. byte_of new j = (if bit (3 :: u8) j then byte_of 0xaabbccdd j else byte_of (fst (readMemory 5 sample_memory)) j))"
  using memory_reads_writes [of 5 sample_memory "fst (readMemory 5 sample_memory)" "snd (readMemory 5 sample_memory)" "0xaabbccdd" 3]
  by simp

text \<open>The memory is random even when it is asked to hold a value.\<close>

lemma init_mode_ignored: "fst (readMemory 5 (new_mem_model MEM_MODEL_INIT_VALUE 0 (\<lambda>k. of_nat k + 1))) = 0x100000002"
  by code_simp

text \<open>The mask of the cache data array is the byte mask for the three lowest bytes only: byte 3 brings the whole upper half
  with it, and with any higher byte the write has no defined result.\<close>

lemma dataMask_cases: "dataMask be =
    (if \<exists>i < 8. 4 \<le> i \<and> bit be i then None
     else Some (beToMask be OR (if bit be 3 then 0xffffffff00000000 else 0)))"
proof -
  define g where "g = (\<lambda>i m. Option.bind m (\<lambda>msk. if drop_bit i be AND 1 = 1
         then (if i * 8 < 32 then Some (msk OR scast (push_bit (i * 8) 0xff :: u32)) else None) else Some (msk :: u64)))"
  define b where "b = (\<lambda>j msk. if drop_bit j be AND 1 = 1 then msk OR push_bit (j * 8) 0xff else msk :: u64)"
  let ?hi = "0xffffffff00000000 :: u64"
  have one: "drop_bit k be AND 1 = 1 \<longleftrightarrow> bit be k" for k using getBit_bit [of be k] by (simp add: getBit_def)
  have sc: "(scast (push_bit (k * 8) 0xff :: u32) :: u64) = push_bit (k * 8) 0xff OR (if k = 3 then ?hi else 0)"
    if "k < 4" for k
  proof -
    have "k \<in> {0, 1, 2, 3}" using that by auto
    then show ?thesis by (elim insertE) simp_all
  qed
  have "fold g [0..<k] (Some 0) = (if \<exists>i < k. 4 \<le> i \<and> bit be i then None
     else Some (fold b [0..<k] 0 OR (if 3 < k \<and> bit be 3 then ?hi else 0)))" for k
  proof (induction k)
    case (Suc k)
    show ?case
    proof (cases "k < 4")
      case True
      then have "\<not> (\<exists>i < Suc k. 4 \<le> i \<and> bit be i)" "\<not> (\<exists>i < k. 4 \<le> i \<and> bit be i)" "3 < Suc k \<longleftrightarrow> k = 3" "\<not> 3 < k"
        by auto
      then have IH: "fold g [0..<k] (Some 0) = Some (fold b [0..<k] 0)"
        and goal: "(if \<exists>i < Suc k. 4 \<le> i \<and> bit be i then None
           else Some (fold b [0..<Suc k] 0 OR (if 3 < Suc k \<and> bit be 3 then ?hi else 0)))
         = Some (fold b [0..<Suc k] 0 OR (if k = 3 \<and> bit be 3 then ?hi else 0))"
        using Suc by (simp_all only: if_False simp_thms or.right_neutral)
      have "fold g [0..<Suc k] (Some 0) = g k (Some (fold b [0..<k] 0))" "fold b [0..<Suc k] 0 = b k (fold b [0..<k] 0)"
        by (simp_all add: IH)
      then show ?thesis unfolding goal using sc [OF True] True by (auto simp: g_def b_def one or.assoc)
    next
      case False
      then have "(\<exists>i < Suc k. 4 \<le> i \<and> bit be i) \<longleftrightarrow> (\<exists>i < k. 4 \<le> i \<and> bit be i) \<or> bit be k" "3 < k" "3 < Suc k"
        by (auto simp: less_Suc_eq)
      with False Suc show ?thesis by (auto simp: one g_def b_def)
    qed
  qed simp
  then have "fold g [0..<8] (Some 0) = (if \<exists>i < 8. 4 \<le> i \<and> bit be i then None
     else Some (fold b [0..<8] 0 OR (if 3 < (8 :: nat) \<and> bit be 3 then ?hi else 0)))" .
  moreover have "dataMask be = fold g [0..<8] (Some 0)" "beToMask be = fold b [0..<8] 0"
    by (simp_all only: dataMask_def beToMask_def g_def b_def)
  ultimately show ?thesis by (auto simp del: upt_conv_Cons)
qed

text \<open>C34. A write to the data array of the reference cache replaces exactly the enabled bytes of one word as long as only the
  three lowest bytes are enabled; with byte 3 enabled and no higher one, it replaces the whole upper half of the word too, and
  with any byte from 4 on it has no defined result.\<close>

theorem cache_data_write:
  assumes "dataRead way sx word d = Some old"
  shows "if \<exists>i < 8. 4 \<le> i \<and> bit be i then dataWrite wdata be way sx word d = None
    else \<exists>d' new. dataWrite wdata be way sx word d = Some d' \<and> dataRead way sx word d' = Some new
      \<and> (\<forall>j < 8. byte_of new j = (if bit be j \<or> bit be 3 \<and> 4 \<le> j then byte_of wdata j else byte_of old j))"
proof -
  have i: "dataIndex d way sx word < length (data_m d)" "old = data_m d ! dataIndex d way sx word"
    using assms by (simp_all add: dataRead_def split: if_splits)
  have written: "\<exists>d' new. dataWrite wdata be way sx word d = Some d' \<and> dataRead way sx word d' = Some new
      \<and> (\<forall>j < 8. byte_of new j = (if bit be j \<or> bit be 3 \<and> 4 \<le> j then byte_of wdata j else byte_of old j))"
    if low: "\<not> (\<exists>i < 8. 4 \<le> i \<and> bit be i)"
  proof -
    define be' where "be' = (if bit be 3 then be OR 0xf0 else be)"
    have f0: "(0xf0 :: u8) = push_bit 4 (mask 4)" "(0xffffffff00000000 :: u64) = push_bit 32 (mask 32)" by code_simp+
    have b: "bit be' j \<longleftrightarrow> bit be j \<or> bit be 3 \<and> 4 \<le> j" if "j < 8" for j
      unfolding be'_def f0 using that by (auto simp: bit_simps)
    have "beToMask be OR (if bit be 3 then 0xffffffff00000000 else 0) = beToMask be'"
      unfolding be'_def f0 by (auto intro!: bit_word_eqI simp: bit_beToMask bit_simps)
    with low have "dataMask be = Some (beToMask be')" by (simp only: dataMask_cases if_False)
    then show ?thesis
      using i merge_bytes [of _ old be' wdata] b by (simp add: dataWrite_def dataRead_def dataIndex_def)
  qed
  have "dataWrite wdata be way sx word d = None" if "\<exists>i < 8. 4 \<le> i \<and> bit be i"
    using that by (simp only: dataWrite_def dataMask_cases if_True bind.simps)
  with written show ?thesis by (simp split: if_split)
qed

lemma cache_data_write_witness:
  "\<exists>d' new. dataWrite 0x11 1 0 1 0 (the (newCacheData 2 2 1)) = Some d' \<and> dataRead 0 1 0 d' = Some new
      \<and> (\<forall>j < 8. byte_of new j = (if bit (1 :: u8) j then byte_of 0x11 j else byte_of 0 j))"
proof -
  have "dataRead 0 1 0 (the (newCacheData 2 2 1)) = Some 0" by code_simp
  from cache_data_write [OF this, of 1 "0x11"]
  show ?thesis by (simp add: bit_1_iff cong: conj_cong)
qed

end
