(* ===== verification/Hpd_Transaction.thy ===== *)
theory Hpd_Transaction
  imports Prelude Cache_Directory
begin

text \<open>
  The transactions of the HPDcache test bench (\<open>hpdcache_test_defs.h\<close>, \<open>hpdcache_test_transaction.h\<close>,
  \<open>hpdcache_test_amo.h\<close>): what the requester sends to the cache and gets back, what the cache sends to the
  memory and gets back, the text the test bench logs of each, and the arithmetic of atomic operations.  The macros
  have their default values; a vector \<open>sc_bv<W>\<close> is a word of \<open>W\<close> bits.  How SystemC prints a vector in
  hexadecimal is not in the sources: it is the argument \<open>sc_hex\<close> of the functions that print one.
\<close>

section \<open>The default configuration\<close>

definition HPDCACHE_TEST_DEFS_LOG2 :: "nat \<Rightarrow> nat" where
  "HPDCACHE_TEST_DEFS_LOG2 x =
     (if x \<le> 1 then 0 else if x \<le> 2 then 1 else if x \<le> 4 then 2 else if x \<le> 8 then 3
      else if x \<le> 16 then 4 else if x \<le> 32 then 5 else if x \<le> 64 then 6 else if x \<le> 128 then 7
      else if x \<le> 256 then 8 else if x \<le> 512 then 9 else if x \<le> 1024 then 10 else if x \<le> 2048 then 11
      else if x \<le> 4096 then 12 else if x \<le> 8192 then 13 else if x \<le> 16384 then 14 else 0)"

named_theorems config \<open>the values of the configuration macros\<close>

definition HPDCACHE_SETS :: nat where [config]: "HPDCACHE_SETS = 64"
definition HPDCACHE_WAYS :: nat where [config]: "HPDCACHE_WAYS = 8"
definition HPDCACHE_CL_WORDS :: nat where [config]: "HPDCACHE_CL_WORDS = 8"
definition HPDCACHE_WORD_WIDTH :: nat where [config]: "HPDCACHE_WORD_WIDTH = 64"
definition HPDCACHE_PA_WIDTH :: nat where [config]: "HPDCACHE_PA_WIDTH = 49"
definition HPDCACHE_REQ_WORDS :: nat where [config]: "HPDCACHE_REQ_WORDS = 1"
definition HPDCACHE_MEM_DATA_WIDTH :: nat where [config]: "HPDCACHE_MEM_DATA_WIDTH = 512"
definition HPDCACHE_MEM_ID_WIDTH :: nat where [config]: "HPDCACHE_MEM_ID_WIDTH = 4"
definition HPDCACHE_REQ_SRC_ID_WIDTH :: nat where [config]: "HPDCACHE_REQ_SRC_ID_WIDTH = 3"
definition HPDCACHE_REQ_TRANS_ID_WIDTH :: nat where [config]: "HPDCACHE_REQ_TRANS_ID_WIDTH = 6"
definition HPDCACHE_REQ_OP_WIDTH :: nat where [config]: "HPDCACHE_REQ_OP_WIDTH = 5"
definition HPDCACHE_REQ_SIZE_WIDTH :: nat where [config]: "HPDCACHE_REQ_SIZE_WIDTH = 3"
definition HPDCACHE_REQ_PMA_WIDTH :: nat where [config]: "HPDCACHE_REQ_PMA_WIDTH = 5"

definition HPDCACHE_REQ_DATA_WIDTH :: nat where
  [config]: "HPDCACHE_REQ_DATA_WIDTH = HPDCACHE_REQ_WORDS * HPDCACHE_WORD_WIDTH"

definition HPDCACHE_SET_WIDTH :: nat where
  [config]: "HPDCACHE_SET_WIDTH = HPDCACHE_TEST_DEFS_LOG2 HPDCACHE_SETS"

definition HPDCACHE_CL_OFFSET_WIDTH :: nat where
  [config]: "HPDCACHE_CL_OFFSET_WIDTH = HPDCACHE_TEST_DEFS_LOG2 ((HPDCACHE_CL_WORDS * HPDCACHE_WORD_WIDTH) div 8)"

definition HPDCACHE_NLINE_WIDTH :: nat where
  [config]: "HPDCACHE_NLINE_WIDTH = HPDCACHE_PA_WIDTH - HPDCACHE_CL_OFFSET_WIDTH"

definition HPDCACHE_TAG_WIDTH :: nat where
  [config]: "HPDCACHE_TAG_WIDTH = HPDCACHE_NLINE_WIDTH - HPDCACHE_SET_WIDTH"

definition HPDCACHE_ADDR_OFFSET_WIDTH :: nat where
  [config]: "HPDCACHE_ADDR_OFFSET_WIDTH = HPDCACHE_PA_WIDTH - HPDCACHE_TAG_WIDTH"

definition HPDCACHE_CORE_REQ_WIDTH :: nat where
  [config]: "HPDCACHE_CORE_REQ_WIDTH =
     HPDCACHE_ADDR_OFFSET_WIDTH + HPDCACHE_REQ_DATA_WIDTH + HPDCACHE_REQ_OP_WIDTH + HPDCACHE_REQ_DATA_WIDTH div 8
     + HPDCACHE_REQ_SIZE_WIDTH + HPDCACHE_REQ_SRC_ID_WIDTH + HPDCACHE_REQ_TRANS_ID_WIDTH + 1 + 1
     + HPDCACHE_TAG_WIDTH + HPDCACHE_REQ_PMA_WIDTH"

definition HPDCACHE_CORE_RSP_WIDTH :: nat where
  [config]: "HPDCACHE_CORE_RSP_WIDTH =
     HPDCACHE_REQ_DATA_WIDTH + HPDCACHE_REQ_SRC_ID_WIDTH + HPDCACHE_REQ_TRANS_ID_WIDTH + 1 + 1"

lemma config_values:
  "HPDCACHE_SET_WIDTH = 6" "HPDCACHE_CL_OFFSET_WIDTH = 6" "HPDCACHE_TAG_WIDTH = 37" "HPDCACHE_ADDR_OFFSET_WIDTH = 12"
  "HPDCACHE_REQ_DATA_WIDTH = 64" "HPDCACHE_CORE_REQ_WIDTH = 145" "HPDCACHE_CORE_RSP_WIDTH = 75"
  by (simp_all add: config HPDCACHE_TEST_DEFS_LOG2_def)

section \<open>Requests of the core\<close>

datatype hpdcache_req_op_e =
    HPDCACHE_REQ_LOAD
  | HPDCACHE_REQ_STORE
  | HPDCACHE_REQ_AMO_LR
  | HPDCACHE_REQ_AMO_SC
  | HPDCACHE_REQ_AMO_SWAP
  | HPDCACHE_REQ_AMO_ADD
  | HPDCACHE_REQ_AMO_AND
  | HPDCACHE_REQ_AMO_OR
  | HPDCACHE_REQ_AMO_XOR
  | HPDCACHE_REQ_AMO_MAX
  | HPDCACHE_REQ_AMO_MAXU
  | HPDCACHE_REQ_AMO_MIN
  | HPDCACHE_REQ_AMO_MINU
  | HPDCACHE_REQ_CMO_FENCE
  | HPDCACHE_REQ_CMO_PREFETCH
  | HPDCACHE_REQ_CMO_INVAL_NLINE
  | HPDCACHE_REQ_CMO_INVAL_ALL
  | HPDCACHE_REQ_CMO_FLUSH_NLINE
  | HPDCACHE_REQ_CMO_FLUSH_ALL
  | HPDCACHE_REQ_CMO_FLUSH_INVAL_NLINE
  | HPDCACHE_REQ_CMO_FLUSH_INVAL_ALL

fun op_code :: "hpdcache_req_op_e \<Rightarrow> nat" where
    "op_code HPDCACHE_REQ_LOAD = 0x00"
  | "op_code HPDCACHE_REQ_STORE = 0x01"
  | "op_code HPDCACHE_REQ_AMO_LR = 0x04"
  | "op_code HPDCACHE_REQ_AMO_SC = 0x05"
  | "op_code HPDCACHE_REQ_AMO_SWAP = 0x06"
  | "op_code HPDCACHE_REQ_AMO_ADD = 0x07"
  | "op_code HPDCACHE_REQ_AMO_AND = 0x08"
  | "op_code HPDCACHE_REQ_AMO_OR = 0x09"
  | "op_code HPDCACHE_REQ_AMO_XOR = 0x0a"
  | "op_code HPDCACHE_REQ_AMO_MAX = 0x0b"
  | "op_code HPDCACHE_REQ_AMO_MAXU = 0x0c"
  | "op_code HPDCACHE_REQ_AMO_MIN = 0x0d"
  | "op_code HPDCACHE_REQ_AMO_MINU = 0x0e"
  | "op_code HPDCACHE_REQ_CMO_FENCE = 0x10"
  | "op_code HPDCACHE_REQ_CMO_PREFETCH = 0x11"
  | "op_code HPDCACHE_REQ_CMO_INVAL_NLINE = 0x12"
  | "op_code HPDCACHE_REQ_CMO_INVAL_ALL = 0x13"
  | "op_code HPDCACHE_REQ_CMO_FLUSH_NLINE = 0x14"
  | "op_code HPDCACHE_REQ_CMO_FLUSH_ALL = 0x15"
  | "op_code HPDCACHE_REQ_CMO_FLUSH_INVAL_NLINE = 0x16"
  | "op_code HPDCACHE_REQ_CMO_FLUSH_INVAL_ALL = 0x17"

definition op_to_string :: "nat \<Rightarrow> string" where
  "op_to_string op =
     (if op = op_code HPDCACHE_REQ_LOAD then ''LOAD''
      else if op = op_code HPDCACHE_REQ_STORE then ''STORE''
      else if op = op_code HPDCACHE_REQ_AMO_LR then ''LR''
      else if op = op_code HPDCACHE_REQ_AMO_SC then ''SC''
      else if op = op_code HPDCACHE_REQ_AMO_SWAP then ''AMO_SWAP''
      else if op = op_code HPDCACHE_REQ_AMO_ADD then ''AMO_ADD''
      else if op = op_code HPDCACHE_REQ_AMO_AND then ''AMO_AND''
      else if op = op_code HPDCACHE_REQ_AMO_OR then ''AMO_OR''
      else if op = op_code HPDCACHE_REQ_AMO_XOR then ''AMO_XOR''
      else if op = op_code HPDCACHE_REQ_AMO_MAX then ''AMO_MAX''
      else if op = op_code HPDCACHE_REQ_AMO_MAXU then ''AMO_MAXU''
      else if op = op_code HPDCACHE_REQ_AMO_MIN then ''AMO_MIN''
      else if op = op_code HPDCACHE_REQ_AMO_MINU then ''AMO_MINU''
      else if op = op_code HPDCACHE_REQ_CMO_FENCE then ''CMO_FENCE''
      else if op = op_code HPDCACHE_REQ_CMO_PREFETCH then ''CMO_PREFETCH''
      else if op = op_code HPDCACHE_REQ_CMO_INVAL_NLINE then ''CMO_INVAL_NLINE''
      else if op = op_code HPDCACHE_REQ_CMO_INVAL_ALL then ''CMO_INVAL_ALL''
      else if op = op_code HPDCACHE_REQ_CMO_FLUSH_NLINE then ''CMO_FLUSH_NLINE''
      else if op = op_code HPDCACHE_REQ_CMO_FLUSH_ALL then ''CMO_FLUSH_ALL''
      else if op = op_code HPDCACHE_REQ_CMO_FLUSH_INVAL_NLINE then ''CMO_FLUSH_INVAL_NLINE''
      else if op = op_code HPDCACHE_REQ_CMO_FLUSH_INVAL_ALL then ''CMO_FLUSH_INVAL_ALL''
      else ''UNKNOWN'')"

definition cmo_to_string :: "nat \<Rightarrow> string" where
  "cmo_to_string cmo =
     (if cmo = op_code HPDCACHE_REQ_CMO_FENCE then ''CMO_FENCE''
      else if cmo = op_code HPDCACHE_REQ_CMO_PREFETCH then ''CMO_PREFETCH''
      else if cmo = op_code HPDCACHE_REQ_CMO_INVAL_NLINE then ''CMO_INVAL_NLINE''
      else if cmo = op_code HPDCACHE_REQ_CMO_INVAL_ALL then ''CMO_INVAL_ALL''
      else if cmo = op_code HPDCACHE_REQ_CMO_FLUSH_NLINE then ''CMO_FLUSH_NLINE''
      else if cmo = op_code HPDCACHE_REQ_CMO_FLUSH_ALL then ''CMO_FLUSH_ALL''
      else if cmo = op_code HPDCACHE_REQ_CMO_FLUSH_INVAL_NLINE then ''CMO_FLUSH_INVAL_NLINE''
      else if cmo = op_code HPDCACHE_REQ_CMO_FLUSH_INVAL_ALL then ''CMO_FLUSH_INVAL_ALL''
      else ''UNKNOWN'')"

datatype hpdcache_wr_policy_hint_e = HPDCACHE_WR_POLICY_AUTO | HPDCACHE_WR_POLICY_WB | HPDCACHE_WR_POLICY_WT

fun wr_policy_to_string :: "hpdcache_wr_policy_hint_e \<Rightarrow> string" where
  "wr_policy_to_string HPDCACHE_WR_POLICY_AUTO = ''WR_POLICY_AUTO''"
| "wr_policy_to_string HPDCACHE_WR_POLICY_WB = ''WR_POLICY_WB''"
| "wr_policy_to_string HPDCACHE_WR_POLICY_WT = ''WR_POLICY_WT''"

datatype domain_e = CACHE_DIR | CACHE_DAT

record fault_req =
  fault_valid :: bool
  fault_set :: u32
  fault_way :: u32
  fault_word :: u32
  fault_domain :: domain_e
  fault_mask :: "128 word"

definition new_fault_req :: fault_req where
  "new_fault_req = \<lparr>fault_valid = False, fault_set = 0, fault_way = 0, fault_word = 0, fault_domain = CACHE_DIR, fault_mask = 0\<rparr>"

record transaction_req =
  req_addr :: "49 word"
  req_wdata :: u64
  req_op :: "5 word"
  req_be :: u8
  req_size :: "3 word"
  req_sid :: "3 word"
  req_tid :: "6 word"
  req_need_rsp :: bool
  req_phys_indexed :: bool
  req_uncacheable :: bool
  req_io :: bool
  req_wr_policy_hint :: hpdcache_wr_policy_hint_e
  req_abort :: bool
  req_fault :: fault_req

definition new_transaction_req :: transaction_req where
  "new_transaction_req = \<lparr>req_addr = 0, req_wdata = 0, req_op = 0, req_be = 0, req_size = 0, req_sid = 0, req_tid = 0,
     req_need_rsp = False, req_phys_indexed = False, req_uncacheable = False, req_io = False,
     req_wr_policy_hint = HPDCACHE_WR_POLICY_AUTO, req_abort = False, req_fault = new_fault_req\<rparr>"

definition is_wr_policy_wb :: "transaction_req \<Rightarrow> bool" where
  "is_wr_policy_wb r \<longleftrightarrow> req_wr_policy_hint r = HPDCACHE_WR_POLICY_WB"

definition is_wr_policy_wt :: "transaction_req \<Rightarrow> bool" where
  "is_wr_policy_wt r \<longleftrightarrow> req_wr_policy_hint r = HPDCACHE_WR_POLICY_WT"

definition is_wr_policy_auto :: "transaction_req \<Rightarrow> bool" where
  "is_wr_policy_auto r \<longleftrightarrow> req_wr_policy_hint r = HPDCACHE_WR_POLICY_AUTO"

definition is_load :: "transaction_req \<Rightarrow> bool" where
  "is_load r \<longleftrightarrow> unat (req_op r) = op_code HPDCACHE_REQ_LOAD"

definition is_store :: "transaction_req \<Rightarrow> bool" where
  "is_store r \<longleftrightarrow> unat (req_op r) = op_code HPDCACHE_REQ_STORE"

definition is_amo :: "transaction_req \<Rightarrow> bool" where
  "is_amo r =
     (let op = unat (req_op r)
      in op = op_code HPDCACHE_REQ_AMO_SWAP \<or> op = op_code HPDCACHE_REQ_AMO_ADD
       \<or> op = op_code HPDCACHE_REQ_AMO_AND \<or> op = op_code HPDCACHE_REQ_AMO_OR
       \<or> op = op_code HPDCACHE_REQ_AMO_XOR \<or> op = op_code HPDCACHE_REQ_AMO_MAX
       \<or> op = op_code HPDCACHE_REQ_AMO_MAXU \<or> op = op_code HPDCACHE_REQ_AMO_MIN
       \<or> op = op_code HPDCACHE_REQ_AMO_MINU)"

definition is_amo_lr :: "transaction_req \<Rightarrow> bool" where
  "is_amo_lr r \<longleftrightarrow> unat (req_op r) = op_code HPDCACHE_REQ_AMO_LR"

definition is_amo_sc :: "transaction_req \<Rightarrow> bool" where
  "is_amo_sc r \<longleftrightarrow> unat (req_op r) = op_code HPDCACHE_REQ_AMO_SC"

definition is_cmo :: "transaction_req \<Rightarrow> bool" where
  "is_cmo r =
     (let op = unat (req_op r)
      in op = op_code HPDCACHE_REQ_CMO_FENCE \<or> op = op_code HPDCACHE_REQ_CMO_PREFETCH
       \<or> op = op_code HPDCACHE_REQ_CMO_INVAL_NLINE \<or> op = op_code HPDCACHE_REQ_CMO_INVAL_ALL
       \<or> op = op_code HPDCACHE_REQ_CMO_FLUSH_NLINE \<or> op = op_code HPDCACHE_REQ_CMO_FLUSH_ALL
       \<or> op = op_code HPDCACHE_REQ_CMO_FLUSH_INVAL_NLINE \<or> op = op_code HPDCACHE_REQ_CMO_FLUSH_INVAL_ALL)"

definition is_cmo_prefetch :: "transaction_req \<Rightarrow> bool" where
  "is_cmo_prefetch r \<longleftrightarrow> unat (req_op r) = op_code HPDCACHE_REQ_CMO_PREFETCH"

definition get_cache_tag :: "transaction_req \<Rightarrow> u64" where
  "get_cache_tag r = drop_bit (HPDCACHE_CL_OFFSET_WIDTH + HPDCACHE_SET_WIDTH) (ucast (req_addr r))"

definition get_cache_set :: "transaction_req \<Rightarrow> u64" where
  "get_cache_set r = drop_bit HPDCACHE_CL_OFFSET_WIDTH (ucast (req_addr r)) AND (push_bit HPDCACHE_SET_WIDTH 1 - 1)"

definition get_cache_word :: "transaction_req \<Rightarrow> u64" where
  "get_cache_word r = (ucast (req_addr r) * 8 div of_nat HPDCACHE_WORD_WIDTH) mod of_nat HPDCACHE_CL_WORDS"

section \<open>The text of a transaction\<close>

text \<open>Numbers on a stream: digits of the base, lower case, no leading zero.\<close>

definition digit :: "nat \<Rightarrow> char" where
  "digit d = ''0123456789abcdef'' ! d"

fun num_str :: "nat \<Rightarrow> nat \<Rightarrow> nat \<Rightarrow> string" where
  "num_str base 0 n = []"
| "num_str base (Suc k) n = (if n < base then [digit n] else num_str base k (n div base) @ [digit (n mod base)])"

definition hex :: "'a::len word \<Rightarrow> string" where
  "hex w = num_str 16 (Suc LENGTH('a)) (unat w)"

definition dec_int :: "'a::len word \<Rightarrow> string" where
  "dec_int w = (if sint w < 0 then CHR ''-'' # num_str 10 (Suc LENGTH('a)) (nat (- sint w))
                else num_str 10 (Suc LENGTH('a)) (nat (sint w)))"

definition contains_data :: "nat \<Rightarrow> bool" where
  "contains_data op \<longleftrightarrow> op \<in> op_code ` {HPDCACHE_REQ_STORE, HPDCACHE_REQ_AMO_SC, HPDCACHE_REQ_AMO_SWAP,
     HPDCACHE_REQ_AMO_ADD, HPDCACHE_REQ_AMO_AND, HPDCACHE_REQ_AMO_OR, HPDCACHE_REQ_AMO_XOR, HPDCACHE_REQ_AMO_MAX,
     HPDCACHE_REQ_AMO_MAXU, HPDCACHE_REQ_AMO_MIN, HPDCACHE_REQ_AMO_MINU}"

definition req_to_string :: "(nat \<Rightarrow> nat \<Rightarrow> string) \<Rightarrow> transaction_req \<Rightarrow> string" where
  "req_to_string sc_hex r =
     (let op = unat (req_op r)
      in ''CORE_REQ'' @ '' / @ = '' @ sc_hex HPDCACHE_PA_WIDTH (unat (req_addr r)) @ '' / '' @ op_to_string op
       @ '' / SET = 0x'' @ hex (get_cache_set r) @ '' / WORD = 0x'' @ hex (get_cache_word r)
       @ '' / TAG = 0x'' @ hex (get_cache_tag r) @ '' / SID = 0x'' @ hex (req_sid r) @ '' / TID = 0x'' @ hex (req_tid r)
       @ '' / WR_POLICY_HINT = '' @ wr_policy_to_string (req_wr_policy_hint r)
       @ (if \<not> is_cmo r
          then (if req_uncacheable r then '' / UNCACHED'' else '' / CACHED'')
            @ '' / SIZE = '' @ sc_hex HPDCACHE_REQ_SIZE_WIDTH (unat (req_size r))
            @ (if req_need_rsp r then '' / NEED_RSP'' else '' / NO NEED_RSP'')
            @ (if req_phys_indexed r then '' / PHYS_INDEXED'' else '' / VIRT_INDEXED'')
            @ (if contains_data op
               then '' / WDATA = '' @ sc_hex HPDCACHE_REQ_DATA_WIDTH (unat (req_wdata r))
                 @ '' / BE = '' @ sc_hex (HPDCACHE_REQ_DATA_WIDTH div 8) (unat (req_be r))
               else [])
          else '' / '' @ cmo_to_string op)
       @ (if fault_valid (req_fault r)
          then '' / FAULT INJECTION / WAY = '' @ dec_int (fault_way (req_fault r))
            @ (if fault_domain (req_fault r) = CACHE_DIR then '' / CACHE_DIR'' else [])
            @ (if fault_domain (req_fault r) = CACHE_DAT then '' / CACHE_DAT'' else [])
          else []))"

record transaction_resp =
  rsp_rdata :: u64
  rsp_sid :: "3 word"
  rsp_tid :: "6 word"
  rsp_error :: bool
  rsp_aborted :: bool

definition new_transaction_resp :: transaction_resp where
  "new_transaction_resp = \<lparr>rsp_rdata = 0, rsp_sid = 0, rsp_tid = 0, rsp_error = False, rsp_aborted = False\<rparr>"

definition resp_to_string :: "(nat \<Rightarrow> nat \<Rightarrow> string) \<Rightarrow> transaction_resp \<Rightarrow> string" where
  "resp_to_string sc_hex r =
     ''CORE_RESP / RDATA = '' @ sc_hex HPDCACHE_REQ_DATA_WIDTH (unat (rsp_rdata r)) @ '' / SID = 0x'' @ hex (rsp_sid r)
     @ '' / TID = 0x'' @ hex (rsp_tid r) @ (if rsp_error r then '' / ERROR'' else [])
     @ (if rsp_aborted r then '' / ABORTED'' else [])"

section \<open>Requests to the memory\<close>

datatype hpdcache_mem_command_e = HPDCACHE_MEM_READ | HPDCACHE_MEM_WRITE | HPDCACHE_MEM_ATOMIC

fun command_code :: "hpdcache_mem_command_e \<Rightarrow> u32" where
  "command_code HPDCACHE_MEM_READ = 0x0"
| "command_code HPDCACHE_MEM_WRITE = 0x1"
| "command_code HPDCACHE_MEM_ATOMIC = 0x2"

datatype hpdcache_mem_atomic_e =
    HPDCACHE_MEM_ATOMIC_ADD
  | HPDCACHE_MEM_ATOMIC_CLR
  | HPDCACHE_MEM_ATOMIC_SET
  | HPDCACHE_MEM_ATOMIC_EOR
  | HPDCACHE_MEM_ATOMIC_SMAX
  | HPDCACHE_MEM_ATOMIC_SMIN
  | HPDCACHE_MEM_ATOMIC_UMAX
  | HPDCACHE_MEM_ATOMIC_UMIN
  | HPDCACHE_MEM_ATOMIC_SWAP
  | HPDCACHE_MEM_ATOMIC_LDEX
  | HPDCACHE_MEM_ATOMIC_STEX

fun atomic_code :: "hpdcache_mem_atomic_e \<Rightarrow> u32" where
    "atomic_code HPDCACHE_MEM_ATOMIC_ADD = 0x0"
  | "atomic_code HPDCACHE_MEM_ATOMIC_CLR = 0x1"
  | "atomic_code HPDCACHE_MEM_ATOMIC_SET = 0x2"
  | "atomic_code HPDCACHE_MEM_ATOMIC_EOR = 0x3"
  | "atomic_code HPDCACHE_MEM_ATOMIC_SMAX = 0x4"
  | "atomic_code HPDCACHE_MEM_ATOMIC_SMIN = 0x5"
  | "atomic_code HPDCACHE_MEM_ATOMIC_UMAX = 0x6"
  | "atomic_code HPDCACHE_MEM_ATOMIC_UMIN = 0x7"
  | "atomic_code HPDCACHE_MEM_ATOMIC_SWAP = 0x8"
  | "atomic_code HPDCACHE_MEM_ATOMIC_LDEX = 0xc"
  | "atomic_code HPDCACHE_MEM_ATOMIC_STEX = 0xd"

record mem_req =
  mr_addr :: u64
  mr_len :: u32
  mr_size :: u32
  mr_id :: u32
  mr_command :: u32
  mr_atomic :: u32
  mr_cacheable :: bool

definition new_mem_req :: mem_req where
  "new_mem_req = \<lparr>mr_addr = 0, mr_len = 0, mr_size = 0, mr_id = 0, mr_command = 0, mr_atomic = 0, mr_cacheable = False\<rparr>"

definition mem_is_amo :: "'a mem_req_scheme \<Rightarrow> bool" where
  "mem_is_amo r \<longleftrightarrow> mr_command r = command_code HPDCACHE_MEM_ATOMIC
     \<and> mr_atomic r \<noteq> atomic_code HPDCACHE_MEM_ATOMIC_STEX \<and> mr_atomic r \<noteq> atomic_code HPDCACHE_MEM_ATOMIC_LDEX"

definition is_stex :: "'a mem_req_scheme \<Rightarrow> bool" where
  "is_stex r \<longleftrightarrow> mr_command r = command_code HPDCACHE_MEM_ATOMIC \<and> mr_atomic r = atomic_code HPDCACHE_MEM_ATOMIC_STEX"

definition is_ldex :: "'a mem_req_scheme \<Rightarrow> bool" where
  "is_ldex r \<longleftrightarrow> mr_command r = command_code HPDCACHE_MEM_ATOMIC \<and> mr_atomic r = atomic_code HPDCACHE_MEM_ATOMIC_LDEX"

definition command_to_string :: "u32 \<Rightarrow> string" where
  "command_to_string command =
     (if command = command_code HPDCACHE_MEM_READ then ''READ''
      else if command = command_code HPDCACHE_MEM_WRITE then ''STORE''
      else if command = command_code HPDCACHE_MEM_ATOMIC then ''ATOMIC''
      else ''UNKNOWN'')"

definition atomic_to_string :: "u32 \<Rightarrow> string" where
  "atomic_to_string atomic =
     (if atomic = atomic_code HPDCACHE_MEM_ATOMIC_ADD then ''ATOMIC_ADD''
      else if atomic = atomic_code HPDCACHE_MEM_ATOMIC_CLR then ''ATOMIC_CLR''
      else if atomic = atomic_code HPDCACHE_MEM_ATOMIC_SET then ''ATOMIC_SET''
      else if atomic = atomic_code HPDCACHE_MEM_ATOMIC_EOR then ''ATOMIC_EOR''
      else if atomic = atomic_code HPDCACHE_MEM_ATOMIC_SMAX then ''ATOMIC_SMAX''
      else if atomic = atomic_code HPDCACHE_MEM_ATOMIC_SMIN then ''ATOMIC_SMIN''
      else if atomic = atomic_code HPDCACHE_MEM_ATOMIC_UMAX then ''ATOMIC_UMAX''
      else if atomic = atomic_code HPDCACHE_MEM_ATOMIC_UMIN then ''ATOMIC_UMIN''
      else if atomic = atomic_code HPDCACHE_MEM_ATOMIC_SWAP then ''ATOMIC_SWAP''
      else if atomic = atomic_code HPDCACHE_MEM_ATOMIC_LDEX then ''ATOMIC_LDEX''
      else if atomic = atomic_code HPDCACHE_MEM_ATOMIC_STEX then ''ATOMIC_STEX''
      else ''UNKNOWN'')"

definition mem_read_req_to_string :: "mem_req \<Rightarrow> string" where
  "mem_read_req_to_string r =
     ''MEM_READ_REQ / @ = '' @ hex (mr_addr r) @ '' / CMD = '' @ command_to_string (mr_command r)
     @ '' / LEN = '' @ hex (mr_len r) @ '' / SIZE = '' @ hex (mr_size r) @ '' / ID = 0x'' @ hex (mr_id r)
     @ (if mr_cacheable r then '' / CACHEABLE'' else '' / UNCACHEABLE'')"

record mem_write_req = mem_req +
  mw_data :: "512 word"
  mw_be :: "64 word"
  mw_last :: bool

definition mem_write_req_to_string :: "(nat \<Rightarrow> nat \<Rightarrow> string) \<Rightarrow> mem_write_req \<Rightarrow> string" where
  "mem_write_req_to_string sc_hex r =
     ''MEM_WRITE_REQ / @ = '' @ hex (mr_addr r) @ '' / COMMAND = '' @ command_to_string (mr_command r)
     @ (if mr_command r = command_code HPDCACHE_MEM_ATOMIC then '' / ATOMIC = '' @ atomic_to_string (mr_atomic r) else [])
     @ '' / LEN = '' @ hex (mr_len r) @ '' / SIZE = '' @ hex (mr_size r) @ '' / ID = 0x'' @ hex (mr_id r)
     @ '' / DATA = '' @ sc_hex HPDCACHE_MEM_DATA_WIDTH (unat (mw_data r))
     @ '' / BE = '' @ sc_hex (HPDCACHE_MEM_DATA_WIDTH div 8) (unat (mw_be r))
     @ (if mw_last r then '' / LAST'' else '' '') @ (if mr_cacheable r then '' / CACHEABLE'' else '' / UNCACHEABLE'')"

record mem_read_resp =
  rr_error :: u32
  rr_id :: u32
  rr_data :: "512 word"
  rr_last :: bool

definition new_mem_read_resp :: mem_read_resp where
  "new_mem_read_resp = \<lparr>rr_error = 0, rr_id = 0, rr_data = 0, rr_last = False\<rparr>"

definition mem_read_resp_to_string :: "(nat \<Rightarrow> nat \<Rightarrow> string) \<Rightarrow> mem_read_resp \<Rightarrow> string" where
  "mem_read_resp_to_string sc_hex r =
     ''MEM_READ_RESP / RDATA = '' @ sc_hex HPDCACHE_MEM_DATA_WIDTH (unat (rr_data r)) @ '' / ID = 0x'' @ hex (rr_id r)
     @ (if rr_last r then '' / LAST'' else []) @ (if rr_error r \<noteq> 0 then '' / ERROR'' else [])"

record mem_write_resp =
  wr_is_atomic :: bool
  wr_error :: u32
  wr_id :: u32

definition new_mem_write_resp :: mem_write_resp where
  "new_mem_write_resp = \<lparr>wr_is_atomic = False, wr_error = 0, wr_id = 0\<rparr>"

definition mem_write_resp_to_string :: "mem_write_resp \<Rightarrow> string" where
  "mem_write_resp_to_string r =
     ''MEM_WRITE_RESP'' @ '' / ID = 0x'' @ hex (wr_id r) @ (if wr_error r \<noteq> 0 then '' / ERROR'' else [])
     @ (if wr_is_atomic r then '' / ATOMIC'' else [])"

section \<open>Atomic operations\<close>

text \<open>\<open>None\<close> is the failed assertion for an operation that is no atomic one.\<close>

definition signed_max :: "u64 \<Rightarrow> u64 \<Rightarrow> u32 \<Rightarrow> bool" where
  "signed_max ld_data st_data bytes =
     (if bytes = 4 then sint (ucast st_data :: u32) < sint (ucast ld_data :: u32) else sint st_data < sint ld_data)"

definition compute_amo :: "nat \<Rightarrow> u64 \<Rightarrow> u64 \<Rightarrow> u32 \<Rightarrow> u64 option" where
  "compute_amo atop ld_data st_data bytes =
     (let umax = ld_data > st_data;
          smax = signed_max ld_data st_data bytes
      in if atop = op_code HPDCACHE_REQ_AMO_SWAP then Some st_data
         else if atop = op_code HPDCACHE_REQ_AMO_ADD then Some (ld_data + st_data)
         else if atop = op_code HPDCACHE_REQ_AMO_AND then Some (ld_data AND st_data)
         else if atop = op_code HPDCACHE_REQ_AMO_OR then Some (ld_data OR st_data)
         else if atop = op_code HPDCACHE_REQ_AMO_XOR then Some (ld_data XOR st_data)
         else if atop = op_code HPDCACHE_REQ_AMO_MAX then Some (if smax then ld_data else st_data)
         else if atop = op_code HPDCACHE_REQ_AMO_MAXU then Some (if umax then ld_data else st_data)
         else if atop = op_code HPDCACHE_REQ_AMO_MIN then Some (if smax then st_data else ld_data)
         else if atop = op_code HPDCACHE_REQ_AMO_MINU then Some (if umax then st_data else ld_data)
         else None)"


section \<open>Classes of requests\<close>

lemmas op_classes = is_load_def is_store_def is_amo_def is_amo_lr_def is_amo_sc_def is_cmo_def is_cmo_prefetch_def

lemma req_op_less: "unat (req_op r) < 32"
  using unsigned_less [of "req_op r", where ?'a = nat] by simp

text \<open>The atomic operations of the instruction set, at any width.\<close>

fun amo_spec :: "hpdcache_req_op_e \<Rightarrow> 'a::len word \<Rightarrow> 'a word \<Rightarrow> 'a word option" where
  "amo_spec HPDCACHE_REQ_AMO_SWAP a b = Some b"
| "amo_spec HPDCACHE_REQ_AMO_ADD a b = Some (a + b)"
| "amo_spec HPDCACHE_REQ_AMO_AND a b = Some (a AND b)"
| "amo_spec HPDCACHE_REQ_AMO_OR a b = Some (a OR b)"
| "amo_spec HPDCACHE_REQ_AMO_XOR a b = Some (a XOR b)"
| "amo_spec HPDCACHE_REQ_AMO_MAX a b = Some (if sint a \<le> sint b then b else a)"
| "amo_spec HPDCACHE_REQ_AMO_MAXU a b = Some (max a b)"
| "amo_spec HPDCACHE_REQ_AMO_MIN a b = Some (if sint a \<le> sint b then a else b)"
| "amo_spec HPDCACHE_REQ_AMO_MINU a b = Some (min a b)"
| "amo_spec _ a b = None"

lemma ucast_less: "(ucast (a :: u32) :: u64) < ucast b \<longleftrightarrow> a < b"
  by (simp add: word_less_nat_alt unat_widen)

section \<open>Properties\<close>

text \<open>Each of the 32 operation codes belongs to exactly one class: load, store, load-reserved, store-conditional,
  atomic operation or cache management, or it is none and is logged as unknown; the operations that carry data are
  the stores, the store-conditionals and the atomic operations.\<close>

theorem op_in_one_class:
  "length (filter id [is_load r, is_store r, is_amo_lr r, is_amo_sc r, is_amo r, is_cmo r])
     = (if op_to_string (unat (req_op r)) = ''UNKNOWN'' then 0 else 1)
   \<and> (contains_data (unat (req_op r)) \<longleftrightarrow> is_store r \<or> is_amo_sc r \<or> is_amo r)
   \<and> (\<forall>r'. op_to_string (unat (req_op r)) = op_to_string (unat (req_op r')) \<and> op_to_string (unat (req_op r)) \<noteq> ''UNKNOWN''
        \<longrightarrow> req_op r = req_op (r' :: transaction_req))"
proof -
  define n where "n = unat (req_op r)"
  have n: "n < 32" by (simp add: n_def req_op_less)
  then have "n \<in> {0, 1, 2, 3, 4, 5, 6, 7, 8, 9, 10, 11, 12, 13, 14, 15, 16, 17, 18, 19, 20, 21, 22, 23, 24, 25, 26, 27, 28, 29, 30, 31}"
    unfolding insert_iff empty_iff by presburger
  then have one: "length (filter id [is_load r, is_store r, is_amo_lr r, is_amo_sc r, is_amo r, is_cmo r])
     = (if op_to_string (unat (req_op r)) = ''UNKNOWN'' then 0 else 1)"
    and data: "contains_data (unat (req_op r)) \<longleftrightarrow> is_store r \<or> is_amo_sc r \<or> is_amo r"
    unfolding op_classes Let_def n_def [symmetric] contains_data_def
    by (elim insertE emptyE; simp add: op_to_string_def)+
  have "list_all (\<lambda>i. list_all (\<lambda>j. op_to_string i = op_to_string j \<and> op_to_string i \<noteq> ''UNKNOWN'' \<longrightarrow> i = j) [0..<32]) [0..<32]"
    by code_simp
  then have name: "req_op r = req_op r'"
    if "op_to_string (unat (req_op r)) = op_to_string (unat (req_op r'))" "op_to_string (unat (req_op r)) \<noteq> ''UNKNOWN''"
    for r' :: transaction_req
    using that req_op_less [of r] req_op_less [of r'] by (auto simp: list_all_iff word_unat_eq_iff)
  show ?thesis using one data name by blast
qed


lemma ucast_down_up: "(ucast (ucast (a :: u32) :: u64) :: u32) = a"
  by (rule bit_word_eqI) (auto simp: bit_simps)

lemma compute_amo_64: "compute_amo (op_code op) a b 8 = amo_spec op a b"
  by (cases op) (auto simp: compute_amo_def signed_max_def Let_def max_def min_def)

lemma compute_amo_32: "map_option ucast (compute_amo (op_code op) (ucast x) (ucast y) 4) = amo_spec op x (y :: u32)"
proof -
  have add: "(ucast ((ucast x :: u64) + ucast y) :: u32) = x + y"
    
    using unsigned_less [of x, where ?'a = nat] unsigned_less [of y, where ?'a = nat]
    by (simp add: word_unat_eq_iff unsigned_ucast_eq unat_word_ariths take_bit_eq_mod mod_mod_cancel)
  have bits: "(ucast ((ucast x :: u64) AND ucast y) :: u32) = x AND y" "(ucast ((ucast x :: u64) OR ucast y) :: u32) = x OR y"
      "(ucast ((ucast x :: u64) XOR ucast y) :: u32) = x XOR y"
    by (rule bit_word_eqI; auto simp: bit_simps)+
  show ?thesis
    by (cases op) (auto simp: compute_amo_def signed_max_def Let_def max_def min_def ucast_less ucast_down_up add bits)
qed

text \<open>C16. The arithmetic of atomic operations is that of the instruction set: on doublewords at 64 bits, and on words, whose
  operands come zero-extended, at 32 bits with signed comparisons of the 32-bit values.  For any other operation the
  assertion fails.\<close>

theorem compute_amo_is_spec:
  "compute_amo (op_code op) a b 8 = amo_spec op a b
   \<and> map_option ucast (compute_amo (op_code op) (ucast x) (ucast y) 4) = amo_spec op x (y :: u32)"
  by (rule conjI [OF compute_amo_64 compute_amo_32])

text \<open>The tag, set and word that a request logs are those of the reference directory with 64 sets of 64-byte lines, and
  with the offset in the word they give the address back.\<close>

theorem address_split:
  assumes "sets_m d = HPDCACHE_SETS" "bytes_m d = HPDCACHE_CL_WORDS * HPDCACHE_WORD_WIDTH div 8"
  shows "get_cache_tag r = getAddrTag d (ucast (req_addr r))
    \<and> get_cache_set r = of_nat (getAddrSet d (ucast (req_addr r)))
    \<and> unat (req_addr r) = unat (get_cache_tag r) * 4096 + unat (get_cache_set r) * 64
        + unat (get_cache_word r) * 8 + unat (req_addr r) mod 8"
proof -
  define n where "n = unat (req_addr r)"
  have n: "n < 2 ^ 49" using unsigned_less [of "req_addr r", where ?'a = nat] by (simp add: n_def)
  have c: "(ucast (req_addr r) :: u64) = of_nat n" by (simp add: n_def)
  have u: "unat (of_nat n :: u64) = n" using n by (simp add: unat_of_nat)
  have small: "unat (of_nat k :: u64) = k" if "k \<le> n" for k using n that by (simp add: unat_of_nat)
  have tag: "get_cache_tag r = of_nat (n div 4096)"
    unfolding get_cache_tag_def c config_values by (simp add: word_unat_eq_iff unat_drop_bit_eq drop_bit_eq_div u small unat_div)
  have sx: "get_cache_set r = of_nat (n div 64 mod 64)"
  proof -
    have "(push_bit 6 1 - 1 :: u64) = mask 6" by (simp add: mask_eq_exp_minus_1)
    then have "get_cache_set r = take_bit 6 (drop_bit 6 (of_nat n))"
      unfolding get_cache_set_def c config_values by (simp add: take_bit_eq_mask)
    moreover have "n div 64 mod 64 \<le> n" by (meson div_le_dividend le_trans mod_less_eq_dividend)
    ultimately show ?thesis
      by (simp add: word_unat_eq_iff unsigned_take_bit_eq unat_drop_bit_eq drop_bit_eq_div take_bit_eq_mod u small unat_div unat_mod_distrib)
  qed
  have wd: "get_cache_word r = of_nat (n div 8 mod 8)"
  proof -
    have "n * 8 < 2 ^ 64" using n by simp
    then have "unat (of_nat n * 8 :: u64) = n * 8" by (simp add: unat_word_ariths u)
    moreover have "n div 8 mod 8 \<le> n" by (meson div_le_dividend le_trans mod_less_eq_dividend)
    ultimately show ?thesis
      unfolding get_cache_word_def c by (simp add: config word_unat_eq_iff unat_div unat_mod_distrib small)
  qed
  have t: "get_cache_tag r = getAddrTag d (ucast (req_addr r))"
    unfolding tag getAddrTag_def c u assms by (simp add: config)
  have s: "get_cache_set r = of_nat (getAddrSet d (ucast (req_addr r)))"
    unfolding sx getAddrSet_def c u assms by (simp add: config)
  have "n div 64 mod 64 \<le> n" "n div 8 mod 8 \<le> n" by (meson div_le_dividend le_trans mod_less_eq_dividend)+
  then have "unat (get_cache_tag r) = n div 4096" "unat (get_cache_set r) = n div 64 mod 64" "unat (get_cache_word r) = n div 8 mod 8"
    unfolding tag sx wd by (simp_all add: small)
  moreover have "n = n div 4096 * 4096 + n div 64 mod 64 * 64 + n div 8 mod 8 * 8 + n mod 8"
  proof -
    have "n div 8 div 8 = n div 64" "n div 64 div 64 = n div 4096" by (simp_all add: div_mult2_eq [symmetric])
    then show ?thesis
      using div_mult_mod_eq [of n 8] div_mult_mod_eq [of "n div 8" 8] div_mult_mod_eq [of "n div 64" 64] by linarith
  qed
  ultimately have "unat (req_addr r) = unat (get_cache_tag r) * 4096 + unat (get_cache_set r) * 64
      + unat (get_cache_word r) * 8 + unat (req_addr r) mod 8"
    unfolding n_def [symmetric] by simp
  with t s show ?thesis by blast
qed

lemma address_split_witness:
  "get_cache_tag (new_transaction_req\<lparr>req_addr := 0x12345678\<rparr>)
    = getAddrTag \<lparr>ways_m = 8, sets_m = 64, bytes_m = 64, tag_m = [], val_m = [], plru_m = []\<rparr> (ucast (0x12345678 :: 49 word))"
  using address_split [of "\<lparr>ways_m = 8, sets_m = 64, bytes_m = 64, tag_m = [], val_m = [], plru_m = []\<rparr>"
      "new_transaction_req\<lparr>req_addr := 0x12345678\<rparr>"]
  by (simp add: config)

lemma op_in_one_class_witness:
  "req_op (new_transaction_req\<lparr>req_op := 7\<rparr>) = req_op (new_transaction_req\<lparr>req_op := 7, req_size := 3\<rparr>)"
  using op_in_one_class [of "new_transaction_req\<lparr>req_op := 7\<rparr>"] by (simp add: op_to_string_def)

end
