(* ===== verification/Hpd_Driver.thy ===== *)
theory Hpd_Driver
  imports Hpd_Transaction
begin

text \<open>
  The driver of the HPDcache test bench (\<open>hpdcache_test_driver.h\<close>): how a request is packed into the bit vector of
  the request port, how the vector of the response port is taken apart, and what the two threads put on their ports.
  A subrange of a bit vector keeps the low bits of what is assigned to it.
\<close>

section \<open>Subranges of bit vectors\<close>

text \<open>\<open>bv.range(pos + n - 1, pos)\<close>, read and assigned.\<close>

definition get_range :: "nat \<Rightarrow> nat \<Rightarrow> 'a::len word \<Rightarrow> 'b::len word" where
  "get_range pos n bv = ucast (take_bit n (drop_bit pos bv))"

definition set_range :: "nat \<Rightarrow> nat \<Rightarrow> 'b::len word \<Rightarrow> 'a::len word \<Rightarrow> 'a word" where
  "set_range pos n v bv = (bv AND NOT (push_bit pos (mask n))) OR push_bit pos (take_bit n (ucast v))"

section \<open>Packing\<close>

definition core_get_req_tag :: "transaction_req \<Rightarrow> 37 word" where
  "core_get_req_tag t = get_range HPDCACHE_ADDR_OFFSET_WIDTH (HPDCACHE_PA_WIDTH - HPDCACHE_ADDR_OFFSET_WIDTH) (req_addr t)"

definition core_get_req_pma :: "transaction_req \<Rightarrow> 5 word" where
  "core_get_req_pma t =
     (if is_wr_policy_auto t then push_bit 0 1 else 0) OR (if is_wr_policy_wb t then push_bit 1 1 else 0)
     OR (if is_wr_policy_wt t then push_bit 2 1 else 0) OR (if req_io t then push_bit 3 1 else 0)
     OR (if req_uncacheable t then push_bit 4 1 else 0)"

definition PMA_POS :: nat where [config]: "PMA_POS = 0"
definition TAG_POS :: nat where [config]: "TAG_POS = PMA_POS + HPDCACHE_REQ_PMA_WIDTH"
definition PHYS_INDEXED_POS :: nat where [config]: "PHYS_INDEXED_POS = TAG_POS + HPDCACHE_TAG_WIDTH"
definition NEED_RSP_POS :: nat where [config]: "NEED_RSP_POS = PHYS_INDEXED_POS + 1"
definition TRANS_ID_POS :: nat where [config]: "TRANS_ID_POS = NEED_RSP_POS + 1"
definition SRC_ID_POS :: nat where [config]: "SRC_ID_POS = TRANS_ID_POS + HPDCACHE_REQ_TRANS_ID_WIDTH"
definition SIZE_POS :: nat where [config]: "SIZE_POS = SRC_ID_POS + HPDCACHE_REQ_SRC_ID_WIDTH"
definition BE_POS :: nat where [config]: "BE_POS = SIZE_POS + HPDCACHE_REQ_SIZE_WIDTH"
definition OP_POS :: nat where [config]: "OP_POS = BE_POS + HPDCACHE_REQ_DATA_WIDTH div 8"
definition WDATA_POS :: nat where [config]: "WDATA_POS = OP_POS + HPDCACHE_REQ_OP_WIDTH"
definition ADDR_POS :: nat where [config]: "ADDR_POS = WDATA_POS + HPDCACHE_REQ_DATA_WIDTH"

text \<open>The offset is read as 13 bits and assigned to a range of 12.\<close>

definition core_req_to_bv :: "transaction_req \<Rightarrow> 145 word" where
  "core_req_to_bv t =
     (let ret = 0;
          ret = set_range PMA_POS HPDCACHE_REQ_PMA_WIDTH (core_get_req_pma t) ret;
          ret = set_range TAG_POS HPDCACHE_TAG_WIDTH (core_get_req_tag t) ret;
          ret = set_range PHYS_INDEXED_POS 1 (if req_phys_indexed t then 1 else 0 :: u64) ret;
          ret = set_range NEED_RSP_POS 1 (if req_need_rsp t then 1 else 0 :: u64) ret;
          ret = set_range TRANS_ID_POS HPDCACHE_REQ_TRANS_ID_WIDTH (req_tid t) ret;
          ret = set_range SRC_ID_POS HPDCACHE_REQ_SRC_ID_WIDTH (req_sid t) ret;
          ret = set_range SIZE_POS HPDCACHE_REQ_SIZE_WIDTH (req_size t) ret;
          ret = set_range BE_POS (HPDCACHE_REQ_DATA_WIDTH div 8) (req_be t) ret;
          ret = set_range OP_POS HPDCACHE_REQ_OP_WIDTH (req_op t) ret;
          ret = set_range WDATA_POS HPDCACHE_REQ_DATA_WIDTH (req_wdata t) ret
      in set_range ADDR_POS HPDCACHE_ADDR_OFFSET_WIDTH
           (get_range 0 (HPDCACHE_ADDR_OFFSET_WIDTH + 1) (req_addr t) :: 13 word) ret)"

definition core_resp_to_struct :: "75 word \<Rightarrow> transaction_resp" where
  "core_resp_to_struct bv =
     (let ABORTED_POS = 0;
          ERROR_POS = ABORTED_POS + 1;
          TRANS_ID_POS = ERROR_POS + 1;
          SRC_ID_POS = TRANS_ID_POS + HPDCACHE_REQ_TRANS_ID_WIDTH;
          RDATA_POS = SRC_ID_POS + HPDCACHE_REQ_SRC_ID_WIDTH
      in \<lparr>rsp_rdata = get_range RDATA_POS HPDCACHE_REQ_DATA_WIDTH bv,
          rsp_sid = get_range SRC_ID_POS HPDCACHE_REQ_SRC_ID_WIDTH bv,
          rsp_tid = get_range TRANS_ID_POS HPDCACHE_REQ_TRANS_ID_WIDTH bv,
          rsp_error = ((get_range ERROR_POS 1 bv :: u32) > 0),
          rsp_aborted = ((get_range ABORTED_POS 1 bv :: u32) > 0)\<rparr>)"

section \<open>The threads\<close>

text \<open>What the driver puts on its ports and calls, in order; a \<open>Wait\<close> is a cycle of the clock.  The queues to the scoreboard
and to the sequence are unbounded here.\<close>

datatype driver_out =
    Inject_dir u32 u32 "64 word"
  | Inject_dat u32 u32 u32 "72 word"
  | Req_valid bool
  | Req "145 word"
  | Req_tag "37 word"
  | Req_pma "5 word"
  | Req_abort bool
  | Wait
  | Ret u64
  | To_scoreboard transaction_req
  | Finish

definition inject :: "transaction_req \<Rightarrow> driver_out list" where
  "inject t =
     (let f = req_fault t
      in if fault_valid f
         then (case fault_domain f of
                 CACHE_DIR \<Rightarrow> [Inject_dir (fault_set f) (fault_way f) (get_range 0 64 (fault_mask f))]
               | CACHE_DAT \<Rightarrow> [Inject_dat (fault_set f) (fault_way f) (fault_word f) (get_range 0 72 (fault_mask f))])
         else [])"

text \<open>\<open>do wait(); while (!sig.read());\<close> from cycle \<open>k\<close> on: the cycle it stops at.\<close>

partial_function (option) wait_until :: "(nat \<Rightarrow> bool) \<Rightarrow> nat \<Rightarrow> nat option" where
  "wait_until sig k = (if sig (Suc k) then Some (Suc k) else wait_until sig (Suc k))"

text \<open>The queue holds the requests with their identifiers; its end stands for the null pointer that asks to stop.\<close>

fun drive_request :: "(nat \<Rightarrow> bool) \<Rightarrow> (nat \<Rightarrow> bool) \<Rightarrow> (transaction_req \<times> u64) list \<Rightarrow> nat \<Rightarrow> driver_out list option" where
  "drive_request ready idle [] k =
     map_option (\<lambda>k'. replicate (k' - k) Wait @ [Finish]) (wait_until idle k)"
| "drive_request ready idle ((t, tid) # ts) k =
     do {
       k' \<leftarrow> wait_until ready k;
       rest \<leftarrow> drive_request ready idle ts k';
       Some (inject t @ [Req_valid True, Req (core_req_to_bv t)] @ replicate (k' - k) Wait
         @ [Req_valid False, Req_tag (core_get_req_tag t), Req_pma (core_get_req_pma t), Req_abort (req_abort t), Ret tid,
            To_scoreboard t] @ rest)
     }"

text \<open>The response port cycle by cycle: valid flag and vector.\<close>

definition monitor_response :: "(bool \<times> 75 word) list \<Rightarrow> transaction_resp list" where
  "monitor_response port = map (\<lambda>(_, bv). core_resp_to_struct bv) (filter fst port)"

section \<open>Subranges\<close>

lemma bit_get_range: "bit (get_range pos n bv :: 'b::len word) i \<longleftrightarrow> i < LENGTH('b) \<and> i < n \<and> bit bv (pos + i)"
  by (auto simp: get_range_def bit_simps)

lemma bit_set_range:
  "bit (set_range pos n v bv :: 'a::len word) i \<longleftrightarrow>
     i < LENGTH('a) \<and> (if pos \<le> i \<and> i < pos + n then bit v (i - pos) else bit bv i)"
  by (auto simp: set_range_def bit_simps dest: bit_imp_le_length)

lemma get_set_range:
  assumes "pos + n \<le> LENGTH('a)"
  shows "get_range pos n (set_range pos n (v :: 'b::len word) (bv :: 'a::len word)) = (ucast (take_bit n v) :: 'c::len word)"
  using assms by (auto intro!: bit_word_eqI simp: bit_get_range bit_set_range bit_simps)

lemma get_set_other:
  assumes "pos + n \<le> pos' \<or> pos' + n' \<le> pos"
  shows "get_range pos n (set_range pos' n' v (bv :: 'a::len word)) = (get_range pos n bv :: 'c::len word)"
proof (rule bit_word_eqI)
  fix i
  have "bit bv (pos + i) \<Longrightarrow> pos + i < LENGTH('a)" by (rule bit_imp_le_length)
  then show "bit (get_range pos n (set_range pos' n' v bv) :: 'c word) i \<longleftrightarrow> bit (get_range pos n bv :: 'c word) i"
    using assms by (auto simp: bit_get_range bit_set_range)
qed

lemmas pack_config = config_values config

text \<open>Every field of the vector is the field that was put in.\<close>

lemma core_req_fields:
  "get_range PMA_POS 5 (core_req_to_bv t) = core_get_req_pma t" "get_range TAG_POS 37 (core_req_to_bv t) = core_get_req_tag t"
  "(get_range PHYS_INDEXED_POS 1 (core_req_to_bv t) :: 1 word) = of_bool (req_phys_indexed t)"
  "(get_range NEED_RSP_POS 1 (core_req_to_bv t) :: 1 word) = of_bool (req_need_rsp t)"
  "get_range TRANS_ID_POS 6 (core_req_to_bv t) = req_tid t" "get_range SRC_ID_POS 3 (core_req_to_bv t) = req_sid t"
  "get_range SIZE_POS 3 (core_req_to_bv t) = req_size t" "get_range BE_POS 8 (core_req_to_bv t) = req_be t"
  "get_range OP_POS 5 (core_req_to_bv t) = req_op t" "get_range WDATA_POS 64 (core_req_to_bv t) = req_wdata t"
  "(get_range ADDR_POS 12 (core_req_to_bv t) :: 12 word) = ucast (req_addr t)"
  by (simp_all add: core_req_to_bv_def Let_def pack_config get_set_other get_set_range take_bit_word_eq_self del: One_nat_def)
    (auto intro!: bit_word_eqI simp: bit_simps get_range_def)

lemma address_of_parts: "(ucast (ucast a :: 12 word) :: 49 word) OR push_bit 12 (ucast (get_range 12 37 a :: 37 word)) = a"
  by (rule bit_word_eqI) (auto simp: bit_simps bit_get_range)

lemma core_get_req_tag_12: "core_get_req_tag t = get_range 12 37 (req_addr t)"
  by (simp add: core_get_req_tag_def pack_config)

section \<open>The response vector\<close>

text \<open>The vector a response is taken from.\<close>

definition resp_to_bv :: "transaction_resp \<Rightarrow> 75 word" where
  "resp_to_bv r =
     set_range 11 64 (rsp_rdata r) (set_range 8 3 (rsp_sid r) (set_range 2 6 (rsp_tid r)
       (set_range 1 1 (of_bool (rsp_error r) :: u32) (set_range 0 1 (of_bool (rsp_aborted r) :: u32) 0))))"

lemma one_bit: "(get_range i 1 (bv :: 75 word) :: u32) > 0 \<longleftrightarrow> bit bv i"
proof -
  have "get_range i 1 bv = (of_bool (bit bv i) :: u32)" by (rule bit_word_eqI) (auto simp: bit_get_range bit_simps)
  then show ?thesis by simp
qed

lemma resp_there: "core_resp_to_struct (resp_to_bv r) = r"
  by (rule transaction_resp.equality)
    (simp_all add: core_resp_to_struct_def resp_to_bv_def Let_def pack_config one_bit get_set_other get_set_range
      take_bit_word_eq_self bit_set_range bit_simps del: One_nat_def)

lemma resp_back: "resp_to_bv (core_resp_to_struct bv) = bv"
proof (rule bit_word_eqI)
  fix i assume "i < LENGTH(75)"
  then have "i = 0 \<or> i = 1 \<or> 2 \<le> i \<and> i < 8 \<or> 8 \<le> i \<and> i < 11 \<or> 11 \<le> i \<and> i < 75" by auto
  then show "bit (resp_to_bv (core_resp_to_struct bv)) i \<longleftrightarrow> bit bv i"
    by (elim disjE)
      (simp_all add: core_resp_to_struct_def resp_to_bv_def Let_def pack_config one_bit bit_set_range bit_get_range bit_simps
        del: One_nat_def add_2_eq_Suc add_2_eq_Suc', auto)
qed

section \<open>The request thread\<close>

text \<open>What the cache, the sequence and the scoreboard get of what the thread puts out.\<close>

definition sent :: "driver_out list \<Rightarrow> (145 word) list" where
  "sent out = List.map_filter (\<lambda>x. case x of Req bv \<Rightarrow> Some bv | _ \<Rightarrow> None) out"

definition returned :: "driver_out list \<Rightarrow> u64 list" where
  "returned out = List.map_filter (\<lambda>x. case x of Ret i \<Rightarrow> Some i | _ \<Rightarrow> None) out"

definition handed :: "driver_out list \<Rightarrow> transaction_req list" where
  "handed out = List.map_filter (\<lambda>x. case x of To_scoreboard t \<Rightarrow> Some t | _ \<Rightarrow> None) out"

lemmas seen_defs = sent_def returned_def handed_def map_filter_def

lemma seen_append [simp]:
  "sent (xs @ ys) = sent xs @ sent ys" "returned (xs @ ys) = returned xs @ returned ys" "handed (xs @ ys) = handed xs @ handed ys"
  by (simp_all add: seen_defs)

lemma seen_waits [simp]: "sent (replicate n Wait) = []" "returned (replicate n Wait) = []" "handed (replicate n Wait) = []"
  by (induction n) (simp_all add: seen_defs)

lemma seen_inject [simp]: "sent (inject t) = []" "returned (inject t) = []" "handed (inject t) = []"
  by (simp_all add: seen_defs inject_def Let_def split: domain_e.split)

lemma wait_until_stops:
  assumes "k < j" "sig j"
  shows "\<exists>k'. wait_until sig k = Some k' \<and> k < k' \<and> k' \<le> j \<and> sig k'"
  using assms
proof (induction "j - k" arbitrary: k)
  case (Suc d)
  show ?case
  proof (cases "sig (Suc k)")
    case True then show ?thesis using Suc.prems by (subst wait_until.simps) auto
  next
    case False
    then have "Suc k < j" using Suc.prems by (metis Suc_lessI)
    then have "\<exists>k'. wait_until sig (Suc k) = Some k' \<and> Suc k < k' \<and> k' \<le> j \<and> sig k'" using Suc by auto
    then show ?thesis using False by (subst wait_until.simps) auto
  qed
qed simp

lemma wait_until_recurs:
  assumes "\<forall>k. \<exists>j>k. sig j"
  obtains k' where "wait_until sig k = Some k'" "k < k'" "sig k'"
  using assms wait_until_stops [of k _ sig] by blast

section \<open>Properties\<close>


text \<open>Taking the vector of the response port apart is a bijection: every response has exactly one vector, so neither
a bit of the vector nor a field of the response is lost.\<close>

theorem core_resp_bijective: "bij core_resp_to_struct"
  by (rule bijI') (metis resp_back, metis resp_there)

text \<open>C28. If the cache is ready again and again and runs empty again and again, the request thread ends: it has sent the
vector of every request of the queue once and in order, has returned the identifiers in that order, has handed every request
to the scoreboard, and its last act is to finish the simulation.\<close>

theorem drive_request_sends_all:
  assumes "\<forall>k. \<exists>j>k. ready j" "\<forall>k. \<exists>j>k. idle j"
  shows "\<exists>out. drive_request ready idle q k = Some (out @ [Finish]) \<and> sent out = map (core_req_to_bv \<circ> fst) q
    \<and> returned out = map snd q \<and> handed out = map fst q"
proof (induction q arbitrary: k)
  case Nil
  obtain k' where "wait_until idle k = Some k'" using wait_until_recurs [OF assms(2)] .
  then show ?case by simp
next
  case (Cons a q)
  obtain t tid where a: "a = (t, tid)" by (cases a)
  obtain k' where k': "wait_until ready k = Some k'" using wait_until_recurs [OF assms(1)] .
  obtain out where "drive_request ready idle q k' = Some (out @ [Finish])" "sent out = map (core_req_to_bv \<circ> fst) q"
    "returned out = map snd q" "handed out = map fst q" using Cons.IH by blast
  then show ?case by (simp add: a k') (simp add: seen_defs)
qed

theorem drive_request_sends_all_witness:
  "let q = [(new_transaction_req, 3), (new_transaction_req\<lparr>req_addr := 64\<rparr>, 4)]
   in \<exists>out. drive_request even odd q 0 = Some (out @ [Finish]) \<and> sent out = map (core_req_to_bv \<circ> fst) q
     \<and> returned out = map snd q \<and> handed out = map fst q"
  unfolding Let_def
proof (rule drive_request_sends_all)
  have "even (2 * k + 2) \<and> k < 2 * k + 2" for k :: nat by simp
  then show "\<forall>k. \<exists>j>k. even (j :: nat)" by blast
  have "odd (2 * k + 1) \<and> k < 2 * k + 1" for k :: nat by simp
  then show "\<forall>k. \<exists>j>k. odd (j :: nat)" by blast
qed

end
