(* ===== verification/Hpd_Sequence.thy ===== *)
theory Hpd_Sequence
  imports Hpd_Transaction
begin

text \<open>
  What the sequences of the HPDcache test bench keep: the identifiers of the requests that wait for a response
  (\<open>hpdcache_test_sequence.h\<close>) and the pool of transaction objects (\<open>transaction_pool.h\<close>).  \<open>None\<close> is a failed
  assertion, or the front of an empty list.
\<close>

section \<open>Transaction identifiers\<close>

definition HPDCACHE_REQ_MAX_TRANS_ID :: u32 where
  "HPDCACHE_REQ_MAX_TRANS_ID = push_bit HPDCACHE_REQ_TRANS_ID_WIDTH 1"

definition is_available_id :: "u32 list \<Rightarrow> bool" where
  "is_available_id ids \<longleftrightarrow> length ids < unat HPDCACHE_REQ_MAX_TRANS_ID"

text \<open>The search for a free identifier goes round until it finds one.\<close>

partial_function (option) probe_id :: "u32 list \<Rightarrow> u32 \<Rightarrow> u32 option" where
  "probe_id ids tid = (if tid \<notin> set ids then Some tid else probe_id ids ((tid + 1) mod HPDCACHE_REQ_MAX_TRANS_ID))"

text \<open>\<open>r\<close> is the value of \<open>rand()\<close>.\<close>

definition allocate_id :: "u32 \<Rightarrow> u32 list \<Rightarrow> (u32 \<times> u32 list) option" where
  "allocate_id r ids =
     (if is_available_id ids
      then do { tid \<leftarrow> probe_id ids (r mod HPDCACHE_REQ_MAX_TRANS_ID); Some (tid, ids @ [tid]) }
      else None)"

text \<open>The first component says whether the error message is printed.\<close>

definition deallocate_id :: "u32 \<Rightarrow> u32 list \<Rightarrow> bool \<times> u32 list" where
  "deallocate_id tid ids = (if tid \<in> set ids then (False, remove1 tid ids) else (True, ids))"

section \<open>Memory segments\<close>

datatype wr_policy_e = WR_POLICY_AUTO | WR_POLICY_WB | WR_POLICY_WT | WR_POLICY_RANDOM

record memory_segment =
  seg_base :: "49 word"
  seg_length :: "49 word"
  seg_uncached :: bool
  seg_amo_supported :: bool
  seg_wr_policy_hint :: wr_policy_e

definition new_memory_segment :: memory_segment where
  "new_memory_segment = \<lparr>seg_base = 0, seg_length = 0, seg_uncached = False, seg_amo_supported = False,
     seg_wr_policy_hint = WR_POLICY_AUTO\<rparr>"

definition get_base :: "memory_segment \<Rightarrow> u64" where
  "get_base s = ucast (seg_base s)"

definition get_length :: "memory_segment \<Rightarrow> u64" where
  "get_length s = ucast (seg_length s)"

definition get_end :: "memory_segment \<Rightarrow> u64" where
  "get_end s = ucast (seg_base s) + (ucast (seg_length s) - 1)"

definition set_base :: "u64 \<Rightarrow> memory_segment \<Rightarrow> memory_segment" where
  "set_base base s = s\<lparr>seg_base := ucast base\<rparr>"

definition set_length :: "u64 \<Rightarrow> memory_segment \<Rightarrow> memory_segment" where
  "set_length len s = s\<lparr>seg_length := ucast len\<rparr>"

section \<open>The pool of transaction objects\<close>

text \<open>An object is its number in the order of creation; \<open>id_of\<close> is its field \<open>__id\<close>.\<close>

record pool =
  pool_objs :: "nat list"
  made :: nat
  id_of :: "nat \<Rightarrow> u64"
  bundle_sz :: nat
  nb_trans :: u64
  nb_allocated :: u64
  nb_release :: u64

definition new_pool :: "nat \<Rightarrow> pool" where
  "new_pool sz = \<lparr>pool_objs = [], made = 0, id_of = (\<lambda>_. 0), bundle_sz = sz, nb_trans = 0, nb_allocated = 0, nb_release = 0\<rparr>"

definition refill :: "pool \<Rightarrow> pool" where
  "refill p =
     (if pool_objs p = []
      then p\<lparr>pool_objs := [made p..<made p + bundle_sz p], made := made p + bundle_sz p,
             id_of := (\<lambda>t. if made p \<le> t \<and> t < made p + bundle_sz p then 0 else id_of p t),
             nb_allocated := nb_allocated p + of_nat (bundle_sz p)\<rparr>
      else p)"

definition acquire_transaction :: "pool \<Rightarrow> (nat \<times> pool) option" where
  "acquire_transaction p =
     (let p = refill p
      in case pool_objs p of
           [] \<Rightarrow> None
         | t # ts \<Rightarrow> Some (t, p\<lparr>pool_objs := ts, id_of := (id_of p)(t := nb_trans p), nb_trans := nb_trans p + 1\<rparr>))"

definition release_transaction :: "nat \<Rightarrow> pool \<Rightarrow> pool" where
  "release_transaction t p = p\<lparr>pool_objs := pool_objs p @ [t], nb_release := nb_release p + 1\<rparr>"

section \<open>The search for an identifier\<close>

lemma MAX_TRANS_ID: "HPDCACHE_REQ_MAX_TRANS_ID = 64"
  by (simp add: HPDCACHE_REQ_MAX_TRANS_ID_def config)

text \<open>After \<open>k\<close> steps the search is at \<open>tid + k\<close>, so it has seen every identifier after 64.\<close>

lemma probe_id_at:
  assumes "n < 64" "k < 64" "of_nat ((n + k) mod 64) \<notin> set ids"
  shows "\<exists>tid. probe_id ids (of_nat n) = Some tid \<and> tid < 64 \<and> tid \<notin> set ids"
  using assms
proof (induction k arbitrary: n)
  case 0
  then show ?case by (simp add: probe_id.simps [of ids "of_nat n"] word_less_nat_alt unat_of_nat)
next
  case (Suc k)
  show ?case
  proof (cases "of_nat n \<in> set ids")
    case True
    have "(of_nat n + 1) mod 64 = (of_nat (Suc n mod 64) :: u32)"
      using Suc.prems(1) by (simp add: word_arith_nat_mod unat_word_ariths unat_of_nat)
    moreover have "(Suc n mod 64 + k) mod 64 = (n + Suc k) mod 64" by (simp add: mod_simps)
    ultimately show ?thesis
      using Suc.IH [of "Suc n mod 64"] Suc.prems True by (simp add: probe_id.simps [of ids "of_nat n"] MAX_TRANS_ID)
  next
    case False
    then show ?thesis using Suc.prems by (simp add: probe_id.simps [of ids "of_nat n"] word_less_nat_alt unat_of_nat)
  qed
qed

text \<open>A list with fewer entries than there are identifiers misses one.\<close>

lemma free_id_exists:
  assumes "length ids < 64"
  shows "\<exists>m < 64. (of_nat m :: u32) \<notin> set ids"
proof (rule ccontr)
  assume "\<not> ?thesis"
  then have "(of_nat :: nat \<Rightarrow> u32) ` {..<64} \<subseteq> set ids" by auto
  moreover have "inj_on (of_nat :: nat \<Rightarrow> u32) {..<64}"
    by (auto intro!: inj_onI simp: word_unat_eq_iff unat_of_nat)
  then have "card ((of_nat :: nat \<Rightarrow> u32) ` {..<64}) = 64" by (simp add: card_image)
  ultimately have "64 \<le> card (set ids)" by (metis List.finite_set card_mono)
  then show False using assms card_length [of ids] by simp
qed

lemma probe_id_returns:
  assumes "length ids < 64" "n < 64"
  shows "\<exists>tid. probe_id ids (of_nat n) = Some tid \<and> tid < 64 \<and> tid \<notin> set ids"
proof -
  obtain m where m: "m < 64" "(of_nat m :: u32) \<notin> set ids" using free_id_exists [OF assms(1)] by blast
  define k where "k = (m + 64 - n) mod 64"
  have "(n + k) mod 64 = m" using m(1) assms(2) by (simp add: k_def mod_simps)
  then show ?thesis using probe_id_at [of n k ids] m assms(2) by (simp add: k_def)
qed

section \<open>The pool and its clients\<close>

text \<open>The objects the clients hold: acquired and not yet released.\<close>

inductive pool_step :: "pool \<times> nat set \<Rightarrow> pool \<times> nat set \<Rightarrow> bool" where
  acquire: "acquire_transaction p = Some (t, p') \<Longrightarrow> pool_step (p, H) (p', insert t H)"
| release: "t \<in> H \<Longrightarrow> pool_step (p, H) (release_transaction t p, H - {t})"

inductive pool_run :: "nat \<Rightarrow> nat \<Rightarrow> pool \<times> nat set \<Rightarrow> bool" for sz where
  start: "pool_run sz 0 (new_pool sz, {})"
| step: "pool_run sz n s \<Longrightarrow> pool_step s s' \<Longrightarrow> pool_run sz (Suc n) s'"

definition pool_ok :: "nat \<Rightarrow> nat \<Rightarrow> pool \<times> nat set \<Rightarrow> bool" where
  "pool_ok sz n s \<longleftrightarrow> bundle_sz (fst s) = sz \<and> distinct (pool_objs (fst s)) \<and> set (pool_objs (fst s)) \<inter> snd s = {}
     \<and> set (pool_objs (fst s)) \<union> snd s = {..<made (fst s)}
     \<and> (\<exists>k \<le> n. nb_trans (fst s) = of_nat k \<and> (\<forall>t \<in> snd s. \<exists>i < k. id_of (fst s) t = of_nat i))
     \<and> (n \<le> 2 ^ 64 \<longrightarrow> inj_on (id_of (fst s)) (snd s))"

inductive_cases pool_stepE: "pool_step s s'"

lemma refill_ok:
  assumes "pool_ok sz n (p, H)"
  shows "pool_ok sz n (refill p, H)"
proof (cases "pool_objs p = []")
  case True
  then have "H = {..<made p}" using assms by (auto simp: pool_ok_def)
  then have old: "id_of (refill p) t = id_of p t" if "t \<in> H" for t using that by (auto simp: refill_def)
  have "inj_on (id_of (refill p)) H = inj_on (id_of p) H" by (rule inj_on_cong) (rule old)
  with assms True old \<open>H = {..<made p}\<close> show ?thesis
    by (auto simp: pool_ok_def refill_def)
qed (use assms in \<open>simp add: refill_def\<close>)


lemma pool_okI:
  assumes "bundle_sz p = sz" "distinct (pool_objs p)" "set (pool_objs p) \<inter> H = {}" "set (pool_objs p) \<union> H = {..<made p}"
    "k \<le> n" "nb_trans p = of_nat k" "\<And>t. t \<in> H \<Longrightarrow> \<exists>i < k. id_of p t = of_nat i" "n \<le> 2 ^ 64 \<Longrightarrow> inj_on (id_of p) H"
  shows "pool_ok sz n (p, H)"
  unfolding pool_ok_def using assms by auto

lemma acquire_cases:
  assumes "acquire_transaction p = Some (t, p')"
  obtains ts where "pool_objs (refill p) = t # ts"
    "p' = (refill p)\<lparr>pool_objs := ts, id_of := (id_of (refill p))(t := nb_trans (refill p)),
      nb_trans := nb_trans (refill p) + 1\<rparr>"
  using assms by (auto simp: acquire_transaction_def Let_def split: list.splits)

lemma pool_step_ok:
  assumes "pool_step s s'" "pool_ok sz n s"
  shows "pool_ok sz (Suc n) s'"
  using assms
proof (cases rule: pool_step.cases)
  case (acquire p t p' H)
  let ?q = "refill p"
  obtain ts where q: "pool_objs ?q = t # ts"
    "p' = ?q\<lparr>pool_objs := ts, id_of := (id_of ?q)(t := nb_trans ?q), nb_trans := nb_trans ?q + 1\<rparr>"
    by (rule acquire_cases [OF acquire(3)])
  have ok: "pool_ok sz n (?q, H)" using refill_ok assms(2) acquire(1) by simp
  then obtain k where k: "k \<le> n" "nb_trans ?q = of_nat k" "\<forall>t \<in> H. \<exists>i < k. id_of ?q t = of_nat i"
    by (auto simp: pool_ok_def)
  have t: "t \<notin> H" "distinct ts" "t \<notin> set ts" "set ts \<inter> H = {}" "insert t (set ts \<union> H) = {..<made ?q}"
    using ok q(1) by (auto simp: pool_ok_def)
  have upd: "((id_of ?q)(t := nb_trans ?q)) x = id_of ?q x" if "x \<in> H" for x using that t(1) by auto
  have "inj_on ((id_of ?q)(t := nb_trans ?q)) (insert t H)" if n: "Suc n \<le> 2 ^ 64"
  proof -
    have "inj_on (id_of ?q) H" using ok n by (simp add: pool_ok_def)
    then have "inj_on ((id_of ?q)(t := nb_trans ?q)) H" using upd by (simp add: inj_on_def)
    moreover have "nb_trans ?q \<noteq> id_of ?q x" if "x \<in> H" for x
    proof -
      from bspec [OF k(3) that] obtain i where i: "i < k" "id_of ?q x = of_nat i" by (elim exE conjE)
      have k64: "k < 2 ^ 64" by (rule less_le_trans [OF le_imp_less_Suc [OF k(1)] n])
      then have "k < 2 ^ LENGTH(64)" "i < 2 ^ LENGTH(64)" using less_trans [OF i(1) k64] by simp_all
      then have "unat (of_nat k :: u64) = k" "unat (of_nat i :: u64) = i" 
        by (simp_all only: unat_of_nat mod_less)
      then have "of_nat i \<noteq> (of_nat k :: u64)" using i(1) by (metis less_irrefl)
      then show ?thesis unfolding i(2) k(2) by (rule not_sym)
    qed
    ultimately show ?thesis using t(1) by (auto simp: inj_on_insert)
  qed
  note inj = this
  have ids: "\<exists>i < Suc k. ((id_of ?q)(t := nb_trans ?q)) x = of_nat i" if "x \<in> insert t H" for x
    using that k(2,3) t(1) by (auto intro: less_SucI)
  have "bundle_sz ?q = sz" using ok by (simp add: pool_ok_def)
  then show ?thesis
    unfolding acquire(2) q(2) using t k(1,2) inj ids by (intro pool_okI [of _ _ _ "Suc k"]) auto
next
  case (release t H p)
  then have ok: "pool_ok sz n (p, H)" using assms(2) by simp
  then obtain k where "k \<le> n" "nb_trans p = of_nat k" "\<forall>t \<in> H. \<exists>i < k. id_of p t = of_nat i"
    by (auto simp: pool_ok_def)
  moreover have "n \<le> 2 ^ 64 \<Longrightarrow> inj_on (id_of p) (H - {t})" using ok by (auto simp: pool_ok_def inj_on_diff)
  moreover have "distinct (pool_objs p @ [t])" "set (pool_objs p @ [t]) \<inter> (H - {t}) = {}"
      "set (pool_objs p @ [t]) \<union> (H - {t}) = {..<made p}" "bundle_sz p = sz"
    using ok release(3) by (auto simp: pool_ok_def)
  ultimately show ?thesis
    unfolding release(2) by (intro pool_okI [of _ _ _ k]) (auto simp: release_transaction_def)
qed

lemma pool_run_ok: "pool_run sz n s \<Longrightarrow> pool_ok sz n s"
proof (induction rule: pool_run.induct)
  case start
  then show ?case by (simp add: pool_ok_def new_pool_def)
next
  case (step n s s')
  then show ?case by (rule_tac pool_step_ok)
qed

section \<open>Properties\<close>

text \<open>C17. While an identifier is free, \<open>allocate_id\<close> returns, whatever \<open>rand()\<close> gives: with an identifier of six bits that
  was not in use and now is; giving it back leaves the list as it was.  With none free its assertion fails.\<close>

theorem allocate_id_returns_free:
  "(is_available_id ids \<longleftrightarrow> length ids < 64)
   \<and> (if is_available_id ids
      then \<exists>tid. allocate_id r ids = Some (tid, ids @ [tid]) \<and> tid < 64 \<and> tid \<notin> set ids
        \<and> deallocate_id tid (ids @ [tid]) = (False, ids)
      else allocate_id r ids = None)"
proof -
  have av: "is_available_id ids \<longleftrightarrow> length ids < 64" by (simp add: is_available_id_def MAX_TRANS_ID)
  have free: "\<exists>tid. allocate_id r ids = Some (tid, ids @ [tid]) \<and> tid < 64 \<and> tid \<notin> set ids
     \<and> deallocate_id tid (ids @ [tid]) = (False, ids)" if "is_available_id ids"
  proof -
    have len: "length ids < 64" using that av by simp
    have "unat r mod 64 < 64" "r mod 64 = of_nat (unat r mod 64)" by (simp_all add: word_arith_nat_mod)
    then obtain tid where "probe_id ids (r mod 64) = Some tid" "tid < 64" "tid \<notin> set ids"
      using probe_id_returns [OF len, of "unat r mod 64"] by auto
    then show ?thesis using that by (simp add: allocate_id_def MAX_TRANS_ID deallocate_id_def remove1_append)
  qed
  have "allocate_id r ids = None" if "\<not> is_available_id ids"
    using that by (simp add: allocate_id_def)
  with av free show ?thesis by (simp split: if_split)
qed

lemma allocate_id_returns_free_witness:
  "\<exists>tid. allocate_id 130 [2, 3] = Some (tid, [2, 3] @ [tid]) \<and> tid < 64 \<and> tid \<notin> set [2, 3]
     \<and> deallocate_id tid ([2, 3] @ [tid]) = (False, [2, 3])"
proof -
  have "is_available_id [2, 3]" by (simp add: is_available_id_def MAX_TRANS_ID)
  with allocate_id_returns_free [of "[2, 3]" 130] show ?thesis by (simp only: if_True simp_thms)
qed



end
