(* ===== verification/Hpd_Mem_Resp.thy ===== *)
theory Hpd_Mem_Resp
  imports Hpd_Transaction Hpd_Memory
begin

text \<open>
  The memory behind the cache (\<open>hpdcache_test_mem_resp_model_base.h\<close>, \<open>hpdcache_test_mem_resp_model.h\<close>): error segments,
  exclusive reservations, atomic operations, and the read and write operations on the sparse memory.  An operation
  gives the responses in the order it puts them into its queue; the random delays and the handshake on the ports, which
  only decide when that happens, are left out.  \<open>None\<close> is a failed assertion, a word outside the data vector, or a
  reservation outside the table.
\<close>

record segment =
  base_addr :: u64
  end_addr :: u64
  seg_error :: bool

record excl_buf =
  eb_valid :: bool
  eb_base :: u64
  eb_end :: u64

record mem_resp =
  errorsegs :: "segment list"
  memory_m :: mem_model
  excl_buf_m :: "excl_buf list"

text \<open>The table of reservations is not initialised.\<close>

definition new_mem_resp :: "(nat \<Rightarrow> u32) \<Rightarrow> excl_buf list \<Rightarrow> mem_resp" where
  "new_mem_resp rnd bufs =
     \<lparr>errorsegs = [], memory_m = new_mem_model MEM_MODEL_INIT_RANDOM 0 rnd,
      excl_buf_m = take (2 ^ HPDCACHE_MEM_ID_WIDTH) bufs\<rparr>"

definition add_error_segment :: "segment \<Rightarrow> mem_resp \<Rightarrow> mem_resp" where
  "add_error_segment g m = m\<lparr>errorsegs := errorsegs m @ [g]\<rparr>"

definition within_region :: "u64 \<Rightarrow> u64 \<Rightarrow> u64 \<Rightarrow> u64 \<Rightarrow> bool" where
  "within_region base0 end0 base1 end1 =
     (if end0 \<le> base1 then False else if end1 \<le> base0 then False else True)"

fun within_error_region :: "segment list \<Rightarrow> u64 \<Rightarrow> u64 \<Rightarrow> bool" where
  "within_error_region [] base ending = False"
| "within_error_region (g # gs) base ending =
     (if within_region (base_addr g) (end_addr g) base ending then seg_error g else within_error_region gs base ending)"

definition mem_compute_amo :: "u32 \<Rightarrow> u64 \<Rightarrow> u64 \<Rightarrow> u32 \<Rightarrow> u64 option" where
  "mem_compute_amo atop ld_data st_data bytes =
     (let umax = ld_data > st_data;
          smax = signed_max ld_data st_data bytes
      in if atop = atomic_code HPDCACHE_MEM_ATOMIC_ADD then Some (ld_data + st_data)
         else if atop = atomic_code HPDCACHE_MEM_ATOMIC_CLR then Some (ld_data AND NOT st_data)
         else if atop = atomic_code HPDCACHE_MEM_ATOMIC_SET then Some (ld_data OR st_data)
         else if atop = atomic_code HPDCACHE_MEM_ATOMIC_EOR then Some (ld_data XOR st_data)
         else if atop = atomic_code HPDCACHE_MEM_ATOMIC_SMAX then Some (if smax then ld_data else st_data)
         else if atop = atomic_code HPDCACHE_MEM_ATOMIC_UMAX then Some (if umax then ld_data else st_data)
         else if atop = atomic_code HPDCACHE_MEM_ATOMIC_SMIN then Some (if smax then st_data else ld_data)
         else if atop = atomic_code HPDCACHE_MEM_ATOMIC_UMIN then Some (if umax then st_data else ld_data)
         else if atop = atomic_code HPDCACHE_MEM_ATOMIC_SWAP then Some st_data
         else None)"

section \<open>Reading\<close>

text \<open>The 64-bit words of a data vector; words outside it are an error of the vector class.\<close>

definition MEM_NOC_DATA_WORDS :: nat where
  "MEM_NOC_DATA_WORDS = HPDCACHE_MEM_DATA_WIDTH div 64"

definition get_word :: "512 word \<Rightarrow> nat \<Rightarrow> u64" where
  "get_word d i = ucast (drop_bit (64 * i) d)"

definition set_word :: "512 word \<Rightarrow> nat \<Rightarrow> u64 \<Rightarrow> 512 word" where
  "set_word d i x = (d AND NOT (push_bit (64 * i) (mask 64))) OR push_bit (64 * i) (ucast x)"

text \<open>The request ports; the address is taken with \<open>to_uint\<close>, which keeps 32 bits.\<close>

record mem_ports =
  p_addr :: u64
  p_len :: u8
  p_size :: "3 word"
  p_id :: "4 word"
  p_command :: "2 word"
  p_atomic :: "4 word"
  p_cacheable :: bool

definition port_req :: "mem_ports \<Rightarrow> mem_req" where
  "port_req p =
     \<lparr>mr_addr = ucast (ucast (p_addr p) :: u32), mr_len = ucast (p_len p), mr_size = ucast (p_size p), mr_id = ucast (p_id p),
      mr_command = ucast (p_command p), mr_atomic = ucast (p_atomic p), mr_cacheable = p_cacheable p\<rparr>"

definition read_word :: "u64 \<Rightarrow> nat \<Rightarrow> 512 word \<times> mem_model \<Rightarrow> 512 word \<times> mem_model" where
  "read_word addr w = (\<lambda>(data, m).
     let word_addr = drop_bit 3 addr + of_nat w;
         (ld_data, m) = readMemory word_addr m;
         r = unat (word_addr mod of_nat MEM_NOC_DATA_WORDS)
     in (set_word data r ld_data, m))"

text \<open>\<open>n\<close> beats are left.\<close>

fun read_beats :: "nat \<Rightarrow> u32 \<Rightarrow> nat \<Rightarrow> u64 \<Rightarrow> 512 word \<Rightarrow> mem_model \<Rightarrow> mem_read_resp list \<times> mem_model" where
  "read_beats 0 rid words addr data m = ([], m)"
| "read_beats (Suc n) rid words addr data m =
     (let (data, m) = fold (read_word addr) [0..<words] (data, m);
          (rs, m) = read_beats n rid words (push_bit 3 (drop_bit 3 addr + of_nat words)) data m
      in (\<lparr>rr_error = 0, rr_id = rid, rr_data = data, rr_last = (n = 0)\<rparr> # rs, m))"

definition readOperation :: "mem_ports \<Rightarrow> mem_resp \<Rightarrow> mem_req \<times> mem_read_resp list \<times> mem_resp" where
  "readOperation p m =
     (let req = port_req p;
          addr = mr_addr req;
          ending = addr + push_bit (unat (mr_size req)) 1;
          n = unat (mr_len req) + 1
      in if within_error_region (errorsegs m) addr ending
         then (req, map (\<lambda>i. \<lparr>rr_error = 1, rr_id = mr_id req, rr_data = 0, rr_last = (i = unat (mr_len req))\<rparr>) [0..<n], m)
         else
           let words = 2 ^ unat (mr_size req) div 8;
               words = (if words = 0 then 1 else words);
               m = (if is_ldex req
                    then m\<lparr>excl_buf_m := (excl_buf_m m)[unat (mr_id req) :=
                           \<lparr>eb_valid = True, eb_base = addr, eb_end = addr + push_bit (unat (mr_size req)) 1\<rparr>]\<rparr>
                    else m);
               (rs, mem) = read_beats n (mr_id req) words addr 0 (memory_m m)
           in (req, rs, m\<lparr>memory_m := mem\<rparr>))"

section \<open>Writing\<close>

record mem_write_flit =
  wd_data :: "512 word"
  wd_be :: "64 word"
  wd_last :: bool

definition join_write :: "mem_req \<Rightarrow> mem_write_flit \<Rightarrow> mem_write_req" where
  "join_write r d =
     \<lparr>mr_addr = mr_addr r, mr_len = mr_len r, mr_size = mr_size r, mr_id = mr_id r, mr_command = mr_command r,
      mr_atomic = mr_atomic r, mr_cacheable = mr_cacheable r, mw_data = wd_data d, mw_be = wd_be d, mw_last = wd_last d\<rparr>"

definition be_byte :: "64 word \<Rightarrow> nat \<Rightarrow> u8" where
  "be_byte be i = ucast (drop_bit (8 * i) be)"

definition write_word :: "mem_write_req \<Rightarrow> u64 option \<Rightarrow> u64 \<Rightarrow> nat \<Rightarrow> nat \<Rightarrow> mem_model \<Rightarrow> mem_model option" where
  "write_word req amo_result word_addr word w m =
     (let i = word + w
      in if i < MEM_NOC_DATA_WORDS
         then let be = be_byte (mw_be req) i
              in if be = 0 then Some m
                 else let st_data = (case amo_result of Some x \<Rightarrow> x | None \<Rightarrow> get_word (mw_data req) i)
                      in Some (writeMemory (word_addr + of_nat w) st_data (beToMask be) m)
         else None)"

fun write_words :: "mem_write_req \<Rightarrow> u64 option \<Rightarrow> u64 \<Rightarrow> nat \<Rightarrow> nat list \<Rightarrow> mem_model \<Rightarrow> mem_model option" where
  "write_words req amo_result word_addr word [] m = Some m"
| "write_words req amo_result word_addr word (w # ws) m =
     Option.bind (write_word req amo_result word_addr word w m) (write_words req amo_result word_addr word ws)"

text \<open>The atomic part: the old word and the new one, both at their place in the word.\<close>

definition amo_words :: "mem_write_req \<Rightarrow> u32 \<Rightarrow> mem_model \<Rightarrow> (u64 \<times> u64 \<times> mem_model) option" where
  "amo_words req bytes m =
     (let addr = mr_addr req;
          word_addr = drop_bit 3 addr;
          word = unat (word_addr mod of_nat MEM_NOC_DATA_WORDS);
          offset = unat (addr mod 8) * 8;
          (ld_data, m) = readMemory word_addr m;
          st_data = get_word (mw_data req) word;
          ld_data = (if bytes = 4 then ucast (ucast (drop_bit offset ld_data) :: u32) else ld_data);
          st_data = (if bytes = 4 then ucast (ucast (drop_bit offset st_data) :: u32) else st_data)
      in do {
           amo_result \<leftarrow> mem_compute_amo (mr_atomic req) ld_data st_data bytes;
           Some (if offset \<noteq> 0 then (push_bit offset ld_data, push_bit offset amo_result, m) else (ld_data, amo_result, m))
         })"

definition stex_check :: "mem_write_req \<Rightarrow> u64 \<Rightarrow> u64 \<Rightarrow> mem_resp \<Rightarrow> (bool \<times> mem_resp) option" where
  "stex_check req addr ending m =
     (if is_stex req
      then if unat (mr_id req) < length (excl_buf_m m)
           then let e = excl_buf_m m ! unat (mr_id req)
                in if eb_valid e
                   then Some (within_region addr ending (eb_base e) (eb_end e),
                              m\<lparr>excl_buf_m := (excl_buf_m m)[unat (mr_id req) := e\<lparr>eb_valid := False\<rparr>]\<rparr>)
                   else Some (False, m)
           else None
      else Some (False, m))"

definition writeOperation :: "mem_write_req \<Rightarrow> mem_resp \<Rightarrow> (mem_read_resp list \<times> mem_write_resp \<times> mem_resp) option" where
  "writeOperation req m =
     (let bytes = (ucast (push_bit (unat (mr_size req)) (1 :: u64)) :: u32);
          addr = mr_addr req;
          ending = addr + ucast bytes;
          word_addr = drop_bit 3 addr;
          amo = (mr_command req = command_code HPDCACHE_MEM_ATOMIC \<and> mr_atomic req \<noteq> atomic_code HPDCACHE_MEM_ATOMIC_STEX)
      in if within_error_region (errorsegs m) addr ending
         then Some (if amo then [\<lparr>rr_error = 0, rr_id = mr_id req, rr_data = 0, rr_last = True\<rparr>] else [],
                    \<lparr>wr_is_atomic = False, wr_error = 1, wr_id = mr_id req\<rparr>, m)
         else do {
           (excl_ok, m) \<leftarrow> stex_check req addr ending m;
           let word = unat (word_addr mod of_nat MEM_NOC_DATA_WORDS);
           (ld_data, amo_result, mem) \<leftarrow>
             (if amo then map_option (\<lambda>(l, r, mem). (l, Some r, mem)) (amo_words req bytes (memory_m m))
              else Some (0, None, memory_m m));
           (rs, mem) \<leftarrow>
             (if \<not> is_stex req \<or> excl_ok
              then let words = unat (bytes div 8);
                       words = (if words = 0 then 1 else words)
                   in map_option
                        (\<lambda>mem. (if amo then [\<lparr>rr_error = 0, rr_id = mr_id req, rr_data = set_word 0 word ld_data, rr_last = True\<rparr>]
                                else [], mem))
                        (write_words req amo_result word_addr word [0..<words] mem)
              else Some ([], mem));
           Some (rs, \<lparr>wr_is_atomic = (is_stex req \<and> excl_ok), wr_error = 0, wr_id = mr_id req\<rparr>, m\<lparr>memory_m := mem\<rparr>)
         })"


section \<open>The words of a data vector\<close>

lemma bit_get_word: "bit (get_word d i) n \<longleftrightarrow> n < 64 \<and> bit d (64 * i + n)"
  by (auto simp: get_word_def bit_simps)

lemma get_set_word:
  assumes "i < 8" "j < 8"
  shows "get_word (set_word d i x) j = (if j = i then x else get_word d j)"
proof (rule bit_word_eqI)
  fix n assume n: "n < LENGTH(64)"
  have "64 * j + n < 512" using assms n by simp
  moreover have "64 * j + n < 64 * i \<or> 64 * i + 64 \<le> 64 * j + n" if "j \<noteq> i"
    using that n by (cases "j < i") auto
  ultimately show "bit (get_word (set_word d i x) j) n = bit (if j = i then x else get_word d j) n"
    using n by (auto simp: bit_get_word set_word_def bit_simps dest: bit_imp_le_length)
qed

section \<open>Addresses\<close>

lemma MEM_WORDS: "MEM_NOC_DATA_WORDS = 8"
  by (simp add: MEM_NOC_DATA_WORDS_def config)

text \<open>The lane of the \<open>w\<close>-th word from \<open>a\<close> on.\<close>

lemma lane: "unat (((a :: u64) + of_nat w) mod 8) = (unat a + w) mod 8"
proof -
  have "unat (a + of_nat w) mod 8 = (unat a + w) mod 8"
    by (simp add: unat_word_ariths unat_of_nat mod_simps mod_mod_cancel)
  then show ?thesis by (simp add: unat_mod_distrib)
qed

lemma lane_inj:
  assumes "(a + w) mod 8 = (a + w') mod 8" "w < 8" "w' < (8 :: nat)"
  shows "w = w'"
proof -
  have le: "v = v'" if "(a + v') mod 8 = (a + v) mod 8" "v \<le> v'" "v' < 8" for v v' :: nat
  proof -
    have "8 dvd (a + v') - (a + v)" using that by (simp add: mod_eq_dvd_iff_nat)
    then have "8 dvd v' - v" by simp
    then show ?thesis using that(2,3) by (auto dest: dvd_imp_le)
  qed
  show ?thesis using le [of w' w] le [of w w'] assms by (cases "w \<le> w'") auto
qed

lemma offset_inj: "(a :: u64) + of_nat w = a + of_nat w' \<Longrightarrow> w < 8 \<Longrightarrow> w' < 8 \<Longrightarrow> w = w'"
  by (drule add_left_imp_eq) (simp add: word_unat_eq_iff unat_of_nat)

section \<open>Reading words\<close>

lemma readMemory_array:
  assumes "readMemory a m = (x, m')"
  shows "mem_array_m m' = (mem_array_m m)(a \<mapsto> x)" "mem_array_m m a = Some y \<Longrightarrow> m' = m \<and> x = y"
  using assms
  by (auto simp: readMemory_def fresh_value_def fun_eq_iff split: option.splits prod.splits mem_model_init_mode_e.splits)

lemma read_words:
  assumes "fold (read_word addr) [0..<k] (d, m) = (d', m')" "k \<le> 8"
  shows "(\<forall>b x. mem_array_m m b = Some x \<longrightarrow> mem_array_m m' b = Some x)
    \<and> (\<forall>w < k. mem_array_m m' (drop_bit 3 addr + of_nat w)
        = Some (get_word d' ((unat (drop_bit 3 addr :: u64) + w) mod 8)))"
  using assms
proof (induction k arbitrary: d' m')
  case (Suc k)
  let ?a = "drop_bit 3 addr :: u64"
  obtain d1 m1 where f: "fold (read_word addr) [0..<k] (d, m) = (d1, m1)" by (cases "fold (read_word addr) [0..<k] (d, m)")
  obtain x m2 where r: "readMemory (?a + of_nat k) m1 = (x, m2)" by (cases "readMemory (?a + of_nat k) m1")
  have "read_word addr k (d1, m1) = (set_word d1 ((unat ?a + k) mod 8) x, m2)"
    using r by (simp add: read_word_def Let_def MEM_WORDS lane)
  then have e: "d' = set_word d1 ((unat ?a + k) mod 8) x" "m' = m2" using Suc.prems(1) by (simp_all add: f)
  have IH: "\<forall>b x. mem_array_m m b = Some x \<longrightarrow> mem_array_m m1 b = Some x"
      "\<forall>w < k. mem_array_m m1 (?a + of_nat w) = Some (get_word d1 ((unat ?a + w) mod 8))"
    using Suc.IH [OF f] Suc.prems(2) by simp_all
  have new: "mem_array_m m' = (mem_array_m m1)(?a + of_nat k \<mapsto> x)"
      "\<And>b y. mem_array_m m1 b = Some y \<Longrightarrow> mem_array_m m' b = Some y"
    using readMemory_array [OF r] e(2) by auto
  have "mem_array_m m' (?a + of_nat w) = Some (get_word d' ((unat ?a + w) mod 8))" if w: "w < Suc k" for w
  proof (cases "w = k")
    case True
    then show ?thesis using new(1) e(1) get_set_word by simp
  next
    case False
    then have "w < k" using w by simp
    then have "(unat ?a + w) mod 8 \<noteq> (unat ?a + k) mod 8"
      using lane_inj [of "unat ?a" w k] False Suc.prems(2) by auto
    moreover have "mem_array_m m' (?a + of_nat w) = Some (get_word d1 ((unat ?a + w) mod 8))"
      using IH(2) new(2) \<open>w < k\<close> by blast
    ultimately show ?thesis using e(1) get_set_word by simp
  qed
  then show ?case using IH(1) new(2) by blast
qed simp

section \<open>Writing words\<close>

lemma write_words_append: "write_words req amo wa word (xs @ ys) m =
    Option.bind (write_words req amo wa word xs m) (write_words req amo wa word ys)"
  by (induction xs arbitrary: m) (auto split: bind_splits)

lemma writeMemory_array:
  assumes "m' = writeMemory a data (beToMask be) m"
  shows "\<And>b. b \<noteq> a \<Longrightarrow> mem_array_m m' b = mem_array_m m b"
    and "\<exists>x. mem_array_m m' a = Some x \<and> (\<forall>j < 8. bit be j \<longrightarrow> byte_of x j = byte_of data j)
      \<and> (\<forall>y. mem_array_m m a = Some y \<longrightarrow> (\<forall>j < 8. \<not> bit be j \<longrightarrow> byte_of x j = byte_of y j))"
  using assms
  by (auto simp: writeMemory_def fresh_value_def merge_bytes split: option.splits prod.splits mem_model_init_mode_e.splits)

lemma be_byte_pos: "bit (be_byte be i) j \<Longrightarrow> be_byte be i \<noteq> 0"
  by (intro notI) simp

lemma write_words_plain:
  assumes "word + k \<le> 8"
  shows "\<exists>m'. write_words req None wa word [0..<k] m = Some m'
    \<and> (\<forall>w < k. \<forall>j < 8. bit (be_byte (mw_be req) (word + w)) j \<longrightarrow>
        (\<exists>x. mem_array_m m' (wa + of_nat w) = Some x \<and> byte_of x j = byte_of (get_word (mw_data req) (word + w)) j))"
  using assms
proof (induction k)
  case (Suc k)
  then obtain m1 where m1: "write_words req None wa word [0..<k] m = Some m1"
    "\<forall>w < k. \<forall>j < 8. bit (be_byte (mw_be req) (word + w)) j \<longrightarrow>
        (\<exists>x. mem_array_m m1 (wa + of_nat w) = Some x \<and> byte_of x j = byte_of (get_word (mw_data req) (word + w)) j)"
    by auto
  let ?be = "be_byte (mw_be req) (word + k)"
  define m2 where "m2 = (if ?be = 0 then m1 else writeMemory (wa + of_nat k) (get_word (mw_data req) (word + k)) (beToMask ?be) m1)"
  have w: "write_words req None wa word [0..<Suc k] m = Some m2"
    using Suc.prems m1(1) by (simp add: write_words_append write_word_def Let_def MEM_WORDS m2_def)
  have other: "mem_array_m m2 (wa + of_nat w) = mem_array_m m1 (wa + of_nat w)" if "w < k" for w
    using writeMemory_array(1) [OF refl, of "wa + of_nat w" "wa + of_nat k"] offset_inj [of wa w k] that Suc.prems
    by (auto simp: m2_def)
  have new: "\<exists>x. mem_array_m m2 (wa + of_nat k) = Some x \<and> byte_of x j = byte_of (get_word (mw_data req) (word + k)) j"
    if "j < 8" "bit ?be j" for j
    using writeMemory_array(2) [OF refl, of "wa + of_nat k" "get_word (mw_data req) (word + k)" ?be m1] that be_byte_pos
    by (auto simp: m2_def)
  have "\<forall>w < Suc k. \<forall>j < 8. bit (be_byte (mw_be req) (word + w)) j \<longrightarrow>
        (\<exists>x. mem_array_m m2 (wa + of_nat w) = Some x \<and> byte_of x j = byte_of (get_word (mw_data req) (word + w)) j)"
    using m1(2) other new by (auto simp: less_Suc_eq)
  with w show ?case by blast
qed simp


section \<open>Operations\<close>

text \<open>Where a request lies: its first lane, its number of words, its end.\<close>

definition first_word :: "'a mem_req_scheme \<Rightarrow> nat" where
  "first_word req = unat (drop_bit 3 (mr_addr req) mod 8)"

definition word_count :: "'a mem_req_scheme \<Rightarrow> nat" where
  "word_count req = (if 2 ^ unat (mr_size req) div 8 = (0 :: nat) then 1 else 2 ^ unat (mr_size req) div 8)"

definition req_end :: "'a mem_req_scheme \<Rightarrow> u64" where
  "req_end req = mr_addr req + push_bit (unat (mr_size req)) 1"

text \<open>A request of at most 64 bytes that does not cross the data vector.\<close>

definition fits :: "'a mem_req_scheme \<Rightarrow> bool" where
  "fits req \<longleftrightarrow> unat (mr_size req) \<le> 6 \<and> first_word req + word_count req \<le> 8"

lemma size_cases:
  assumes "unat (n :: u32) \<le> 6"
  shows "(ucast (ucast (push_bit (unat n) (1 :: u64)) :: u32) :: u64) = push_bit (unat n) 1"
    and "unat ((ucast (push_bit (unat n) (1 :: u64)) :: u32) div 8) = 2 ^ unat n div 8"
    and "(ucast (push_bit (unat n) (1 :: u64)) :: u32) = 2 ^ unat n"
proof -
  have "unat n \<in> {0, 1, 2, 3, 4, 5, 6}" using assms by auto
  then show "(ucast (ucast (push_bit (unat n) (1 :: u64)) :: u32) :: u64) = push_bit (unat n) 1"
    "unat ((ucast (push_bit (unat n) (1 :: u64)) :: u32) div 8) = 2 ^ unat n div 8"
    "(ucast (push_bit (unat n) (1 :: u64)) :: u32) = 2 ^ unat n"
    by (elim insertE emptyE; simp)+
qed

lemma write_error:
  assumes "unat (mr_size req) \<le> 6" "within_error_region (errorsegs m) (mr_addr req) (req_end req)"
  shows "\<exists>rs. writeOperation req m = Some (rs, \<lparr>wr_is_atomic = False, wr_error = 1, wr_id = mr_id req\<rparr>, m)"
  using assms size_cases(1) [OF assms(1)] by (simp add: writeOperation_def Let_def req_end_def)

text \<open>A write that is no atomic operation.\<close>

lemma write_plain:
  assumes "unat (mr_size req) \<le> 6" "\<not> within_error_region (errorsegs m) (mr_addr req) (req_end req)"
    "mr_command req \<noteq> command_code HPDCACHE_MEM_ATOMIC \<or> mr_atomic req = atomic_code HPDCACHE_MEM_ATOMIC_STEX"
    "stex_check req (mr_addr req) (req_end req) m = Some (ok, m1)"
  shows "writeOperation req m =
    (if \<not> is_stex req \<or> ok
     then map_option (\<lambda>mem. ([], \<lparr>wr_is_atomic = is_stex req \<and> ok, wr_error = 0, wr_id = mr_id req\<rparr>, m1\<lparr>memory_m := mem\<rparr>))
       (write_words req None (drop_bit 3 (mr_addr req)) (first_word req) [0..<word_count req] (memory_m m1))
     else Some ([], \<lparr>wr_is_atomic = False, wr_error = 0, wr_id = mr_id req\<rparr>, m1))"
proof -
  have "\<not> (mr_command req = command_code HPDCACHE_MEM_ATOMIC \<and> mr_atomic req \<noteq> atomic_code HPDCACHE_MEM_ATOMIC_STEX)"
    using assms(3) by blast
  then show ?thesis
    using assms(1,2,4) size_cases(1,2) [OF assms(1)]
    by (auto simp: writeOperation_def Let_def req_end_def first_word_def word_count_def MEM_WORDS map_option_case
        split: option.splits)
qed

lemma read_plain:
  assumes "\<not> within_error_region (errorsegs m) (mr_addr (port_req p)) (req_end (port_req p))" "mr_len (port_req p) = 0"
    "fold (read_word (mr_addr (port_req p))) [0..<word_count (port_req p)] (0, memory_m m) = (d, mem)"
  shows "\<exists>m'. readOperation p m = (port_req p, [\<lparr>rr_error = 0, rr_id = mr_id (port_req p), rr_data = d, rr_last = True\<rparr>], m')
    \<and> memory_m m' = mem \<and> errorsegs m' = errorsegs m
    \<and> excl_buf_m m' = (if is_ldex (port_req p) then (excl_buf_m m)[unat (mr_id (port_req p)) :=
        \<lparr>eb_valid = True, eb_base = mr_addr (port_req p), eb_end = req_end (port_req p)\<rparr>] else excl_buf_m m)"
  using assms by (simp add: readOperation_def Let_def req_end_def word_count_def split: if_splits)

section \<open>Properties\<close>

text \<open>C7. What is written is read back: a plain write of at most 64 bytes inside one data vector, outside the error segments,
  succeeds, and a read of the same address and size then answers once, without error, with every enabled byte as
  it was written.\<close>

theorem mem_write_read:
  assumes "mr_command req = command_code HPDCACHE_MEM_WRITE" "fits req"
    and "\<not> within_error_region (errorsegs m) (mr_addr req) (req_end req)"
    and "mr_addr (port_req p) = mr_addr req" "mr_size (port_req p) = mr_size req" "mr_len (port_req p) = 0"
  shows "\<exists>m1 m2 d. writeOperation req m = Some ([], \<lparr>wr_is_atomic = False, wr_error = 0, wr_id = mr_id req\<rparr>, m1)
    \<and> readOperation p m1 = (port_req p, [\<lparr>rr_error = 0, rr_id = mr_id (port_req p), rr_data = d, rr_last = True\<rparr>], m2)
    \<and> (\<forall>w < word_count req. \<forall>j < 8. bit (be_byte (mw_be req) (first_word req + w)) j \<longrightarrow>
         byte_of (get_word d (first_word req + w)) j = byte_of (get_word (mw_data req) (first_word req + w)) j)"
proof -
  let ?a = "drop_bit 3 (mr_addr req) :: u64"
  have f: "unat (mr_size req) \<le> 6" "first_word req + word_count req \<le> 8" using assms(2) by (simp_all add: fits_def)
  have fw: "unat ?a mod 8 = first_word req" by (simp add: first_word_def unat_mod_distrib)
  have "\<not> is_stex req" "stex_check req (mr_addr req) (req_end req) m = Some (False, m)"
    using assms(1) by (simp_all add: is_stex_def stex_check_def)
  moreover obtain mem where mem: "write_words req None ?a (first_word req) [0..<word_count req] (memory_m m) = Some mem"
    "\<forall>w < word_count req. \<forall>j < 8. bit (be_byte (mw_be req) (first_word req + w)) j \<longrightarrow>
        (\<exists>x. mem_array_m mem (?a + of_nat w) = Some x \<and> byte_of x j = byte_of (get_word (mw_data req) (first_word req + w)) j)"
    using write_words_plain [OF f(2), of req ?a "memory_m m"] by blast
  ultimately have w: "writeOperation req m = Some ([], \<lparr>wr_is_atomic = False, wr_error = 0, wr_id = mr_id req\<rparr>, m\<lparr>memory_m := mem\<rparr>)"
    using write_plain [OF f(1) assms(3)] assms(1) by simp
  obtain d mem2 where r: "fold (read_word (mr_addr req)) [0..<word_count req] (0, mem) = (d, mem2)"
    by (cases "fold (read_word (mr_addr req)) [0..<word_count req] (0, mem)")
  have same: "word_count (port_req p) = word_count req" "req_end (port_req p) = req_end req"
    using assms(4,5) by (simp_all add: word_count_def req_end_def)
  obtain m2 where m2: "readOperation p (m\<lparr>memory_m := mem\<rparr>)
      = (port_req p, [\<lparr>rr_error = 0, rr_id = mr_id (port_req p), rr_data = d, rr_last = True\<rparr>], m2)"
    using read_plain [of "m\<lparr>memory_m := mem\<rparr>" p d mem2] assms(3-6) r same by auto
  have "byte_of (get_word d (first_word req + w)) j = byte_of (get_word (mw_data req) (first_word req + w)) j"
    if wj: "w < word_count req" "j < 8" "bit (be_byte (mw_be req) (first_word req + w)) j" for w j
  proof -
    obtain x where x: "mem_array_m mem (?a + of_nat w) = Some x"
      "byte_of x j = byte_of (get_word (mw_data req) (first_word req + w)) j"
      using mem(2) wj by blast
    have k: "word_count req \<le> 8" "first_word req + w < 8" using f(2) wj(1) by simp_all
    have "(unat ?a + w) mod 8 = (unat ?a mod 8 + w) mod 8" by (simp add: mod_simps)
    then have lane: "(unat ?a + w) mod 8 = first_word req + w" unfolding fw using k(2) by simp
    note rw = read_words [OF r k(1)]
    from spec [OF conjunct2 [OF rw], of w] wj(1) have "mem_array_m mem2 (?a + of_nat w) = Some (get_word d (first_word req + w))"
      unfolding lane by simp
    moreover from spec [OF spec [OF conjunct1 [OF rw], of "?a + of_nat w"], of x] x(1)
    have "mem_array_m mem2 (?a + of_nat w) = Some x" by simp
    ultimately show ?thesis using x(2) by simp
  qed
  with w m2 show ?thesis by blast
qed

definition sample_mem_resp :: mem_resp where
  "sample_mem_resp = add_error_segment \<lparr>base_addr = 0x1000, end_addr = 0x2000, seg_error = True\<rparr>
     (new_mem_resp (\<lambda>k. of_nat k) (replicate 16 \<lparr>eb_valid = False, eb_base = 0, eb_end = 0\<rparr>))"

definition sample_write :: mem_write_req where
  "sample_write = \<lparr>mr_addr = 0x3010, mr_len = 0, mr_size = 4, mr_id = 3, mr_command = 1, mr_atomic = 0, mr_cacheable = True,
     mw_data = push_bit 128 0x1122334455667788, mw_be = push_bit 16 0xff, mw_last = True\<rparr>"

definition sample_ports :: mem_ports where
  "sample_ports = \<lparr>p_addr = 0x3010, p_len = 0, p_size = 4, p_id = 3, p_command = 0, p_atomic = 0, p_cacheable = True\<rparr>"

lemma mem_write_read_witness:
  "\<exists>m1 m2 d. writeOperation sample_write sample_mem_resp = Some ([], \<lparr>wr_is_atomic = False, wr_error = 0, wr_id = mr_id sample_write\<rparr>, m1)
    \<and> readOperation sample_ports m1
        = (port_req sample_ports, [\<lparr>rr_error = 0, rr_id = mr_id (port_req sample_ports), rr_data = d, rr_last = True\<rparr>], m2)
    \<and> (\<forall>w < word_count sample_write. \<forall>j < 8. bit (be_byte (mw_be sample_write) (first_word sample_write + w)) j \<longrightarrow>
         byte_of (get_word d (first_word sample_write + w)) j = byte_of (get_word (mw_data sample_write) (first_word sample_write + w)) j)"
  by (rule mem_write_read)
    (simp_all add: sample_write_def sample_ports_def sample_mem_resp_def new_mem_resp_def add_error_segment_def port_req_def
      fits_def first_word_def word_count_def req_end_def within_region_def)


text \<open>C18. Exclusive accesses: a load-exclusive outside the error segments reserves its bytes for its identifier; a
  store-exclusive is acknowledged as atomic, and written, exactly when its identifier holds a reservation that
  overlaps it, and uses the reservation up; otherwise the memory stays as it is.\<close>

theorem exclusive_accesses:
  assumes "fits req" "is_stex req" "\<not> within_error_region (errorsegs m) (mr_addr req) (req_end req)"
    and "unat (mr_id req) < length (excl_buf_m m)" "e = excl_buf_m m ! unat (mr_id req)"
  shows "(\<exists>ok m'. writeOperation req m = Some ([], \<lparr>wr_is_atomic = ok, wr_error = 0, wr_id = mr_id req\<rparr>, m')
      \<and> (ok \<longleftrightarrow> eb_valid e \<and> within_region (mr_addr req) (req_end req) (eb_base e) (eb_end e))
      \<and> \<not> eb_valid (excl_buf_m m' ! unat (mr_id req)) \<and> (\<not> ok \<longrightarrow> memory_m m' = memory_m m)
      \<and> (ok \<longrightarrow> (\<forall>w < word_count req. \<forall>j < 8. bit (be_byte (mw_be req) (first_word req + w)) j \<longrightarrow>
           (\<exists>x. mem_array_m (memory_m m') (drop_bit 3 (mr_addr req) + of_nat w) = Some x
              \<and> byte_of x j = byte_of (get_word (mw_data req) (first_word req + w)) j))))
    \<and> (\<forall>p. is_ldex (port_req p) \<and> mr_len (port_req p) = 0 \<and> unat (mr_id (port_req p)) < length (excl_buf_m m)
        \<and> \<not> within_error_region (errorsegs m) (mr_addr (port_req p)) (req_end (port_req p))
      \<longrightarrow> excl_buf_m (snd (snd (readOperation p m))) ! unat (mr_id (port_req p))
        = \<lparr>eb_valid = True, eb_base = mr_addr (port_req p), eb_end = req_end (port_req p)\<rparr>)"
proof -
  have f: "unat (mr_size req) \<le> 6" "first_word req + word_count req \<le> 8" using assms(1) by (simp_all add: fits_def)
  let ?a = "drop_bit 3 (mr_addr req) :: u64"
  define ok where "ok \<longleftrightarrow> eb_valid e \<and> within_region (mr_addr req) (req_end req) (eb_base e) (eb_end e)"
  define m1 where "m1 = (if eb_valid e then m\<lparr>excl_buf_m := (excl_buf_m m)[unat (mr_id req) := e\<lparr>eb_valid := False\<rparr>]\<rparr> else m)"
  have st: "stex_check req (mr_addr req) (req_end req) m = Some (ok, m1)"
    using assms(2,4,5) by (auto simp: stex_check_def Let_def ok_def m1_def)
  have at: "mr_atomic req = atomic_code HPDCACHE_MEM_ATOMIC_STEX" using assms(2) by (simp add: is_stex_def)
  have inval: "\<not> eb_valid (excl_buf_m m1 ! unat (mr_id req))" "memory_m m1 = memory_m m"
    using assms(4,5) by (simp_all add: m1_def)
  obtain mem where mem: "write_words req None ?a (first_word req) [0..<word_count req] (memory_m m1) = Some mem"
    "\<forall>w < word_count req. \<forall>j < 8. bit (be_byte (mw_be req) (first_word req + w)) j \<longrightarrow>
        (\<exists>x. mem_array_m mem (?a + of_nat w) = Some x \<and> byte_of x j = byte_of (get_word (mw_data req) (first_word req + w)) j)"
    using write_words_plain [OF f(2), of req ?a "memory_m m1"] by blast
  have w: "writeOperation req m = Some ([], \<lparr>wr_is_atomic = ok, wr_error = 0, wr_id = mr_id req\<rparr>,
      if ok then m1\<lparr>memory_m := mem\<rparr> else m1)"
    using write_plain [OF f(1) assms(3) disjI2 [OF at] st] mem(1) assms(2) by simp
  have store: "\<exists>ok m'. writeOperation req m = Some ([], \<lparr>wr_is_atomic = ok, wr_error = 0, wr_id = mr_id req\<rparr>, m')
      \<and> (ok \<longleftrightarrow> eb_valid e \<and> within_region (mr_addr req) (req_end req) (eb_base e) (eb_end e))
      \<and> \<not> eb_valid (excl_buf_m m' ! unat (mr_id req)) \<and> (\<not> ok \<longrightarrow> memory_m m' = memory_m m)
      \<and> (ok \<longrightarrow> (\<forall>w < word_count req. \<forall>j < 8. bit (be_byte (mw_be req) (first_word req + w)) j \<longrightarrow>
           (\<exists>x. mem_array_m (memory_m m') (drop_bit 3 (mr_addr req) + of_nat w) = Some x
              \<and> byte_of x j = byte_of (get_word (mw_data req) (first_word req + w)) j)))"
    by (intro exI [of _ ok] exI [of _ "if ok then m1\<lparr>memory_m := mem\<rparr> else m1"] conjI w)
      (use inval mem(2) in \<open>simp_all add: ok_def\<close>)
  have load: "excl_buf_m (snd (snd (readOperation p m))) ! unat (mr_id (port_req p))
        = \<lparr>eb_valid = True, eb_base = mr_addr (port_req p), eb_end = req_end (port_req p)\<rparr>"
    if p: "is_ldex (port_req p)" "mr_len (port_req p) = 0" "unat (mr_id (port_req p)) < length (excl_buf_m m)"
      "\<not> within_error_region (errorsegs m) (mr_addr (port_req p)) (req_end (port_req p))" for p
  proof -
    obtain d mem where "fold (read_word (mr_addr (port_req p))) [0..<word_count (port_req p)] (0, memory_m m) = (d, mem)"
      by (cases "fold (read_word (mr_addr (port_req p))) [0..<word_count (port_req p)] (0, memory_m m)")
    from read_plain [OF p(4,2) this] p(1,3) show ?thesis by auto
  qed
  show ?thesis by (intro conjI [OF store] allI impI) (elim conjE, rule load)
qed

lemma exclusive_accesses_witness:
  "excl_buf_m (snd (snd (readOperation (sample_ports\<lparr>p_command := 2, p_atomic := 12\<rparr>) sample_mem_resp))) ! 3
    = \<lparr>eb_valid = True, eb_base = 0x3010, eb_end = 0x3020\<rparr>"
proof -
  let ?req = "sample_write\<lparr>mr_command := 2, mr_atomic := 13\<rparr>" and ?p = "sample_ports\<lparr>p_command := 2, p_atomic := 12\<rparr>"
  note defs = sample_write_def sample_ports_def sample_mem_resp_def new_mem_resp_def add_error_segment_def port_req_def
    fits_def first_word_def word_count_def req_end_def within_region_def is_stex_def is_ldex_def config
  have "fits ?req" "is_stex ?req" "\<not> within_error_region (errorsegs sample_mem_resp) (mr_addr ?req) (req_end ?req)"
    "unat (mr_id ?req) < length (excl_buf_m sample_mem_resp)" by (simp_all add: defs)
  note exclusive_accesses [OF this refl, THEN conjunct2, rule_format, of ?p]
  then show ?thesis by (simp add: defs)
qed

section \<open>Atomic operations on the memory\<close>

text \<open>The operation the cache sends for an operation of the core; for a bitwise and it sends the complement of the operand.\<close>

fun mem_atomic_of :: "hpdcache_req_op_e \<Rightarrow> hpdcache_mem_atomic_e option" where
  "mem_atomic_of HPDCACHE_REQ_AMO_SWAP = Some HPDCACHE_MEM_ATOMIC_SWAP"
| "mem_atomic_of HPDCACHE_REQ_AMO_ADD = Some HPDCACHE_MEM_ATOMIC_ADD"
| "mem_atomic_of HPDCACHE_REQ_AMO_AND = Some HPDCACHE_MEM_ATOMIC_CLR"
| "mem_atomic_of HPDCACHE_REQ_AMO_OR = Some HPDCACHE_MEM_ATOMIC_SET"
| "mem_atomic_of HPDCACHE_REQ_AMO_XOR = Some HPDCACHE_MEM_ATOMIC_EOR"
| "mem_atomic_of HPDCACHE_REQ_AMO_MAX = Some HPDCACHE_MEM_ATOMIC_SMAX"
| "mem_atomic_of HPDCACHE_REQ_AMO_MAXU = Some HPDCACHE_MEM_ATOMIC_UMAX"
| "mem_atomic_of HPDCACHE_REQ_AMO_MIN = Some HPDCACHE_MEM_ATOMIC_SMIN"
| "mem_atomic_of HPDCACHE_REQ_AMO_MINU = Some HPDCACHE_MEM_ATOMIC_UMIN"
| "mem_atomic_of _ = None"

definition operand_of :: "hpdcache_req_op_e \<Rightarrow> 'a::len word \<Rightarrow> 'a word" where
  "operand_of op b = (if op = HPDCACHE_REQ_AMO_AND then NOT b else b)"

lemma mem_compute_amo_64:
  assumes "mem_atomic_of op = Some at"
  shows "mem_compute_amo (atomic_code at) a (operand_of op b) 8 = amo_spec op a b" "amo_spec op a b \<noteq> None"
  using assms by (cases op; auto simp: mem_compute_amo_def operand_of_def signed_max_def Let_def max_def min_def)+

lemma mem_atomic_spec32: "mem_atomic_of op = Some at \<Longrightarrow> amo_spec op (x :: u32) y \<noteq> None"
  by (cases op) auto

lemma mem_compute_amo_32:
  assumes "mem_atomic_of op = Some at"
  shows "map_option ucast (mem_compute_amo (atomic_code at) (ucast x) (ucast (operand_of op y)) 4) = amo_spec op x (y :: u32)"
proof -
  have clr: "(ucast ((ucast x :: u64) AND NOT (ucast (NOT y))) :: u32) = x AND y"
    by (rule bit_word_eqI) (auto simp: bit_simps)
  have "map_option ucast (mem_compute_amo (atomic_code at) (ucast x) (ucast y) 4) = amo_spec op x y"
    if "op \<noteq> HPDCACHE_REQ_AMO_AND"
    unfolding compute_amo_32 [symmetric] using assms that
    by (cases op) (auto simp: mem_compute_amo_def compute_amo_def Let_def)
  then show ?thesis using assms by (cases "op = HPDCACHE_REQ_AMO_AND") (auto simp: operand_of_def mem_compute_amo_def clr)
qed


text \<open>The 32-bit lane of a word that starts at bit \<open>off\<close>.\<close>

definition lane32 :: "u64 \<Rightarrow> nat \<Rightarrow> u32" where
  "lane32 x off = ucast (drop_bit off x)"

lemma lane32_bytes: "off \<in> {0, 32} \<Longrightarrow> (\<And>j. j < 4 \<Longrightarrow> byte_of x (off div 8 + j) = byte_of y j) \<Longrightarrow> lane32 x off = ucast y"
proof (rule bit_word_eqI)
  fix n assume a: "off \<in> {0, 32}" "\<And>j. j < 4 \<Longrightarrow> byte_of x (off div 8 + j) = byte_of y j" and n: "n < LENGTH(32)"
  have j: "n div 8 < 4" "n mod 8 < 8" "8 * (n div 8) + n mod 8 = n" using n by simp_all
  have "bit (byte_of x (off div 8 + n div 8)) (n mod 8) = bit (byte_of y (n div 8)) (n mod 8)" using a(2) [OF j(1)] by simp
  then have "bit x (8 * (off div 8 + n div 8) + n mod 8) = bit y n" using j unfolding bit_byte_of by simp
  moreover have "8 * (off div 8 + n div 8) + n mod 8 = off + n" using a(1) j(3) by (auto simp: algebra_simps)
  ultimately show "bit (lane32 x off) n = bit (ucast y :: u32) n" using n a(1) by (auto simp: lane32_def bit_simps add.commute)
qed

lemma byte_of_shift: "off \<in> {0, 32} \<Longrightarrow> j < 4 \<Longrightarrow> byte_of (push_bit off y) (off div 8 + j) = byte_of y j"
  by (rule bit_word_eqI) (auto simp: bit_byte_of bit_simps)

text \<open>The general shape of an atomic operation on a word that is in memory.\<close>

lemma write_amo:
  assumes "mr_command req = command_code HPDCACHE_MEM_ATOMIC" "mem_atomic_of op = Some at" "mr_atomic req = atomic_code at"
    and "unat (mr_size req) \<in> {2, 3}" "\<not> within_error_region (errorsegs m) (mr_addr req) (req_end req)"
    and "mem_array_m (memory_m m) (drop_bit 3 (mr_addr req)) = Some old"
    and "bytes = (2 :: u32) ^ unat (mr_size req)" "off = unat (mr_addr req mod 8) * 8"
    and "\<And>x. tr x = (if bytes = 4 then ucast (ucast (drop_bit off x) :: u32) else x :: u64)"
    and "mem_compute_amo (atomic_code at) (tr old) (tr (get_word (mw_data req) (first_word req))) bytes = Some res"
    and "be_byte (mw_be req) (first_word req) \<noteq> 0"
  shows "\<exists>m'. writeOperation req m =
      Some ([\<lparr>rr_error = 0, rr_id = mr_id req, rr_data = set_word 0 (first_word req) (push_bit off (tr old)), rr_last = True\<rparr>],
        \<lparr>wr_is_atomic = False, wr_error = 0, wr_id = mr_id req\<rparr>, m')
    \<and> memory_m m' = writeMemory (drop_bit 3 (mr_addr req)) (push_bit off res) (beToMask (be_byte (mw_be req) (first_word req))) (memory_m m)"
proof -
  have sz: "unat (mr_size req) \<le> 6" using assms(4) by auto
  have ne: "at \<noteq> HPDCACHE_MEM_ATOMIC_STEX" using assms(2) by (cases op) auto
  then have at: "mr_atomic req \<noteq> atomic_code HPDCACHE_MEM_ATOMIC_STEX" using assms(3) by (cases at) auto
  then have st: "\<not> is_stex req" "stex_check req (mr_addr req) (req_end req) m = Some (False, m)"
    by (simp_all add: is_stex_def stex_check_def)
  have one: "2 ^ unat (mr_size req) div 8 \<in> {0, 1 :: nat}" using assms(4) by auto
  have fw: "first_word req < 8" using unat_mod_8 [of "drop_bit 3 (mr_addr req)"] by (simp add: first_word_def)
  have rd: "readMemory (drop_bit 3 (mr_addr req)) (memory_m m) = (old, memory_m m)" using assms(6) by (simp add: readMemory_def)
  have amo: "amo_words req bytes (memory_m m) = Some (push_bit off (tr old), push_bit off res, memory_m m)"
    using assms(3,10) unfolding amo_words_def Let_def MEM_WORDS rd assms(8,9) by (auto simp: first_word_def)
  have w: "write_words req (Some (push_bit off res)) (drop_bit 3 (mr_addr req)) (first_word req) [0] (memory_m m)
      = Some (writeMemory (drop_bit 3 (mr_addr req)) (push_bit off res) (beToMask (be_byte (mw_be req) (first_word req))) (memory_m m))"
    using fw assms(11) by (simp add: write_word_def Let_def MEM_WORDS)
  have "writeOperation req m = Some ([\<lparr>rr_error = 0, rr_id = mr_id req, rr_data = set_word 0 (first_word req) (push_bit off (tr old)), rr_last = True\<rparr>],
        \<lparr>wr_is_atomic = False, wr_error = 0, wr_id = mr_id req\<rparr>,
        m\<lparr>memory_m := writeMemory (drop_bit 3 (mr_addr req)) (push_bit off res) (beToMask (be_byte (mw_be req) (first_word req))) (memory_m m)\<rparr>)"
    using assms(1,5) at st amo w size_cases [OF sz] one
    by (auto simp: writeOperation_def Let_def req_end_def MEM_WORDS first_word_def [symmetric] assms(7))
  then show ?thesis by auto
qed


lemma be_full: "bit (0xff :: u8) j \<longleftrightarrow> j < 8"
proof -
  have m: "(0xff :: u8) = mask 8" by code_simp
  show ?thesis unfolding m by (auto simp: bit_simps)
qed

lemma be_half: "bit (push_bit k 0xf :: u8) j \<longleftrightarrow> k \<le> j \<and> j < k + 4 \<and> j < 8"
proof -
  have m: "(0xf :: u8) = mask 4" by code_simp
  show ?thesis unfolding m by (auto simp: bit_simps)
qed

text \<open>C23. An atomic operation on a word in memory answers with the old value in its lane and leaves there what the instruction
  set asks for: on a doubleword the 64-bit result, on a word the 32-bit result in its half, the other half untouched.\<close>

theorem amo_on_memory:
  assumes "mr_command req = command_code HPDCACHE_MEM_ATOMIC" "mem_atomic_of op = Some at" "mr_atomic req = atomic_code at"
    and "\<not> within_error_region (errorsegs m) (mr_addr req) (req_end req)"
    and "mem_array_m (memory_m m) (drop_bit 3 (mr_addr req)) = Some old"
  shows "(mr_size req = 3 \<and> mr_addr req mod 8 = 0 \<and> be_byte (mw_be req) (first_word req) = 0xff
      \<and> get_word (mw_data req) (first_word req) = operand_of op b
      \<longrightarrow> (\<exists>m' new. writeOperation req m =
            Some ([\<lparr>rr_error = 0, rr_id = mr_id req, rr_data = set_word 0 (first_word req) old, rr_last = True\<rparr>],
              \<lparr>wr_is_atomic = False, wr_error = 0, wr_id = mr_id req\<rparr>, m')
          \<and> amo_spec op old b = Some new \<and> mem_array_m (memory_m m') (drop_bit 3 (mr_addr req)) = Some new))
    \<and> (mr_size req = 2 \<and> off = unat (mr_addr req mod 8) * 8 \<and> off \<in> {0, 32}
      \<and> be_byte (mw_be req) (first_word req) = push_bit (off div 8) 0xf
      \<and> lane32 (get_word (mw_data req) (first_word req)) off = operand_of op c
      \<longrightarrow> (\<exists>m' new r. writeOperation req m = Some ([r], \<lparr>wr_is_atomic = False, wr_error = 0, wr_id = mr_id req\<rparr>, m')
          \<and> lane32 (get_word (rr_data r) (first_word req)) off = lane32 old off
          \<and> amo_spec op (lane32 old off) c = Some (lane32 new off)
          \<and> mem_array_m (memory_m m') (drop_bit 3 (mr_addr req)) = Some new
          \<and> (\<forall>j < 8. \<not> (off div 8 \<le> j \<and> j < off div 8 + 4) \<longrightarrow> byte_of new j = byte_of old j)))"
    (is "(?double \<longrightarrow> ?D) \<and> (?single \<longrightarrow> ?S)")
proof -
  have fw: "first_word req < 8" using unat_mod_8 [of "drop_bit 3 (mr_addr req)"] by (simp add: first_word_def)
  have stored: "\<exists>x. mem_array_m (writeMemory (drop_bit 3 (mr_addr req)) data (beToMask be) (memory_m m)) (drop_bit 3 (mr_addr req)) = Some x
      \<and> (\<forall>j < 8. byte_of x j = (if bit be j then byte_of data j else byte_of old j))" for data be
    using writeMemory_array(2) [OF refl, of "drop_bit 3 (mr_addr req)" data be "memory_m m"] assms(5) by auto
  have double: ?D if
    a: "mr_size req = 3" "mr_addr req mod 8 = 0" "be_byte (mw_be req) (first_word req) = 0xff"
      "get_word (mw_data req) (first_word req) = operand_of op b"
  proof -
    obtain new where new: "mem_compute_amo (atomic_code at) old (operand_of op b) 8 = Some new" "amo_spec op old b = Some new"
      using mem_compute_amo_64 [OF assms(2), of old b] by auto
    obtain m' where m': "writeOperation req m =
        Some ([\<lparr>rr_error = 0, rr_id = mr_id req, rr_data = set_word 0 (first_word req) old, rr_last = True\<rparr>],
          \<lparr>wr_is_atomic = False, wr_error = 0, wr_id = mr_id req\<rparr>, m')"
      "memory_m m' = writeMemory (drop_bit 3 (mr_addr req)) new (beToMask 0xff) (memory_m m)"
      using write_amo [OF assms(1-3) _ assms(4,5), of 8 0 "\<lambda>x. x" new] a new(1) by auto
    obtain x where x: "mem_array_m (memory_m m') (drop_bit 3 (mr_addr req)) = Some x"
        "\<forall>j < 8. byte_of x j = (if bit (0xff :: u8) j then byte_of new j else byte_of old j)"
      using stored [of new "0xff"] m'(2) by auto
    have "\<forall>j < 8. byte_of x j = byte_of new j" using x(2) unfolding be_full by simp
    then have "x = new" by (intro word_bytes_eqI) simp
    with m'(1) new(2) x(1) show ?thesis by blast
  qed
  have single: ?S if
    a: "mr_size req = 2" "off = unat (mr_addr req mod 8) * 8" "off \<in> {0, 32}"
      "be_byte (mw_be req) (first_word req) = push_bit (off div 8) 0xf"
      "lane32 (get_word (mw_data req) (first_word req)) off = operand_of op c"
  proof -
    obtain res where res: "mem_compute_amo (atomic_code at) (ucast (lane32 old off)) (ucast (operand_of op c)) 4 = Some res"
        "amo_spec op (lane32 old off) c = Some (ucast res)"
      using mem_compute_amo_32 [OF assms(2), of "lane32 old off" c] mem_atomic_spec32 [OF assms(2), of "lane32 old off" c] by auto
    have "bit (be_byte (mw_be req) (first_word req)) (off div 8)" unfolding a(4) be_half using a(3) by auto
    then have nz: "be_byte (mw_be req) (first_word req) \<noteq> 0" by (rule be_byte_pos)
    obtain m' where m': "writeOperation req m =
        Some ([\<lparr>rr_error = 0, rr_id = mr_id req, rr_data = set_word 0 (first_word req) (push_bit off (ucast (lane32 old off))),
            rr_last = True\<rparr>], \<lparr>wr_is_atomic = False, wr_error = 0, wr_id = mr_id req\<rparr>, m')"
      "memory_m m' = writeMemory (drop_bit 3 (mr_addr req)) (push_bit off res) (beToMask (push_bit (off div 8) 0xf)) (memory_m m)"
      using write_amo [OF assms(1-3) _ assms(4,5), of 4 off "\<lambda>x. ucast (lane32 x off)" res] a(1,2,4,5) res(1) nz
      by (auto simp: lane32_def [symmetric])
    obtain x where x: "mem_array_m (memory_m m') (drop_bit 3 (mr_addr req)) = Some x"
        "\<forall>j < 8. byte_of x j = (if bit (push_bit (off div 8) 0xf :: u8) j then byte_of (push_bit off res) j else byte_of old j)"
      using stored [of "push_bit off res" "push_bit (off div 8) 0xf"] m'(2) by auto
    have "lane32 x off = ucast res"
    proof (rule lane32_bytes [OF a(3)])
      fix j :: nat assume j: "j < 4"
      then have "off div 8 + j < 8" using a(3) by auto
      then show "byte_of x (off div 8 + j) = byte_of res j"
        using x(2) byte_of_shift [OF a(3) j] j unfolding be_half by simp
    qed
    moreover have "lane32 (push_bit off (ucast (lane32 old off))) off = lane32 old off"
      by (rule bit_word_eqI) (use a(3) in \<open>auto simp: lane32_def bit_simps\<close>)
    ultimately show ?thesis
      using m'(1) res(2) x fw by (auto simp: get_set_word be_half)
  qed
  show ?thesis
  proof (rule conjI; rule impI)
    show ?D if ?double using double that by (elim conjE)
    show ?S if ?single using single that by (elim conjE)
  qed
qed

lemma amo_on_memory_witness:
  "\<exists>m' new r. writeOperation (sample_write\<lparr>mr_addr := 0x3014, mr_size := 2, mr_command := 2, mr_atomic := 0,
        mw_data := push_bit 160 5, mw_be := push_bit 20 0xf\<rparr>)
      (sample_mem_resp\<lparr>memory_m := writeMemory 0x602 0x700000009 (beToMask 0xff) (memory_m sample_mem_resp)\<rparr>)
        = Some ([r], \<lparr>wr_is_atomic = False, wr_error = 0, wr_id = 3\<rparr>, m')
    \<and> amo_spec HPDCACHE_REQ_AMO_ADD (lane32 0x700000009 32) 5 = Some (lane32 new 32)
    \<and> mem_array_m (memory_m m') 0x602 = Some new \<and> lane32 new 32 = 12"
proof -
  let ?req = "sample_write\<lparr>mr_addr := 0x3014, mr_size := 2, mr_command := 2, mr_atomic := 0,
        mw_data := push_bit 160 5, mw_be := push_bit 20 0xf\<rparr>"
  let ?m = "sample_mem_resp\<lparr>memory_m := writeMemory 0x602 0x700000009 (beToMask 0xff) (memory_m sample_mem_resp)\<rparr>"
  have arr: "mem_array_m (memory_m ?m) (drop_bit 3 (mr_addr ?req)) = Some 0x700000009" by code_simp
  have e: "\<not> within_error_region (errorsegs ?m) (mr_addr ?req) (req_end ?req)"
    by (simp add: sample_write_def sample_mem_resp_def new_mem_resp_def add_error_segment_def req_end_def within_region_def)
  have c: "mr_command ?req = command_code HPDCACHE_MEM_ATOMIC" "mem_atomic_of HPDCACHE_REQ_AMO_ADD = Some HPDCACHE_MEM_ATOMIC_ADD"
    "mr_atomic ?req = atomic_code HPDCACHE_MEM_ATOMIC_ADD" by simp_all
  have o: "mr_size ?req = 2" "32 = unat (mr_addr ?req mod 8) * 8" "32 \<in> {0, 32 :: nat}"
    "be_byte (mw_be ?req) (first_word ?req) = push_bit (32 div 8) 0xf"
    "lane32 (get_word (mw_data ?req) (first_word ?req)) 32 = operand_of HPDCACHE_REQ_AMO_ADD 5"
    by (simp_all add: sample_write_def be_byte_def first_word_def lane32_def get_word_def operand_of_def)
  have "mr_id ?req = 3" "drop_bit 3 (mr_addr ?req) = 0x602" by (simp_all add: sample_write_def)
  moreover have "lane32 0x700000009 32 = 7" by code_simp
  moreover have "mr_size ?req = 2 \<and> 32 = unat (mr_addr ?req mod 8) * 8 \<and> 32 \<in> {0, 32 :: nat}
      \<and> be_byte (mw_be ?req) (first_word ?req) = push_bit (32 div 8) 0xf
      \<and> lane32 (get_word (mw_data ?req) (first_word ?req)) 32 = operand_of HPDCACHE_REQ_AMO_ADD 5"
    using o by (intro conjI)
  note amo_on_memory [OF c e arr, THEN conjunct2, rule_format, OF this]
  ultimately show ?thesis by (auto simp: ac_simps)
qed

end
