(* ===== verification/Hpd_Generators.thy ===== *)
theory Hpd_Generators
  imports Hpd_Sequence Hpd_Mem_Resp
begin

text \<open>
  The sequences that make up requests (\<open>sequence_lib\<close>: \<open>hpdcache_test_random_seq.h\<close>, \<open>hpdcache_test_unique_set_seq.h\<close>,
  \<open>hpdcache_test_read_seq.h\<close>, \<open>hpdcache_test_write_seq.h\<close>).  The values drawn from the SystemC verification library are
  the record \<open>draws\<close>; what its distributions and \<open>keep_only\<close> allow is the predicate \<open>allowed\<close>.  A request goes into an
  object of the pool, whose other fields keep what they held.  \<open>None\<close> is a draw outside its range.
\<close>

section \<open>Segments and distributions\<close>

text \<open>\<open>amo\<close> is the macro \<open>HPDCACHE_TEST_SEQUENCE_AMO_SUPPORT\<close>.\<close>

definition a_segment :: "u64 \<Rightarrow> u64 \<Rightarrow> bool \<Rightarrow> bool \<Rightarrow> wr_policy_e \<Rightarrow> memory_segment" where
  "a_segment b len uncached amo hint =
     (set_length len (set_base b new_memory_segment))\<lparr>seg_uncached := uncached, seg_amo_supported := amo, seg_wr_policy_hint := hint\<rparr>"

definition random_segs :: "bool \<Rightarrow> memory_segment list" where
  "random_segs amo =
     [a_segment 0x00000000 0x00004000 False amo WR_POLICY_RANDOM, a_segment 0x40004000 0x00004000 False amo WR_POLICY_WB,
      a_segment 0x80008000 0x00004000 False amo WR_POLICY_WT, a_segment 0xC000C000 0x00004000 True amo WR_POLICY_AUTO]"

text \<open>The third call for segment 2 names segment 3, so segment 2 keeps the value of the constructor.\<close>

definition unique_set_segs :: "memory_segment list" where
  "unique_set_segs =
     [a_segment 0x00000000 0x00004000 False True WR_POLICY_RANDOM, a_segment 0x40004000 0x00004000 False True WR_POLICY_WB,
      a_segment 0x80008000 0x00004000 False False WR_POLICY_AUTO, a_segment 0xC000C000 0x00004000 False True WR_POLICY_AUTO]"

definition read_seg :: memory_segment where
  "read_seg = a_segment 0x00000000 0x00080000 False False WR_POLICY_AUTO"

definition write_seg :: memory_segment where
  "write_seg = a_segment 0x00000000 0x00004000 False False WR_POLICY_AUTO"

definition random_seg_distribution :: "(nat \<times> nat) list" where
  "random_seg_distribution = [(0, 33), (1, 33), (2, 33), (3, 1)]"

definition unique_set_seg_distribution :: "(nat \<times> nat) list" where
  "unique_set_seg_distribution = [(0, 100 div 4), (1, 100 div 4), (2, 100 div 4), (3, 100 div 4)]"

definition wr_policy_distribution :: "(hpdcache_wr_policy_hint_e \<times> nat) list" where
  "wr_policy_distribution = [(HPDCACHE_WR_POLICY_AUTO, 80), (HPDCACHE_WR_POLICY_WB, 10), (HPDCACHE_WR_POLICY_WT, 10)]"

definition op_distribution :: "(hpdcache_req_op_e \<times> nat) list" where
  "op_distribution =
     [(HPDCACHE_REQ_LOAD, 400), (HPDCACHE_REQ_STORE, 350), (HPDCACHE_REQ_CMO_FENCE, 10), (HPDCACHE_REQ_CMO_PREFETCH, 10),
      (HPDCACHE_REQ_CMO_FLUSH_NLINE, 10), (HPDCACHE_REQ_CMO_FLUSH_ALL, 1), (HPDCACHE_REQ_CMO_FLUSH_INVAL_NLINE, 10),
      (HPDCACHE_REQ_CMO_FLUSH_INVAL_ALL, 1)]"

definition amo_distribution :: "nat \<Rightarrow> nat \<Rightarrow> (hpdcache_req_op_e \<times> nat) list" where
  "amo_distribution loads stores =
     [(HPDCACHE_REQ_LOAD, loads), (HPDCACHE_REQ_STORE, stores), (HPDCACHE_REQ_CMO_FENCE, 10), (HPDCACHE_REQ_CMO_PREFETCH, 10),
      (HPDCACHE_REQ_CMO_FLUSH_NLINE, 10), (HPDCACHE_REQ_CMO_FLUSH_ALL, 1), (HPDCACHE_REQ_CMO_FLUSH_INVAL_NLINE, 10),
      (HPDCACHE_REQ_CMO_FLUSH_INVAL_ALL, 1), (HPDCACHE_REQ_AMO_LR, 4), (HPDCACHE_REQ_AMO_SC, 4), (HPDCACHE_REQ_AMO_SWAP, 4),
      (HPDCACHE_REQ_AMO_ADD, 4), (HPDCACHE_REQ_AMO_AND, 4), (HPDCACHE_REQ_AMO_OR, 4), (HPDCACHE_REQ_AMO_XOR, 4),
      (HPDCACHE_REQ_AMO_MAX, 4), (HPDCACHE_REQ_AMO_MAXU, 4), (HPDCACHE_REQ_AMO_MIN, 4), (HPDCACHE_REQ_AMO_MINU, 4)]"

definition random_op_amo_distribution :: "(hpdcache_req_op_e \<times> nat) list" where
  "random_op_amo_distribution = amo_distribution 800 600"

definition unique_set_op_amo_distribution :: "(hpdcache_req_op_e \<times> nat) list" where
  "unique_set_op_amo_distribution = amo_distribution 400 350"

section \<open>Draws\<close>

record draws =
  d_seg :: nat
  d_addr :: u64
  d_op :: hpdcache_req_op_e
  d_op_amo :: hpdcache_req_op_e
  d_data :: u64
  d_wr_policy :: hpdcache_wr_policy_hint_e
  d_size :: u32
  d_need_rsp :: bool
  d_fault_inj :: bool
  d_fault_way :: u32
  d_fault_domain :: domain_e
  d_fault_double :: bool

definition REQ_DATA_BYTES :: u32 where
  "REQ_DATA_BYTES = of_nat (HPDCACHE_REQ_DATA_WIDTH div 8)"

definition LOG2_REQ_DATA_BYTES :: nat where
  "LOG2_REQ_DATA_BYTES = HPDCACHE_TEST_DEFS_LOG2 (unat REQ_DATA_BYTES)"

text \<open>A value with a weight that is not 0.\<close>

definition drawn_from :: "'a \<Rightarrow> ('a \<times> nat) list \<Rightarrow> bool" where
  "drawn_from x bag \<longleftrightarrow> list_ex (\<lambda>(y, w). y = x \<and> 0 < w) bag"

definition create_random_size :: "bool \<Rightarrow> u32 \<Rightarrow> u32 option" where
  "create_random_size atomic ret =
     (if unat ret \<le> LOG2_REQ_DATA_BYTES then Some (if atomic then if ret \<ge> 3 then 3 else 2 else ret) else None)"

text \<open>The read and the write sequence set the range of the draw before each draw.\<close>

definition narrow_random_size :: "bool \<Rightarrow> u32 \<Rightarrow> u32 option" where
  "narrow_random_size atomic sz =
     (if \<not> atomic then if sz \<le> 3 then Some sz else None else if 2 \<le> sz \<and> sz \<le> 3 then Some sz else None)"

fun select_random_wr_policy :: "wr_policy_e \<Rightarrow> hpdcache_wr_policy_hint_e \<Rightarrow> hpdcache_wr_policy_hint_e" where
  "select_random_wr_policy WR_POLICY_RANDOM draw = draw"
| "select_random_wr_policy WR_POLICY_WB draw = HPDCACHE_WR_POLICY_WB"
| "select_random_wr_policy WR_POLICY_WT draw = HPDCACHE_WR_POLICY_WT"
| "select_random_wr_policy WR_POLICY_AUTO draw = HPDCACHE_WR_POLICY_AUTO"

text \<open>\<open>((1UL << bytes) - 1) << offset\<close> in a vector of 8 bits.\<close>

definition byte_enables :: "u32 \<Rightarrow> u32 \<Rightarrow> u8" where
  "byte_enables bytes offset = ucast (push_bit (unat offset) (push_bit (unat bytes) 1 - 1 :: u64))"

definition req_offset :: "u64 \<Rightarrow> u32" where
  "req_offset address = ucast (address mod ucast REQ_DATA_BYTES)"

definition is_atomic :: "transaction_req \<Rightarrow> bool" where
  "is_atomic t \<longleftrightarrow> is_amo t \<or> is_amo_sc t \<or> is_amo_lr t"

section \<open>The random sequence\<close>

definition inject_fault :: "draws \<Rightarrow> transaction_req \<Rightarrow> transaction_req" where
  "inject_fault d t =
     (if d_fault_inj d
      then t\<lparr>req_fault := \<lparr>fault_valid = True, fault_set = ucast (get_cache_set t), fault_way = d_fault_way d,
               fault_word = ucast (get_cache_word t), fault_domain = d_fault_domain d,
               fault_mask = (if d_fault_double d then 0xA0 else 0x20)\<rparr>\<rparr>
      else t)"

definition random_address :: "u64 \<Rightarrow> u64 \<Rightarrow> u32 \<Rightarrow> u64 \<Rightarrow> u64" where
  "random_address base len bytes draw = ((base + (draw mod len)) div ucast bytes) * ucast bytes"

definition the_segment :: "memory_segment list \<Rightarrow> draws \<Rightarrow> memory_segment option" where
  "the_segment segs d = (if d_seg d < length segs \<and> get_length (segs ! d_seg d) \<noteq> 0 then Some (segs ! d_seg d) else None)"

definition create_random_transaction ::
    "memory_segment list \<Rightarrow> draws \<Rightarrow> 6 word \<Rightarrow> transaction_req \<Rightarrow> transaction_req option" where
  "create_random_transaction segs d tid t = do {
     g \<leftarrow> the_segment segs d;
     let t = t\<lparr>req_op := of_nat (op_code (if seg_amo_supported g then d_op_amo d else d_op d))\<rparr>;
     let t = t\<lparr>req_wdata := d_data d, req_sid := 0, req_tid := tid, req_abort := False, req_phys_indexed := False,
               req_wr_policy_hint := select_random_wr_policy (seg_wr_policy_hint g) (d_wr_policy d)\<rparr>;
     sz \<leftarrow> create_random_size (is_atomic t) (d_size d);
     let bytes = push_bit (unat sz) 1;
     let address = random_address (get_base g) (get_length g) bytes (d_addr d);
     let t = t\<lparr>req_addr := ucast address\<rparr>;
     let t = (if is_cmo t
              then t\<lparr>req_be := 0, req_size := 0, req_uncacheable := False, req_need_rsp := d_need_rsp d\<rparr>
              else t\<lparr>req_be := byte_enables bytes (req_offset address), req_size := ucast sz, req_uncacheable := seg_uncached g,
                     req_need_rsp := (if is_atomic t then True else d_need_rsp d)\<rparr>);
     Some (inject_fault d t)
   }"

text \<open>The store-conditional that follows a load-reserved; both sequences have it.\<close>

definition create_sc_transaction :: "u64 \<Rightarrow> bool \<Rightarrow> draws \<Rightarrow> 6 word \<Rightarrow> transaction_req \<Rightarrow> transaction_req option" where
  "create_sc_transaction addr uncacheable d tid t = do {
     sz \<leftarrow> create_random_size True (d_size d);
     let bytes = push_bit (unat sz) 1;
     let address = (addr div ucast bytes) * ucast bytes;
     Some (t\<lparr>req_op := of_nat (op_code HPDCACHE_REQ_AMO_SC), req_wdata := d_data d, req_sid := 0, req_tid := tid,
             req_addr := ucast address, req_be := byte_enables bytes (req_offset address), req_size := ucast sz,
             req_uncacheable := uncacheable, req_need_rsp := True\<rparr>)
   }"

section \<open>The sequence over one cache set\<close>

definition create_random_addr :: "u64 \<Rightarrow> u64 \<Rightarrow> u64 \<Rightarrow> u32 \<Rightarrow> u64 \<Rightarrow> u64" where
  "create_random_addr sx base len bytes draw =
     (let set_mask = push_bit HPDCACHE_CL_OFFSET_WIDTH (push_bit HPDCACHE_SET_WIDTH 1 - 1);
          address = random_address base len bytes draw
      in (address AND NOT set_mask) OR push_bit HPDCACHE_CL_OFFSET_WIDTH sx)"

definition unique_set_transaction ::
    "u64 \<Rightarrow> memory_segment list \<Rightarrow> draws \<Rightarrow> 6 word \<Rightarrow> transaction_req \<Rightarrow> transaction_req option" where
  "unique_set_transaction sx segs d tid t = do {
     g \<leftarrow> the_segment segs d;
     let t = t\<lparr>req_op := of_nat (op_code (if seg_amo_supported g then d_op_amo d else d_op d))\<rparr>;
     let t = t\<lparr>req_wdata := d_data d, req_sid := 0, req_tid := tid, req_abort := False, req_phys_indexed := False,
               req_wr_policy_hint := select_random_wr_policy (seg_wr_policy_hint g) (d_wr_policy d)\<rparr>;
     sz \<leftarrow> create_random_size (is_atomic t) (d_size d);
     let bytes = push_bit (unat sz) 1;
     let address = create_random_addr sx (get_base g) (get_length g) bytes (d_addr d);
     let t = t\<lparr>req_addr := ucast address, req_need_rsp := (is_atomic t \<or> d_need_rsp d)\<rparr>;
     Some (if is_cmo t then t\<lparr>req_be := 0, req_size := 0, req_uncacheable := False\<rparr>
           else t\<lparr>req_be := byte_enables bytes (req_offset address), req_size := ucast sz, req_uncacheable := seg_uncached g\<rparr>)
   }"

section \<open>Only reads, only writes\<close>

definition plain_transaction ::
    "memory_segment \<Rightarrow> hpdcache_req_op_e \<Rightarrow> u64 \<Rightarrow> draws \<Rightarrow> 6 word \<Rightarrow> transaction_req \<Rightarrow> transaction_req option" where
  "plain_transaction g op wdata d tid t = do {
     let t = t\<lparr>req_op := of_nat (op_code op), req_wdata := wdata, req_sid := 0, req_tid := tid, req_abort := False,
               req_phys_indexed := False\<rparr>;
     sz \<leftarrow> narrow_random_size (is_atomic t) (d_size d);
     let bytes = push_bit (unat sz) 1;
     let address = random_address (get_base g) (get_length g) bytes (d_addr d);
     Some (t\<lparr>req_addr := ucast address, req_be := byte_enables bytes (req_offset address), req_size := ucast sz,
             req_uncacheable := seg_uncached g, req_need_rsp := True\<rparr>)
   }"

definition read_transaction_of :: "draws \<Rightarrow> 6 word \<Rightarrow> transaction_req \<Rightarrow> transaction_req option" where
  "read_transaction_of d = plain_transaction read_seg HPDCACHE_REQ_LOAD 0 d"

definition write_transaction_of :: "draws \<Rightarrow> 6 word \<Rightarrow> transaction_req \<Rightarrow> transaction_req option" where
  "write_transaction_of d = plain_transaction write_seg HPDCACHE_REQ_STORE (d_data d) d"

section \<open>The loops\<close>

text \<open>
  Request number \<open>k\<close> takes the draws \<open>D k\<close>, the identifier \<open>tids k\<close> and the object \<open>objs k\<close>; \<open>create\<close> is the function
  of the sequence.  The number of requests between a load-reserved and its store-conditional is drawn once.
\<close>

definition some_transactions :: "(nat \<Rightarrow> transaction_req option) \<Rightarrow> nat \<Rightarrow> nat \<Rightarrow> transaction_req list option" where
  "some_transactions mk k n = those (map mk [k..<k + n])"

fun run_lrsc :: "(nat \<Rightarrow> transaction_req option) \<Rightarrow> (transaction_req \<Rightarrow> nat \<Rightarrow> transaction_req option) \<Rightarrow> (nat \<Rightarrow> bool) \<Rightarrow> nat \<Rightarrow>
    nat \<Rightarrow> nat \<Rightarrow> transaction_req list option" where
  "run_lrsc mk mk_sc amo_sc_do inbetween 0 k = Some []"
| "run_lrsc mk mk_sc amo_sc_do inbetween (Suc n) k = do {
     t \<leftarrow> mk k;
     if is_amo_lr t \<and> amo_sc_do k then do {
       ts \<leftarrow> some_transactions mk (k + 1) inbetween;
       sc \<leftarrow> mk_sc t (k + 1 + inbetween);
       rest \<leftarrow> run_lrsc mk mk_sc amo_sc_do inbetween n (k + inbetween + 2);
       Some (t # ts @ sc # rest)
     } else do {
       rest \<leftarrow> run_lrsc mk mk_sc amo_sc_do inbetween n (k + 1);
       Some (t # rest)
     }
   }"

definition sc_after :: "(nat \<Rightarrow> draws) \<Rightarrow> (nat \<Rightarrow> 6 word) \<Rightarrow> (nat \<Rightarrow> transaction_req) \<Rightarrow> transaction_req \<Rightarrow> nat \<Rightarrow> transaction_req option" where
  "sc_after D tids objs prev_lr k = create_sc_transaction (ucast (req_addr prev_lr)) (req_uncacheable prev_lr) (D k) (tids k) (objs k)"

definition random_run :: "bool \<Rightarrow> (nat \<Rightarrow> draws) \<Rightarrow> (nat \<Rightarrow> 6 word) \<Rightarrow> (nat \<Rightarrow> transaction_req) \<Rightarrow> (nat \<Rightarrow> bool) \<Rightarrow> nat \<Rightarrow> nat \<Rightarrow>
    transaction_req list option" where
  "random_run amo D tids objs amo_sc_do inbetween max_transactions =
     run_lrsc (\<lambda>k. create_random_transaction (random_segs amo) (D k) (tids k) (objs k)) (sc_after D tids objs) amo_sc_do inbetween
       max_transactions 0"

text \<open>\<open>r\<close> is the value of \<open>rand()\<close>.\<close>

definition unique_set_run :: "u64 \<Rightarrow> (nat \<Rightarrow> draws) \<Rightarrow> (nat \<Rightarrow> 6 word) \<Rightarrow> (nat \<Rightarrow> transaction_req) \<Rightarrow> (nat \<Rightarrow> bool) \<Rightarrow> nat \<Rightarrow> nat \<Rightarrow>
    transaction_req list option" where
  "unique_set_run r D tids objs amo_sc_do inbetween max_transactions =
     run_lrsc (\<lambda>k. unique_set_transaction (r mod of_nat HPDCACHE_SETS) unique_set_segs (D k) (tids k) (objs k)) (sc_after D tids objs)
       amo_sc_do inbetween max_transactions 0"

definition read_run :: "(nat \<Rightarrow> draws) \<Rightarrow> (nat \<Rightarrow> 6 word) \<Rightarrow> (nat \<Rightarrow> transaction_req) \<Rightarrow> nat \<Rightarrow> transaction_req list option" where
  "read_run D tids objs max_transactions = some_transactions (\<lambda>k. read_transaction_of (D k) (tids k) (objs k)) 0 max_transactions"

definition write_run :: "(nat \<Rightarrow> draws) \<Rightarrow> (nat \<Rightarrow> 6 word) \<Rightarrow> (nat \<Rightarrow> transaction_req) \<Rightarrow> nat \<Rightarrow> transaction_req list option" where
  "write_run D tids objs max_transactions = some_transactions (\<lambda>k. write_transaction_of (D k) (tids k) (objs k)) 0 max_transactions"

text \<open>The segments for which the random sequence makes the memory answer with an error.\<close>

definition random_error_segments :: "segment list" where
  "random_error_segments =
     [\<lparr>base_addr = 0x00000000, end_addr = 0x00000200, seg_error = True\<rparr>,
      \<lparr>base_addr = 0x40004000, end_addr = 0x40004200, seg_error = True\<rparr>,
      \<lparr>base_addr = 0xC000C000, end_addr = 0xC000C200, seg_error = True\<rparr>]"

definition with_error_segments :: "mem_resp \<Rightarrow> mem_resp" where
  "with_error_segments m = fold add_error_segment random_error_segments m"

section \<open>Addresses\<close>

definition seg_ok :: "memory_segment \<Rightarrow> bool" where
  "seg_ok g \<longleftrightarrow> 8 dvd unat (get_base g) \<and> 8 dvd unat (get_length g) \<and> get_length g \<noteq> 0
     \<and> unat (get_base g) + unat (get_length g) < 2 ^ 49"

text \<open>\<open>n\<close> bytes from \<open>a\<close> on are in the segment.\<close>

definition inside :: "memory_segment \<Rightarrow> nat \<Rightarrow> nat \<Rightarrow> bool" where
  "inside g a n \<longleftrightarrow> unat (get_base g) \<le> a \<and> a + n \<le> unat (get_base g) + unat (get_length g)"

lemma aligned_inside_range:
  fixes x n base len :: nat
  assumes "0 < n" "n dvd base" "n dvd len" "base \<le> x" "x < base + len"
  shows "base \<le> x div n * n \<and> x div n * n + n \<le> base + len"
proof -
  obtain p q where pq: "base = n * p" "len = n * q" using assms(2,3) by (auto elim!: dvdE)
  have "p \<le> x div n" using assms(1,4) pq(1) by (simp add: less_eq_div_iff_mult_less_eq mult.commute)
  moreover have "x div n < p + q" using assms(1,5) pq by (simp add: less_mult_imp_div_less algebra_simps)
  ultimately have "n * p \<le> n * (x div n)" "n * (x div n + 1) \<le> n * (p + q)" by (intro mult_le_mono2; simp)+
  then show ?thesis by (simp add: pq algebra_simps)
qed

lemma size_dvd_8: "k \<le> 3 \<Longrightarrow> (2 :: nat) ^ k dvd 8"
  using le_imp_power_dvd [of k 3 "2 :: nat"] by simp

lemma unat_bytes: "k \<le> 3 \<Longrightarrow> unat (2 ^ k :: u32) = 2 ^ k \<and> unat (ucast (2 ^ k :: u32) :: u64) = 2 ^ k"
  by (auto simp: numeral_3_eq_3 le_Suc_eq)

lemma align_unat:
  assumes "k \<le> 3"
  shows "unat (a div ucast (2 ^ k :: u32) * ucast (2 ^ k :: u32) :: u64) = unat a div 2 ^ k * 2 ^ k"
proof -
  have "unat a div 2 ^ k * 2 ^ k < 2 ^ 64"
    using le_less_trans [OF div_times_less_eq_dividend [of "unat a" "2 ^ k"]] unsigned_less [of a, where ?'a = nat] by simp
  then show ?thesis using unat_bytes [OF assms] by (simp add: unat_mult_lem [THEN iffD1] unat_div unat_word_ariths(2))
qed

lemma random_address_inside:
  assumes "seg_ok g" "k \<le> 3"
  shows "inside g (unat (random_address (get_base g) (get_length g) (push_bit k 1) draw)) (2 ^ k)
    \<and> 2 ^ k dvd unat (random_address (get_base g) (get_length g) (push_bit k 1) draw)"
proof -
  have "0 < unat (get_length g)" using assms(1) by (simp add: seg_ok_def unat_gt_0)
  then have m: "unat draw mod unat (get_length g) < unat (get_length g)" by simp
  have "unat (get_base g + draw mod get_length g) = unat (get_base g) + unat draw mod unat (get_length g)"
    using m assms(1) by (simp add: seg_ok_def unat_word_ariths unat_mod)
  moreover have "2 ^ k dvd unat (get_base g)" "2 ^ k dvd unat (get_length g)"
    using assms size_dvd_8 [OF assms(2)] dvd_trans by (auto simp: seg_ok_def)
  ultimately show ?thesis
    using aligned_inside_range [of "2 ^ k" "unat (get_base g)" "unat (get_length g)" "unat (get_base g) + unat draw mod unat (get_length g)"] m
    by (simp add: random_address_def align_unat assms(2) inside_def)
qed

lemma inside_49: "seg_ok g \<Longrightarrow> inside g a n \<Longrightarrow> a < 2 ^ 49"
  by (simp add: seg_ok_def inside_def)

lemma unat_addr_49: "unat (a :: u64) < 2 ^ 49 \<Longrightarrow> unat (ucast a :: 49 word) = unat a"
  by (simp add: unsigned_ucast_eq take_bit_nat_eq_self)

section \<open>Requests\<close>

lemma bit_byte_enables:
  "bit (byte_enables bytes offset) i \<longleftrightarrow> i < 8 \<and> unat offset \<le> i \<and> i < unat offset + unat bytes"
proof -
  have "byte_enables bytes offset = ucast (push_bit (unat offset) (mask (unat bytes) :: u64))"
    by (simp add: byte_enables_def mask_eq_exp_minus_1)
  then show ?thesis by (auto simp: bit_simps)
qed

text \<open>A request as the scoreboard expects it: aligned, in one word, with the enables of its bytes; a management operation
has none.\<close>

definition well_formed :: "transaction_req \<Rightarrow> bool" where
  "well_formed t \<longleftrightarrow>
     (if is_cmo t then req_be t = 0 \<and> req_size t = 0 \<and> \<not> req_uncacheable t
      else unat (req_size t) \<le> 3 \<and> 2 ^ unat (req_size t) dvd unat (req_addr t)
        \<and> (\<forall>i. bit (req_be t) i \<longleftrightarrow> unat (req_addr t) mod 8 \<le> i \<and> i < unat (req_addr t) mod 8 + 2 ^ unat (req_size t))
        \<and> (is_atomic t \<longrightarrow> 2 \<le> unat (req_size t) \<and> req_need_rsp t))"

definition in_segment :: "memory_segment \<Rightarrow> transaction_req \<Rightarrow> bool" where
  "in_segment g t \<longleftrightarrow> inside g (unat (req_addr t)) (2 ^ unat (req_size t))"

lemma req_offset_unat: "unat (req_offset a) = unat a mod 8"
  by (simp add: req_offset_def REQ_DATA_BYTES_def config unsigned_ucast_eq unat_mod take_bit_nat_eq_self)

lemma aligned_word_end:
  fixes a :: nat
  assumes "k \<le> 3" "2 ^ k dvd a"
  shows "a mod 8 + 2 ^ k \<le> 8"
  using aligned_inside_range [of "2 ^ k" 0 8 "a mod 8"] assms size_dvd_8 [OF assms(1)]
  by (simp add: dvd_mod mod_mod_cancel)

lemma enables_of_address:
  assumes "k \<le> 3" "2 ^ k dvd unat a" "unat a < 2 ^ 49"
  shows "bit (byte_enables (2 ^ k) (req_offset a)) i \<longleftrightarrow>
    unat (ucast a :: 49 word) mod 8 \<le> i \<and> i < unat (ucast a :: 49 word) mod 8 + 2 ^ k"
  using aligned_word_end [OF assms(1,2)] unat_bytes [OF assms(1)]
  by (auto simp: bit_byte_enables req_offset_unat unat_addr_49 [OF assms(3)])

lemma random_size_range:
  assumes "create_random_size atomic ret = Some sz"
  shows "\<exists>k. sz = of_nat k \<and> k \<le> 3 \<and> (atomic \<longrightarrow> 2 \<le> k)"
proof -
  have "unat ret \<le> 3" "sz = (if atomic then if ret \<ge> 3 then 3 else 2 else ret)"
    using assms by (simp_all add: create_random_size_def LOG2_REQ_DATA_BYTES_def REQ_DATA_BYTES_def config
        HPDCACHE_TEST_DEFS_LOG2_def split: if_splits)
  then show ?thesis
    by (intro exI [of _ "unat sz"]) (auto simp: word_le_nat_alt)
qed

lemma create_random_size_returns: "unat ret \<le> 3 \<Longrightarrow> \<exists>k \<le> 3. create_random_size atomic ret = Some (of_nat k) \<and> (atomic \<longrightarrow> 2 \<le> k)"
  using random_size_range [of atomic ret]
  by (force simp: create_random_size_def LOG2_REQ_DATA_BYTES_def REQ_DATA_BYTES_def config HPDCACHE_TEST_DEFS_LOG2_def)

lemma inject_fault_keeps [simp]:
  "req_op (inject_fault d t) = req_op t" "req_addr (inject_fault d t) = req_addr t" "req_size (inject_fault d t) = req_size t"
  "req_be (inject_fault d t) = req_be t" "req_need_rsp (inject_fault d t) = req_need_rsp t"
  "req_uncacheable (inject_fault d t) = req_uncacheable t"
  by (simp_all add: inject_fault_def)

lemma class_cong:
  assumes "req_op t = req_op t'"
  shows "is_cmo t = is_cmo t'" "is_atomic t = is_atomic t'" "is_amo_lr t = is_amo_lr t'"
  using assms by (simp_all add: is_cmo_def is_atomic_def is_amo_def is_amo_sc_def is_amo_lr_def)

text \<open>What is common to the requests that are made up: an aligned address, and the fields that follow from it.\<close>

definition made_at :: "u64 \<Rightarrow> nat \<Rightarrow> transaction_req \<Rightarrow> bool" where
  "made_at a k r \<longleftrightarrow> k \<le> 3 \<and> req_addr r = ucast a \<and> (is_atomic r \<longrightarrow> 2 \<le> k)
     \<and> (if is_cmo r then req_be r = 0 \<and> req_size r = 0 \<and> \<not> req_uncacheable r
        else req_be r = byte_enables (2 ^ k) (req_offset a) \<and> req_size r = of_nat k \<and> (is_atomic r \<longrightarrow> req_need_rsp r))"

lemma small_size: "k \<le> 3 \<Longrightarrow> unat (of_nat k :: 3 word) = k \<and> unat (of_nat k :: u32) = k \<and> (ucast (of_nat k :: u32) :: 3 word) = of_nat k"
proof -
  assume "k \<le> 3"
  then have "k = 0 \<or> k = 1 \<or> k = 2 \<or> k = 3" by auto
  then show ?thesis by (elim disjE) simp_all
qed

lemma made_at_well_formed:
  assumes "made_at a k r" "2 ^ k dvd unat a" "unat a < 2 ^ 49"
  shows "well_formed r"
  using assms small_size [of k] enables_of_address [of k a] unat_addr_49 [OF assms(3)]
  by (auto simp: well_formed_def made_at_def)

lemma made_at_inside:
  assumes "made_at a k r" "seg_ok g" "inside g (unat a) (2 ^ k)"
  shows "in_segment g r"
proof -
  have a: "unat (req_addr r) = unat a" using assms inside_49 unat_addr_49 by (auto simp: made_at_def)
  have "unat (req_size r) \<le> k" using assms(1) small_size [of k] by (auto simp: made_at_def split: if_splits)
  then have "(2 :: nat) ^ unat (req_size r) \<le> 2 ^ k" by simp
  then show ?thesis using assms(3) unfolding in_segment_def inside_def a by linarith
qed

lemma random_transaction_made:
  assumes "create_random_transaction segs d tid t = Some r"
  shows "\<exists>g k. g \<in> set segs \<and> made_at (random_address (get_base g) (get_length g) (push_bit k 1) (d_addr d)) k r
    \<and> req_op r = of_nat (op_code (if seg_amo_supported g then d_op_amo d else d_op d))"
proof -
  obtain g where g: "the_segment segs d = Some g" using assms by (cases "the_segment segs d") (simp_all add: create_random_transaction_def)
  then have mem: "g \<in> set segs" by (auto simp: the_segment_def split: if_splits)
  let ?t = "t\<lparr>req_op := of_nat (op_code (if seg_amo_supported g then d_op_amo d else d_op d)), req_wdata := d_data d, req_sid := 0,
    req_tid := tid, req_abort := False, req_phys_indexed := False,
    req_wr_policy_hint := select_random_wr_policy (seg_wr_policy_hint g) (d_wr_policy d)\<rparr>"
  obtain sz where sz: "create_random_size (is_atomic ?t) (d_size d) = Some sz"
    using assms by (cases "create_random_size (is_atomic ?t) (d_size d)") (simp_all add: create_random_transaction_def g Let_def)
  obtain k where k: "sz = of_nat k" "k \<le> 3" "is_atomic ?t \<longrightarrow> 2 \<le> k" using random_size_range [OF sz] by blast
  let ?a = "random_address (get_base g) (get_length g) (push_bit k 1) (d_addr d)"
  let ?u = "?t\<lparr>req_addr := ucast ?a\<rparr>"
  have r: "r = inject_fault d (if is_cmo ?u then ?u\<lparr>req_be := 0, req_size := 0, req_uncacheable := False, req_need_rsp := d_need_rsp d\<rparr>
      else ?u\<lparr>req_be := byte_enables (push_bit k 1) (req_offset ?a), req_size := of_nat k, req_uncacheable := seg_uncached g,
             req_need_rsp := (if is_atomic ?u then True else d_need_rsp d)\<rparr>)"
    using assms small_size [OF k(2)] by (simp add: create_random_transaction_def g Let_def sz [unfolded k(1)] cong: if_cong split del: if_split)
  have op: "req_op r = req_op ?t" "req_op r = req_op ?u" by (simp_all add: r)
  have "made_at ?a k r"
    using k(2,3) class_cong(1,2) [OF op(1)] class_cong(1,2) [OF op(2)] by (simp add: made_at_def r split: if_splits)
  with mem op(1) show ?thesis by auto
qed

lemma sc_transaction_made:
  assumes "create_sc_transaction a unc d tid t = Some r"
  shows "\<exists>k. made_at (a div ucast (2 ^ k :: u32) * ucast (2 ^ k :: u32)) k r \<and> is_amo_sc r \<and> 2 \<le> k"
proof -
  obtain sz where sz: "create_random_size True (d_size d) = Some sz"
    using assms by (cases "create_random_size True (d_size d)") (simp_all add: create_sc_transaction_def)
  obtain k where k: "sz = of_nat k" "k \<le> 3" "2 \<le> k" using random_size_range [OF sz] by blast
  have r: "r = t\<lparr>req_op := of_nat (op_code HPDCACHE_REQ_AMO_SC), req_wdata := d_data d, req_sid := 0, req_tid := tid,
      req_addr := ucast (a div ucast (2 ^ k :: u32) * ucast (2 ^ k :: u32)),
      req_be := byte_enables (2 ^ k) (req_offset (a div ucast (2 ^ k :: u32) * ucast (2 ^ k :: u32))), req_size := of_nat k,
      req_uncacheable := unc, req_need_rsp := True\<rparr>"
    using assms small_size [OF k(2)] by (simp add: create_sc_transaction_def Let_def sz [unfolded k(1)])
  have "is_amo_sc r" "\<not> is_cmo r" by (simp_all add: r is_amo_sc_def is_cmo_def)
  with k show ?thesis by (intro exI [of _ k]) (simp add: made_at_def r)
qed

lemma unat_widen_49: "unat (ucast (w :: 49 word) :: u64) = unat w"
  using unsigned_less [of w, where ?'a = nat] by (simp add: unsigned_ucast_eq take_bit_nat_eq_self)

text \<open>The store-conditional is for the word that the load-reserved read, and stays in its segment.\<close>

lemma sc_after_lr:
  assumes "seg_ok g" "in_segment g lr" "create_sc_transaction (ucast (req_addr lr)) unc d tid t = Some r"
  shows "well_formed r \<and> in_segment g r \<and> is_amo_sc r \<and> drop_bit 3 (req_addr r) = drop_bit 3 (req_addr lr)"
proof -
  let ?x = "unat (req_addr lr)" and ?a = "\<lambda>k. ucast (req_addr lr) div ucast (2 ^ k :: u32) * ucast (2 ^ k :: u32) :: u64"
  obtain k where k: "made_at (?a k) k r" "is_amo_sc r" using sc_transaction_made [OF assms(3)] by blast
  then have k3: "k \<le> 3" by (simp add: made_at_def)
  have a: "unat (?a k) = ?x div 2 ^ k * 2 ^ k" by (simp add: align_unat [OF k3] unat_widen_49)
  have x: "unat (get_base g) \<le> ?x" "?x < unat (get_base g) + unat (get_length g)"
  proof -
    show "unat (get_base g) \<le> ?x" using assms(2) by (simp add: in_segment_def inside_def)
    have "0 < (2 :: nat) ^ unat (req_size lr)" by simp
    then show "?x < unat (get_base g) + unat (get_length g)" using assms(2) unfolding in_segment_def inside_def by linarith
  qed
  have "2 ^ k dvd unat (get_base g)" "2 ^ k dvd unat (get_length g)"
    using assms(1) size_dvd_8 [OF k3] dvd_trans by (auto simp: seg_ok_def)
  then have i: "inside g (unat (?a k)) (2 ^ k)" using aligned_inside_range [of "2 ^ k"] x by (simp add: a inside_def)
  have "unat (?a k) < 2 ^ 49" by (rule inside_49 [OF assms(1) i])
  moreover have "2 ^ k dvd unat (?a k)" by (simp add: a)
  ultimately have wf: "well_formed r" "unat (req_addr r) = ?x div 2 ^ k * 2 ^ k"
    using made_at_well_formed [OF k(1)] unat_addr_49 [of "?a k"] k(1) a by (auto simp: made_at_def)
  obtain m :: nat where m: "8 = 2 ^ k * m" using size_dvd_8 [OF k3] by (auto elim: dvdE)
  have "?x div 2 ^ k * 2 ^ k div 8 = ?x div 8" unfolding m by (simp add: div_mult2_eq)
  then have "unat (req_addr r div 8) = unat (req_addr lr div 8)" by (simp add: unat_div wf(2))
  then have "req_addr r div 8 = req_addr lr div 8" by (simp only: word_unat_eq_iff)
  then show ?thesis using wf(1) k(2) made_at_inside [OF k(1) assms(1) i] by (simp add: drop_bit_eq_div)
qed

section \<open>One cache set\<close>

definition line_ok :: "memory_segment \<Rightarrow> bool" where
  "line_ok g \<longleftrightarrow> 4096 dvd unat (get_base g) \<and> 4096 dvd unat (get_length g)"

lemma one_set_address:
  assumes "seg_ok g" "line_ok g" "inside g (unat a) (2 ^ k)" "2 ^ k dvd unat (a :: u64)" "k \<le> 3" "unat sx < 64"
    and "b = (a AND NOT (push_bit 6 (mask 6))) OR push_bit 6 sx"
  shows "inside g (unat b) (2 ^ k) \<and> 2 ^ k dvd unat b \<and> drop_bit 6 b AND mask 6 = sx"
proof -
  have sx: "bit sx i \<Longrightarrow> i < 6" for i
  proof -
    have "take_bit 6 sx = sx" using assms(6) by (simp add: word_unat_eq_iff unsigned_take_bit_eq take_bit_nat_eq_self)
    then show "bit sx i \<Longrightarrow> i < 6" by (metis bit_take_bit_iff)
  qed
  have "unat (take_bit k a) = 0" using assms(4) by (simp only: unsigned_take_bit_eq take_bit_eq_0_iff)
  then have "take_bit k a = 0" by (simp only: unat_eq_0)
  then have "\<not> bit (take_bit k a) i" for i by simp
  then have low: "i < k \<Longrightarrow> \<not> bit a i" for i by (simp add: bit_take_bit_iff)
  have "take_bit k b = 0" by (rule bit_word_eqI) (use assms(5,7) low in \<open>auto simp: bit_simps\<close>)
  then have d: "2 ^ k dvd unat b" by (metis dvd_eq_mod_eq_0 take_bit_eq_mod unsigned_0 unsigned_take_bit_eq)
  have "drop_bit 12 b = drop_bit 12 a"
  proof (rule bit_word_eqI)
    fix n
    have "\<not> bit sx (6 + n)" using sx [of "6 + n"] by auto
    then show "bit (drop_bit 12 b) n \<longleftrightarrow> bit (drop_bit 12 a) n" by (auto simp: assms(7) bit_simps dest: bit_imp_le_length)
  qed
  then have "unat (b div 4096) = unat (a div 4096)" by (simp add: drop_bit_eq_div)
  then have q: "unat b div 4096 = unat a div 4096" by (simp add: unat_div)
  have "drop_bit 6 b AND mask 6 = sx"
  proof (rule bit_word_eqI)
    fix n
    show "bit (drop_bit 6 b AND mask 6) n \<longleftrightarrow> bit sx n" using sx [of n] by (cases "bit sx n") (auto simp: assms(7) bit_simps)
  qed
  moreover have "inside g (unat b) (2 ^ k)"
  proof -
    let ?p = "unat a div 4096 * 4096" and ?base = "unat (get_base g)" and ?len = "unat (get_length g)"
    have "0 < (2 :: nat) ^ k" by simp
    then have "?base \<le> unat a" "unat a < ?base + ?len" using assms(3) unfolding inside_def by linarith+
    then have p: "?base \<le> ?p" "?p + 4096 \<le> ?base + ?len"
      using aligned_inside_range [of 4096 ?base ?len "unat a"] assms(2) by (simp_all add: line_ok_def)
    have "?p \<le> unat b" "unat b < ?p + 4096" using q [symmetric] by (simp_all add: mult.commute dividend_less_times_div)
    moreover have "(2 :: nat) ^ k dvd 2 ^ 12" using assms(5) by (intro le_imp_power_dvd) simp
    ultimately have "unat b div 2 ^ k * 2 ^ k + 2 ^ k \<le> ?p + 4096"
      using aligned_inside_range [of "2 ^ k" ?p 4096 "unat b"] by (simp add: dvd_mult)
    then show ?thesis using p \<open>?p \<le> unat b\<close> d by (simp add: inside_def)
  qed
  ultimately show ?thesis using d by simp
qed

lemma unique_set_transaction_made:
  assumes "unique_set_transaction sx segs d tid t = Some r"
  shows "\<exists>g k. g \<in> set segs \<and> made_at (create_random_addr sx (get_base g) (get_length g) (push_bit k 1) (d_addr d)) k r
    \<and> req_op r = of_nat (op_code (if seg_amo_supported g then d_op_amo d else d_op d))"
proof -
  obtain g where g: "the_segment segs d = Some g" using assms by (cases "the_segment segs d") (simp_all add: unique_set_transaction_def)
  then have mem: "g \<in> set segs" by (auto simp: the_segment_def split: if_splits)
  let ?t = "t\<lparr>req_op := of_nat (op_code (if seg_amo_supported g then d_op_amo d else d_op d)), req_wdata := d_data d, req_sid := 0,
    req_tid := tid, req_abort := False, req_phys_indexed := False,
    req_wr_policy_hint := select_random_wr_policy (seg_wr_policy_hint g) (d_wr_policy d)\<rparr>"
  obtain sz where sz: "create_random_size (is_atomic ?t) (d_size d) = Some sz"
    using assms by (cases "create_random_size (is_atomic ?t) (d_size d)") (simp_all add: unique_set_transaction_def g Let_def)
  obtain k where k: "sz = of_nat k" "k \<le> 3" "is_atomic ?t \<longrightarrow> 2 \<le> k" using random_size_range [OF sz] by blast
  let ?a = "create_random_addr sx (get_base g) (get_length g) (push_bit k 1) (d_addr d)"
  let ?u = "?t\<lparr>req_addr := ucast ?a, req_need_rsp := (is_atomic ?t \<or> d_need_rsp d)\<rparr>"
  have r: "r = (if is_cmo ?u then ?u\<lparr>req_be := 0, req_size := 0, req_uncacheable := False\<rparr>
      else ?u\<lparr>req_be := byte_enables (push_bit k 1) (req_offset ?a), req_size := of_nat k, req_uncacheable := seg_uncached g\<rparr>)"
    using assms small_size [OF k(2)]
    by (simp add: unique_set_transaction_def g Let_def sz [unfolded k(1)] cong: if_cong split del: if_split)
  have op: "req_op r = req_op ?t" "req_op r = req_op ?u" by (simp_all add: r)
  have "made_at ?a k r"
    using k(2,3) class_cong(1,2) [OF op(1)] class_cong(1,2) [OF op(2)] by (simp add: made_at_def r split: if_splits)
  with mem op(1) show ?thesis by auto
qed

section \<open>What every request of a sequence has\<close>

locale request_source =
  fixes mk :: "nat \<Rightarrow> transaction_req option"
    and mk_sc :: "transaction_req \<Rightarrow> nat \<Rightarrow> transaction_req option"
    and good :: "transaction_req \<Rightarrow> bool"
  assumes mk_good: "mk k = Some t \<Longrightarrow> good t"
    and sc_good: "good t \<Longrightarrow> is_amo_lr t \<Longrightarrow> mk_sc t k = Some sc \<Longrightarrow> good sc"
begin

lemma some_good: "some_transactions mk k n = Some ts \<Longrightarrow> list_all good ts"
proof (induction n arbitrary: k ts)
  case 0 then show ?case by (simp add: some_transactions_def)
next
  case (Suc n)
  have "[k..<k + Suc n] = k # [Suc k..<Suc k + n]" by (simp add: upt_conv_Cons)
  then obtain t us where "mk k = Some t" "some_transactions mk (Suc k) n = Some us" "ts = t # us"
    using Suc.prems by (auto simp: some_transactions_def split: option.splits)
  with Suc.IH mk_good show ?case by simp
qed

lemma run_good: "run_lrsc mk mk_sc amo_sc_do inbetween n k = Some ts \<Longrightarrow> list_all good ts"
proof (induction n arbitrary: k ts)
  case (Suc n)
  then obtain t where t: "mk k = Some t" "good t" using mk_good by (cases "mk k") auto
  show ?case
  proof (cases "is_amo_lr t \<and> amo_sc_do k")
    case True
    with Suc.prems t obtain us sc rest where "some_transactions mk (k + 1) inbetween = Some us" "mk_sc t (k + 1 + inbetween) = Some sc"
      "run_lrsc mk mk_sc amo_sc_do inbetween n (k + inbetween + 2) = Some rest" "ts = t # us @ sc # rest"
      by (auto simp: bind_eq_Some_conv)
    with Suc.IH some_good sc_good t True show ?thesis by auto
  next
    case False
    with Suc.prems t obtain rest where "run_lrsc mk mk_sc amo_sc_do inbetween n (k + 1) = Some rest" "ts = t # rest"
      by (auto simp: bind_eq_Some_conv)
    with Suc.IH t show ?thesis by simp
  qed
qed simp

end

lemma some_transactions_return: "\<forall>k. mk k \<noteq> None \<Longrightarrow> \<exists>ts. some_transactions mk k n = Some ts \<and> length ts = n"
proof (induction n arbitrary: k)
  case 0 then show ?case by (simp add: some_transactions_def)
next
  case (Suc n)
  obtain t where "mk k = Some t" using Suc.prems by auto
  moreover obtain us where "some_transactions mk (Suc k) n = Some us" "length us = n" using Suc.IH Suc.prems by blast
  moreover have "[k..<k + Suc n] = k # [Suc k..<Suc k + n]" by (simp add: upt_conv_Cons)
  ultimately show ?case by (simp add: some_transactions_def)
qed

lemma run_lrsc_returns:
  assumes "\<forall>k. mk k \<noteq> None" "\<forall>t k. mk_sc t k \<noteq> None"
  shows "\<exists>ts. run_lrsc mk mk_sc amo_sc_do inbetween n k = Some ts \<and> n \<le> length ts"
proof (induction n arbitrary: k)
  case (Suc n)
  obtain t where t: "mk k = Some t" using assms(1) by auto
  show ?case
  proof (cases "is_amo_lr t \<and> amo_sc_do k")
    case True
    obtain us where "some_transactions mk (k + 1) inbetween = Some us" using some_transactions_return [OF assms(1)] by blast
    moreover obtain sc where "mk_sc t (k + 1 + inbetween) = Some sc" using assms(2) by auto
    moreover obtain rest where "run_lrsc mk mk_sc amo_sc_do inbetween n (k + inbetween + 2) = Some rest" "n \<le> length rest"
      using Suc.IH by blast
    ultimately show ?thesis using t True by simp
  next
    case False
    obtain rest where "run_lrsc mk mk_sc amo_sc_do inbetween n (k + 1) = Some rest" "n \<le> length rest" using Suc.IH by blast
    with t False show ?thesis by auto
  qed
qed simp

lemma sc_returns: "unat (d_size d) \<le> 3 \<Longrightarrow> create_sc_transaction a unc d tid t \<noteq> None"
  using create_random_size_returns [of "d_size d" True] by (auto simp: create_sc_transaction_def Let_def)

lemma random_returns:
  assumes "list_all seg_ok segs" "d_seg d < length segs" "unat (d_size d) \<le> 3"
  shows "create_random_transaction segs d tid t \<noteq> None"
proof -
  have "the_segment segs d = Some (segs ! d_seg d)" using assms by (auto simp: the_segment_def seg_ok_def list_all_length)
  then show ?thesis using create_random_size_returns [OF assms(3)]
    by (auto simp: create_random_transaction_def Let_def bind_eq_None_conv)
qed

lemma unique_returns:
  assumes "list_all seg_ok segs" "d_seg d < length segs" "unat (d_size d) \<le> 3"
  shows "unique_set_transaction sx segs d tid t \<noteq> None"
proof -
  have "the_segment segs d = Some (segs ! d_seg d)" using assms by (auto simp: the_segment_def seg_ok_def list_all_length)
  then show ?thesis using create_random_size_returns [OF assms(3)]
    by (auto simp: unique_set_transaction_def Let_def bind_eq_None_conv)
qed

definition placed :: "memory_segment list \<Rightarrow> transaction_req \<Rightarrow> bool" where
  "placed segs t \<longleftrightarrow> well_formed t \<and> (\<exists>g\<in>set segs. in_segment g t)"

lemmas segment_defs = a_segment_def set_base_def set_length_def get_base_def get_length_def new_memory_segment_def

lemma random_segs_ok: "list_all seg_ok (random_segs amo)"
  by (simp add: random_segs_def seg_ok_def segment_defs)

lemma unique_set_segs_ok: "list_all seg_ok unique_set_segs" "list_all line_ok unique_set_segs"
  by (simp_all add: unique_set_segs_def seg_ok_def line_ok_def segment_defs)

lemma random_placed: "create_random_transaction (random_segs amo) d tid t = Some r \<Longrightarrow> placed (random_segs amo) r"
proof -
  assume "create_random_transaction (random_segs amo) d tid t = Some r"
  then obtain g k where g: "g \<in> set (random_segs amo)"
    and made: "made_at (random_address (get_base g) (get_length g) (push_bit k 1) (d_addr d)) k r"
    using random_transaction_made by blast
  have ok: "seg_ok g" using random_segs_ok g by (auto simp: list_all_iff)
  have k: "k \<le> 3" using made by (simp add: made_at_def)
  from random_address_inside [OF ok k] made_at_well_formed [OF made] made_at_inside [OF made ok] inside_49 [OF ok]
  show ?thesis using g by (auto simp: placed_def)
qed

lemma sc_after_placed:
  assumes "list_all seg_ok segs" "placed segs lr" "sc_after D tids objs lr k = Some r"
  shows "placed segs r \<and> drop_bit 3 (req_addr r) = drop_bit 3 (req_addr lr)"
proof -
  obtain g where "g \<in> set segs" "in_segment g lr" using assms(2) by (auto simp: placed_def)
  moreover from this have "seg_ok g" using assms(1) by (auto simp: list_all_iff)
  ultimately show ?thesis using sc_after_lr assms(3) unfolding sc_after_def placed_def by blast
qed

lemma get_cache_set_eq: "get_cache_set t = drop_bit 6 (ucast (req_addr t)) AND mask 6"
  by (simp add: get_cache_set_def config HPDCACHE_TEST_DEFS_LOG2_def mask_eq_exp_minus_1)

lemma get_cache_set_word:
  assumes "drop_bit 3 (req_addr r) = drop_bit 3 (req_addr t)"
  shows "get_cache_set r = get_cache_set t"
proof -
  have "drop_bit 6 (req_addr r) = drop_bit 6 (req_addr t)"
    using arg_cong [OF assms, of "drop_bit 3"] by simp
  moreover have "drop_bit 6 (ucast a :: u64) = ucast (drop_bit 6 a)" for a :: "49 word"
    by (rule bit_word_eqI) (auto simp: bit_simps dest: bit_imp_le_length)
  ultimately show ?thesis by (simp add: get_cache_set_eq)
qed

lemma unique_placed:
  assumes "unique_set_transaction sx unique_set_segs d tid t = Some r" "unat sx < 64"
  shows "placed unique_set_segs r \<and> get_cache_set r = sx"
proof -
  obtain g k where g: "g \<in> set unique_set_segs"
    and made: "made_at (create_random_addr sx (get_base g) (get_length g) (push_bit k 1) (d_addr d)) k r"
    using unique_set_transaction_made [OF assms(1)] by blast
  let ?a = "random_address (get_base g) (get_length g) (push_bit k 1) (d_addr d)"
  let ?b = "create_random_addr sx (get_base g) (get_length g) (push_bit k 1) (d_addr d)"
  have ok: "seg_ok g" "line_ok g" using unique_set_segs_ok g by (auto simp: list_all_iff)
  have k: "k \<le> 3" using made by (simp add: made_at_def)
  have b: "?b = (?a AND NOT (push_bit 6 (mask 6))) OR push_bit 6 sx"
    by (simp add: create_random_addr_def Let_def config HPDCACHE_TEST_DEFS_LOG2_def mask_eq_exp_minus_1)
  have fin: "inside g (unat ?b) (2 ^ k)" "2 ^ k dvd unat ?b" "drop_bit 6 ?b AND mask 6 = sx"
    using one_set_address [OF ok _ _ k assms(2) b] random_address_inside [OF ok(1) k] by blast+
  have less: "unat ?b < 2 ^ 49" by (rule inside_49 [OF ok(1) fin(1)])
  have "req_addr r = ucast ?b" using made by (simp add: made_at_def)
  then have "(ucast (req_addr r) :: u64) = ?b" using unat_addr_49 [OF less] by (simp add: word_unat_eq_iff unat_widen_49)
  then have "get_cache_set r = sx" using fin(3) by (simp add: get_cache_set_eq)
  then show ?thesis
    using made_at_well_formed [OF made fin(2) less] made_at_inside [OF made ok(1) fin(1)] g by (auto simp: placed_def)
qed

interpretation random_source: request_source
    "\<lambda>k. create_random_transaction (random_segs amo) (D k) (tids k) (objs k)" "sc_after D tids objs" "placed (random_segs amo)"
  for amo D tids objs
  by unfold_locales (use random_placed sc_after_placed [OF random_segs_ok] in blast)+

interpretation unique_set_source: request_source
    "\<lambda>k. unique_set_transaction (r mod of_nat HPDCACHE_SETS) unique_set_segs (D k) (tids k) (objs k)" "sc_after D tids objs"
    "\<lambda>t. placed unique_set_segs t \<and> get_cache_set t = r mod of_nat HPDCACHE_SETS"
  for r D tids objs
proof unfold_locales
  have "unat (r mod of_nat HPDCACHE_SETS :: u64) < 64" by (simp add: config unat_mod)
  then show "unique_set_transaction (r mod of_nat HPDCACHE_SETS) unique_set_segs (D k) (tids k) (objs k) = Some t \<Longrightarrow>
      placed unique_set_segs t \<and> get_cache_set t = r mod of_nat HPDCACHE_SETS" for k t
    using unique_placed by blast
  show "placed unique_set_segs t \<and> get_cache_set t = r mod of_nat HPDCACHE_SETS \<Longrightarrow> is_amo_lr t \<Longrightarrow> sc_after D tids objs t k = Some sc \<Longrightarrow>
      placed unique_set_segs sc \<and> get_cache_set sc = r mod of_nat HPDCACHE_SETS" for t k sc
    using sc_after_placed [OF unique_set_segs_ok(1)] get_cache_set_word by metis
qed

section \<open>Properties\<close>

text \<open>The draws that the distributions of a sequence allow.\<close>

definition allowed :: "(nat \<times> nat) list \<Rightarrow> (hpdcache_req_op_e \<times> nat) list \<Rightarrow> draws \<Rightarrow> bool" where
  "allowed segs op_amo d \<longleftrightarrow>
     drawn_from (d_seg d) segs \<and> drawn_from (d_op d) op_distribution \<and> drawn_from (d_op_amo d) op_amo
     \<and> drawn_from (d_wr_policy d) wr_policy_distribution \<and> unat (d_size d) \<le> LOG2_REQ_DATA_BYTES"

lemma allowed_ranges:
  "allowed random_seg_distribution op_amo d \<Longrightarrow> d_seg d < 4 \<and> unat (d_size d) \<le> 3"
  "allowed unique_set_seg_distribution op_amo d \<Longrightarrow> d_seg d < 4 \<and> unat (d_size d) \<le> 3"
  by (auto simp: allowed_def drawn_from_def random_seg_distribution_def unique_set_seg_distribution_def
      LOG2_REQ_DATA_BYTES_def REQ_DATA_BYTES_def config HPDCACHE_TEST_DEFS_LOG2_def)

text \<open>C14. With draws its distributions allow, the random sequence makes up all its requests, store-conditionals and the
requests before them included, and each is one the scoreboard can judge: it lies in one of the four segments, is aligned to
its size, stays in one word, enables exactly the bytes it accesses, and an atomic one has four or eight bytes and wants a
response.\<close>

theorem random_requests_well_formed:
  assumes "\<forall>k. allowed random_seg_distribution random_op_amo_distribution (D k)"
  shows "\<exists>ts. random_run amo D tids objs amo_sc_do inbetween n = Some ts \<and> n \<le> length ts \<and> list_all (placed (random_segs amo)) ts"
proof -
  have "length (random_segs amo) = 4" by (simp add: random_segs_def)
  then have "\<forall>k. create_random_transaction (random_segs amo) (D k) (tids k) (objs k) \<noteq> None"
    using assms allowed_ranges(1) random_returns [OF random_segs_ok] by metis
  moreover have "\<forall>t k. sc_after D tids objs t k \<noteq> None"
    using assms allowed_ranges sc_returns unfolding sc_after_def by blast
  ultimately show ?thesis using random_source.run_good unfolding random_run_def by (metis (no_types, lifting) run_lrsc_returns)
qed

text \<open>C27. The sequence over one cache set: every request it makes up, whatever is drawn, is well formed, in one of the
segments, and in the one set that was chosen at the start of the run.\<close>

theorem unique_set_requests_in_one_set:
  assumes "\<forall>k. allowed unique_set_seg_distribution unique_set_op_amo_distribution (D k)"
  shows "\<exists>ts. unique_set_run r D tids objs amo_sc_do inbetween n = Some ts \<and> n \<le> length ts
    \<and> list_all (\<lambda>t. placed unique_set_segs t \<and> get_cache_set t = r mod of_nat HPDCACHE_SETS) ts"
proof -
  have "length unique_set_segs = 4" by (simp add: unique_set_segs_def)
  then have "\<forall>k. unique_set_transaction (r mod of_nat HPDCACHE_SETS) unique_set_segs (D k) (tids k) (objs k) \<noteq> None"
    using assms allowed_ranges(2) unique_returns [OF unique_set_segs_ok(1)] by metis
  moreover have "\<forall>t k. sc_after D tids objs t k \<noteq> None"
    using assms allowed_ranges sc_returns unfolding sc_after_def by blast
  ultimately show ?thesis using unique_set_source.run_good unfolding unique_set_run_def by (metis (no_types, lifting) run_lrsc_returns)
qed

text \<open>Load-reserved requests of eight bytes.\<close>

definition sample_draws :: "nat \<Rightarrow> draws" where
  "sample_draws k = \<lparr>d_seg = 1, d_addr = 0x123, d_op = HPDCACHE_REQ_LOAD, d_op_amo = HPDCACHE_REQ_AMO_LR, d_data = of_nat k,
     d_wr_policy = HPDCACHE_WR_POLICY_WB, d_size = 3, d_need_rsp = True, d_fault_inj = False, d_fault_way = 0,
     d_fault_domain = CACHE_DAT, d_fault_double = False\<rparr>"

lemmas draw_defs = allowed_def drawn_from_def sample_draws_def op_distribution_def wr_policy_distribution_def amo_distribution_def
  LOG2_REQ_DATA_BYTES_def REQ_DATA_BYTES_def config HPDCACHE_TEST_DEFS_LOG2_def

theorem random_requests_well_formed_witness:
  "\<exists>ts. random_run True sample_draws of_nat (\<lambda>_. new_transaction_req) (\<lambda>_. True) 1 2 = Some ts \<and> 2 \<le> length ts
     \<and> list_all (placed (random_segs True)) ts"
  by (rule random_requests_well_formed) (simp add: draw_defs random_seg_distribution_def random_op_amo_distribution_def)

theorem unique_set_requests_in_one_set_witness:
  "\<exists>ts. unique_set_run 77 sample_draws of_nat (\<lambda>_. new_transaction_req) (\<lambda>_. True) 1 2 = Some ts \<and> 2 \<le> length ts
     \<and> list_all (\<lambda>t. placed unique_set_segs t \<and> get_cache_set t = 77 mod of_nat HPDCACHE_SETS) ts"
  by (rule unique_set_requests_in_one_set) (simp add: draw_defs unique_set_seg_distribution_def unique_set_op_amo_distribution_def)

end
