(* ===== verification/Qemu_Plugin.thy ===== *)
theory Qemu_Plugin
  imports Hpd_Transaction
begin

text \<open>
  The plugin that records the memory accesses of a program run under QEMU (\<open>qemu_plugin.c\<close>), as traces for the test
  bench of the HPDcache.  QEMU, the file and the compressor are outside: what a callback reads from QEMU are its
  arguments, what the plugin hands to the compressor or writes is the list \<open>out_file\<close>.  An open file takes every byte;
  a file that could not be opened refuses all.  \<open>Inl\<close> is an exit with its code; \<open>None\<close> is a run that never returns or
  has no defined behaviour.
\<close>

section \<open>The state\<close>

datatype mode_write = WRITE_BINARY | WRITE_ASCII | NO_WRITE

datatype mem_value_type =
  QEMU_PLUGIN_MEM_VALUE_U8 | QEMU_PLUGIN_MEM_VALUE_U16 | QEMU_PLUGIN_MEM_VALUE_U32 | QEMU_PLUGIN_MEM_VALUE_U64
  | QEMU_PLUGIN_MEM_VALUE_U128

text \<open>A value and its type; \<open>vdata\<close> are the first eight bytes of the union, so its smaller members are its low bytes.\<close>

record mem_value =
  vtype :: mem_value_type
  vdata :: u64

datatype flush = MZ_NO_FLUSH | MZ_FINISH

datatype file_event = Deflate flush "u8 list" | DeflateEnd | Written "u8 list" | Closed

record plugin =
  p_mode :: mode_write
  is_64_bits :: bool
  buffer_compress :: "u8 list"
  need_to_compress :: bool
  write_data_on :: bool
  file_open :: bool
  current_instruction :: int
  out_file :: "file_event list"

definition plugin_start :: plugin where
  "plugin_start = \<lparr>p_mode = WRITE_BINARY, is_64_bits = False, buffer_compress = [], need_to_compress = True, write_data_on = True,
     file_open = False, current_instruction = 0, out_file = []\<rparr>"

type_synonym run = "(nat + plugin) option"

definition then_run :: "run \<Rightarrow> (plugin \<Rightarrow> run) \<Rightarrow> run" where
  "then_run r f = Option.bind r (\<lambda>x. case x of Inl code \<Rightarrow> Some (Inl code) | Inr p \<Rightarrow> f p)"

lemma then_run_simps [simp]:
  "then_run (Some (Inr p)) f = f p" "then_run (Some (Inl c)) f = Some (Inl c)" "then_run None f = None"
  by (simp_all add: then_run_def)

section \<open>The buffer\<close>

definition SIZE_BUFFER :: nat where
  "SIZE_BUFFER = 5000"

text \<open>
  The buffer is handed over in one chunk.  The test \<open>offset < buffer_begin - 1\<close> is unsigned: with no byte in the buffer
  it always holds and the inner loop, whose output buffer is empty, never ends; with one byte nothing is handed over.
\<close>

definition compress_data_to_file :: "flush \<Rightarrow> plugin \<Rightarrow> run" where
  "compress_data_to_file last_call p =
     (let n = length (buffer_compress p)
      in if n = 0 then None
         else then_run
           (if n - 1 > 0
            then let p = p\<lparr>out_file := out_file p @ [Deflate last_call (buffer_compress p)]\<rparr>
                 in Some (if file_open p then Inr p else Inl 1)
            else Some (Inr p))
           (\<lambda>p. Some (Inr (if last_call = MZ_FINISH then p\<lparr>out_file := out_file p @ [DeflateEnd]\<rparr> else p))))"

fun buffer_bytes :: "u8 list \<Rightarrow> plugin \<Rightarrow> run" where
  "buffer_bytes [] p = Some (Inr p)"
| "buffer_bytes (b # bs) p =
     (let p = p\<lparr>buffer_compress := buffer_compress p @ [b]\<rparr>
      in then_run
           (if length (buffer_compress p) = SIZE_BUFFER
            then then_run (compress_data_to_file MZ_NO_FLUSH p) (\<lambda>p. Some (Inr (p\<lparr>buffer_compress := []\<rparr>)))
            else Some (Inr p))
           (buffer_bytes bs))"

text \<open>The write to the file answers 0 only for no bytes, and -1 when the file is not open.\<close>

definition write_buffer :: "u8 list \<Rightarrow> plugin \<Rightarrow> run" where
  "write_buffer data p =
     (if need_to_compress p then buffer_bytes data p
      else if file_open p then (if data = [] then Some (Inl 1) else Some (Inr (p\<lparr>out_file := out_file p @ [Written data]\<rparr>)))
      else Some (Inr p))"

section \<open>The fields of a record\<close>

definition write_address :: "u64 \<Rightarrow> plugin \<Rightarrow> run" where
  "write_address address p = write_buffer (if is_64_bits p then le_enc 8 address else le_enc 4 (ucast address :: u32)) p"

definition write_type_transaction :: "bool \<Rightarrow> plugin \<Rightarrow> run" where
  "write_type_transaction store p = write_buffer [if store then 1 else 0] p"

fun get_size_value :: "mem_value_type \<Rightarrow> u8" where
  "get_size_value QEMU_PLUGIN_MEM_VALUE_U8 = 0"
| "get_size_value QEMU_PLUGIN_MEM_VALUE_U16 = 1"
| "get_size_value QEMU_PLUGIN_MEM_VALUE_U32 = 2"
| "get_size_value QEMU_PLUGIN_MEM_VALUE_U64 = 3"
| "get_size_value QEMU_PLUGIN_MEM_VALUE_U128 = 4"

definition write_size :: "u8 \<Rightarrow> mem_value_type \<Rightarrow> plugin \<Rightarrow> run" where
  "write_size size_address size_value p = write_buffer [size_address OR push_bit 4 (get_size_value size_value)] p"

definition write_boolean :: "u8 \<Rightarrow> plugin \<Rightarrow> run" where
  "write_boolean value p = write_buffer [value] p"

definition write_delay :: "u8 \<Rightarrow> plugin \<Rightarrow> run" where
  "write_delay delay p = write_buffer [delay] p"

definition write_value :: "mem_value \<Rightarrow> plugin \<Rightarrow> run" where
  "write_value v p =
     (case vtype v of
        QEMU_PLUGIN_MEM_VALUE_U8 \<Rightarrow> write_buffer (le_enc 1 (vdata v)) p
      | QEMU_PLUGIN_MEM_VALUE_U16 \<Rightarrow> write_buffer (le_enc 2 (vdata v)) p
      | QEMU_PLUGIN_MEM_VALUE_U32 \<Rightarrow> write_buffer (le_enc 4 (vdata v)) p
      | QEMU_PLUGIN_MEM_VALUE_U64 \<Rightarrow> write_buffer (le_enc 8 (vdata v)) p
      | QEMU_PLUGIN_MEM_VALUE_U128 \<Rightarrow> Some (Inr p))"

definition boolean_value_and_type :: "bool \<Rightarrow> u8 \<Rightarrow> u8" where
  "boolean_value_and_type store cacheable =
     (let v = 2;
          v = (if store then (v OR push_bit 2 1) - 2 else v)
      in v OR cacheable)"

definition write_in_file :: "bool \<Rightarrow> u64 \<Rightarrow> u8 \<Rightarrow> u8 \<Rightarrow> mem_value \<Rightarrow> u8 \<Rightarrow> plugin \<Rightarrow> run" where
  "write_in_file store address sz time_elapsed v cacheable p =
     then_run (write_delay time_elapsed p) (\<lambda>p.
     then_run (write_address address p) (\<lambda>p.
     then_run (write_size sz (vtype v) p) (\<lambda>p.
     then_run (write_boolean (boolean_value_and_type store cacheable) p) (\<lambda>p.
       if store then write_value v p else Some (Inr p)))))"

section \<open>Callbacks\<close>

text \<open>What QEMU tells of an access: \<open>hwaddr\<close> is the physical address, if there is one.\<close>

record access_info =
  size_shift :: u64
  hwaddr :: "u64 option"
  access_store :: bool
  access_value :: mem_value

definition device_address :: "u64 \<Rightarrow> bool" where
  "device_address vaddr \<longleftrightarrow>
     vaddr \<ge> 0x10000000 \<and> vaddr < 0x10000100 \<or> vaddr \<ge> 0x10001000 \<and> vaddr < 0x10009000
     \<or> vaddr \<ge> 0x00100000 \<and> vaddr < 0x00102000 \<or> vaddr \<ge> 0x10100000 \<and> vaddr < 0x10100018
     \<or> vaddr \<ge> 0x02000000 \<and> vaddr < 0x02010000 \<or> vaddr \<ge> 0x0c000000 \<and> vaddr < 0x0c600000
     \<or> vaddr \<ge> 0x20000000 \<and> vaddr < 0x24000000 \<or> vaddr \<ge> 0x30000000 \<and> vaddr < 0x40000000
     \<or> vaddr \<ge> 0x04000000 \<and> vaddr < 0x06000000"

definition ascii_line :: "int \<Rightarrow> u32 \<Rightarrow> u64 \<Rightarrow> access_info \<Rightarrow> string" where
  "ascii_line instructions vcpu_index vaddr info =
     take 74 (dec_int (of_int instructions :: u32) @ '' [MEM] '' @ (if access_store info then ''store'' else ''load '')
       @ '' vcpu='' @ num_str 10 33 (unat vcpu_index) @ '' addr=0x'' @ hex vaddr @ '' size='' @ num_str 10 65 (unat (size_shift info))
       @ '' value='' @ num_str 10 65 (unat (vdata (access_value info))) @ [CHR 10])"

definition mem_cb :: "u32 \<Rightarrow> access_info \<Rightarrow> u64 \<Rightarrow> plugin \<Rightarrow> run" where
  "mem_cb vcpu_index info vaddr p =
     (let sz = size_shift info;
          vaddr' = (case hwaddr info of Some pa \<Rightarrow> pa | None \<Rightarrow> vaddr);
          uncacheable = (case hwaddr info of Some pa \<Rightarrow> (if device_address pa then 1 else 0) | None \<Rightarrow> 0)
      in if \<not> write_data_on p then Some (Inr p)
         else then_run
           (case p_mode p of
              WRITE_BINARY \<Rightarrow>
                write_in_file (access_store info) vaddr' (ucast sz) (of_int (current_instruction p)) (access_value info) uncacheable p
            | WRITE_ASCII \<Rightarrow> write_buffer (bytes_of (ascii_line (current_instruction p) vcpu_index vaddr' info)) p
            | NO_WRITE \<Rightarrow> Some (Inr p))
           (\<lambda>p. Some (Inr (p\<lparr>current_instruction := 0\<rparr>))))"

definition close_file :: "plugin \<Rightarrow> plugin" where
  "close_file p = p\<lparr>out_file := out_file p @ [Closed], file_open := False\<rparr>"

definition plugin_exit :: "plugin \<Rightarrow> run" where
  "plugin_exit p =
     then_run (if need_to_compress p then compress_data_to_file MZ_FINISH p else Some (Inr p))
       (\<lambda>p. Some (Inr (if p_mode p \<noteq> NO_WRITE then close_file p else p)))"

text \<open>The counter is an \<open>int\<close>.\<close>

definition counter_inst :: "plugin \<Rightarrow> run" where
  "counter_inst p =
     (if current_instruction p < 2 ^ 31 - 1 then Some (Inr (p\<lparr>current_instruction := current_instruction p + 1\<rparr>)) else None)"

section \<open>Installation\<close>

definition set_mode :: "string \<Rightarrow> plugin \<Rightarrow> run" where
  "set_mode arg p =
     then_run
       (case arg of
          [] \<Rightarrow> Some (Inl 1)
        | c # _ \<Rightarrow>
            if c = CHR ''0'' then Some (Inr (p\<lparr>p_mode := WRITE_BINARY\<rparr>))
            else if c = CHR ''1'' then Some (Inr (p\<lparr>p_mode := WRITE_ASCII\<rparr>))
            else if c = CHR ''2'' then Some (Inr (p\<lparr>p_mode := NO_WRITE\<rparr>)) else Some (Inl 1))
       (\<lambda>p. if length arg \<noteq> 1 then Some (Inl 1) else Some (Inr p))"

text \<open>\<open>can_open\<close> says which files can be opened; the null pointer cannot.\<close>

definition open_file :: "(string \<Rightarrow> bool) \<Rightarrow> string option \<Rightarrow> plugin \<Rightarrow> plugin" where
  "open_file can_open name p = p\<lparr>file_open := (case name of Some f \<Rightarrow> can_open f | None \<Rightarrow> False)\<rparr>"

text \<open>An option in two at the first equals sign; the second part is missing when there is none.\<close>

definition split_option :: "string \<Rightarrow> string \<times> string option" where
  "split_option opt =
     (takeWhile (\<lambda>c. c \<noteq> CHR ''='') opt,
      case dropWhile (\<lambda>c. c \<noteq> CHR ''='') opt of [] \<Rightarrow> None | _ # v \<Rightarrow> Some v)"

text \<open>An unknown option ends the installation with the answer -1.\<close>

fun parse_options :: "(string \<Rightarrow> bool) \<Rightarrow> string list \<Rightarrow> plugin \<Rightarrow> (nat + int \<times> plugin) option" where
  "parse_options can_open [] p = Some (Inr (0, p))"
| "parse_options can_open (opt # opts) p =
     (let (name, v) = split_option opt
      in if name = ''mode''
         then (case v of
                 None \<Rightarrow> None
               | Some m \<Rightarrow> (case set_mode m p of
                             None \<Rightarrow> None
                           | Some (Inl code) \<Rightarrow> Some (Inl code)
                           | Some (Inr p) \<Rightarrow> parse_options can_open opts p))
         else if name = ''ofile'' then parse_options can_open opts (open_file can_open v p)
         else if name = ''compress''
         then (case v of
                 None \<Rightarrow> None
               | Some b \<Rightarrow> parse_options can_open opts (p\<lparr>need_to_compress := (b = ''true'')\<rparr>))
         else Some (Inr (-1, p)))"

definition qemu_plugin_install :: "(string \<Rightarrow> bool) \<Rightarrow> string \<Rightarrow> string list \<Rightarrow> plugin \<Rightarrow> (nat + int \<times> plugin) option" where
  "qemu_plugin_install can_open target_name argv p =
     (if length argv \<noteq> 3 then Some (Inr (-1, p))
      else case parse_options can_open argv p of
             Some (Inr (r, p)) \<Rightarrow>
               if r = 0 then Some (Inr (0, p\<lparr>is_64_bits := (target_name = ''riscv64''), buffer_compress := []\<rparr>))
               else Some (Inr (r, p))
           | x \<Rightarrow> x)"

text \<open>What QEMU calls: an instruction is counted, or an access is recorded.\<close>

datatype plugin_call = Instruction | Access u32 access_info u64

fun plugin_step :: "plugin_call \<Rightarrow> plugin \<Rightarrow> run" where
  "plugin_step Instruction p = counter_inst p"
| "plugin_step (Access vcpu info vaddr) p = mem_cb vcpu info vaddr p"

fun plugin_run :: "plugin_call list \<Rightarrow> plugin \<Rightarrow> run" where
  "plugin_run [] p = Some (Inr p)"
| "plugin_run (c # cs) p = then_run (plugin_step c p) (plugin_run cs)"

section \<open>What has been recorded\<close>

fun deflated :: "file_event list \<Rightarrow> u8 list" where
  "deflated [] = []"
| "deflated (Deflate f bs # es) = bs @ deflated es"
| "deflated (_ # es) = deflated es"

definition collected :: "plugin \<Rightarrow> u8 list" where
  "collected p = deflated (out_file p) @ buffer_compress p"

definition recording :: "plugin \<Rightarrow> bool" where
  "recording p \<longleftrightarrow> need_to_compress p \<and> file_open p \<and> length (buffer_compress p) < SIZE_BUFFER
     \<and> (\<exists>bs. out_file p = map (Deflate MZ_NO_FLUSH) bs \<and> (\<forall>b\<in>set bs. length b = SIZE_BUFFER))"

text \<open>A run that records some bytes and changes nothing but the buffer and the file.\<close>

definition emits :: "u8 list \<Rightarrow> plugin \<Rightarrow> run \<Rightarrow> bool" where
  "emits bytes p r \<longleftrightarrow>
     (\<exists>q. r = Some (Inr q) \<and> recording q \<and> collected q = collected p @ bytes
        \<and> q = p\<lparr>buffer_compress := buffer_compress q, out_file := out_file q\<rparr>)"

lemma deflated_append [simp]: "deflated (xs @ ys) = deflated xs @ deflated ys"
  by (induction xs rule: deflated.induct) simp_all

lemma deflated_map [simp]: "deflated (map (Deflate f) bs) = concat bs"
  by (induction bs) simp_all

lemma emits_nothing: "recording p \<Longrightarrow> emits [] p (Some (Inr p))"
  by (simp add: emits_def)

lemma emits_then:
  assumes "emits xs p r"
    and "\<And>q. r = Some (Inr q) \<Longrightarrow> recording q \<Longrightarrow> q = p\<lparr>buffer_compress := buffer_compress q, out_file := out_file q\<rparr> \<Longrightarrow> emits ys q (f q)"
  shows "emits (xs @ ys) p (then_run r f)"
proof -
  obtain q where q: "r = Some (Inr q)" "recording q" "collected q = collected p @ xs"
    "q = p\<lparr>buffer_compress := buffer_compress q, out_file := out_file q\<rparr>"
    using assms(1) by (auto simp: emits_def)
  obtain q' where q': "f q = Some (Inr q')" "recording q'" "collected q' = collected q @ ys"
    "q' = q\<lparr>buffer_compress := buffer_compress q', out_file := out_file q'\<rparr>"
    using assms(2) [OF q(1,2,4)] by (auto simp: emits_def)
  have "q' = p\<lparr>buffer_compress := buffer_compress q', out_file := out_file q'\<rparr>"
    by (subst q'(4), subst q(4)) simp
  with q q' show ?thesis by (auto simp: emits_def)
qed

lemma buffer_bytes_emits: "recording p \<Longrightarrow> emits bs p (buffer_bytes bs p)"
proof (induction bs arbitrary: p)
  case Nil then show ?case by (simp add: emits_nothing)
next
  case (Cons b bs)
  let ?p = "p\<lparr>buffer_compress := buffer_compress p @ [b]\<rparr>"
  let ?r = "if length (buffer_compress ?p) = SIZE_BUFFER
    then then_run (compress_data_to_file MZ_NO_FLUSH ?p) (\<lambda>p. Some (Inr (p\<lparr>buffer_compress := []\<rparr>))) else Some (Inr ?p)"
  obtain cs where cs: "out_file p = map (Deflate MZ_NO_FLUSH) cs" "\<forall>b\<in>set cs. length b = SIZE_BUFFER"
    using Cons.prems by (auto simp: recording_def)
  have "Suc (length (buffer_compress p)) = SIZE_BUFFER \<Longrightarrow> \<exists>ds. out_file p @ [Deflate MZ_NO_FLUSH (buffer_compress p @ [b])]
      = map (Deflate MZ_NO_FLUSH) ds \<and> (\<forall>b\<in>set ds. length b = SIZE_BUFFER)"
    by (rule exI [of _ "cs @ [buffer_compress p @ [b]]"]) (use cs in auto)
  then have "emits [b] p ?r"
    using Cons.prems
    by (auto simp: emits_def recording_def collected_def compress_data_to_file_def Let_def SIZE_BUFFER_def)
  from emits_then [OF this, of bs "buffer_bytes bs"] Cons.IH show ?case by (simp add: Let_def)
qed

lemma write_buffer_emits: "recording p \<Longrightarrow> emits bs p (write_buffer bs p)"
  using buffer_bytes_emits by (simp add: write_buffer_def recording_def)

text \<open>The record of an access on a 64-bit target.\<close>

fun value_bytes :: "mem_value_type \<Rightarrow> nat" where
  "value_bytes QEMU_PLUGIN_MEM_VALUE_U8 = 1"
| "value_bytes QEMU_PLUGIN_MEM_VALUE_U16 = 2"
| "value_bytes QEMU_PLUGIN_MEM_VALUE_U32 = 4"
| "value_bytes QEMU_PLUGIN_MEM_VALUE_U64 = 8"
| "value_bytes QEMU_PLUGIN_MEM_VALUE_U128 = 0"

definition access_record :: "u8 \<Rightarrow> u64 \<Rightarrow> u8 \<Rightarrow> bool \<Rightarrow> mem_value \<Rightarrow> u8 \<Rightarrow> u8 list" where
  "access_record delay address sz store v dev =
     [delay] @ le_enc 8 address @ [sz OR push_bit 4 (get_size_value (vtype v))] @ [boolean_value_and_type store dev]
     @ (if store then le_enc (value_bytes (vtype v)) (vdata v) else [])"

lemma write_value_emits: "recording p \<Longrightarrow> emits (le_enc (value_bytes (vtype v)) (vdata v)) p (write_value v p)"
  using emits_nothing by (auto simp: write_value_def write_buffer_emits le_enc_def split: mem_value_type.split)

lemma write_in_file_emits:
  assumes "recording p" "is_64_bits p"
  shows "emits (access_record delay address sz store v dev) p (write_in_file store address sz delay v dev p)"
  unfolding access_record_def write_in_file_def
proof (rule emits_then)
  show "emits [delay] p (write_delay delay p)" using assms(1) by (simp add: write_delay_def write_buffer_emits)
next
  fix q assume q: "recording q" "q = p\<lparr>buffer_compress := buffer_compress q, out_file := out_file q\<rparr>"
  have "is_64_bits q" by (subst q(2)) (simp add: assms(2))
  then have "emits (le_enc 8 address) q (write_address address q)" using q(1) by (simp add: write_address_def write_buffer_emits)
  then show "emits (le_enc 8 address @ [sz OR push_bit 4 (get_size_value (vtype v))] @ [boolean_value_and_type store dev]
      @ (if store then le_enc (value_bytes (vtype v)) (vdata v) else [])) q
    (then_run (write_address address q) (\<lambda>p. then_run (write_size sz (vtype v) p) (\<lambda>p.
       then_run (write_boolean (boolean_value_and_type store dev) p) (\<lambda>p. if store then write_value v p else Some (Inr p)))))"
    by (intro emits_then) (simp_all add: write_size_def write_boolean_def write_buffer_emits write_value_emits emits_nothing)
qed

section \<open>A whole run\<close>

definition ready_to_record :: "plugin \<Rightarrow> bool" where
  "ready_to_record p \<longleftrightarrow> recording p \<and> p_mode p = WRITE_BINARY \<and> is_64_bits p \<and> write_data_on p \<and> 0 \<le> current_instruction p"

definition physical :: "access_info \<Rightarrow> u64 \<Rightarrow> u64" where
  "physical info vaddr = (case hwaddr info of Some pa \<Rightarrow> pa | None \<Rightarrow> vaddr)"

definition is_device :: "access_info \<Rightarrow> bool" where
  "is_device info = (case hwaddr info of Some pa \<Rightarrow> device_address pa | None \<Rightarrow> False)"

text \<open>The trace: the record of every access, with the number of instructions since the last one.\<close>

fun trace_of :: "plugin_call list \<Rightarrow> int \<Rightarrow> u8 list" where
  "trace_of [] n = []"
| "trace_of (Instruction # cs) n = trace_of cs (n + 1)"
| "trace_of (Access vcpu info vaddr # cs) n =
     access_record (of_int n) (physical info vaddr) (ucast (size_shift info)) (access_store info) (access_value info)
       (of_bool (is_device info)) @ trace_of cs 0"

lemma mem_cb_records:
  assumes "ready_to_record p"
  shows "\<exists>q. mem_cb vcpu info vaddr p = Some (Inr q) \<and> ready_to_record q \<and> current_instruction q = 0
    \<and> collected q = collected p @ trace_of [Access vcpu info vaddr] (current_instruction p)"
proof -
  have "recording p" "is_64_bits p" using assms by (simp_all add: ready_to_record_def)
  then obtain q where q: "write_in_file (access_store info) (physical info vaddr) (ucast (size_shift info))
      (of_int (current_instruction p)) (access_value info) (of_bool (is_device info)) p = Some (Inr q)" "recording q"
    "collected q = collected p @ trace_of [Access vcpu info vaddr] (current_instruction p)"
    "q = p\<lparr>buffer_compress := buffer_compress q, out_file := out_file q\<rparr>"
    using write_in_file_emits unfolding emits_def trace_of.simps append_Nil2 by blast
  have k: "p_mode q = p_mode p" "is_64_bits q = is_64_bits p" "write_data_on q = write_data_on p" by (subst q(4), simp)+
  have "mem_cb vcpu info vaddr p = Some (Inr (q\<lparr>current_instruction := 0\<rparr>))"
    using q(1) assms
    by (cases "hwaddr info") (simp_all add: mem_cb_def Let_def ready_to_record_def physical_def is_device_def of_bool_def)
  moreover have "ready_to_record (q\<lparr>current_instruction := 0\<rparr>)" using q(2) k assms
    by (simp add: ready_to_record_def recording_def)
  ultimately show ?thesis using q(3) by (simp add: collected_def)
qed

lemma plugin_run_records:
  assumes "ready_to_record p" "current_instruction p + int (length cs) < 2 ^ 31"
  shows "\<exists>q. plugin_run cs p = Some (Inr q) \<and> ready_to_record q \<and> collected q = collected p @ trace_of cs (current_instruction p)"
  using assms
proof (induction cs arbitrary: p)
  case Nil then show ?case by simp
next
  case (Cons c cs)
  show ?case
  proof (cases c)
    case Instruction
    let ?q = "p\<lparr>current_instruction := current_instruction p + 1\<rparr>"
    have "ready_to_record ?q" "current_instruction ?q + int (length cs) < 2 ^ 31"
      using Cons.prems by (simp_all add: ready_to_record_def recording_def)
    from Cons.IH [OF this] show ?thesis using Cons.prems(2) by (simp add: Instruction counter_inst_def collected_def)
  next
    case (Access vcpu info vaddr)
    obtain q where q: "mem_cb vcpu info vaddr p = Some (Inr q)" "ready_to_record q" "current_instruction q = 0"
      "collected q = collected p @ trace_of [Access vcpu info vaddr] (current_instruction p)"
      using mem_cb_records [OF Cons.prems(1)] by blast
    have "current_instruction q + int (length cs) < 2 ^ 31"
      using Cons.prems by (simp add: q(3) ready_to_record_def)
    from Cons.IH [OF q(2) this] show ?thesis using q by (auto simp: Access)
  qed
qed

lemma recording_length:
  assumes "recording p"
  shows "length (buffer_compress p) = length (collected p) mod SIZE_BUFFER"
proof -
  obtain bs where bs: "out_file p = map (Deflate MZ_NO_FLUSH) bs" "\<forall>b\<in>set bs. length b = SIZE_BUFFER"
    using assms by (auto simp: recording_def)
  from bs(2) have "length (concat bs) = length bs * SIZE_BUFFER" by (induction bs) simp_all
  then show ?thesis using assms bs(1) by (simp add: collected_def recording_def)
qed

lemma parse_options_keeps:
  "parse_options can_open opts p = Some (Inr (r, q)) \<Longrightarrow>
     out_file q = out_file p \<and> write_data_on q = write_data_on p \<and> current_instruction q = current_instruction p"
proof (induction can_open opts p rule: parse_options.induct)
  case (2 can_open opt opts p)
  have m: "set_mode m p = Some (Inr p') \<Longrightarrow> out_file p' = out_file p \<and> write_data_on p' = write_data_on p
      \<and> current_instruction p' = current_instruction p" for m p'
    by (auto simp: set_mode_def split: list.splits if_splits)
  show ?case using 2 m
    by (fastforce simp: open_file_def split: prod.splits if_splits option.splits sum.splits)
qed simp

lemma install_ready:
  assumes "qemu_plugin_install can_open ''riscv64'' argv plugin_start = Some (Inr (0, p))"
    and "p_mode p = WRITE_BINARY" "need_to_compress p" "file_open p"
  shows "ready_to_record p \<and> collected p = [] \<and> current_instruction p = 0"
proof -
  obtain q where q: "parse_options can_open argv plugin_start = Some (Inr (0, q))"
    "p = q\<lparr>is_64_bits := True, buffer_compress := []\<rparr>"
    using assms(1) by (auto simp: qemu_plugin_install_def split: if_splits option.splits sum.splits)
  have "out_file p = []" "write_data_on p" "current_instruction p = 0" "buffer_compress p = []" "is_64_bits p"
    using parse_options_keeps [OF q(1)] by (simp_all add: q(2) plugin_start_def)
  then show ?thesis using assms by (simp add: ready_to_record_def recording_def collected_def SIZE_BUFFER_def)
qed

lemma plugin_exit_ready:
  assumes "ready_to_record q"
  shows "\<exists>bs. out_file q = map (Deflate MZ_NO_FLUSH) bs \<and>
    plugin_exit q =
      (if buffer_compress q = [] then None
       else Some (Inr (q\<lparr>file_open := False, out_file := map (Deflate MZ_NO_FLUSH) bs
              @ (if length (buffer_compress q) = 1 then [] else [Deflate MZ_FINISH (buffer_compress q)]) @ [DeflateEnd, Closed]\<rparr>)))"
proof -
  obtain bs where bs: "out_file q = map (Deflate MZ_NO_FLUSH) bs" "need_to_compress q" "file_open q" "p_mode q = WRITE_BINARY"
    using assms by (auto simp: ready_to_record_def recording_def)
  then show ?thesis
    by (cases "buffer_compress q") (auto simp: plugin_exit_def compress_data_to_file_def Let_def close_file_def)
qed

section \<open>Properties\<close>

text \<open>C24. A recorded run of a 64-bit program, from the installation in binary compressed mode to the exit: the plugin hands
the record of every access to the compressor, once and in order, full buffers first and the rest with the request to
finish, then ends the stream and closes the file.  That is so unless the length of the trace is 0 or 1 modulo the buffer:
with 1 the last byte is lost and the stream is never finished, with 0 the exit does not return.\<close>

theorem trace_recorded:
  assumes "qemu_plugin_install can_open ''riscv64'' argv plugin_start = Some (Inr (0, p))"
    and "p_mode p = WRITE_BINARY" "need_to_compress p" "file_open p" "length cs < 2 ^ 31"
  shows "if length (trace_of cs 0) mod SIZE_BUFFER = 0 then then_run (plugin_run cs p) plugin_exit = None
    else \<exists>q bs b. then_run (plugin_run cs p) plugin_exit = Some (Inr q) \<and> concat bs @ b = trace_of cs 0
      \<and> length b = length (trace_of cs 0) mod SIZE_BUFFER
      \<and> out_file q = map (Deflate MZ_NO_FLUSH) bs @ (if length b = 1 then [] else [Deflate MZ_FINISH b]) @ [DeflateEnd, Closed]"
proof -
  have p: "ready_to_record p" "collected p = []" "current_instruction p = 0"
    using install_ready [OF assms(1-4)] by simp_all
  then obtain q where q: "plugin_run cs p = Some (Inr q)" "ready_to_record q" "collected q = trace_of cs 0"
    using plugin_run_records [OF p(1), of cs] assms(5) by auto
  have len: "length (buffer_compress q) = length (trace_of cs 0) mod SIZE_BUFFER"
    using q(2,3) recording_length [of q] by (simp add: ready_to_record_def)
  obtain bs where bs: "out_file q = map (Deflate MZ_NO_FLUSH) bs" "plugin_exit q =
      (if buffer_compress q = [] then None
       else Some (Inr (q\<lparr>file_open := False, out_file := map (Deflate MZ_NO_FLUSH) bs
              @ (if length (buffer_compress q) = 1 then [] else [Deflate MZ_FINISH (buffer_compress q)]) @ [DeflateEnd, Closed]\<rparr>)))"
    using plugin_exit_ready [OF q(2)] by blast
  show ?thesis
  proof (cases "buffer_compress q = []")
    case True then show ?thesis using q bs(2) len by simp
  next
    case False
    then have "length (trace_of cs 0) mod SIZE_BUFFER \<noteq> 0" using len by (metis length_0_conv)
    moreover have "concat bs @ buffer_compress q = trace_of cs 0" using q(3) bs(1) by (simp add: collected_def)
    moreover obtain q' where "plugin_exit q = Some (Inr q')" "out_file q' = map (Deflate MZ_NO_FLUSH) bs
        @ (if length (buffer_compress q) = 1 then [] else [Deflate MZ_FINISH (buffer_compress q)]) @ [DeflateEnd, Closed]"
      using bs(2) False by simp
    ultimately show ?thesis using q(1) len
      by (simp only: if_False then_run_simps) (intro exI [of _ q'] exI [of _ bs] exI [of _ "buffer_compress q"], simp)
  qed
qed

text \<open>A load, an instruction, and a store of four bytes to the serial port.\<close>

definition sample_options :: "string list" where
  "sample_options = [''mode=0'', ''ofile=t'', ''compress=true'']"

definition sample_plugin :: plugin where
  "sample_plugin = plugin_start\<lparr>p_mode := WRITE_BINARY, is_64_bits := True, file_open := True\<rparr>"

definition sample_load :: access_info where
  "sample_load = \<lparr>size_shift = 3, hwaddr = None, access_store = False, access_value = \<lparr>vtype = QEMU_PLUGIN_MEM_VALUE_U64, vdata = 7\<rparr>\<rparr>"

definition sample_store :: access_info where
  "sample_store = \<lparr>size_shift = 2, hwaddr = Some 0x10000000, access_store = True,
     access_value = \<lparr>vtype = QEMU_PLUGIN_MEM_VALUE_U32, vdata = 0x01020304\<rparr>\<rparr>"

definition sample_calls :: "plugin_call list" where
  "sample_calls = [Access 0 sample_load 0x80000000, Instruction, Access 0 sample_store 0x10000000]"

lemma sample_install: "qemu_plugin_install (\<lambda>_. True) ''riscv64'' sample_options plugin_start = Some (Inr (0, sample_plugin))"
  by (simp add: qemu_plugin_install_def sample_options_def split_option_def set_mode_def open_file_def plugin_start_def sample_plugin_def)

lemma sample_trace: "length (trace_of sample_calls 0) = 26"
  by (simp add: sample_calls_def sample_load_def sample_store_def access_record_def)

theorem trace_recorded_witness:
  "\<exists>q bs b. then_run (plugin_run sample_calls sample_plugin) plugin_exit = Some (Inr q) \<and> concat bs @ b = trace_of sample_calls 0
      \<and> length b = 26 \<and> out_file q = map (Deflate MZ_NO_FLUSH) bs @ [Deflate MZ_FINISH b, DeflateEnd, Closed]"
proof -
  have "p_mode sample_plugin = WRITE_BINARY" "need_to_compress sample_plugin" "file_open sample_plugin" "length sample_calls < 2 ^ 31"
    by (simp_all add: sample_plugin_def plugin_start_def sample_calls_def)
  from trace_recorded [OF sample_install this] show ?thesis
    by (auto simp: sample_trace SIZE_BUFFER_def)
qed

end
