(* ===== verification/Hpd_Trace.thy ===== *)
theory Hpd_Trace
  imports Hpd_Transaction
begin

text \<open>
  Traces of the HPDcache test bench: the reader and the writer of \<open>hpdcache_test_trace_manager.h\<close> and the sequence that
  replays a trace (\<open>hpdcache_test_from_trace_seq.h\<close>).  The decompressor is a library: what it delivers, call by call, is
  the field \<open>chunks\<close>, with a flag for the end of the stream.  \<open>None\<close> is undefined behaviour: a use of the stream
  after its end, or an access outside the buffer.
\<close>

section \<open>The reader\<close>

definition MAX_SIZE_BUFFER :: nat where
  "MAX_SIZE_BUFFER = 5000000"

record trace_reader =
  tr_buf :: "nat \<Rightarrow> u8"
  end_buffer :: nat
  read_buffer :: nat
  bool_finish :: bool
  chunks :: "(u8 list \<times> bool) list"

definition init_buf :: "trace_reader \<Rightarrow> trace_reader" where
  "init_buf r = r\<lparr>end_buffer := MAX_SIZE_BUFFER, read_buffer := MAX_SIZE_BUFFER\<rparr>"

definition new_trace_reader :: "(nat \<Rightarrow> u8) \<Rightarrow> (u8 list \<times> bool) list \<Rightarrow> trace_reader" where
  "new_trace_reader buf cs = init_buf \<lparr>tr_buf = buf, end_buffer = 0, read_buffer = 0, bool_finish = False, chunks = cs\<rparr>"

definition decompress_data_from_trace :: "trace_reader \<Rightarrow> trace_reader option" where
  "decompress_data_from_trace r =
     (if bool_finish r then None
      else case chunks r of
             [] \<Rightarrow> None
           | (c, finish) # cs \<Rightarrow>
               if end_buffer r + length c \<le> 20 * MAX_SIZE_BUFFER
               then Some (r\<lparr>tr_buf := (\<lambda>i. if end_buffer r \<le> i \<and> i < end_buffer r + length c then c ! (i - end_buffer r) else tr_buf r i),
                            end_buffer := end_buffer r + length c, bool_finish := finish, chunks := cs\<rparr>)
               else None)"

fun get_content_of_trace :: "nat \<Rightarrow> trace_reader \<Rightarrow> (u8 list \<times> trace_reader) option" where
  "get_content_of_trace 0 r = Some ([], r)"
| "get_content_of_trace (Suc n) r = do {
     r \<leftarrow> (if read_buffer r = end_buffer r then decompress_data_from_trace (r\<lparr>end_buffer := 0, read_buffer := 0\<rparr>) else Some r);
     if read_buffer r < 20 * MAX_SIZE_BUFFER then do {
       let b = tr_buf r (read_buffer r);
       (bs, r) \<leftarrow> get_content_of_trace n (r\<lparr>read_buffer := read_buffer r + 1\<rparr>);
       Some (b # bs, r)
     } else None
   }"

definition is_finish :: "trace_reader \<Rightarrow> bool" where
  "is_finish r \<longleftrightarrow> end_buffer r \<le> read_buffer r \<and> bool_finish r"

definition read_address :: "trace_reader \<Rightarrow> (u64 \<times> trace_reader) option" where
  "read_address r = map_option (\<lambda>(bs, r). (le_dec bs, r)) (get_content_of_trace 8 r)"

text \<open>A \<open>char\<close> read through a pointer to \<open>unsigned\<close>: \<open>junk\<close> are the three bytes beside it.\<close>

definition char_as_unsigned :: "24 word \<Rightarrow> u8 \<Rightarrow> u32" where
  "char_as_unsigned junk c = ucast c OR push_bit 8 (ucast junk)"

definition read_type_transaction :: "24 word \<Rightarrow> trace_reader \<Rightarrow> (u32 \<times> trace_reader) option" where
  "read_type_transaction junk r = map_option (\<lambda>(bs, r). (char_as_unsigned junk (hd bs), r)) (get_content_of_trace 1 r)"

text \<open>A \<open>char\<close> is signed.\<close>

definition read_size :: "24 word \<Rightarrow> trace_reader \<Rightarrow> (u32 \<times> u8 \<times> trace_reader) option" where
  "read_size junk r = do {
     (bs, r) \<leftarrow> get_content_of_trace 1 r;
     let result = hd bs;
     let size_value = signed_drop_bit 4 result;
     let result = push_bit 4 result;
     let result = signed_drop_bit 4 result;
     Some (char_as_unsigned junk result, size_value, r)
   }"

definition get_bit :: "u8 \<Rightarrow> nat \<Rightarrow> bool" where
  "get_bit to_read position =
     (let to_read = push_bit (8 - position) to_read;
          to_read = signed_drop_bit 7 to_read
      in to_read AND 1 \<noteq> 0)"

definition read_boolean_and_type :: "transaction_req \<Rightarrow> trace_reader \<Rightarrow> (transaction_req \<times> trace_reader) option" where
  "read_boolean_and_type t r = do {
     (bs, r) \<leftarrow> get_content_of_trace 1 r;
     let tmp = hd bs;
     let type_operation = drop_bit 2 tmp;
     Some (t\<lparr>req_op := ucast type_operation, req_need_rsp := get_bit tmp 2, req_uncacheable := get_bit tmp 1,
             req_phys_indexed := True, req_io := get_bit tmp 1, req_abort := False\<rparr>, r)
   }"

text \<open>\<open>big_endian\<close> is the byte order of the host, \<open>None\<close> the exit.\<close>

definition get_address :: "bool \<Rightarrow> u8 \<Rightarrow> u64 \<Rightarrow> u64 option" where
  "get_address big_endian sz address_on_real_computer =
     (let sz = push_bit 2 sz
      in if unat sz > HPDCACHE_REQ_DATA_WIDTH then None
         else Some (if \<not> big_endian then address_on_real_computer + of_nat HPDCACHE_REQ_DATA_WIDTH - ucast sz
                    else address_on_real_computer))"

definition read_value :: "u8 \<Rightarrow> transaction_req \<Rightarrow> trace_reader \<Rightarrow> (transaction_req \<times> trace_reader) option" where
  "read_value size_value_store t r =
     (let take_bytes = (\<lambda>n. map_option (\<lambda>(bs, r). (t\<lparr>req_wdata := le_dec bs\<rparr>, r)) (get_content_of_trace n r))
      in if size_value_store = 0 then take_bytes 1
         else if size_value_store = 1 then take_bytes 2
         else if size_value_store = 2 then take_bytes 4
         else if size_value_store = 3 then take_bytes 8
         else if size_value_store = 4 then take_bytes 8
         else Some (t, r))"

definition read_delay :: "trace_reader \<Rightarrow> (u8 \<times> trace_reader) option" where
  "read_delay r = map_option (\<lambda>(bs, r). (hd bs, r)) (get_content_of_trace 1 r)"

definition read_transaction :: "24 word \<Rightarrow> transaction_req \<Rightarrow> trace_reader \<Rightarrow> (u8 \<times> transaction_req \<times> trace_reader) option" where
  "read_transaction junk t r = do {
     (delay, r) \<leftarrow> read_delay r;
     (a, r) \<leftarrow> read_address r;
     let t = t\<lparr>req_addr := ucast a\<rparr>;
     (sz, size_value_store, r) \<leftarrow> read_size junk r;
     let t = t\<lparr>req_size := ucast sz\<rparr>;
     (t, r) \<leftarrow> read_boolean_and_type t r;
     (t, r) \<leftarrow> (if unat (req_op t) = op_code HPDCACHE_REQ_STORE then read_value size_value_store t r else Some (t, r));
     Some (delay, t, r)
   }"

section \<open>The replay\<close>

text \<open>
  The loop of \<open>run\<close> from transaction \<open>n\<close> on.  \<open>objs\<close> are the objects taken from the pool, whose fields keep what
  they held, \<open>tids\<close> the identifiers: both are what the operations of the sequence answer.
\<close>

function trace_run :: "(nat \<Rightarrow> transaction_req) \<Rightarrow> (nat \<Rightarrow> 6 word) \<Rightarrow> (nat \<Rightarrow> 24 word) \<Rightarrow> nat \<Rightarrow> nat \<Rightarrow> trace_reader \<Rightarrow>
    ((u8 \<times> transaction_req) list) option" where
  "trace_run objs tids junk max_transactions n r =
     (if \<not> is_finish r \<and> n < max_transactions
      then do {
        (delay, t, r) \<leftarrow> read_transaction (junk n) ((objs n)\<lparr>req_tid := tids n\<rparr>) r;
        sent \<leftarrow> trace_run objs tids junk max_transactions (n + 1) r;
        Some ((delay, t) # sent)
      }
      else Some [])"
  by pat_completeness auto

termination by (relation "measure (\<lambda>(_, _, _, m, n, _). m - n)") auto

declare trace_run.simps [simp del]

section \<open>The writer\<close>

definition construct_bool_in_one_byte :: "bool \<Rightarrow> u32 \<Rightarrow> u32" where
  "construct_bool_in_one_byte to_add result =
     (let result = push_bit 1 result in if to_add then result OR 1 else result)"

definition trace_boolean :: "transaction_req \<Rightarrow> u32" where
  "trace_boolean t =
     (let v = 0;
          v = construct_bool_in_one_byte (req_need_rsp t) v;
          v = construct_bool_in_one_byte (req_phys_indexed t) v;
          v = construct_bool_in_one_byte (req_uncacheable t) v;
          v = construct_bool_in_one_byte (req_io t) v
      in construct_bool_in_one_byte (req_abort t) v)"

definition write_in_trace :: "transaction_req \<Rightarrow> u32 \<Rightarrow> u8 list" where
  "write_in_trace t delay =
     le_enc 4 delay @ le_enc 8 (ucast (req_addr t) :: u64) @ le_enc 1 (ucast (req_op t) :: u32)
     @ le_enc 1 (ucast (req_size t) :: u32) @ le_enc 1 (trace_boolean t)"

section \<open>The reader sees a stream of bytes\<close>

text \<open>Deliveries that fit the buffer, none of them empty, the last one with the flag for the end.\<close>

fun delivers :: "bool \<Rightarrow> (u8 list \<times> bool) list \<Rightarrow> bool" where
  "delivers True cs = (cs = [])"
| "delivers False [] = False"
| "delivers False ((c, f) # cs) = (c \<noteq> [] \<and> length c \<le> 20 * MAX_SIZE_BUFFER \<and> delivers f cs)"

definition reader_ok :: "trace_reader \<Rightarrow> bool" where
  "reader_ok r \<longleftrightarrow> read_buffer r \<le> end_buffer r \<and> end_buffer r \<le> 20 * MAX_SIZE_BUFFER \<and> delivers (bool_finish r) (chunks r)"

definition pending :: "trace_reader \<Rightarrow> u8 list" where
  "pending r = map (tr_buf r) [read_buffer r..<end_buffer r] @ concat (map fst (chunks r))"

lemma new_reader_ok: "delivers False cs \<Longrightarrow> reader_ok (new_trace_reader b cs)"
  by (simp add: reader_ok_def new_trace_reader_def init_buf_def)

lemma new_reader_pending: "pending (new_trace_reader b cs) = concat (map fst cs)"
  by (simp add: pending_def new_trace_reader_def init_buf_def)

lemma not_finished:
  assumes "reader_ok r" "\<not> bool_finish r"
  shows "\<exists>c f cs. chunks r = (c, f) # cs \<and> c \<noteq> [] \<and> length c \<le> 20 * MAX_SIZE_BUFFER \<and> delivers f cs"
proof (cases "chunks r")
  case Nil then show ?thesis using assms by (simp add: reader_ok_def)
next
  case (Cons a cs) then show ?thesis using assms by (cases a) (simp add: reader_ok_def)
qed

lemma is_finish_pending:
  assumes "reader_ok r"
  shows "is_finish r \<longleftrightarrow> pending r = []"
proof (cases "bool_finish r")
  case True then show ?thesis using assms by (auto simp: is_finish_def pending_def reader_ok_def)
next
  case False
  then obtain c f cs where "chunks r = (c, f) # cs" "c \<noteq> []" using assms not_finished by blast
  then show ?thesis using False by (simp add: is_finish_def pending_def)
qed

text \<open>Before a byte is taken the buffer is filled if it has been used up.\<close>

lemma fill_buffer:
  assumes "reader_ok r" "pending r \<noteq> []"
  shows "\<exists>r'. (if read_buffer r = end_buffer r then decompress_data_from_trace (r\<lparr>end_buffer := 0, read_buffer := 0\<rparr>) else Some r) = Some r'
    \<and> reader_ok r' \<and> pending r' = pending r \<and> read_buffer r' < end_buffer r'"
proof (cases "read_buffer r = end_buffer r")
  case False then show ?thesis using assms by (simp add: reader_ok_def)
next
  case True
  then have "\<not> bool_finish r" using assms(2) is_finish_pending [OF assms(1)] by (simp add: is_finish_def)
  with not_finished [OF assms(1)] obtain c f cs where c: "chunks r = (c, f) # cs"
    and ok: "\<not> bool_finish r" "c \<noteq> []" "length c \<le> 20 * MAX_SIZE_BUFFER" "delivers f cs"
    by blast
  let ?b = "\<lambda>i. if i < length c then c ! i else tr_buf r i"
  have "map ?b [0..<length c] = c" by (rule nth_equalityI) simp_all
  then show ?thesis using ok True
    by (simp add: decompress_data_from_trace_def c reader_ok_def pending_def cong: if_cong del: upt_conv_Cons)
qed

lemma get_content_takes:
  assumes "reader_ok r" "n \<le> length (pending r)"
  shows "\<exists>r'. get_content_of_trace n r = Some (take n (pending r), r') \<and> reader_ok r' \<and> pending r' = drop n (pending r)"
  using assms
proof (induction n arbitrary: r)
  case 0 then show ?case by simp
next
  case (Suc n)
  then have "pending r \<noteq> []" by auto
  from fill_buffer [OF Suc.prems(1) this] obtain r1 where
    r1: "(if read_buffer r = end_buffer r then decompress_data_from_trace (r\<lparr>end_buffer := 0, read_buffer := 0\<rparr>) else Some r) = Some r1"
    "reader_ok r1" "pending r1 = pending r" "read_buffer r1 < end_buffer r1"
    by blast
  let ?r2 = "r1\<lparr>read_buffer := read_buffer r1 + 1\<rparr>"
  have p: "pending r = tr_buf r1 (read_buffer r1) # pending ?r2"
    using r1(3,4) by (simp add: pending_def upt_conv_Cons [of "read_buffer r1"])
  have "reader_ok ?r2" using r1(2,4) by (simp add: reader_ok_def)
  moreover have "n \<le> length (pending ?r2)" using Suc.prems(2) p by simp
  ultimately obtain r3 where "get_content_of_trace n ?r2 = Some (take n (pending ?r2), r3)" "reader_ok r3"
    "pending r3 = drop n (pending ?r2)"
    using Suc.IH by blast
  moreover have "read_buffer r1 < 20 * MAX_SIZE_BUFFER" using r1(2,4) by (simp add: reader_ok_def)
  ultimately show ?case using r1(1) p by simp
qed

declare get_content_of_trace.simps [simp del]

lemma get_content_prefix:
  assumes "reader_ok r" "pending r = xs @ ys" "length xs = n"
  obtains r' where "get_content_of_trace n r = Some (xs, r')" "reader_ok r'" "pending r' = ys"
  using get_content_takes [OF assms(1), of n] assms(2,3) by auto

section \<open>The fields of a record\<close>

lemma get_bit_bit: "1 \<le> n \<Longrightarrow> n \<le> 8 \<Longrightarrow> get_bit c n \<longleftrightarrow> bit c (n - 1)"
  by (simp add: get_bit_def Let_def and_one_eq mod_2_eq_odd flip: bit_0) (auto simp: bit_simps bit_signed_drop_bit_iff)

text \<open>The bytes beside the \<open>char\<close> do not matter: the field has three bits.\<close>

lemma size_field: "(ucast (char_as_unsigned junk (signed_drop_bit 4 (push_bit 4 c))) :: 3 word) = ucast c"
  by (rule bit_word_eqI) (auto simp: char_as_unsigned_def bit_simps bit_signed_drop_bit_iff)

definition value_len :: "u8 \<Rightarrow> nat" where
  "value_len k = (if k = 0 then 1 else if k = 1 then 2 else if k = 2 then 4 else if k = 3 then 8 else if k = 4 then 8 else 0)"

text \<open>The transaction a record stands for: the other fields keep what the object held.\<close>

definition recorded_transaction :: "u64 \<Rightarrow> u8 \<Rightarrow> u8 \<Rightarrow> u8 list \<Rightarrow> transaction_req \<Rightarrow> transaction_req" where
  "recorded_transaction a sz b v t =
     t\<lparr>req_addr := ucast a, req_size := ucast sz, req_op := ucast (drop_bit 2 b), req_need_rsp := bit b 1,
       req_uncacheable := bit b 0, req_phys_indexed := True, req_io := bit b 0, req_abort := False,
       req_wdata := (if v = [] then req_wdata t else le_dec v)\<rparr>"

definition is_store_byte :: "u8 \<Rightarrow> bool" where
  "is_store_byte b \<longleftrightarrow> unat (ucast (drop_bit 2 b) :: 5 word) = op_code HPDCACHE_REQ_STORE"

lemma read_value_prefix:
  assumes "reader_ok r" "pending r = v @ rest" "length v = value_len k"
  obtains r' where "read_value k t r = Some (if v = [] then t else t\<lparr>req_wdata := le_dec v\<rparr>, r')" "reader_ok r'" "pending r' = rest"
proof (cases "value_len k = 0")
  case True
  then have "read_value k t r = Some (t, r)" "v = []" using assms(3) by (auto simp: read_value_def value_len_def Let_def split: if_splits)
  then show ?thesis using that [of r] assms by simp
next
  case False
  obtain r' where r': "get_content_of_trace (value_len k) r = Some (v, r')" "reader_ok r'" "pending r' = rest"
    using get_content_prefix [OF assms] .
  have "v \<noteq> []" using False assms(3) by auto
  moreover have "read_value k t r = map_option (\<lambda>(bs, r). (t\<lparr>req_wdata := le_dec bs\<rparr>, r)) (get_content_of_trace (value_len k) r)"
    using False by (simp add: read_value_def value_len_def Let_def split: if_splits)
  ultimately show ?thesis using r' that [of r'] by simp
qed

lemma read_transaction_record:
  assumes "reader_ok r" "pending r = [d] @ le_enc 8 a @ [sz] @ [b] @ v @ rest"
    and "length v = (if is_store_byte b then value_len (signed_drop_bit 4 sz) else 0)"
  obtains r' where "read_transaction junk t r = Some (d, recorded_transaction a sz b v t, r')" "reader_ok r'" "pending r' = rest"
proof -
  obtain r1 where r1: "get_content_of_trace 1 r = Some ([d], r1)" "reader_ok r1" "pending r1 = le_enc 8 a @ [sz] @ [b] @ v @ rest"
    using get_content_prefix [OF assms(1,2), of 1] by auto
  obtain r2 where r2: "get_content_of_trace 8 r1 = Some (le_enc 8 a, r2)" "reader_ok r2" "pending r2 = [sz] @ [b] @ v @ rest"
    using get_content_prefix [OF r1(2,3), of 8] by auto
  obtain r3 where r3: "get_content_of_trace 1 r2 = Some ([sz], r3)" "reader_ok r3" "pending r3 = [b] @ v @ rest"
    using get_content_prefix [OF r2(2,3), of 1] by auto
  obtain r4 where r4: "get_content_of_trace 1 r3 = Some ([b], r4)" "reader_ok r4" "pending r4 = v @ rest"
    using get_content_prefix [OF r3(2,3), of 1] by auto
  have a: "le_dec (le_enc 8 a) = a" by (rule le_dec_enc) simp
  let ?t = "(t\<lparr>req_addr := ucast a, req_size := ucast sz\<rparr>)\<lparr>req_op := ucast (drop_bit 2 b), req_need_rsp := get_bit b 2,
    req_uncacheable := get_bit b 1, req_phys_indexed := True, req_io := get_bit b 1, req_abort := False\<rparr>"
  have step: "read_transaction junk t r =
      Option.bind (if is_store_byte b then read_value (signed_drop_bit 4 sz) ?t r4 else Some (?t, r4)) (\<lambda>(t, r). Some (d, t, r))"
    by (simp add: read_transaction_def read_delay_def read_address_def read_size_def read_boolean_and_type_def Let_def
        r1(1) r2(1) r3(1) r4(1) a size_field is_store_byte_def del: One_nat_def)
  have t: "recorded_transaction a sz b v t = (if v = [] then ?t else ?t\<lparr>req_wdata := le_dec v\<rparr>)"
    by (simp add: recorded_transaction_def get_bit_bit)
  show ?thesis
  proof (cases "is_store_byte b")
    case True
    with assms(3) obtain r5 where "read_value (signed_drop_bit 4 sz) ?t r4 = Some (if v = [] then ?t else ?t\<lparr>req_wdata := le_dec v\<rparr>, r5)"
      "reader_ok r5" "pending r5 = rest"
      using read_value_prefix [OF r4(2,3)] by (metis (no_types, lifting))
    then show ?thesis using that [of r5] step True t by simp
  next
    case False
    then show ?thesis using that [of r4] step t r4 assms(3) by simp
  qed
qed

lemma read_transaction_be: "read_transaction junk t r = Some (d, t', r') \<Longrightarrow> req_be t' = req_be t"
  by (auto simp: read_transaction_def read_boolean_and_type_def read_value_def Let_def bind_eq_Some_conv split: if_splits)

section \<open>The writer's format\<close>

text \<open>What the writer puts first, as the reader takes it apart: the delay has four bytes, and the reader expects one.\<close>

lemma written_as_read:
  "write_in_trace t delay =
     [ucast delay] @ le_enc 8 (ucast (drop_bit 8 delay) OR push_bit 24 (ucast (req_addr t)) :: u64)
     @ [ucast (drop_bit 40 (req_addr t))] @ [ucast (drop_bit 48 (req_addr t))] @ []
     @ [0, ucast (req_op t), ucast (req_size t), ucast (trace_boolean t)]"
proof -
  have "(ucast (ucast (drop_bit 8 delay) OR push_bit 24 (ucast a :: u64)) :: u8) = ucast (drop_bit 8 delay)"
    "(ucast (drop_bit 8 (ucast (drop_bit 8 delay) OR push_bit 24 (ucast a :: u64))) :: u8) = ucast (drop_bit 16 delay)"
    "(ucast (drop_bit 16 (ucast (drop_bit 8 delay) OR push_bit 24 (ucast a :: u64))) :: u8) = ucast (drop_bit 24 delay)"
    "(ucast (drop_bit 24 (ucast (drop_bit 8 delay) OR push_bit 24 (ucast a :: u64))) :: u8) = ucast a"
    "(ucast (drop_bit 32 (ucast (drop_bit 8 delay) OR push_bit 24 (ucast a :: u64))) :: u8) = ucast (drop_bit 8 a)"
    "(ucast (drop_bit 40 (ucast (drop_bit 8 delay) OR push_bit 24 (ucast a :: u64))) :: u8) = ucast (drop_bit 16 a)"
    "(ucast (drop_bit 48 (ucast (drop_bit 8 delay) OR push_bit 24 (ucast a :: u64))) :: u8) = ucast (drop_bit 24 a)"
    "(ucast (drop_bit 56 (ucast (drop_bit 8 delay) OR push_bit 24 (ucast a :: u64))) :: u8) = ucast (drop_bit 32 a)"
    "(ucast (drop_bit 56 (ucast a :: u64)) :: u8) = 0" for a :: "49 word"
    by (rule bit_word_eqI, auto simp: bit_simps dest: bit_imp_le_length)+
  then show ?thesis
    by (simp add: write_in_trace_def le_enc_def upt_rec drop_bit_ucast_byte)
      (auto intro!: bit_word_eqI simp: bit_simps)
qed

section \<open>Properties\<close>



end
