(* ===== verification/Trace_Replay.thy ===== *)
theory Trace_Replay
  imports Qemu_Plugin Hpd_Trace Hpd_Driver
begin

text \<open>
  The two ends of a trace together: the records that the plugin writes (Qemu_Plugin) as the test bench reads them
  (Hpd_Trace).
\<close>

section \<open>What a recorded access becomes\<close>

definition replayed_access :: "access_info \<Rightarrow> u64 \<Rightarrow> transaction_req \<Rightarrow> transaction_req" where
  "replayed_access info vaddr t =
     t\<lparr>req_addr := ucast (physical info vaddr), req_size := ucast (size_shift info),
       req_op := (if access_store info then 1 else 0), req_need_rsp := (\<not> access_store info),
       req_uncacheable := is_device info, req_phys_indexed := True, req_io := is_device info, req_abort := False,
       req_wdata := (if access_store info then take_bit (8 * value_bytes (vtype (access_value info))) (vdata (access_value info))
                     else req_wdata t)\<rparr>"

text \<open>The replay of a run: access number \<open>n\<close> goes into object \<open>n\<close>, after the delay that was counted.\<close>

fun replayed :: "(nat \<Rightarrow> transaction_req) \<Rightarrow> (nat \<Rightarrow> 6 word) \<Rightarrow> plugin_call list \<Rightarrow> int \<Rightarrow> nat \<Rightarrow> (u8 \<times> transaction_req) list" where
  "replayed objs tids [] k n = []"
| "replayed objs tids (Instruction # cs) k n = replayed objs tids cs (k + 1) n"
| "replayed objs tids (Access vcpu info vaddr # cs) k n =
     (of_int k, replayed_access info vaddr ((objs n)\<lparr>req_tid := tids n\<rparr>)) # replayed objs tids cs 0 (Suc n)"

text \<open>Accesses a trace can hold: a size that fits its four bits, and a stored value of at most eight bytes.\<close>

fun traceable :: "plugin_call \<Rightarrow> bool" where
  "traceable Instruction = True"
| "traceable (Access vcpu info vaddr) \<longleftrightarrow>
     size_shift info < 16 \<and> (access_store info \<longrightarrow> vtype (access_value info) \<noteq> QEMU_PLUGIN_MEM_VALUE_U128)"

section \<open>The bytes of a record\<close>

lemma boolean_byte:
  "is_store_byte (boolean_value_and_type store (of_bool dev)) = store"
  "(ucast (drop_bit 2 (boolean_value_and_type store (of_bool dev))) :: 5 word) = (if store then 1 else 0)"
  "bit (boolean_value_and_type store (of_bool dev)) 1 = (\<not> store)"
  "bit (boolean_value_and_type store (of_bool dev)) 0 = dev"
  by (cases store; cases dev; simp add: boolean_value_and_type_def is_store_byte_def Let_def)+

lemma size_byte:
  assumes "sz < (16 :: u64)"
  shows "signed_drop_bit 4 (ucast sz OR push_bit 4 (get_size_value ty)) = get_size_value ty"
    and "(ucast ((ucast sz :: u8) OR push_bit 4 (get_size_value ty)) :: 3 word) = ucast sz"
proof -
  have low: "bit sz j \<Longrightarrow> j < 4" for j
  proof -
    have "take_bit 4 sz = sz" using assms by (simp add: word_unat_eq_iff unsigned_take_bit_eq take_bit_nat_eq_self word_less_nat_alt)
    then show "bit sz j \<Longrightarrow> j < 4" by (metis bit_take_bit_iff)
  qed
  show "signed_drop_bit 4 (ucast sz OR push_bit 4 (get_size_value ty)) = get_size_value ty"
  proof (rule bit_word_eqI)
    fix i assume "i < LENGTH(8)"
    then have "i = 0 \<or> i = 1 \<or> i = 2 \<or> i = 3 \<or> i = 4 \<or> i = 5 \<or> i = 6 \<or> i = 7" by auto
    moreover have "\<not> bit sz 4" "\<not> bit sz 5" "\<not> bit sz 6" "\<not> bit sz 7" using low by fastforce+
    ultimately show "bit (signed_drop_bit 4 (ucast sz OR push_bit 4 (get_size_value ty))) i = bit (get_size_value ty) i"
      by (cases ty; elim disjE; simp add: bit_simps bit_signed_drop_bit_iff)
  qed
  show "(ucast ((ucast sz :: u8) OR push_bit 4 (get_size_value ty)) :: 3 word) = ucast sz"
    by (rule bit_word_eqI) (auto simp: bit_simps)
qed

lemma value_word:
  assumes "n \<le> 8"
  shows "le_dec (le_enc n (w :: u64)) = take_bit (8 * n) w"
  by (rule bit_word_eqI) (use assms in \<open>auto simp: bit_le_dec le_enc_def bit_simps\<close>)

lemma value_len_size: "ty \<noteq> QEMU_PLUGIN_MEM_VALUE_U128 \<Longrightarrow> value_len (get_size_value ty) = value_bytes ty"
  by (cases ty) (simp_all add: value_len_def)

lemma record_read:
  assumes "reader_ok r" "pending r = trace_of [Access vcpu info vaddr] k @ rest" "traceable (Access vcpu info vaddr)"
  obtains r' where "read_transaction junk t r = Some (of_int k, replayed_access info vaddr t, r')" "reader_ok r'" "pending r' = rest"
proof -
  let ?v = "access_value info" and ?st = "access_store info"
  let ?sz = "ucast (size_shift info) OR push_bit 4 (get_size_value (vtype ?v))"
  let ?b = "boolean_value_and_type ?st (of_bool (is_device info))"
  let ?bs = "if ?st then le_enc (value_bytes (vtype ?v)) (vdata ?v) else []"
  have p: "pending r = [of_int k] @ le_enc 8 (physical info vaddr) @ [?sz] @ [?b] @ ?bs @ rest"
    using assms(2) by (simp add: access_record_def)
  have sz: "signed_drop_bit 4 ?sz = get_size_value (vtype ?v)" "(ucast ?sz :: 3 word) = ucast (size_shift info)"
    using assms(3) size_byte by simp_all
  have len: "length ?bs = (if is_store_byte ?b then value_len (signed_drop_bit 4 ?sz) else 0)"
    unfolding sz boolean_byte using assms(3) by (auto simp: value_len_size)
  have "recorded_transaction (physical info vaddr) ?sz ?b ?bs t = replayed_access info vaddr t"
    using assms(3) unfolding recorded_transaction_def replayed_access_def boolean_byte sz
    by (cases "vtype ?v") (auto simp: value_word simp flip: length_0_conv)
  with read_transaction_record [OF assms(1) p len] that show ?thesis by metis
qed

section \<open>The whole replay\<close>

lemma trace_run_replays:
  assumes "reader_ok r" "pending r = trace_of cs k" "list_all traceable cs"
  shows "trace_run objs tids junk m n r = Some (take (m - n) (replayed objs tids cs k n))"
  using assms
proof (induction cs arbitrary: r k n)
  case Nil
  then show ?case by (subst trace_run.simps) (simp add: is_finish_pending)
next
  case (Cons c cs)
  show ?case
  proof (cases c)
    case Instruction then show ?thesis using Cons by simp
  next
    case (Access vcpu info vaddr)
    show ?thesis
    proof (cases "n < m")
      case False then show ?thesis by (subst trace_run.simps) simp
    next
      case True
      have p: "pending r = trace_of [Access vcpu info vaddr] k @ trace_of cs 0" using Cons.prems(2) by (simp add: Access)
      then have "\<not> is_finish r" using Cons.prems(1) by (simp add: is_finish_pending access_record_def)
      obtain r' where r': "read_transaction (junk n) ((objs n)\<lparr>req_tid := tids n\<rparr>) r
          = Some (of_int k, replayed_access info vaddr ((objs n)\<lparr>req_tid := tids n\<rparr>), r')" "reader_ok r'" "pending r' = trace_of cs 0"
        using record_read [OF Cons.prems(1) p] Cons.prems(3) by (auto simp: Access)
      have "trace_run objs tids junk m (Suc n) r' = Some (take (m - Suc n) (replayed objs tids cs 0 (Suc n)))"
        using Cons.IH r'(2,3) Cons.prems(3) by simp
      moreover have "m - n = Suc (m - Suc n)" using True by simp
      ultimately show ?thesis using True r'(1) \<open>\<not> is_finish r\<close> by (subst trace_run.simps) (simp add: Access)
    qed
  qed
qed

lemma trace_run_be:
  "trace_run objs tids junk m n r = Some ts \<Longrightarrow> \<forall>i. req_be (objs i) = 0 \<Longrightarrow> list_all (\<lambda>(d, t). req_be t = 0) ts"
proof (induction objs tids junk m n r arbitrary: ts rule: trace_run.induct)
  case (1 objs tids junk m n r)
  show ?case
  proof (cases "\<not> is_finish r \<and> n < m")
    case False then show ?thesis using 1(2) by (subst (asm) trace_run.simps) auto
  next
    case True
    with 1(2) obtain d t r' rest where
      run: "read_transaction (junk n) ((objs n)\<lparr>req_tid := tids n\<rparr>) r = Some (d, t, r')" "trace_run objs tids junk m (n + 1) r' = Some rest"
      "ts = (d, t) # rest"
      by (subst (asm) trace_run.simps) (auto simp: bind_eq_Some_conv)
    have "req_be t = 0" using read_transaction_be [OF run(1)] 1(3) by simp
    moreover have "list_all (\<lambda>(d, t). req_be t = 0) rest" by (rule 1(1) [OF True run(1) refl refl run(2) 1(3)])
    ultimately show ?thesis by (simp add: run(3))
  qed
qed

section \<open>Properties\<close>

text \<open>C26. Nothing that is replayed from a trace can write: the reader never sets the byte enables, which the constructor of a
request leaves 0, so every request goes to the port of the cache with no byte enabled, the stores included.\<close>

theorem replayed_requests_enable_nothing:
  assumes "trace_run objs tids junk m 0 r = Some ts" "\<forall>i. req_be (objs i) = 0"
  shows "list_all (\<lambda>(d, t). get_range BE_POS 8 (core_req_to_bv t) = (0 :: u8)) ts"
proof -
  have "list_all (\<lambda>(d, t). req_be t = 0) ts"
    by (rule trace_run_be [OF assms])
  then show ?thesis by (simp add: core_req_fields)
qed

definition sample_reader :: trace_reader where
  "sample_reader = new_trace_reader (\<lambda>_. 0) [(trace_of sample_calls 0, True)]"

lemma sample_reader: "reader_ok sample_reader" "pending sample_reader = trace_of sample_calls 0" "list_all traceable sample_calls"
proof -
  have "delivers False [(trace_of sample_calls 0, True)]" using sample_trace by (auto simp: MAX_SIZE_BUFFER_def)
  then show "reader_ok sample_reader" unfolding sample_reader_def by (rule new_reader_ok)
  show "pending sample_reader = trace_of sample_calls 0" by (simp add: sample_reader_def new_reader_pending)
  show "list_all traceable sample_calls" by (simp add: sample_calls_def sample_load_def sample_store_def)
qed

theorem replayed_requests_enable_nothing_witness:
  "\<exists>ts. trace_run (\<lambda>_. new_transaction_req) of_nat (\<lambda>_. 0) 10 0 sample_reader = Some ts \<and> length ts = 2
     \<and> is_store (snd (ts ! 1)) \<and> list_all (\<lambda>(d, t). get_range BE_POS 8 (core_req_to_bv t) = (0 :: u8)) ts"
proof -
  let ?ts = "replayed (\<lambda>_. new_transaction_req) of_nat sample_calls 0 0"
  have run: "trace_run (\<lambda>_. new_transaction_req) of_nat (\<lambda>_. 0) 10 0 sample_reader = Some ?ts"
    using trace_run_replays [OF sample_reader, of _ _ _ 10 0] by (simp add: sample_calls_def)
  have "length ?ts = 2" "is_store (snd (?ts ! 1))"
    by (simp_all add: sample_calls_def sample_store_def replayed_access_def is_store_def)
  with run replayed_requests_enable_nothing [OF run] show ?thesis by (auto simp: new_transaction_req_def)
qed

end
