(* ===== verification/Hpd_Mem_Threads.thy ===== *)
theory Hpd_Mem_Threads
  imports Hpd_Mem_Resp
begin

text \<open>
  The threads of the memory behind the cache (\<open>hpdcache_test_mem_resp_model.h\<close>) and the queues between them, as a step
  relation: one step is what a thread does between two waits that other threads can see.  Delays are steps of other
  threads.  What comes in on the ports is arbitrary.  The queues hold two responses, or the sixteen elements of a queue
  without a size.  The fields \<open>seen_\<close> and \<open>sb_\<close> record what was taken from the ports and what was sent to the scoreboard.
\<close>

section \<open>The state\<close>

definition RESP_FIFO_SIZE :: nat where
  "RESP_FIFO_SIZE = 2"

definition REQ_FIFO_SIZE :: nat where
  "REQ_FIFO_SIZE = 16"

text \<open>Where the read thread is: idle, answering an error segment with \<open>n\<close> beats to go, before a beat, or waiting to queue
one.  The data vector and the address carry over from beat to beat.\<close>

datatype read_pc =
    Read_idle
  | Read_error u32 nat
  | Read_beat u32 nat nat u64 "512 word"
  | Read_queue u32 nat nat u64 "512 word"

record mem_threads =
  t_mem :: mem_resp
  read_pc :: read_pc
  write_meta :: "mem_req option"
  write_todo_read :: "mem_read_resp list"
  write_todo :: "mem_write_resp list"
  read_resp_fifo :: "mem_read_resp list"
  write_resp_fifo :: "mem_write_resp list"
  write_req_fifo :: "mem_req list"
  write_req_data_fifo :: "mem_write_flit list"
  seen_addr :: "mem_req list"
  seen_data :: "mem_write_flit list"
  sb_read_req :: "mem_req list"
  sb_read_resp :: "mem_read_resp list"
  sb_write_req :: "mem_write_req list"
  sb_write_resp :: "mem_write_resp list"

definition mem_threads_start :: "mem_resp \<Rightarrow> mem_threads" where
  "mem_threads_start m =
     \<lparr>t_mem = m, read_pc = Read_idle, write_meta = None, write_todo_read = [], write_todo = [], read_resp_fifo = [], write_resp_fifo = [],
      write_req_fifo = [], write_req_data_fifo = [], seen_addr = [], seen_data = [], sb_read_req = [], sb_read_resp = [],
      sb_write_req = [], sb_write_resp = []\<rparr>"

section \<open>The threads\<close>

text \<open>\<open>readOperation\<close> up to its first beat.\<close>

definition read_start :: "mem_ports \<Rightarrow> mem_threads \<Rightarrow> mem_threads" where
  "read_start p s =
     (let req = port_req p;
          addr = mr_addr req;
          words = 2 ^ unat (mr_size req) div 8;
          words = (if words = 0 then 1 else words);
          s = s\<lparr>sb_read_req := sb_read_req s @ [req]\<rparr>;
          m = t_mem s
      in if within_error_region (errorsegs m) addr (addr + push_bit (unat (mr_size req)) 1)
         then s\<lparr>read_pc := Read_error (mr_id req) (unat (mr_len req) + 1)\<rparr>
         else s\<lparr>t_mem := (if is_ldex req
                          then m\<lparr>excl_buf_m := (excl_buf_m m)[unat (mr_id req) :=
                                 \<lparr>eb_valid = True, eb_base = addr, eb_end = addr + push_bit (unat (mr_size req)) 1\<rparr>]\<rparr>
                          else m),
                read_pc := Read_beat (mr_id req) (unat (mr_len req) + 1) words addr 0\<rparr>)"

definition read_beat :: "mem_threads \<Rightarrow> mem_threads option" where
  "read_beat s =
     (case read_pc s of
        Read_beat rid n words addr data \<Rightarrow>
          (let (data, mem) = fold (read_word addr) [0..<words] (data, memory_m (t_mem s))
           in Some (s\<lparr>t_mem := (t_mem s)\<lparr>memory_m := mem\<rparr>, read_pc := Read_queue rid n words addr data\<rparr>))
      | _ \<Rightarrow> None)"

definition read_queue :: "mem_threads \<Rightarrow> mem_threads option" where
  "read_queue s =
     (if length (read_resp_fifo s) < RESP_FIFO_SIZE
      then case read_pc s of
             Read_error rid (Suc n) \<Rightarrow>
               Some (s\<lparr>read_resp_fifo := read_resp_fifo s @ [\<lparr>rr_error = 1, rr_id = rid, rr_data = 0, rr_last = (n = 0)\<rparr>],
                       read_pc := (if n = 0 then Read_idle else Read_error rid n)\<rparr>)
           | Read_queue rid (Suc n) words addr data \<Rightarrow>
               Some (s\<lparr>read_resp_fifo := read_resp_fifo s @ [\<lparr>rr_error = 0, rr_id = rid, rr_data = data, rr_last = (n = 0)\<rparr>],
                       read_pc := (if n = 0 then Read_idle
                                   else Read_beat rid n words (push_bit 3 (drop_bit 3 addr + of_nat words)) data)\<rparr>)
           | _ \<Rightarrow> None
      else None)"

definition read_response_process :: "mem_threads \<Rightarrow> mem_threads option" where
  "read_response_process s =
     (case read_resp_fifo s of
        [] \<Rightarrow> None
      | r # rs \<Rightarrow> Some (s\<lparr>read_resp_fifo := rs, sb_read_resp := sb_read_resp s @ [r]\<rparr>))"

definition write_response_process :: "mem_threads \<Rightarrow> mem_threads option" where
  "write_response_process s =
     (case write_resp_fifo s of
        [] \<Rightarrow> None
      | r # rs \<Rightarrow> Some (s\<lparr>write_resp_fifo := rs, sb_write_resp := sb_write_resp s @ [r]\<rparr>))"

definition write_address_process :: "mem_ports \<Rightarrow> mem_threads \<Rightarrow> mem_threads option" where
  "write_address_process p s =
     (if length (write_req_fifo s) < REQ_FIFO_SIZE
      then Some (s\<lparr>write_req_fifo := write_req_fifo s @ [port_req p], seen_addr := seen_addr s @ [port_req p]\<rparr>) else None)"

definition write_data_process :: "mem_write_flit \<Rightarrow> mem_threads \<Rightarrow> mem_threads option" where
  "write_data_process d s =
     (if length (write_req_data_fifo s) < REQ_FIFO_SIZE
      then Some (s\<lparr>write_req_data_fifo := write_req_data_fifo s @ [d], seen_data := seen_data s @ [d]\<rparr>) else None)"

text \<open>The write thread takes an address, then its data, and does the operation; its answers are then still to be queued.\<close>

definition write_take :: "mem_threads \<Rightarrow> mem_threads option" where
  "write_take s =
     (if write_meta s = None \<and> write_todo_read s = [] \<and> write_todo s = []
      then case write_req_fifo s of
             [] \<Rightarrow> None
           | a # as \<Rightarrow> Some (s\<lparr>write_meta := Some a, write_req_fifo := as\<rparr>)
      else None)"

definition write_start :: "mem_threads \<Rightarrow> mem_threads option" where
  "write_start s =
     (case (write_meta s, write_req_data_fifo s) of
        (Some a, d # ds) \<Rightarrow>
          (let req = join_write a d
           in do {
             (rs, w, m) \<leftarrow> writeOperation req (t_mem s);
             Some (s\<lparr>t_mem := m, write_meta := None, write_req_data_fifo := ds, sb_write_req := sb_write_req s @ [req],
                     write_todo_read := rs, write_todo := [w]\<rparr>)
           })
      | _ \<Rightarrow> None)"

definition write_queue :: "mem_threads \<Rightarrow> mem_threads option" where
  "write_queue s =
     (case write_todo_read s of
        r # rs \<Rightarrow>
          if length (read_resp_fifo s) < RESP_FIFO_SIZE
          then Some (s\<lparr>write_todo_read := rs, read_resp_fifo := read_resp_fifo s @ [r]\<rparr>) else None
      | [] \<Rightarrow>
          (case write_todo s of
             [] \<Rightarrow> None
           | w # ws \<Rightarrow>
               if length (write_resp_fifo s) < RESP_FIFO_SIZE
               then Some (s\<lparr>write_todo := ws, write_resp_fifo := write_resp_fifo s @ [w]\<rparr>) else None))"

section \<open>Steps\<close>

text \<open>Steps the threads take by themselves, given that the cache takes the responses, and steps that take a request.\<close>

inductive thread_step :: "mem_threads \<Rightarrow> mem_threads \<Rightarrow> bool" where
  beat: "read_beat s = Some t \<Longrightarrow> thread_step s t"
| queue_read: "read_queue s = Some t \<Longrightarrow> thread_step s t"
| respond_read: "read_response_process s = Some t \<Longrightarrow> thread_step s t"
| respond_write: "write_response_process s = Some t \<Longrightarrow> thread_step s t"
| take_write: "write_take s = Some t \<Longrightarrow> thread_step s t"
| start_write: "write_start s = Some t \<Longrightarrow> thread_step s t"
| queue_write: "write_queue s = Some t \<Longrightarrow> thread_step s t"

inductive request_step :: "mem_threads \<Rightarrow> mem_threads \<Rightarrow> bool" where
  take_read: "read_pc s = Read_idle \<Longrightarrow> request_step s (read_start p s)"
| take_address: "write_address_process p s = Some t \<Longrightarrow> request_step s t"
| take_data: "write_data_process d s = Some t \<Longrightarrow> request_step s t"

inductive mem_reach :: "mem_resp \<Rightarrow> mem_threads \<Rightarrow> bool" for m where
  start: "mem_reach m (mem_threads_start m)"
| thread: "mem_reach m s \<Longrightarrow> thread_step s t \<Longrightarrow> mem_reach m t"
| request: "mem_reach m s \<Longrightarrow> request_step s t \<Longrightarrow> mem_reach m t"

inductive_cases thread_stepE: "thread_step s t"
inductive_cases request_stepE: "request_step s t"

section \<open>What the threads keep\<close>

definition amo_write :: "mem_write_req \<Rightarrow> bool" where
  "amo_write req \<longleftrightarrow> mr_command req = command_code HPDCACHE_MEM_ATOMIC \<and> mr_atomic req \<noteq> atomic_code HPDCACHE_MEM_ATOMIC_STEX"

lemma writeOperation_answers:
  assumes "writeOperation req m = Some (rs, w, m')"
  shows "wr_id w = mr_id req \<and> length rs = of_bool (amo_write req)"
proof -
  have "\<not> (amo_write req \<and> is_stex req)" by (simp add: amo_write_def is_stex_def)
  with assms show ?thesis
    by (auto simp: writeOperation_def Let_def bind_eq_Some_conv amo_write_def split: if_splits)
qed

fun beats_left :: "read_pc \<Rightarrow> nat" where
  "beats_left Read_idle = 0"
| "beats_left (Read_error rid n) = n"
| "beats_left (Read_beat rid n words addr data) = n"
| "beats_left (Read_queue rid n words addr data) = n"

definition read_answers_due :: "mem_threads \<Rightarrow> nat" where
  "read_answers_due s = (\<Sum>r\<leftarrow>sb_read_req s. unat (mr_len r) + 1) + length (filter amo_write (sb_write_req s))"

definition joined :: "mem_threads \<Rightarrow> bool" where
  "joined s \<longleftrightarrow>
     (\<exists>as ds. sb_write_req s = map2 join_write as ds \<and> length as = length ds
        \<and> seen_addr s = as @ (case write_meta s of None \<Rightarrow> [] | Some a \<Rightarrow> [a]) @ write_req_fifo s
        \<and> seen_data s = ds @ write_req_data_fifo s)"

definition answered :: "mem_threads \<Rightarrow> bool" where
  "answered s \<longleftrightarrow>
     map wr_id (sb_write_resp s @ write_resp_fifo s @ write_todo s) = map mr_id (sb_write_req s)
     \<and> length (sb_read_resp s) + length (read_resp_fifo s) + length (write_todo_read s) + beats_left (read_pc s) = read_answers_due s"

text \<open>The read thread is idle only with no beat left, and the write thread takes an address only when it has answered.\<close>

definition threads_ok :: "mem_threads \<Rightarrow> bool" where
  "threads_ok s \<longleftrightarrow> (read_pc s \<noteq> Read_idle \<longrightarrow> 0 < beats_left (read_pc s))
     \<and> (write_meta s \<noteq> None \<longrightarrow> write_todo_read s = [] \<and> write_todo s = [])
     \<and> length (read_resp_fifo s) \<le> RESP_FIFO_SIZE \<and> length (write_resp_fifo s) \<le> RESP_FIFO_SIZE
     \<and> length (write_req_fifo s) \<le> REQ_FIFO_SIZE \<and> length (write_req_data_fifo s) \<le> REQ_FIFO_SIZE"

definition mem_inv :: "mem_threads \<Rightarrow> bool" where
  "mem_inv s \<longleftrightarrow> joined s \<and> answered s \<and> threads_ok s"

lemmas inv_defs = mem_inv_def joined_def answered_def threads_ok_def read_answers_due_def

lemma start_inv: "mem_inv (mem_threads_start m)"
  by (simp add: inv_defs mem_threads_start_def)

lemma read_beat_inv: "mem_inv s \<Longrightarrow> read_beat s = Some t \<Longrightarrow> mem_inv t"
  by (auto simp: inv_defs read_beat_def split: read_pc.splits prod.splits)

lemma read_queue_inv: "mem_inv s \<Longrightarrow> read_queue s = Some t \<Longrightarrow> mem_inv t"
  by (auto simp: inv_defs read_queue_def split: read_pc.splits nat.splits if_splits)

lemma read_response_process_inv: "mem_inv s \<Longrightarrow> read_response_process s = Some t \<Longrightarrow> mem_inv t"
  by (auto simp: inv_defs read_response_process_def split: list.splits)

lemma write_response_process_inv: "mem_inv s \<Longrightarrow> write_response_process s = Some t \<Longrightarrow> mem_inv t"
  by (auto simp: inv_defs write_response_process_def split: list.splits)

lemma write_take_inv: "mem_inv s \<Longrightarrow> write_take s = Some t \<Longrightarrow> mem_inv t"
  by (auto simp: inv_defs write_take_def split: list.splits if_splits)

lemma write_queue_inv: "mem_inv s \<Longrightarrow> write_queue s = Some t \<Longrightarrow> mem_inv t"
  by (auto simp: inv_defs write_queue_def split: list.splits if_splits)

lemma write_start_inv:
  assumes "mem_inv s" "write_start s = Some t"
  shows "mem_inv t"
proof -
  obtain a d ds rs w m where run: "write_meta s = Some a" "write_req_data_fifo s = d # ds"
    "writeOperation (join_write a d) (t_mem s) = Some (rs, w, m)"
    "t = s\<lparr>t_mem := m, write_meta := None, write_req_data_fifo := ds, sb_write_req := sb_write_req s @ [join_write a d],
           write_todo_read := rs, write_todo := [w]\<rparr>"
    using assms(2) by (auto simp: write_start_def Let_def bind_eq_Some_conv split: option.splits list.splits)
  obtain as es where j: "sb_write_req s = map2 join_write as es" "length as = length es"
    "seen_addr s = as @ [a] @ write_req_fifo s" "seen_data s = es @ d # ds"
    using assms(1) run(1,2) by (auto simp: mem_inv_def joined_def)
  have "joined t"
    unfolding joined_def using j run(4) by (intro exI [of _ "as @ [a]"] exI [of _ "es @ [d]"]) simp
  moreover have "answered t"
    using assms(1) run(1,4) writeOperation_answers [OF run(3)] by (auto simp: inv_defs)
  moreover have "threads_ok t" using assms(1) run by (auto simp: inv_defs)
  ultimately show ?thesis by (simp add: mem_inv_def)
qed

lemma thread_step_inv: "mem_inv s \<Longrightarrow> thread_step s t \<Longrightarrow> mem_inv t"
  by (erule thread_stepE)
    (erule (1) read_beat_inv read_queue_inv read_response_process_inv write_response_process_inv write_take_inv write_start_inv write_queue_inv)+

lemma request_step_inv: "mem_inv s \<Longrightarrow> request_step s t \<Longrightarrow> mem_inv t"
proof (erule request_stepE)
  fix p assume "mem_inv s" "read_pc s = Read_idle" "t = read_start p s"
  then show "mem_inv t" by (auto simp: inv_defs read_start_def Let_def)
next
  fix p assume "mem_inv s" "write_address_process p s = Some t"
  then show "mem_inv t" by (auto simp: inv_defs write_address_process_def split: if_splits option.splits)
next
  fix d assume "mem_inv s" "write_data_process d s = Some t"
  then show "mem_inv t" by (auto simp: inv_defs write_data_process_def split: if_splits)
qed

lemma mem_reach_inv: "mem_reach m s \<Longrightarrow> mem_inv s"
  by (induction rule: mem_reach.induct) (use start_inv thread_step_inv request_step_inv in blast)+

section \<open>Properties\<close>


definition beat_ports :: mem_ports where
  "beat_ports = \<lparr>p_addr = 0x40, p_len = 0, p_size = 3, p_id = 5, p_command = 0, p_atomic = 0, p_cacheable = True\<rparr>"

definition sample_threads :: mem_threads where
  "sample_threads =
     (mem_threads_start (new_mem_resp (\<lambda>_. 0) []))\<lparr>write_req_fifo := [port_req beat_ports], seen_addr := [port_req beat_ports]\<rparr>"

lemma sample_threads_reach: "mem_reach (new_mem_resp (\<lambda>_. 0) []) sample_threads"
proof (rule mem_reach.request [OF mem_reach.start])
  have "write_address_process beat_ports (mem_threads_start (new_mem_resp (\<lambda>_. 0) [])) = Some sample_threads"
    by (simp add: write_address_process_def sample_threads_def mem_threads_start_def REQ_FIFO_SIZE_def)
  then show "request_step (mem_threads_start (new_mem_resp (\<lambda>_. 0) [])) sample_threads" by (rule take_address)
qed


text \<open>Nothing to do: no response waits, no thread has begun something, and no address has its data.\<close>

definition quiescent :: "mem_threads \<Rightarrow> bool" where
  "quiescent s \<longleftrightarrow> read_pc s = Read_idle \<and> read_resp_fifo s = [] \<and> write_resp_fifo s = [] \<and> write_todo_read s = [] \<and> write_todo s = []
     \<and> (write_req_fifo s = [] \<or> write_meta s \<noteq> None) \<and> (write_meta s = None \<or> write_req_data_fifo s = [])"

text \<open>C21. The threads do not block each other: as long as a response waits, a thread has begun something, or a write has its
address and its data, some thread goes on by itself, provided that the write at the front is one the memory can carry out and
the cache takes the responses.\<close>

theorem threads_never_deadlock:
  assumes "mem_reach m s" "\<not> quiescent s"
    and "\<forall>a d ds. write_meta s = Some a \<longrightarrow> write_req_data_fifo s = d # ds \<longrightarrow> writeOperation (join_write a d) (t_mem s) \<noteq> None"
  shows "\<exists>t. thread_step s t"
proof -
  have ok: "threads_ok s" using mem_reach_inv [OF assms(1)] by (simp add: mem_inv_def)
  consider (rresp) "read_resp_fifo s \<noteq> []"
    | (wresp) "write_resp_fifo s \<noteq> []"
    | (queue) "read_resp_fifo s = []" "write_resp_fifo s = []" "write_todo_read s \<noteq> [] \<or> write_todo s \<noteq> []"
    | (read) "read_resp_fifo s = []" "read_pc s \<noteq> Read_idle"
    | (take) "write_todo_read s = []" "write_todo s = []" "write_meta s = None" "write_req_fifo s \<noteq> []"
    | (carry) a d ds where "write_meta s = Some a" "write_req_data_fifo s = d # ds"
    using assms(2) by (cases "write_meta s"; cases "write_req_data_fifo s") (auto simp: quiescent_def)
  then show ?thesis
  proof cases
    case rresp then show ?thesis using respond_read [of s] by (cases "read_resp_fifo s") (auto simp: read_response_process_def)
  next
    case wresp then show ?thesis using respond_write [of s] by (cases "write_resp_fifo s") (auto simp: write_response_process_def)
  next
    case queue
    then have "write_queue s \<noteq> None" by (auto simp: write_queue_def RESP_FIFO_SIZE_def split: list.splits)
    then show ?thesis using queue_write by blast
  next
    case read
    then have left: "0 < beats_left (read_pc s)" using ok by (simp add: threads_ok_def)
    then have "read_beat s \<noteq> None \<or> read_queue s \<noteq> None"
      using read by (cases "read_pc s") (auto simp: read_beat_def read_queue_def RESP_FIFO_SIZE_def gr0_conv_Suc split: prod.splits)
    then show ?thesis using beat queue_read by blast
  next
    case take
    then have "write_take s \<noteq> None" by (auto simp: write_take_def split: list.splits)
    then show ?thesis using take_write by blast
  next
    case carry
    then have "write_start s \<noteq> None" using assms(3) by (auto simp: write_start_def Let_def bind_eq_None_conv)
    then show ?thesis using start_write by blast
  qed
qed

theorem threads_never_deadlock_witness: "\<exists>t. thread_step sample_threads t"
proof (rule threads_never_deadlock [OF sample_threads_reach])
  show "\<not> quiescent sample_threads" by (simp add: quiescent_def sample_threads_def mem_threads_start_def)
  show "\<forall>a d ds. write_meta sample_threads = Some a \<longrightarrow> write_req_data_fifo sample_threads = d # ds \<longrightarrow>
      writeOperation (join_write a d) (t_mem sample_threads) \<noteq> None"
    by (simp add: sample_threads_def mem_threads_start_def)
qed

section \<open>The threads come to rest\<close>

text \<open>A bound on the steps the threads still take by themselves: a beat is made up, queued and sent; a write is taken, carried
out and answered on at most two channels.\<close>

fun read_work :: "read_pc \<Rightarrow> nat" where
  "read_work Read_idle = 0"
| "read_work (Read_error rid n) = 2 * n"
| "read_work (Read_beat rid n words addr data) = 3 * n + 1"
| "read_work (Read_queue rid n words addr data) = 3 * n"

definition work :: "mem_threads \<Rightarrow> nat" where
  "work s = read_work (read_pc s) + length (read_resp_fifo s) + length (write_resp_fifo s)
     + 2 * (length (write_todo_read s) + length (write_todo s)) + (if write_meta s = None then 0 else 5) + 6 * length (write_req_fifo s)"

lemma thread_step_work: "thread_step s t \<Longrightarrow> work t < work s"
proof (erule thread_stepE)
  assume "read_beat s = Some t"
  then show ?thesis by (auto simp: work_def read_beat_def split: read_pc.splits prod.splits)
next
  assume "read_queue s = Some t"
  then show ?thesis by (auto simp: work_def read_queue_def split: read_pc.splits nat.splits if_splits)
next
  assume "write_start s = Some t"
  then show ?thesis
    by (auto simp: work_def write_start_def Let_def bind_eq_Some_conv dest!: writeOperation_answers split: option.splits list.splits)
qed (auto simp: work_def read_response_process_def write_response_process_def write_take_def write_queue_def
    split: list.splits if_splits)

text \<open>C22. The threads come to rest: left alone, with the cache taking the responses, they take no more steps than the work
that is pending asks for, whatever the order they run in.\<close>

theorem threads_come_to_rest:
  assumes "(thread_step ^^ n) s t"
  shows "n + work t \<le> work s"
  using assms
proof (induction n arbitrary: t)
  case (Suc n)
  then obtain u where "(thread_step ^^ n) s u" "thread_step u t" by auto
  then show ?case using Suc.IH thread_step_work by fastforce
qed simp

theorem threads_come_to_rest_witness:
  "\<exists>t. (thread_step ^^ 1) sample_threads t \<and> work t < 6"
proof -
  obtain t where t: "write_take sample_threads = Some t"
    by (simp add: write_take_def sample_threads_def mem_threads_start_def)
  then have "(thread_step ^^ 1) sample_threads t" using take_write by (simp only: relpowp_1)
  moreover have "work sample_threads = 6" by (simp add: work_def sample_threads_def mem_threads_start_def)
  ultimately show ?thesis using threads_come_to_rest [of 1 sample_threads t] by auto
qed

end
