(* ===== verification/Hpd_Fault.thy ===== *)
theory Hpd_Fault
  imports Hpd_Driver
begin

text \<open>
  Fault injection of the HPDcache test bench (\<open>hpdcache_fault_injection.h\<close>), for a cache with error correction: which
  memory block and which of its words a fault goes to, and the vector of 32-bit words that tells the block which bits to flip.
  The bench is built with \<open>HPDCACHE_DPI_ON\<close>; a call of the simulator is the block, the word and the vector given to it, and an
  entry of the directory with its parity has at most 64 bits.  The number of
  ways in a word of the block, of words per access and per line and the width of a word are configuration, here arguments.
  A range of a mask is read as at most 32 bits.  \<open>None\<close> is an index outside the vector.
\<close>

section \<open>Memory blocks\<close>

definition getDir :: "nat \<Rightarrow> nat" where
  "getDir way = way"

definition getDatRow :: "nat \<Rightarrow> nat \<Rightarrow> nat" where
  "getDatRow ways_per_word way = way div ways_per_word"

definition getDatCol :: "nat \<Rightarrow> nat \<Rightarrow> nat" where
  "getDatCol access_words word = word mod access_words"

definition getParBits :: "nat \<Rightarrow> nat" where
  "getParBits wordWidth = (if wordWidth < 64 then 7 else 8)"

datatype scope = Dir_block nat | Dat_block nat nat

definition getScope :: "nat \<Rightarrow> nat \<Rightarrow> domain_e \<Rightarrow> nat \<Rightarrow> nat \<Rightarrow> scope" where
  "getScope ways_per_word access_words d way word =
     (case d of CACHE_DIR \<Rightarrow> Dir_block (getDir way)
      | CACHE_DAT \<Rightarrow> Dat_block (getDatRow ways_per_word way) (getDatCol access_words word))"

section \<open>Vectors of 32-bit words\<close>

definition SV_PACKED_DATA_NELEMS :: "nat \<Rightarrow> nat" where
  "SV_PACKED_DATA_NELEMS n = (n + 31) div 32"

definition set_elem :: "u32 list \<Rightarrow> nat \<Rightarrow> u32 \<Rightarrow> u32 list option" where
  "set_elem lv b x = (if b < length lv then Some (lv[b := x]) else None)"

text \<open>The directory: word \<open>b\<close> of the vector is word \<open>b\<close> of the mask, cut at the end of the entry.\<close>

definition dir_fault_vector :: "nat \<Rightarrow> 64 word \<Rightarrow> u32 list" where
  "dir_fault_vector tag_width m =
     (let DirBits = tag_width + 4;
          WordBits = DirBits + getParBits DirBits
      in map (\<lambda>b. let loIdx = 32 * b; hiIdx = min (32 * (b + 1)) WordBits
                   in if loIdx < WordBits then get_range loIdx (hiIdx - loIdx) m else 0)
           [0..<SV_PACKED_DATA_NELEMS WordBits])"

text \<open>The middle and the tail of the data vector.\<close>

fun dat_rest :: "72 word \<Rightarrow> u32 list \<Rightarrow> nat \<Rightarrow> nat \<Rightarrow> nat \<Rightarrow> u32 list option" where
  "dat_rest m lv b hiIdx bits =
     (if bits \<ge> 32
      then do {
        lv \<leftarrow> set_elem lv b (get_range hiIdx 32 m);
        dat_rest m lv (b + 1) (hiIdx + 32) (bits - 32)
      }
      else if bits \<noteq> 0 then set_elem lv b (get_range hiIdx bits m) else Some lv)"

declare dat_rest.simps [simp del]

definition dat_fault_vector :: "nat \<Rightarrow> nat \<Rightarrow> nat \<Rightarrow> 72 word \<Rightarrow> u32 list option" where
  "dat_fault_vector word_width ways_per_word way m =
     (let ParBits = getParBits word_width;
          WordBits = word_width + ParBits;
          RamBits = WordBits * ways_per_word;
          ramWord = way mod ways_per_word;
          ramOffset = ramWord * WordBits;
          wordOffset = ramOffset mod 32;
          bits = WordBits;
          lv = replicate (SV_PACKED_DATA_NELEMS RamBits) 0;
          b = ramOffset div 32;
          hiIdx = (if bits \<ge> 32 then 32 - wordOffset else bits)
      in do {
        lv \<leftarrow> set_elem lv b (push_bit wordOffset (get_range 0 hiIdx m));
        dat_rest m lv (b + 1) hiIdx (bits - hiIdx)
      })"

definition dat_cache_index :: "nat \<Rightarrow> nat \<Rightarrow> nat \<Rightarrow> nat \<Rightarrow> nat" where
  "dat_cache_index cl_words access_words sx word = (sx * cl_words + word) div access_words"

definition injectDirFault :: "nat \<Rightarrow> nat \<Rightarrow> nat \<Rightarrow> nat \<Rightarrow> nat \<Rightarrow> 64 word \<Rightarrow> scope \<times> nat \<times> u32 list" where
  "injectDirFault tag_width ways_per_word access_words sx way m =
     (getScope ways_per_word access_words CACHE_DIR way 0, sx, dir_fault_vector tag_width m)"

definition injectDatFault ::
    "nat \<Rightarrow> nat \<Rightarrow> nat \<Rightarrow> nat \<Rightarrow> nat \<Rightarrow> nat \<Rightarrow> nat \<Rightarrow> 72 word \<Rightarrow> (scope \<times> nat \<times> u32 list) option" where
  "injectDatFault word_width ways_per_word cl_words access_words sx way word m = do {
     lv \<leftarrow> dat_fault_vector word_width ways_per_word way m;
     Some (getScope ways_per_word access_words CACHE_DAT way word, dat_cache_index cl_words access_words sx word, lv)
   }"

section \<open>Bits of a vector\<close>

definition vec_bit :: "u32 list \<Rightarrow> nat \<Rightarrow> bool" where
  "vec_bit lv i \<longleftrightarrow> bit (lv ! (i div 32)) (i mod 32)"

lemma vec_bit_update:
  assumes "b < length lv" "i div 32 < length lv"
  shows "vec_bit (lv[b := x]) i \<longleftrightarrow> (if i div 32 = b then bit x (i mod 32) else vec_bit lv i)"
  using assms by (simp add: vec_bit_def nth_list_update)

text \<open>From word \<open>b\<close> on, the rest of the mask is put where it continues what is before.\<close>

lemma dat_rest_bits:
  assumes "32 * b + bits \<le> 32 * length lv" "\<And>i. 32 * b \<le> i \<Longrightarrow> i < 32 * length lv \<Longrightarrow> \<not> vec_bit lv i"
  shows "\<exists>lv'. dat_rest m lv b hi bits = Some lv' \<and> length lv' = length lv
    \<and> (\<forall>i < 32 * length lv. vec_bit lv' i \<longleftrightarrow>
         (if i < 32 * b then vec_bit lv i else i < 32 * b + bits \<and> bit m (i - 32 * b + hi)))"
  using assms
proof (induction bits arbitrary: lv b hi rule: less_induct)
  case (less bits)
  show ?case
  proof (cases "32 \<le> bits")
    case True
    let ?lv = "lv[b := get_range hi 32 m]"
    have b: "b < length lv" using True less.prems(1) by simp
    have v: "vec_bit ?lv i \<longleftrightarrow> (if i div 32 = b then bit m (hi + i mod 32) else vec_bit lv i)" if "i < 32 * length lv" for i
      using vec_bit_update [OF b, of i] that by (simp add: bit_get_range less_mult_imp_div_less mult.commute)
    have "\<exists>lv'. dat_rest m ?lv (b + 1) (hi + 32) (bits - 32) = Some lv' \<and> length lv' = length ?lv
      \<and> (\<forall>i < 32 * length ?lv. vec_bit lv' i \<longleftrightarrow>
         (if i < 32 * (b + 1) then vec_bit ?lv i else i < 32 * (b + 1) + (bits - 32) \<and> bit m (i - 32 * (b + 1) + (hi + 32))))"
    proof (rule less.IH)
      show "bits - 32 < bits" using True by simp
      show "32 * (b + 1) + (bits - 32) \<le> 32 * length ?lv" using less.prems(1) True by simp
      fix i assume i: "32 * (b + 1) \<le> i" "i < 32 * length ?lv"
      then have "i div 32 \<noteq> b" by auto
      with i v less.prems(2) show "\<not> vec_bit ?lv i" by simp
    qed
    then obtain lv' where lv': "dat_rest m ?lv (b + 1) (hi + 32) (bits - 32) = Some lv'" "length lv' = length lv"
      "\<And>i. i < 32 * length lv \<Longrightarrow> vec_bit lv' i \<longleftrightarrow>
         (if i < 32 * (b + 1) then vec_bit ?lv i else i < 32 * (b + 1) + (bits - 32) \<and> bit m (i - 32 * (b + 1) + (hi + 32)))"
      by auto
    have "vec_bit lv' i \<longleftrightarrow> (if i < 32 * b then vec_bit lv i else i < 32 * b + bits \<and> bit m (i - 32 * b + hi))"
      if i: "i < 32 * length lv" for i
    proof (cases "i < 32 * b \<or> 32 * (b + 1) \<le> i")
      case True
      then have "i div 32 \<noteq> b" by auto
      then show ?thesis using True lv'(3) [OF i] v [OF i] \<open>32 \<le> bits\<close> by (auto simp: algebra_simps)
    next
      case False
      then have "i div 32 = b" by auto
      moreover have "i mod 32 = i - 32 * b" using calculation by (simp add: minus_mult_div_eq_mod [symmetric])
      ultimately show ?thesis using False lv'(3) [OF i] v [OF i] \<open>32 \<le> bits\<close> by (simp add: add.commute)
    qed
    then show ?thesis using lv'(1,2) True b by (subst dat_rest.simps) (simp add: set_elem_def)
  next
    case small: False
    show ?thesis
    proof (cases "bits = 0")
      case True then show ?thesis using less.prems(2) by (subst dat_rest.simps) (auto simp: not_less)
    next
      case False
      then have b: "b < length lv" using less.prems(1) by simp
      have "vec_bit (lv[b := get_range hi bits m]) i \<longleftrightarrow> (if i < 32 * b then vec_bit lv i else i < 32 * b + bits \<and> bit m (i - 32 * b + hi))"
        if i: "i < 32 * length lv" for i
      proof (cases "i div 32 = b")
        case True
        moreover have "i mod 32 = i - 32 * b" using True by (simp add: minus_mult_div_eq_mod [symmetric])
        ultimately show ?thesis using vec_bit_update [OF b, of i] i small by (auto simp: bit_get_range add.commute)
      next
        case False
        then show ?thesis using vec_bit_update [OF b, of i] i less.prems(2) [of i] small
          by (cases "i < 32 * b") (auto simp: less_mult_imp_div_less mult.commute)
      qed
      then show ?thesis using b small False by (subst dat_rest.simps) (simp add: set_elem_def)
    qed
  qed
qed

section \<open>Properties\<close>

text \<open>The vector for the directory is the mask, cut at the end of the entry.\<close>

lemma cut_in_word: "r < 32 \<Longrightarrow> 32 * q < w \<Longrightarrow> r < min (32 + 32 * q) w - 32 * q \<longleftrightarrow> 32 * q + r < (w :: nat)"
  by (auto simp: min_def)

lemma dir_fault_bits:
  assumes "i < 32 * length (dir_fault_vector tag_width m)"
  shows "vec_bit (dir_fault_vector tag_width m) i \<longleftrightarrow> i < tag_width + 4 + getParBits (tag_width + 4) \<and> bit m i"
proof -
  have "i div 32 < length (dir_fault_vector tag_width m)" using assms by (simp add: less_mult_imp_div_less mult.commute)
  moreover have "32 * (i div 32) < w" if "i < w" for w
    using that by (rule le_less_trans [rotated]) simp
  ultimately show ?thesis
    by (auto simp: vec_bit_def dir_fault_vector_def Let_def bit_get_range cut_in_word)
qed

lemma elems_enough: "n \<le> 32 * SV_PACKED_DATA_NELEMS n"
  by (simp add: SV_PACKED_DATA_NELEMS_def)

lemma way_fits: "0 < n \<Longrightarrow> (way mod n) * wb + wb \<le> wb * (n :: nat)"
proof -
  assume "0 < n"
  then have "(way mod n + 1) * wb \<le> n * wb" by (intro mult_le_mono1) (simp add: Suc_leI)
  then show ?thesis by (simp add: algebra_simps)
qed

lemma after_first_word:
  assumes "off = 32 * b + wo" "wo < (32 :: nat)" "32 \<le> wb" "\<not> i < 32 * (b + 1)"
  shows "32 * (b + 1) + (wb - (32 - wo)) = off + wb" "i - 32 * (b + 1) + (32 - wo) = i - off" "off \<le> i"
  using assms by auto

text \<open>C30. A fault in the data array goes to the memory block of its way and word, and flips exactly the bits of the mask, in
the part of the memory word that belongs to the way: for both word widths and every way the vector has the mask at the place of the way and 0 elsewhere, although it is put
together from pieces of 32 bits that do not start where the way does.\<close>

theorem data_fault_places_mask:
  assumes "word_width = 32 \<or> word_width = 64" "0 < ways_per_word"
  shows "\<exists>lv. injectDatFault word_width ways_per_word cl_words access_words sx way word m =
        Some (Dat_block (way div ways_per_word) (word mod access_words), (sx * cl_words + word) div access_words, lv)
    \<and> (let wb = word_width + getParBits word_width; off = (way mod ways_per_word) * wb
       in wb * ways_per_word \<le> 32 * length lv
         \<and> (\<forall>i < 32 * length lv. vec_bit lv i \<longleftrightarrow> off \<le> i \<and> i < off + wb \<and> bit m (i - off)))"
proof -
  define wb where "wb = word_width + getParBits word_width"
  define off where "off = (way mod ways_per_word) * wb"
  let ?n = "SV_PACKED_DATA_NELEMS (wb * ways_per_word)" and ?b = "off div 32" and ?wo = "off mod 32"
  let ?lv = "(replicate ?n (0 :: u32))[?b := push_bit ?wo (get_range 0 (32 - ?wo) m)]"
  have wb: "32 \<le> wb" using assms(1) by (auto simp: wb_def)
  have o: "off = 32 * ?b + ?wo" "?wo < 32" by simp_all
  have fits: "off + wb \<le> 32 * ?n" using way_fits [OF assms(2)] elems_enough [of "wb * ways_per_word"] unfolding off_def by (rule order_trans)
  then have b: "?b < ?n" using wb by linarith
  have first: "vec_bit ?lv i \<longleftrightarrow> i div 32 = ?b \<and> ?wo \<le> i mod 32 \<and> bit m (i mod 32 - ?wo)" if "i < 32 * ?n" for i
  proof -
    have "i mod 32 - ?wo < 32 - ?wo" if "?wo \<le> i mod 32" using that by (intro diff_less_mono) simp
    moreover have "i mod 32 - ?wo < 32" by (rule le_less_trans [OF diff_le_self]) simp
    ultimately show ?thesis using vec_bit_update [of ?b "replicate ?n 0" i] b that
      by (auto simp: vec_bit_def bit_simps bit_get_range less_mult_imp_div_less mult.commute)
  qed
  have "\<exists>lv. dat_rest m ?lv (?b + 1) (32 - ?wo) (wb - (32 - ?wo)) = Some lv \<and> length lv = length ?lv
    \<and> (\<forall>i < 32 * length ?lv. vec_bit lv i \<longleftrightarrow> (if i < 32 * (?b + 1) then vec_bit ?lv i
         else i < 32 * (?b + 1) + (wb - (32 - ?wo)) \<and> bit m (i - 32 * (?b + 1) + (32 - ?wo))))"
  proof (rule dat_rest_bits)
    show "32 * (?b + 1) + (wb - (32 - ?wo)) \<le> 32 * length ?lv" using fits o wb by simp
    fix i assume "32 * (?b + 1) \<le> i" "i < 32 * length ?lv"
    then show "\<not> vec_bit ?lv i" using first [of i] by auto
  qed
  then obtain lv where lv: "dat_rest m ?lv (?b + 1) (32 - ?wo) (wb - (32 - ?wo)) = Some lv" "length lv = ?n"
    "\<And>i. i < 32 * ?n \<Longrightarrow> vec_bit lv i \<longleftrightarrow> (if i < 32 * (?b + 1) then vec_bit ?lv i
         else i < 32 * (?b + 1) + (wb - (32 - ?wo)) \<and> bit m (i - 32 * (?b + 1) + (32 - ?wo)))"
    by auto
  have bits: "vec_bit lv i \<longleftrightarrow> off \<le> i \<and> i < off + wb \<and> bit m (i - off)" if i: "i < 32 * ?n" for i
  proof (cases "i < 32 * (?b + 1)")
    case True
    then have le: "vec_bit lv i \<longleftrightarrow> i div 32 = ?b \<and> ?wo \<le> i mod 32 \<and> bit m (i mod 32 - ?wo)" using lv(3) [OF i] first [OF i] by simp
    have "off \<le> i \<longleftrightarrow> i div 32 = ?b \<and> ?wo \<le> i mod 32"
    proof
      assume "off \<le> i"
      then have "?b \<le> i div 32" by (rule div_le_mono)
      moreover have "i div 32 < ?b + 1" using True by (simp add: less_mult_imp_div_less mult.commute)
      ultimately have "i div 32 = ?b" by linarith
      then show "i div 32 = ?b \<and> ?wo \<le> i mod 32" using \<open>off \<le> i\<close> o(1) div_mult_mod_eq [of i 32] by linarith
    next
      assume "i div 32 = ?b \<and> ?wo \<le> i mod 32"
      then show "off \<le> i" using o(1) div_mult_mod_eq [of i 32] by linarith
    qed
    moreover have "i mod 32 - ?wo = i - off" if "i div 32 = ?b" using that o(1) div_mult_mod_eq [of i 32] by linarith
    moreover have "i < off + wb"
    proof -
      have "32 * ?b \<le> off" by simp
      then show ?thesis using True wb unfolding distrib_left by linarith
    qed
    ultimately show ?thesis using le by auto
  next
    case False
    show ?thesis unfolding lv(3) [OF i] after_first_word(1,2) [OF o wb False] using False after_first_word(3) [OF o wb False]
      by (simp only: if_False simp_thms)
  qed
  have "dat_fault_vector word_width ways_per_word way m = Some lv"
    using wb b lv(1) by (simp add: dat_fault_vector_def Let_def set_elem_def flip: wb_def off_def)
  then show ?thesis using lv(2) bits elems_enough [of "wb * ways_per_word"]
    by (simp add: injectDatFault_def getScope_def getDatRow_def getDatCol_def dat_cache_index_def Let_def flip: wb_def off_def)
qed

theorem data_fault_places_mask_witness:
  "\<exists>lv. injectDatFault 64 2 8 4 5 3 6 0xA0 = Some (Dat_block 1 2, 11, lv) \<and> 144 \<le> 32 * length lv
     \<and> (\<forall>i < 32 * length lv. vec_bit lv i \<longleftrightarrow> 72 \<le> i \<and> i < 144 \<and> bit (0xA0 :: 72 word) (i - 72))"
  using data_fault_places_mask [of 64 2 8 4 5 3 6 "0xA0"] by (simp add: getParBits_def)

end
