(* ===== verification/Hpd_Scoreboard.thy ===== *)
theory Hpd_Scoreboard
  imports Hpd_Mem_Resp Hpd_Sequence
begin

text \<open>
  The scoreboard of the HPDcache test bench (\<open>hpdcache_test_scoreboard.h\<close>): it sees every request of the core, every
  response of the cache and the traffic to the memory, predicts the data of loads and the outcome of atomic accesses,
  and reports what does not match.  One definition per thread is the body of its endless loop, applied to the
  transaction the thread reads.  The comparison with the cache directory, disabled in the source, is left out, and so
  are the debug messages.

  A handler gives \<open>Some (True, s)\<close> when the thread goes on, \<open>Some (False, s)\<close> when it calls \<open>exit(1)\<close>, and \<open>None\<close> when
  it has no defined result.
\<close>

section \<open>State\<close>

definition CORE_REQ_WORDS :: nat where
  "CORE_REQ_WORDS = HPDCACHE_REQ_WORDS"

definition CORE_REQ_WORD_BYTES :: nat where
  "CORE_REQ_WORD_BYTES = HPDCACHE_WORD_WIDTH div 8"

definition CORE_REQ_BYTES :: nat where
  "CORE_REQ_BYTES = CORE_REQ_WORDS * CORE_REQ_WORD_BYTES"

record inflight_entry =
  e_time :: u64
  e_tid :: u32
  e_addr :: u64
  e_need_rsp :: bool
  e_hit :: bool
  e_is_read :: bool
  e_is_write :: bool
  e_is_amo :: bool
  e_is_amo_sc :: bool
  e_is_amo_lr :: bool
  e_is_atomic :: bool
  e_is_error :: bool
  e_op :: nat
  e_is_uncacheable :: bool
  e_bytes :: u8
  e_wdata :: "u64 list"
  e_be :: "u8 list"
  e_rdata :: "u64 list"
  e_rv :: "u8 list"

text \<open>The pointer to the request of the core is the key of that request in the table.\<close>

record mem_entry =
  m_addr :: u64
  m_bytes :: u8
  m_is_uncacheable :: bool
  m_is_error :: bool
  m_core_req :: "u32 option"

record lrsc_buf =
  l_valid :: bool
  l_base :: u64
  l_end :: u64
  l_is_atomic :: bool

datatype event =
    Cache_write_miss | Cache_read_miss | Cache_dir_unc_err | Cache_dir_cor_err | Cache_dat_unc_err | Cache_dat_cor_err
  | Scrub_complete | Uncached_req | Cmo_req | Write_req | Read_req | Prefetch_req | Req_on_hold | Rtab_rollback
  | Stall_refill | Stall

datatype sb_msg =
    Core_req_id_inflight u32
  | Amo_fifo_full
  | Core_resp_id_unknown u32
  | Error_flag_unexpected
  | Shall_be_sc_success
  | Shall_be_sc_failure
  | Response_data_wrong u64 u8 u8
  | Mem_read_id_inflight u32
  | Many_atomics_inflight
  | Unexpected_load_exclusive
  | Mem_read_resp_id_unknown u32
  | Mem_write_id_inflight u32
  | Unexpected_amo
  | Amo_without_core_req
  | Unexpected_store_exclusive
  | Store_exclusive_not_reserved
  | Sc_without_core_req
  | Mem_write_resp_id_unknown u32
  | Responses_differ u64 u64
  | Too_many_write_misses u64 u64
  | Too_many_read_misses u64 u64
  | Unresponded_ids "u32 list"
  | Limit_exceeded u64
  | Seq_id_unused

record sb =
  nb_cycles :: u64
  nb_cycles_effective :: u64
  nb_core_req :: u64
  nb_core_req_need_rsp :: u64
  nb_core_resp :: u64
  nb_mem_read_req :: u64
  nb_mem_read_resp :: u64
  nb_mem_write_req :: u64
  nb_mem_write_resp :: u64
  nb_error :: u64
  sb_error_limit :: u64
  evt_m :: "event \<Rightarrow> u64"
  inflight_m :: "(u32 \<times> inflight_entry) list"
  inflight_mem_read_m :: "(u32 \<times> mem_entry) list"
  inflight_mem_write_m :: "(u32 \<times> mem_entry) list"
  lrsc_m :: lrsc_buf
  ram_m :: ram
  inflight_amo_req_m :: "inflight_entry list"
  sc_is_atomic :: bool
  seq_ids :: "u32 list"
  segments :: "segment list option"
  msgs :: "sb_msg list"

text \<open>The reservation and the contents of the byte store are not initialised; no limit is set and no memory model known.\<close>

definition new_sb :: "lrsc_buf \<Rightarrow> (u64 \<Rightarrow> u8) \<Rightarrow> sb" where
  "new_sb lrsc junk =
     \<lparr>nb_cycles = 0, nb_cycles_effective = 0, nb_core_req = 0, nb_core_req_need_rsp = 0, nb_core_resp = 0, nb_mem_read_req = 0,
      nb_mem_read_resp = 0, nb_mem_write_req = 0, nb_mem_write_resp = 0, nb_error = 0, sb_error_limit = 0, evt_m = (\<lambda>_. 0),
      inflight_m = [], inflight_mem_read_m = [], inflight_mem_write_m = [], lrsc_m = lrsc, ram_m = ram_model junk,
      inflight_amo_req_m = [], sc_is_atomic = False, seq_ids = [], segments = None, msgs = []\<rparr>"

section \<open>Messages\<close>

text \<open>The text after \<open>SB_ERROR:\<close>; the last message is the one of the sequence.\<close>

fun msg_text :: "sb_msg \<Rightarrow> string" where
  "msg_text (Core_req_id_inflight i) = ''core request ID '' @ ''0x'' @ hex i @ '' matches an inflight request''"
| "msg_text Amo_fifo_full = ''inflight AMO request fifo is full''"
| "msg_text (Core_resp_id_unknown i) = ''core response ID '' @ ''0x'' @ hex i @ '' does not match any inflight request''"
| "msg_text Error_flag_unexpected = ''unexpected value in the error flag of the response''"
| "msg_text Shall_be_sc_success = ''response shall be SC_SUCCESS''"
| "msg_text Shall_be_sc_failure = ''response shall be SC_FAILURE''"
| "msg_text (Response_data_wrong a recv expc) =
     ''response data is wrong'' @ '' / @0x'' @ hex a @ '' / actual = 0x'' @ hex recv @ '' / expected = 0x'' @ hex expc"
| "msg_text (Mem_read_id_inflight i) = ''memory read request ID '' @ ''0x'' @ hex i @ '' matches an inflight request''"
| "msg_text Many_atomics_inflight = ''there shall be a single inflight atomic operation''"
| "msg_text Unexpected_load_exclusive = ''unexpected load-exclusive request''"
| "msg_text (Mem_read_resp_id_unknown i) = ''memory read response ID '' @ ''0x'' @ hex i @ '' does not match any inflight request''"
| "msg_text (Mem_write_id_inflight i) = ''memory write request ID '' @ ''0x'' @ hex i @ '' matches an inflight request''"
| "msg_text Unexpected_amo = ''unexpected AMO request''"
| "msg_text Amo_without_core_req = ''memory AMO request with no associated core request''"
| "msg_text Unexpected_store_exclusive = ''unexpected store-exclusive request''"
| "msg_text Store_exclusive_not_reserved = ''store exclusive access with no valid reservation''"
| "msg_text Sc_without_core_req = ''memory store-conditional request with no associated core request''"
| "msg_text (Mem_write_resp_id_unknown i) = ''memory write response ID '' @ ''0x'' @ hex i @ '' does not match any inflight request''"
| "msg_text (Responses_differ a b) = ''number of responses ('' @ num_str 10 65 (unat a)
     @ '') is different than the number of requests ('' @ num_str 10 65 (unat b) @ '')''"
| "msg_text (Too_many_write_misses a b) = ''number of write misses ('' @ num_str 10 65 (unat a)
     @ '') is bigger than the number of write requests ('' @ num_str 10 65 (unat b) @ '')''"
| "msg_text (Too_many_read_misses a b) = ''number of read misses ('' @ num_str 10 65 (unat a)
     @ '') is bigger than the number of read requests ('' @ num_str 10 65 (unat b) @ '')''"
| "msg_text (Unresponded_ids is) = ''unresponded ids:'' @ concat (map (\<lambda>i. '' 0x'' @ hex i) is)"
| "msg_text (Limit_exceeded n) = ''number of errors exceeded the limit ('' @ num_str 10 65 (unat n) @ '')''"
| "msg_text Seq_id_unused = ''acknowledging an ID that is not currently used''"

definition print_error :: "sb_msg \<Rightarrow> sb \<Rightarrow> bool \<times> sb" where
  "print_error msg s =
     (let s = s\<lparr>nb_error := nb_error s + 1, msgs := msgs s @ [msg]\<rparr>
      in if sb_error_limit s > 0 \<and> sb_error_limit s \<le> nb_error s
         then (False, s\<lparr>msgs := msgs s @ [Limit_exceeded (sb_error_limit s)]\<rparr>)
         else (True, s))"

text \<open>What comes after a message runs unless the process has ended.\<close>

definition andthen :: "bool \<times> 's \<Rightarrow> ('s \<Rightarrow> (bool \<times> 's) option) \<Rightarrow> (bool \<times> 's) option" where
  "andthen r f = (if fst r then f (snd r) else Some r)"

definition error_if :: "bool \<Rightarrow> sb_msg \<Rightarrow> sb \<Rightarrow> bool \<times> sb" where
  "error_if c msg s = (if c then print_error msg s else (True, s))"

definition seq_deallocate :: "u32 \<Rightarrow> sb \<Rightarrow> sb" where
  "seq_deallocate tid s =
     (let (bad, ids) = deallocate_id tid (seq_ids s)
      in s\<lparr>seq_ids := ids, msgs := (if bad then msgs s @ [Seq_id_unused] else msgs s)\<rparr>)"

section \<open>Tables\<close>

text \<open>A \<open>std::map\<close> is a list sorted by key; \<open>insert\<close> does not overwrite.\<close>

definition map_insert :: "u32 \<Rightarrow> 'v \<Rightarrow> (u32 \<times> 'v) list \<Rightarrow> (u32 \<times> 'v) list" where
  "map_insert k v m = (if map_of m k = None then insort_key fst (k, v) m else m)"

definition map_erase :: "u32 \<Rightarrow> (u32 \<times> 'v) list \<Rightarrow> (u32 \<times> 'v) list" where
  "map_erase k m = filter (\<lambda>p. fst p \<noteq> k) m"

section \<open>Addresses\<close>

definition get_nline :: "u64 \<Rightarrow> u64" where
  "get_nline addr = drop_bit HPDCACHE_CL_OFFSET_WIDTH addr"

definition get_offset :: "u64 \<Rightarrow> u64" where
  "get_offset addr = addr AND (push_bit HPDCACHE_CL_OFFSET_WIDTH 1 - 1)"

definition align_to :: "u64 \<Rightarrow> u64 \<Rightarrow> u64" where
  "align_to val align = (val div align) * align"

definition bytes_of_words :: "u64 list \<Rightarrow> u8 list" where
  "bytes_of_words ws = concat (map (le_enc 8) ws)"

definition words_of_bytes :: "nat \<Rightarrow> u8 list \<Rightarrow> u64 list" where
  "words_of_bytes n bs = map (\<lambda>i. le_dec (take 8 (drop (8 * i) bs))) [0..<n]"

section \<open>Events of a cycle\<close>

definition perf_events_process :: "(event \<Rightarrow> bool) \<Rightarrow> sb \<Rightarrow> sb" where
  "perf_events_process ev s =
     s\<lparr>nb_cycles := nb_cycles s + 1, evt_m := (\<lambda>x. if ev x then evt_m s x + 1 else evt_m s x)\<rparr>"

definition check_inflight_requests :: "sb \<Rightarrow> bool" where
  "check_inflight_requests s \<longleftrightarrow> inflight_mem_write_m s = [] \<and> inflight_mem_read_m s = [] \<and> inflight_m s = []"

section \<open>Requests of the core\<close>

definition word_of_req :: "transaction_req \<Rightarrow> nat \<Rightarrow> u64" where
  "word_of_req r i = ucast (drop_bit (i * HPDCACHE_WORD_WIDTH) (req_wdata r))"

definition be_of_req :: "transaction_req \<Rightarrow> nat \<Rightarrow> u8" where
  "be_of_req r i = ucast (drop_bit (i * CORE_REQ_WORD_BYTES) (req_be r))"

text \<open>The new entry; fields that are not assigned keep what the local variable held.\<close>

definition request_entry :: "inflight_entry \<Rightarrow> transaction_req \<Rightarrow> sb \<Rightarrow> inflight_entry" where
  "request_entry e0 r s =
     (let e = e0\<lparr>e_time := nb_cycles s, e_tid := ucast (req_tid r), e_addr := ucast (req_addr r),
                e_need_rsp := req_need_rsp r, e_hit := False, e_is_read := is_load r, e_is_write := is_store r,
                e_is_amo := is_amo r, e_is_amo_sc := is_amo_sc r, e_is_amo_lr := is_amo_lr r, e_is_error := False,
                e_op := unat (req_op r), e_is_uncacheable := req_uncacheable r,
                e_bytes := push_bit (unat (req_size r)) 1\<rparr>
      in if is_store r \<or> is_amo_sc r \<or> is_amo r
         then e\<lparr>e_wdata := map (word_of_req r) [0..<CORE_REQ_WORDS], e_be := map (be_of_req r) [0..<CORE_REQ_WORDS]\<rparr>
         else e)"

definition mark_error :: "transaction_req \<Rightarrow> sb \<Rightarrow> inflight_entry \<Rightarrow> inflight_entry" where
  "mark_error r s e =
     (case segments s of
        Some gs \<Rightarrow> if \<not> is_cmo r \<or> is_cmo_prefetch r
                   then e\<lparr>e_is_error := within_error_region gs (e_addr e) (e_addr e + ucast (e_bytes e))\<rparr> else e
      | None \<Rightarrow> e)"

definition aligned_addr :: "inflight_entry \<Rightarrow> u64" where
  "aligned_addr e = align_to (e_addr e) (of_nat (HPDCACHE_REQ_DATA_WIDTH div 8))"

definition expect_data :: "transaction_req \<Rightarrow> sb \<Rightarrow> inflight_entry \<Rightarrow> inflight_entry option" where
  "expect_data r s e =
     (if \<not> e_is_error e \<and> (is_load r \<or> is_amo_lr r \<or> is_amo r)
      then map_option (\<lambda>(buf, valid). e\<lparr>e_rdata := words_of_bytes CORE_REQ_WORDS buf, e_rv := valid\<rparr>)
             (ram_read SCOREBOARD_RAM_SIZE (HPDCACHE_REQ_DATA_WIDTH div 8) (aligned_addr e) (ram_m s))
      else Some e)"

definition reserve :: "transaction_req \<Rightarrow> inflight_entry \<Rightarrow> lrsc_buf \<Rightarrow> lrsc_buf" where
  "reserve r e l =
     (if is_amo_lr r
      then if \<not> e_is_error e
           then \<lparr>l_valid = True, l_base = e_addr e, l_end = e_addr e + 8, l_is_atomic = False\<rparr>
           else l\<lparr>l_valid := False\<rparr>
      else l)"

definition addr_match :: "inflight_entry \<Rightarrow> lrsc_buf \<Rightarrow> bool" where
  "addr_match e l =
     (let lrsc_rsrv_nline = get_nline (l_base l);
          lrsc_rsrv_word = drop_bit 3 (get_offset (l_base l));
          lrsc_entry_nline = get_nline (e_addr e);
          lrsc_entry_words = (if e_bytes e < 8 then 1 else ucast (drop_bit 3 (e_bytes e))) :: u64;
          lrsc_entry_base = drop_bit 3 (get_offset (e_addr e));
          lrsc_entry_end = lrsc_entry_base + lrsc_entry_words
      in l_valid l \<and> lrsc_rsrv_nline = lrsc_entry_nline \<and> lrsc_entry_base \<le> lrsc_rsrv_word
         \<and> lrsc_rsrv_word < lrsc_entry_end)"

definition check_reservation :: "transaction_req \<Rightarrow> inflight_entry \<Rightarrow> lrsc_buf \<Rightarrow> inflight_entry \<times> lrsc_buf" where
  "check_reservation r e l =
     (if is_amo r \<or> is_amo_sc r \<or> is_store r
      then let hit = addr_match e l;
               e = (if is_amo_sc r then e\<lparr>e_is_atomic := hit, e_is_error := e_is_error e \<and> hit\<rparr> else e)
           in (e, if hit \<or> is_amo_sc r then l\<lparr>l_valid := False\<rparr> else l)
      else (e, l))"

text \<open>The capacity of a \<open>sc_fifo\<close> built without one.\<close>

definition AMO_FIFO_SIZE :: nat where
  "AMO_FIFO_SIZE = 16"

definition forward_amo :: "transaction_req \<Rightarrow> inflight_entry \<Rightarrow> bool" where
  "forward_amo r e \<longleftrightarrow> is_amo r \<or> is_amo_lr r \<or> is_amo_sc r \<and> e_is_atomic e"

definition write_data :: "transaction_req \<Rightarrow> inflight_entry \<Rightarrow> ram \<Rightarrow> ram option" where
  "write_data r e m =
     (if is_store r \<and> \<not> e_is_error e
      then ram_write SCOREBOARD_RAM_SIZE (bytes_of_words (e_wdata e)) (e_be e) (HPDCACHE_REQ_DATA_WIDTH div 8) (aligned_addr e) m
      else Some m)"

definition register_req :: "transaction_req \<Rightarrow> inflight_entry \<Rightarrow> sb \<Rightarrow> sb" where
  "register_req r e s =
     (if req_need_rsp r then s\<lparr>inflight_m := map_insert (ucast (req_tid r)) e (inflight_m s)\<rparr>
      else seq_deallocate (ucast (req_tid r)) s)"

definition count_req :: "transaction_req \<Rightarrow> sb \<Rightarrow> sb" where
  "count_req r s =
     (let s = s\<lparr>nb_core_req := nb_core_req s + 1\<rparr>
      in if req_need_rsp r then s\<lparr>nb_core_req_need_rsp := nb_core_req_need_rsp s + 1\<rparr> else s)"

text \<open>A request with a free identifier: its entry, the reservation, the queue of atomic requests, the stored data.\<close>

definition accept_req :: "inflight_entry \<Rightarrow> transaction_req \<Rightarrow> sb \<Rightarrow> (bool \<times> sb) option" where
  "accept_req e0 r s =
     Option.bind (expect_data r s (mark_error r s (request_entry e0 r s))) (\<lambda>e.
       let (e, l) = check_reservation r e (reserve r e (lrsc_m s));
           s = s\<lparr>lrsc_m := l\<rparr>
       in if forward_amo r e \<and> AMO_FIFO_SIZE \<le> length (inflight_amo_req_m s) then Some (print_error Amo_fifo_full s)
          else let s = (if forward_amo r e then s\<lparr>inflight_amo_req_m := inflight_amo_req_m s @ [e]\<rparr> else s)
               in map_option (\<lambda>m. (True, register_req r e (s\<lparr>ram_m := m\<rparr>))) (write_data r e (ram_m s)))"

definition core_req_process :: "inflight_entry \<Rightarrow> transaction_req \<Rightarrow> sb \<Rightarrow> (bool \<times> sb) option" where
  "core_req_process e0 r s =
     (let s = count_req r s;
          req_id = ucast (req_tid r)
      in if map_of (inflight_m s) req_id \<noteq> None then Some (print_error (Core_req_id_inflight req_id) s)
         else if is_cmo r \<and> \<not> req_need_rsp r then Some (True, seq_deallocate req_id s)
         else accept_req e0 r s)"

section \<open>Responses of the cache\<close>

definition word_of_resp :: "transaction_resp \<Rightarrow> nat \<Rightarrow> u64" where
  "word_of_resp r i = ucast (drop_bit (i * HPDCACHE_WORD_WIDTH) (rsp_rdata r))"

definition resp_word :: "inflight_entry \<Rightarrow> nat" where
  "resp_word e = unat ((e_addr e div of_nat CORE_REQ_WORD_BYTES) mod of_nat CORE_REQ_WORDS)"

definition resp_byte :: "inflight_entry \<Rightarrow> nat" where
  "resp_byte e = unat (e_addr e mod of_nat CORE_REQ_BYTES)"

text \<open>The response to a store-conditional.\<close>

definition check_sc :: "transaction_resp \<Rightarrow> inflight_entry \<Rightarrow> sb \<Rightarrow> (bool \<times> sb) option" where
  "check_sc resp e s =
     (if e_is_amo_sc e
      then let sc_resp = word_of_resp resp (resp_word e);
               sc_resp = (if e_bytes e = 4 then ucast (ucast sc_resp :: u32) else sc_resp)
           in if e_is_atomic e \<and> sc_is_atomic s
              then map_option (\<lambda>m. error_if (sc_resp \<noteq> 0) Shall_be_sc_success (s\<lparr>ram_m := m\<rparr>))
                     (ram_write SCOREBOARD_RAM_SIZE (le_enc 8 (e_wdata e ! resp_word e)) [e_be e ! resp_word e]
                        CORE_REQ_WORD_BYTES (align_to (e_addr e) (of_nat CORE_REQ_WORD_BYTES)) (ram_m s))
              else Some (error_if (sc_resp \<noteq> 1) Shall_be_sc_failure s)
      else Some (True, s))"

text \<open>One byte of the response against the expected one; only known bytes count.\<close>

definition wrong_byte :: "transaction_resp \<Rightarrow> inflight_entry \<Rightarrow> nat \<Rightarrow> bool" where
  "wrong_byte resp e i \<longleftrightarrow>
     drop_bit (i mod CORE_REQ_WORD_BYTES) (e_rv e ! (i div CORE_REQ_WORD_BYTES)) AND 1 = 1
     \<and> bytes_of_words (map (word_of_resp resp) [0..<CORE_REQ_WORDS]) ! i \<noteq> bytes_of_words (e_rdata e) ! i"

fun check_bytes :: "transaction_resp \<Rightarrow> inflight_entry \<Rightarrow> nat list \<Rightarrow> sb \<Rightarrow> bool \<times> sb" where
  "check_bytes resp e [] s = (True, s)"
| "check_bytes resp e (i # is) s =
     (let r = error_if (wrong_byte resp e i)
            (Response_data_wrong (align_to (e_addr e) (of_nat CORE_REQ_BYTES) + of_nat i)
              (bytes_of_words (map (word_of_resp resp) [0..<CORE_REQ_WORDS]) ! i) (bytes_of_words (e_rdata e) ! i)) s
      in if fst r then check_bytes resp e is (snd r) else r)"

definition update_amo :: "transaction_resp \<Rightarrow> inflight_entry \<Rightarrow> sb \<Rightarrow> (bool \<times> sb) option" where
  "update_amo resp e s =
     (if e_is_amo e
      then let offset = unat (e_addr e mod of_nat CORE_REQ_WORD_BYTES) * CORE_REQ_WORD_BYTES;
               amo_new = e_wdata e ! resp_word e;
               amo_old = word_of_resp resp (resp_word e);
               amo_new = (if e_bytes e = 4 then ucast (ucast (drop_bit offset amo_new) :: u32) else amo_new);
               amo_old = (if e_bytes e = 4 then ucast (ucast (drop_bit offset amo_old) :: u32) else amo_old)
           in do {
                amo_res \<leftarrow> compute_amo (e_op e) amo_old amo_new (ucast (e_bytes e));
                m \<leftarrow> ram_write SCOREBOARD_RAM_SIZE (le_enc 8 (push_bit offset amo_res)) [e_be e ! resp_word e]
                      CORE_REQ_WORD_BYTES (align_to (e_addr e) (of_nat CORE_REQ_WORD_BYTES)) (ram_m s);
                Some (True, s\<lparr>ram_m := m\<rparr>)
              }
      else Some (True, s))"

text \<open>The comparison is undefined beyond the end of the arrays.\<close>

definition check_data :: "transaction_resp \<Rightarrow> inflight_entry \<Rightarrow> sb \<Rightarrow> (bool \<times> sb) option" where
  "check_data resp e s =
     (if e_is_read e \<or> e_is_amo e \<or> e_is_amo_lr e
      then if CORE_REQ_BYTES < resp_byte e + unat (e_bytes e) then None
           else andthen (check_bytes resp e [resp_byte e..<resp_byte e + unat (e_bytes e)] s) (update_amo resp e)
      else Some (True, s))"

definition retire :: "u32 \<Rightarrow> sb \<Rightarrow> sb" where
  "retire tid s = seq_deallocate tid (s\<lparr>inflight_m := map_erase tid (inflight_m s)\<rparr>)"

text \<open>The checks on a response whose error flag is as expected.\<close>

definition judge :: "transaction_resp \<Rightarrow> inflight_entry \<Rightarrow> sb \<Rightarrow> (bool \<times> sb) option" where
  "judge resp e s =
     (if \<not> e_is_error e then Option.bind (check_sc resp e s) (\<lambda>r. andthen r (check_data resp e)) else Some (True, s))"

definition core_resp_process :: "transaction_resp \<Rightarrow> sb \<Rightarrow> (bool \<times> sb) option" where
  "core_resp_process resp s =
     (let s = s\<lparr>nb_core_resp := nb_core_resp s + 1, nb_cycles_effective := nb_cycles s\<rparr>;
          tid = ucast (rsp_tid resp)
      in case map_of (inflight_m s) tid of
           None \<Rightarrow> Some (print_error (Core_resp_id_unknown tid) s)
         | Some e \<Rightarrow>
             if \<not> e_is_write e \<and> rsp_error resp \<noteq> e_is_error e then Some (print_error Error_flag_unexpected s)
             else Option.bind (judge resp e s) (\<lambda>r. andthen r (\<lambda>s. Some (True, retire tid s))))"

section \<open>Traffic to the memory\<close>

text \<open>The oldest request of the core on the line, the first of equals in the order of the table.\<close>

definition find_core_req :: "u64 \<Rightarrow> (u32 \<times> inflight_entry) list \<Rightarrow> (u32 \<times> inflight_entry) option" where
  "find_core_req addr m =
     fold (\<lambda>(k, cr) core_req.
         if get_nline (e_addr cr) = get_nline addr
         then (case core_req of
                 None \<Rightarrow> Some (k, cr)
               | Some (k', cr') \<Rightarrow> if e_time cr < e_time cr' then Some (k, cr) else core_req)
         else core_req) m None"

text \<open>The memory model is used without a test: \<open>None\<close> when it was not set.\<close>

definition new_mem_entry :: "'a mem_req_scheme \<Rightarrow> sb \<Rightarrow> mem_entry option" where
  "new_mem_entry req s =
     (let bytes = push_bit (unat (mr_size req)) 1 :: u64
      in map_option (\<lambda>gs. \<lparr>m_addr = mr_addr req, m_bytes = ucast bytes, m_is_uncacheable = (\<not> mr_cacheable req),
             m_is_error = within_error_region gs (mr_addr req) (mr_addr req + bytes),
             m_core_req = map_option fst (find_core_req (mr_addr req) (inflight_m s))\<rparr>) (segments s))"

text \<open>Taking the entry of the atomic request out of the queue; \<open>msg\<close> is reported when there is none.\<close>

definition take_amo :: "sb_msg \<Rightarrow> sb \<Rightarrow> bool \<times> inflight_entry option \<times> sb" where
  "take_amo msg s =
     (let r = error_if (1 < length (inflight_amo_req_m s)) Many_atomics_inflight s
      in if \<not> fst r then (False, None, snd r)
         else case inflight_amo_req_m (snd r) of
                [] \<Rightarrow> (fst (print_error msg (snd r)), None, snd (print_error msg (snd r)))
              | e # es \<Rightarrow> (True, Some e, (snd r)\<lparr>inflight_amo_req_m := es\<rparr>))"

definition mem_read_req_process :: "mem_req \<Rightarrow> sb \<Rightarrow> (bool \<times> sb) option" where
  "mem_read_req_process req s =
     (let s = s\<lparr>nb_mem_read_req := nb_mem_read_req s + 1\<rparr>
      in if map_of (inflight_mem_read_m s) (mr_id req) \<noteq> None then Some (print_error (Mem_read_id_inflight (mr_id req)) s)
         else do {
           e \<leftarrow> new_mem_entry req s;
           let s = s\<lparr>inflight_mem_read_m := map_insert (mr_id req) e (inflight_mem_read_m s)\<rparr>;
           Some (if is_ldex req then (let r = take_amo Unexpected_load_exclusive s in (fst r, snd (snd r))) else (True, s))
         })"

definition MEM_BYTES :: nat where
  "MEM_BYTES = HPDCACHE_MEM_DATA_WIDTH div 8"

text \<open>The bytes of the response the byte store does not know yet.\<close>

definition unset_bytes :: "u64 \<Rightarrow> ram \<Rightarrow> u8 list" where
  "unset_bytes aligned r =
     map (\<lambda>i. fold (\<lambda>j b. b OR (if getBmap SCOREBOARD_RAM_SIZE r (aligned + of_nat (i * 8 + j)) then 0 else push_bit j 1)) [0..<8] 0)
       [0..<MEM_NOC_DATA_WORDS]"

text \<open>The byte enables: a shift by 64 or more or by a negative number, and an index outside \<open>be\<close>, are undefined.\<close>

function resp_enables :: "nat \<Rightarrow> int \<Rightarrow> nat \<Rightarrow> u8 list \<Rightarrow> u8 list \<Rightarrow> u8 list option" where
  "resp_enables i bytes byte unset be =
     (if 0 < bytes
      then if bytes < 64 \<and> i * 8 \<le> byte \<and> byte - i * 8 < 64 \<and> i < length be
           then let msk = ucast (push_bit (byte - i * 8) (push_bit (nat bytes) 1 - 1 :: u64))
                in resp_enables (i + 1) (bytes - 8) byte unset (be[i := msk AND unset ! i])
           else None
      else Some be)"
  by pat_completeness auto
termination by (relation "measure (\<lambda>(i, bytes, _). nat bytes)") auto

text \<open>The byte store takes over the bytes of the response it does not know.\<close>

definition absorb :: "mem_read_resp \<Rightarrow> mem_entry \<Rightarrow> ram \<Rightarrow> ram option" where
  "absorb resp req r =
     (let aligned = align_to (m_addr req) (of_nat MEM_BYTES);
          word = unat ((m_addr req div of_nat MEM_BYTES) mod of_nat MEM_NOC_DATA_WORDS);
          byte = unat (m_addr req mod of_nat MEM_BYTES);
          rdata = map (get_word (rr_data resp)) [0..<MEM_NOC_DATA_WORDS]
      in Option.bind (resp_enables word (uint (m_bytes req)) byte (unset_bytes aligned r) (replicate MEM_NOC_DATA_WORDS 0))
           (\<lambda>be. ram_write SCOREBOARD_RAM_SIZE (bytes_of_words rdata) be MEM_BYTES aligned r))"

definition mem_read_resp_process :: "mem_read_resp \<Rightarrow> sb \<Rightarrow> (bool \<times> sb) option" where
  "mem_read_resp_process resp s =
     (let s = s\<lparr>nb_mem_read_resp := nb_mem_read_resp s + 1\<rparr>
      in case map_of (inflight_mem_read_m s) (rr_id resp) of
           None \<Rightarrow> Some (print_error (Mem_read_resp_id_unknown (rr_id resp)) s)
         | Some req \<Rightarrow>
             map_option
               (\<lambda>m. let s = s\<lparr>ram_m := m\<rparr>
                    in (True, if rr_last resp then s\<lparr>inflight_mem_read_m := map_erase (rr_id resp) (inflight_mem_read_m s)\<rparr> else s))
               (if rr_error resp = 0 then absorb resp req (ram_m s) else Some (ram_m s)))"

definition mem_write_req_process :: "mem_write_req \<Rightarrow> sb \<Rightarrow> (bool \<times> sb) option" where
  "mem_write_req_process req s =
     (let s = s\<lparr>nb_mem_write_req := nb_mem_write_req s + 1\<rparr>
      in if map_of (inflight_mem_write_m s) (mr_id req) \<noteq> None then Some (print_error (Mem_write_id_inflight (mr_id req)) s)
         else do {
           e \<leftarrow> new_mem_entry req s;
           let s = s\<lparr>inflight_mem_write_m := map_insert (mr_id req) e (inflight_mem_write_m s)\<rparr>;
           if mem_is_amo req
           then (case take_amo Unexpected_amo s of
                   (go, None, s) \<Rightarrow> Some (go, s)
                 | (_, Some _, s) \<Rightarrow>
                     andthen (error_if (m_core_req e = None) Amo_without_core_req s)
                       (\<lambda>s. Some (True, s\<lparr>inflight_mem_read_m := map_insert (mr_id req) e (inflight_mem_read_m s)\<rparr>)))
           else if is_stex req
           then (case take_amo Unexpected_store_exclusive s of
                   (go, None, s) \<Rightarrow> Some (go, s)
                 | (_, Some cr, s) \<Rightarrow>
                     if \<not> e_is_atomic cr then Some (print_error Store_exclusive_not_reserved s)
                     else Some (error_if (m_core_req e = None) Sc_without_core_req s))
           else Some (True, s)
         })"

definition mem_write_resp_process :: "mem_write_resp \<Rightarrow> sb \<Rightarrow> (bool \<times> sb) option" where
  "mem_write_resp_process resp s =
     (let s = s\<lparr>nb_mem_write_resp := nb_mem_write_resp s + 1\<rparr>
      in if map_of (inflight_mem_write_m s) (wr_id resp) = None then Some (print_error (Mem_write_resp_id_unknown (wr_id resp)) s)
         else Some (True, s\<lparr>sc_is_atomic := wr_is_atomic resp,
                           inflight_mem_write_m := map_erase (wr_id resp) (inflight_mem_write_m s)\<rparr>))"

section \<open>The verdict\<close>

text \<open>The checks of the destructor; the statistics it prints are left out.\<close>

definition final_checks :: "sb \<Rightarrow> (bool \<times> sb) option" where
  "final_checks s =
     andthen (error_if (nb_core_resp s \<noteq> nb_core_req_need_rsp s) (Responses_differ (nb_core_resp s) (nb_core_req_need_rsp s)) s)
       (\<lambda>s. andthen (error_if (evt_m s Write_req < evt_m s Cache_write_miss)
               (Too_many_write_misses (evt_m s Cache_write_miss) (evt_m s Write_req)) s)
       (\<lambda>s. andthen (error_if (evt_m s Read_req < evt_m s Cache_read_miss)
               (Too_many_read_misses (evt_m s Cache_read_miss) (evt_m s Read_req)) s)
       (\<lambda>s. Some (error_if (seq_ids s \<noteq> []) (Unresponded_ids (seq_ids s)) s))))"

end
