(* ===== verification/Hpd_Predictions.thy ===== *)
theory Hpd_Predictions
  imports Hpd_Checks
begin

text \<open>
  What the scoreboard predicts for a request of the core: it always accepts or reports it, it keeps the reservation for
  exclusive accesses as the instruction set asks, it remembers the bytes of stores, and it judges the response to a
  load by exactly the bytes remembered when the load was issued.
\<close>

section \<open>Handling a request\<close>

lemma expect_data_returns:
  "\<exists>e1. expect_data r s e = Some e1 \<and> e1 = e\<lparr>e_rdata := e_rdata e1, e_rv := e_rv e1\<rparr>"
proof (cases "\<not> e_is_error e \<and> (is_load r \<or> is_amo_lr r \<or> is_amo r)")
  case True
  obtain buf valid where "ram_read SCOREBOARD_RAM_SIZE 8 (align_to (e_addr e) 8) (ram_m s) = Some (buf, valid)"
    using sb_ram.inside_returns(2) [OF word_inside] by blast
  with True show ?thesis by (simp add: expect_data_def aligned_addr_def config_values)
next
  case False
  then show ?thesis unfolding expect_data_def by (simp only: if_False) simp
qed

lemma write_data_returns: "\<exists>m. write_data r e m0 = Some m"
  using sb_ram.inside_returns(1) [OF word_inside, of "bytes_of_words (e_wdata e)" "e_be e" "e_addr e" m0]
  by (auto simp: write_data_def aligned_addr_def config_values)

text \<open>The steps of an accepted request.\<close>

lemma accept_req_run:
  obtains e1 e l m where "expect_data r s (mark_error r s (request_entry e0 r s)) = Some e1"
    "e1 = (mark_error r s (request_entry e0 r s))\<lparr>e_rdata := e_rdata e1, e_rv := e_rv e1\<rparr>"
    "check_reservation r e1 (reserve r e1 (lrsc_m s)) = (e, l)" "write_data r e (ram_m s) = Some m"
    "accept_req e0 r s =
       Some (if forward_amo r e \<and> AMO_FIFO_SIZE \<le> length (inflight_amo_req_m s) then print_error Amo_fifo_full (s\<lparr>lrsc_m := l\<rparr>)
             else (True, register_req r e (s\<lparr>lrsc_m := l,
                    inflight_amo_req_m := (if forward_amo r e then inflight_amo_req_m s @ [e] else inflight_amo_req_m s),
                    ram_m := m\<rparr>)))"
proof -
  obtain e1 where e1: "expect_data r s (mark_error r s (request_entry e0 r s)) = Some e1"
    "e1 = (mark_error r s (request_entry e0 r s))\<lparr>e_rdata := e_rdata e1, e_rv := e_rv e1\<rparr>"
    using expect_data_returns by blast
  obtain e l where c: "check_reservation r e1 (reserve r e1 (lrsc_m s)) = (e, l)" by fastforce
  obtain m where m: "write_data r e (ram_m s) = Some m" using write_data_returns by blast
  have "accept_req e0 r s =
       Some (if forward_amo r e \<and> AMO_FIFO_SIZE \<le> length (inflight_amo_req_m s) then print_error Amo_fifo_full (s\<lparr>lrsc_m := l\<rparr>)
             else (True, register_req r e (s\<lparr>lrsc_m := l,
                    inflight_amo_req_m := (if forward_amo r e then inflight_amo_req_m s @ [e] else inflight_amo_req_m s),
                    ram_m := m\<rparr>)))"
    unfolding accept_req_def e1(1) bind.simps Let_def c prod.case using m by (cases "forward_amo r e") simp_all
  with e1 c m show thesis by (rule that)
qed

section \<open>Reservations\<close>

text \<open>The reserved word, if any, and the words an access covers in its line.\<close>

definition resv :: "lrsc_buf \<Rightarrow> u64 option" where
  "resv l = (if l_valid l then Some (drop_bit 3 (l_base l)) else None)"

definition covers :: "inflight_entry \<Rightarrow> u64 \<Rightarrow> bool" where
  "covers e w \<longleftrightarrow> drop_bit 3 w = get_nline (e_addr e) \<and> unat (drop_bit 3 (e_addr e)) \<le> unat w
     \<and> unat w < unat (drop_bit 3 (e_addr e)) + max 1 (unat (e_bytes e) div 8)"

text \<open>What an access does to the reservation.\<close>

definition resv_after :: "transaction_req \<Rightarrow> inflight_entry \<Rightarrow> u64 option \<Rightarrow> u64 option" where
  "resv_after r e w =
     (if is_amo_lr r then (if e_is_error e then None else Some (drop_bit 3 (e_addr e)))
      else if is_amo_sc r then None
      else if is_amo r \<or> is_store r then (case w of None \<Rightarrow> None | Some x \<Rightarrow> if covers e x then None else Some x)
      else w)"

lemma get_offset_unat: "unat (drop_bit 3 (get_offset a)) = unat a mod 64 div 8"
proof -
  have "get_offset a = take_bit 6 a"
    by (simp add: get_offset_def config_values take_bit_eq_mask mask_eq_exp_minus_1)
  then show ?thesis
    by (simp add: unat_drop_bit_eq drop_bit_eq_div unsigned_take_bit_eq take_bit_eq_mod unat_div unat_mod_distrib)
qed

lemma get_nline_eq: "get_nline a = get_nline b \<longleftrightarrow> unat a div 64 = unat b div 64"
  by (simp add: get_nline_def config_values word_unat_eq_iff unat_drop_bit_eq drop_bit_eq_div unat_div)

lemma drop_nline: "drop_bit 3 (drop_bit 3 a :: u64) = get_nline a"
  by (simp add: get_nline_def config_values)

lemma addr_match_covers: "addr_match e l \<longleftrightarrow> (\<exists>w. resv l = Some w \<and> covers e w)"
proof -
  let ?a = "unat (e_addr e)" and ?b = "unat (l_base l)"
  define k where "k = max 1 (unat (e_bytes e) div 8)"
  have b: "unat (e_bytes e) < 256" using unsigned_less [of "e_bytes e", where ?'a = nat] by simp
  then have k: "k \<le> 31" by (auto simp: k_def)
  have words: "unat ((if e_bytes e < 8 then 1 else ucast (drop_bit 3 (e_bytes e))) :: u64) = k"
  proof (cases "e_bytes e < 8")
    case True
    then show ?thesis by (simp add: k_def word_less_nat_alt)
  next
    case False
    then have "1 \<le> unat (e_bytes e) div 8" by (simp add: word_less_nat_alt)
    moreover have "unat (ucast (drop_bit 3 (e_bytes e)) :: u64) = unat (e_bytes e) div 8"
    proof -
      have "unat (e_bytes e) div 8 < 2 ^ 64" by (rule le_less_trans [OF div_le_dividend less_trans [OF b]]) simp
      then show ?thesis by (simp add: unsigned_ucast_eq drop_bit_eq_div unat_div take_bit_nat_eq_self)
    qed
    ultimately show ?thesis using False by (simp add: k_def)
  qed
  have ea: "?a mod 64 div 8 \<le> 7" "?b mod 64 div 8 \<le> 7" by linarith+
  have "unat (drop_bit 3 (get_offset (e_addr e)) + ((if e_bytes e < 8 then 1 else ucast (drop_bit 3 (e_bytes e))) :: u64))
      = ?a mod 64 div 8 + k"
    unfolding unat_word_ariths get_offset_unat words using ea k by simp
  then have am: "addr_match e l \<longleftrightarrow> l_valid l \<and> ?b div 64 = ?a div 64 \<and> ?a mod 64 div 8 \<le> ?b mod 64 div 8
      \<and> ?b mod 64 div 8 < ?a mod 64 div 8 + k"
    unfolding addr_match_def Let_def get_nline_eq word_le_nat_alt word_less_nat_alt get_offset_unat by simp
  have d: "n div 8 = n div 64 * 8 + n mod 64 div 8" for n :: nat
    using mod_mult2_eq [of n 8 8] div_mult2_eq [of n 8 8] div_mult_mod_eq [of "n div 8" 8] by simp
  have u: "unat (drop_bit 3 x) = unat x div 8" for x :: u64 by (simp add: drop_bit_eq_div unat_div)
  have nl: "drop_bit 3 (drop_bit 3 (l_base l)) = get_nline (e_addr e) \<longleftrightarrow> ?b div 64 = ?a div 64"
    unfolding drop_nline by (rule get_nline_eq)
  have cc: "covers e (drop_bit 3 (l_base l)) \<longleftrightarrow> ?b div 64 = ?a div 64 \<and> ?a div 8 \<le> ?b div 8 \<and> ?b div 8 < ?a div 8 + k"
    unfolding covers_def k_def [symmetric] u nl ..
  have "(\<exists>w. resv l = Some w \<and> covers e w) \<longleftrightarrow> l_valid l \<and> ?b div 64 = ?a div 64 \<and> ?a div 8 \<le> ?b div 8 \<and> ?b div 8 < ?a div 8 + k"
    by (cases "l_valid l") (simp_all add: resv_def cc)
  also have "\<dots> \<longleftrightarrow> addr_match e l" unfolding am using d [of ?a] d [of ?b] by auto
  finally show ?thesis by simp
qed

lemma op_exclusive:
  "is_amo_lr r \<Longrightarrow> \<not> is_amo r \<and> \<not> is_amo_sc r \<and> \<not> is_store r \<and> \<not> is_load r \<and> \<not> is_cmo r"
  "is_amo_sc r \<Longrightarrow> \<not> is_amo r \<and> \<not> is_amo_lr r \<and> \<not> is_store r \<and> \<not> is_load r \<and> \<not> is_cmo r"
  "is_store r \<Longrightarrow> \<not> is_amo r \<and> \<not> is_amo_lr r \<and> \<not> is_amo_sc r \<and> \<not> is_load r \<and> \<not> is_cmo r"
  "is_load r \<Longrightarrow> \<not> is_amo r \<and> \<not> is_amo_lr r \<and> \<not> is_amo_sc r \<and> \<not> is_store r \<and> \<not> is_cmo r"
  by (auto simp: op_classes Let_def)

lemma check_reservation_spec:
  assumes "check_reservation r e (reserve r e l) = (e', l')"
  shows "resv l' = resv_after r e (resv l)"
    and "is_amo_sc r \<Longrightarrow> e' = e\<lparr>e_is_atomic := (\<exists>w. resv l = Some w \<and> covers e w),
           e_is_error := e_is_error e \<and> (\<exists>w. resv l = Some w \<and> covers e w)\<rparr>"
    and "\<not> is_amo_sc r \<Longrightarrow> e' = e"
proof -
  have inv: "resv (x\<lparr>l_valid := False\<rparr>) = None" for x by (simp add: resv_def)
  consider (lr) "is_amo_lr r" | (sc) "\<not> is_amo_lr r" "is_amo_sc r" | (wr) "\<not> is_amo_lr r" "\<not> is_amo_sc r" "is_amo r \<or> is_store r"
    | (other) "\<not> is_amo_lr r" "\<not> is_amo_sc r" "\<not> is_amo r" "\<not> is_store r" by blast
  then show "resv l' = resv_after r e (resv l)"
  proof cases
    case lr
    then have "l' = reserve r e l" using assms op_exclusive(1) [of r] by (auto simp: check_reservation_def)
    then show ?thesis using lr by (simp add: reserve_def resv_after_def resv_def)
  next
    case sc
    then have "resv l' = None" using assms inv by (auto simp: check_reservation_def Let_def)
    then show ?thesis using sc by (simp add: resv_after_def)
  next
    case wr
    then have "l' = (if addr_match e l then l\<lparr>l_valid := False\<rparr> else l)"
      using assms by (auto simp: check_reservation_def reserve_def Let_def)
    then show ?thesis using wr inv addr_match_covers [of e l] by (auto simp: resv_after_def split: option.splits)
  next
    case other
    then have "l' = l" using assms by (simp add: check_reservation_def reserve_def)
    then show ?thesis using other by (simp add: resv_after_def)
  qed
  show "is_amo_sc r \<Longrightarrow> e' = e\<lparr>e_is_atomic := (\<exists>w. resv l = Some w \<and> covers e w),
           e_is_error := e_is_error e \<and> (\<exists>w. resv l = Some w \<and> covers e w)\<rparr>"
    using assms op_exclusive(2) [of r] addr_match_covers [of e l]
    by (auto simp: check_reservation_def reserve_def Let_def split: if_splits)
  show "\<not> is_amo_sc r \<Longrightarrow> e' = e"
    using assms by (auto simp: check_reservation_def Let_def split: if_splits)
qed


section \<open>Known bytes\<close>

lemma word_bytes_1: "bytes_of_words (words_of_bytes 1 bs) = bs" if "length bs = 8"
  using that by (simp add: bytes_of_words_def words_of_bytes_def le_enc_dec)

lemma bytes_of_one: "i < 8 \<Longrightarrow> bytes_of_words [w] ! i = byte_of w i"
  by (simp add: bytes_of_words_def le_enc_def byte_of_def)

text \<open>The place of the \<open>i\<close>-th byte of the word an address lies in.\<close>

definition place_of :: "u64 \<Rightarrow> nat \<Rightarrow> u64" where
  "place_of a i = align_to a 8 mod SCOREBOARD_RAM_SIZE + of_nat i"

abbreviation known :: "sb \<Rightarrow> u64 \<Rightarrow> u8 option" where
  "known s \<equiv> ram_abs SCOREBOARD_RAM_SIZE (ram_m s)"

text \<open>The fields of the entry that the predictions rest on.\<close>

lemma request_entry_fields:
  "e_addr (request_entry e0 r s) = ucast (req_addr r)" "e_bytes (request_entry e0 r s) = push_bit (unat (req_size r)) 1"
  "e_is_read (request_entry e0 r s) = is_load r" "e_is_write (request_entry e0 r s) = is_store r"
  "e_is_amo (request_entry e0 r s) = is_amo r" "e_is_amo_lr (request_entry e0 r s) = is_amo_lr r"
  "e_is_amo_sc (request_entry e0 r s) = is_amo_sc r" "\<not> e_is_error (request_entry e0 r s)"
  by (simp_all add: request_entry_def Let_def)

lemma mark_error_fields:
  "e_addr (mark_error r s e) = e_addr e" "e_bytes (mark_error r s e) = e_bytes e" "e_is_read (mark_error r s e) = e_is_read e"
  "e_is_write (mark_error r s e) = e_is_write e" "e_is_amo (mark_error r s e) = e_is_amo e"
  "e_is_amo_lr (mark_error r s e) = e_is_amo_lr e" "e_is_amo_sc (mark_error r s e) = e_is_amo_sc e"
  "e_wdata (mark_error r s e) = e_wdata e" "e_be (mark_error r s e) = e_be e"
  by (simp_all add: mark_error_def split: option.splits)

lemma count_req_keeps [simp]: "inflight_m (count_req r s) = inflight_m s" "ram_m (count_req r s) = ram_m s"
  "lrsc_m (count_req r s) = lrsc_m s" "segments (count_req r s) = segments s" "msgs (count_req r s) = msgs s"
  "inflight_amo_req_m (count_req r s) = inflight_amo_req_m s" "seq_ids (count_req r s) = seq_ids s"
  "sb_error_limit (count_req r s) = sb_error_limit s" "nb_error (count_req r s) = nb_error s" "nb_cycles (count_req r s) = nb_cycles s"
  by (simp_all add: count_req_def Let_def)

text \<open>Whether the request touches an error segment.\<close>

definition req_in_error :: "transaction_req \<Rightarrow> sb \<Rightarrow> bool" where
  "req_in_error r s \<longleftrightarrow>
     (case segments s of None \<Rightarrow> False
      | Some gs \<Rightarrow> (\<not> is_cmo r \<or> is_cmo_prefetch r)
          \<and> within_error_region gs (ucast (req_addr r)) (ucast (req_addr r) + ucast (push_bit (unat (req_size r)) 1 :: u8)))"

lemma req_in_error: "e_is_error (mark_error r (count_req r s) (request_entry e0 r (count_req r s))) = req_in_error r s"
  by (simp add: req_in_error_def mark_error_def request_entry_fields split: option.splits)

lemma mark_error_count: "mark_error r (count_req r s) e = mark_error r s e" "request_entry e0 r (count_req r s) = request_entry e0 r s"
  by (simp_all add: mark_error_def request_entry_def Let_def)

lemma core_req_accepts:
  assumes "map_of (inflight_m s) (ucast (req_tid r)) = None" "\<not> (is_cmo r \<and> \<not> req_need_rsp r)"
  shows "core_req_process e0 r s = accept_req e0 r (count_req r s)"
  unfolding core_req_process_def Let_def using assms by auto

lemma register_req_other [simp]: "ram_m (register_req r e s) = ram_m s" "lrsc_m (register_req r e s) = lrsc_m s"
  "sb_error_limit (register_req r e s) = sb_error_limit s"
  by (auto simp: register_req_def seq_deallocate_def split: prod.splits)

lemma print_error_other [simp]: "ram_m (snd (print_error m s)) = ram_m s" "lrsc_m (snd (print_error m s)) = lrsc_m s"
  by (simp_all add: print_error_def Let_def)

section \<open>Stores and loads\<close>

text \<open>The record updates of the steps an accepted request goes through, with the entry they end with.\<close>

lemma request_run:
  assumes "map_of (inflight_m s) (ucast (req_tid r)) = None" "\<not> (is_cmo r \<and> \<not> req_need_rsp r)" "\<not> forward_amo r (request_entry e0 r s)"
    "\<not> is_amo_sc r"
  obtains e m s' where "expect_data r s (mark_error r s (request_entry e0 r s)) = Some e" "write_data r e (ram_m s) = Some m"
    "core_req_process e0 r s = Some (True, s')" "ram_m s' = m" "sb_error_limit s' = sb_error_limit s"
    "req_need_rsp r \<Longrightarrow> inflight_m s' = map_insert (ucast (req_tid r)) e (inflight_m s)"
proof -
  let ?s = "count_req r s"
  obtain e1 e2 l m where run: "expect_data r ?s (mark_error r ?s (request_entry e0 r ?s)) = Some e1"
    "e1 = (mark_error r ?s (request_entry e0 r ?s))\<lparr>e_rdata := e_rdata e1, e_rv := e_rv e1\<rparr>"
    "check_reservation r e1 (reserve r e1 (lrsc_m ?s)) = (e2, l)" "write_data r e2 (ram_m ?s) = Some m"
    "accept_req e0 r ?s =
       Some (if forward_amo r e2 \<and> AMO_FIFO_SIZE \<le> length (inflight_amo_req_m ?s) then print_error Amo_fifo_full (?s\<lparr>lrsc_m := l\<rparr>)
             else (True, register_req r e2 (?s\<lparr>lrsc_m := l,
                    inflight_amo_req_m := (if forward_amo r e2 then inflight_amo_req_m ?s @ [e2] else inflight_amo_req_m ?s),
                    ram_m := m\<rparr>)))"
    by (rule accept_req_run)
  have e: "e2 = e1" by (rule check_reservation_spec(3) [OF run(3) assms(4)])
  have f: "\<not> forward_amo r e2" using assms(3,4) by (simp add: forward_amo_def)
  have x: "expect_data r s (mark_error r s (request_entry e0 r s)) = Some e2"
  proof -
    have "expect_data r ?s z = expect_data r s z" for z by (simp add: expect_data_def)
    with run(1) show ?thesis by (simp add: e mark_error_count)
  qed
  define s' where "s' = register_req r e2 (?s\<lparr>lrsc_m := l, inflight_amo_req_m := inflight_amo_req_m ?s, ram_m := m\<rparr>)"
  have "core_req_process e0 r s = Some (True, s')" using run(5) f by (simp add: core_req_accepts [OF assms(1,2)] s'_def)
  moreover have "write_data r e2 (ram_m s) = Some m" using run(4) by simp
  moreover have "ram_m s' = m" "sb_error_limit s' = sb_error_limit s" by (simp_all add: s'_def)
  moreover have "inflight_m s' = map_insert (ucast (req_tid r)) e2 (inflight_m s)" if "req_need_rsp r"
    using that by (simp add: s'_def register_req_def)
  ultimately show thesis using x by (blast intro: that)
qed

text \<open>With no limit on the errors, the loop over the bytes reports every wrong one.\<close>

lemma check_bytes_all:
  assumes "sb_error_limit s = 0"
  shows "check_bytes resp e is s = (True, s\<lparr>nb_error := nb_error s + of_nat (length (filter (wrong_byte resp e) is)),
    msgs := msgs s @ map (\<lambda>i. Response_data_wrong (align_to (e_addr e) (of_nat CORE_REQ_BYTES) + of_nat i)
      (bytes_of_words (map (word_of_resp resp) [0..<CORE_REQ_WORDS]) ! i) (bytes_of_words (e_rdata e) ! i))
      (filter (wrong_byte resp e) is)\<rparr>)"
  using assms
proof (induction "is" arbitrary: s)
  case (Cons i "is")
  let ?m = "Response_data_wrong (align_to (e_addr e) (of_nat CORE_REQ_BYTES) + of_nat i)
      (bytes_of_words (map (word_of_resp resp) [0..<CORE_REQ_WORDS]) ! i) (bytes_of_words (e_rdata e) ! i)"
  have p: "print_error ?m s = (True, s\<lparr>nb_error := nb_error s + 1, msgs := msgs s @ [?m]\<rparr>)"
    using Cons.prems by (simp add: print_error_def)
  show ?case
    using Cons.IH [of s] Cons.IH [of "s\<lparr>nb_error := nb_error s + 1, msgs := msgs s @ [?m]\<rparr>"] Cons.prems
    by (cases "wrong_byte resp e i") (simp_all add: error_if_def p Let_def add.assoc)
qed simp

lemma one_word: "word_of_req r 0 = req_wdata r" "be_of_req r 0 = req_be r" "word_of_resp resp 0 = rsp_rdata resp"
  by (simp_all add: word_of_req_def be_of_req_def word_of_resp_def)

lemma enabled_one: "i < 8 \<Longrightarrow> enabled [b] i \<longleftrightarrow> bit b i"
  by (simp add: enabled_def getBit_bit)

lemma store_entry:
  assumes "is_store r"
  shows "e_wdata (mark_error r s (request_entry e0 r s)) = [req_wdata r]" "e_be (mark_error r s (request_entry e0 r s)) = [req_be r]"
  using assms by (simp_all add: mark_error_fields request_entry_def Let_def config_bytes one_word)

lemma entry_addr: "e_addr (mark_error r s (request_entry e0 r s)) = ucast (req_addr r)"
  by (simp add: mark_error_fields request_entry_fields)

lemma entry_error: "e_is_error (mark_error r s (request_entry e0 r s)) = req_in_error r s"
  using req_in_error [of r s e0] by (simp add: mark_error_count)

lemma unat_push_one: "n < 8 \<Longrightarrow> unat (push_bit n 1 :: u8) = 2 ^ n"
proof -
  assume "n < 8"
  then consider "n = 0" | "n = 1" | "n = 2" | "n = 3" | "n = 4" | "n = 5" | "n = 6" | "n = 7" by linarith
  then show ?thesis by cases simp_all
qed

text \<open>The entry of a load carries the bytes known when it was issued.\<close>

lemma load_entry:
  assumes "is_load r" "\<not> req_in_error r s" "expect_data r s (mark_error r s (request_entry e0 r s)) = Some e"
  shows "e_addr e = ucast (req_addr r)" "e_bytes e = push_bit (unat (req_size r)) 1" "e_is_read e" "\<not> e_is_write e" "\<not> e_is_amo e"
    "\<not> e_is_amo_sc e" "\<not> e_is_error e"
    and "i < 8 \<Longrightarrow> wrong_byte resp e i \<longleftrightarrow> (\<exists>b. known s (place_of (ucast (req_addr r)) i) = Some b \<and> byte_of (rsp_rdata resp) i \<noteq> b)"
    and "i < 8 \<Longrightarrow> wrong_byte resp e i \<Longrightarrow> bytes_of_words (e_rdata e) ! i = the (known s (place_of (ucast (req_addr r)) i))"
proof -
  let ?e = "mark_error r s (request_entry e0 r s)"
  obtain buf valid where rd: "ram_read SCOREBOARD_RAM_SIZE 8 (align_to (ucast (req_addr r)) 8) (ram_m s) = Some (buf, valid)"
    and e: "e = ?e\<lparr>e_rdata := words_of_bytes CORE_REQ_WORDS buf, e_rv := valid\<rparr>"
  proof -
    have c: "\<not> e_is_error ?e \<and> (is_load r \<or> is_amo_lr r \<or> is_amo r)" using assms(1,2) by (simp add: entry_error)
    have "aligned_addr ?e = align_to (ucast (req_addr r)) 8" by (simp add: aligned_addr_def entry_addr config_values)
    then have "map_option (\<lambda>(buf, valid). ?e\<lparr>e_rdata := words_of_bytes CORE_REQ_WORDS buf, e_rv := valid\<rparr>)
        (ram_read SCOREBOARD_RAM_SIZE 8 (align_to (ucast (req_addr r)) 8) (ram_m s)) = Some e"
      using assms(3) unfolding expect_data_def if_P [OF c] by (simp only: config_values) simp
    then show thesis by (auto simp only: map_option_eq_Some split: prod.splits intro: that)
  qed
  show "e_addr e = ucast (req_addr r)" "e_bytes e = push_bit (unat (req_size r)) 1" "e_is_read e" "\<not> e_is_write e" "\<not> e_is_amo e"
    "\<not> e_is_amo_sc e" "\<not> e_is_error e"
    using op_exclusive(4) [OF assms(1)] assms(1,2) by (simp_all add: e entry_addr entry_error mark_error_fields request_entry_fields)
  have k: "length buf = 8" "length valid = 1"
      "\<forall>i < 8. (enabled valid i \<longleftrightarrow> known s (place_of (ucast (req_addr r)) i) \<noteq> None)
         \<and> (enabled valid i \<longrightarrow> known s (place_of (ucast (req_addr r)) i) = Some (buf ! i))"
    using sb_ram.rd_known [OF rd] by (simp_all add: place_of_def)
  have eb: "bytes_of_words (e_rdata e) = buf" using word_bytes_1 [OF k(1)] by (simp add: e config_bytes)
  have w: "wrong_byte resp e i \<longleftrightarrow> enabled valid i \<and> byte_of (rsp_rdata resp) i \<noteq> buf ! i" if "i < 8"
    using that unfolding wrong_byte_def eb by (simp add: e config_bytes one_word bytes_of_one enabled_def getBit_def)
  show "i < 8 \<Longrightarrow> wrong_byte resp e i \<longleftrightarrow> (\<exists>b. known s (place_of (ucast (req_addr r)) i) = Some b \<and> byte_of (rsp_rdata resp) i \<noteq> b)"
    using k(3) [rule_format, of i] w by (cases "known s (place_of (ucast (req_addr r)) i)") simp_all
  show "i < 8 \<Longrightarrow> wrong_byte resp e i \<Longrightarrow> bytes_of_words (e_rdata e) ! i = the (known s (place_of (ucast (req_addr r)) i))"
    using k(3) [rule_format, of i] w unfolding eb by (cases "known s (place_of (ucast (req_addr r)) i)") simp_all
qed

section \<open>Properties\<close>

text \<open>C4. The reservation refines the one of the instruction set: a load-reserved outside the error segments reserves its
  word, a store or an atomic operation that covers the reserved word drops it, a store-conditional always drops it and
  is expected to succeed only if it covers the reserved word; other requests leave it alone.\<close>

theorem reservation_refined:
  assumes "map_of (inflight_m s) (ucast (req_tid r)) = None" "\<not> (is_cmo r \<and> \<not> req_need_rsp r)"
    and "distinct (map fst (inflight_m s))" "length (inflight_amo_req_m s) < AMO_FIFO_SIZE"
    and "e = mark_error r s (request_entry e0 r s)"
  shows "\<exists>s'. core_req_process e0 r s = Some (True, s') \<and> resv (lrsc_m s') = resv_after r e (resv (lrsc_m s))
    \<and> (is_amo_sc r \<and> req_need_rsp r \<longrightarrow> (\<exists>e'. map_of (inflight_m s') (ucast (req_tid r)) = Some e'
         \<and> (e_is_atomic e' \<longleftrightarrow> (\<exists>w. resv (lrsc_m s) = Some w \<and> covers e w))))"
proof -
  let ?s = "count_req r s"
  obtain e1 e2 l m where run: "expect_data r ?s (mark_error r ?s (request_entry e0 r ?s)) = Some e1"
    "e1 = (mark_error r ?s (request_entry e0 r ?s))\<lparr>e_rdata := e_rdata e1, e_rv := e_rv e1\<rparr>"
    "check_reservation r e1 (reserve r e1 (lrsc_m ?s)) = (e2, l)" "write_data r e2 (ram_m ?s) = Some m"
    "accept_req e0 r ?s =
       Some (if forward_amo r e2 \<and> AMO_FIFO_SIZE \<le> length (inflight_amo_req_m ?s) then print_error Amo_fifo_full (?s\<lparr>lrsc_m := l\<rparr>)
             else (True, register_req r e2 (?s\<lparr>lrsc_m := l,
                    inflight_amo_req_m := (if forward_amo r e2 then inflight_amo_req_m ?s @ [e2] else inflight_amo_req_m ?s),
                    ram_m := m\<rparr>)))"
    by (rule accept_req_run)
  have same: "e_addr e1 = e_addr e" "e_bytes e1 = e_bytes e" "e_is_error e1 = e_is_error e"
    using arg_cong [OF run(2), of e_addr] arg_cong [OF run(2), of e_bytes] arg_cong [OF run(2), of e_is_error] req_in_error [of r s e0]
    by (simp_all add: assms(5) mark_error_fields request_entry_fields mark_error_count)
  have cov: "covers e1 = covers e" "resv_after r e1 = resv_after r e"
  proof -
    show c: "covers e1 = covers e" using same by (simp add: covers_def fun_eq_iff)
    show "resv_after r e1 = resv_after r e" unfolding resv_after_def c same ..
  qed
  define s' where "s' = register_req r e2 (?s\<lparr>lrsc_m := l,
      inflight_amo_req_m := (if forward_amo r e2 then inflight_amo_req_m ?s @ [e2] else inflight_amo_req_m ?s), ram_m := m\<rparr>)"
  have "core_req_process e0 r s = Some (True, s')"
    using run(5) assms(4) by (simp add: core_req_accepts [OF assms(1,2)] s'_def)
  moreover have "resv (lrsc_m s') = resv_after r e (resv (lrsc_m s))"
    using check_reservation_spec(1) [OF run(3)] by (simp add: s'_def cov)
  moreover have "\<exists>e'. map_of (inflight_m s') (ucast (req_tid r)) = Some e'
         \<and> (e_is_atomic e' \<longleftrightarrow> (\<exists>w. resv (lrsc_m s) = Some w \<and> covers e w))" if "is_amo_sc r" "req_need_rsp r"
    using check_reservation_spec(2) [OF run(3) that(1)] that(2) find_insert [OF assms(1,3), of e2]
    by (simp add: s'_def register_req_def cov)
  ultimately show ?thesis by blast
qed

lemma reservation_refined_witness:
  "\<forall>e0. \<exists>s'. core_req_process e0 (new_transaction_req\<lparr>req_addr := 0x1008, req_op := 5, req_size := 3, req_tid := 7, req_need_rsp := True\<rparr>)
      (new_sb \<lparr>l_valid = True, l_base = 0x1008, l_end = 0x1010, l_is_atomic = False\<rparr> (\<lambda>_. 0)) = Some (True, s')
    \<and> resv (lrsc_m s') = None \<and> (\<exists>e'. map_of (inflight_m s') 7 = Some e' \<and> e_is_atomic e')"
proof
  fix e0
  let ?r = "new_transaction_req\<lparr>req_addr := 0x1008, req_op := 5, req_size := 3, req_tid := 7, req_need_rsp := True\<rparr>"
  let ?s = "new_sb \<lparr>l_valid = True, l_base = 0x1008, l_end = 0x1010, l_is_atomic = False\<rparr> (\<lambda>_. 0)"
  have r: "is_amo_sc ?r" "\<not> is_amo_lr ?r" "\<not> is_cmo ?r" "req_need_rsp ?r"
    by (simp_all add: op_classes Let_def new_transaction_req_def)
  have "resv (lrsc_m ?s) = Some 0x201" by (simp add: new_sb_def resv_def)
  moreover have "covers (mark_error ?r ?s (request_entry e0 ?r ?s)) 0x201"
    by (simp add: covers_def entry_addr mark_error_fields request_entry_fields get_nline_def config_values new_transaction_req_def)
  moreover have "\<exists>s'. core_req_process e0 ?r ?s = Some (True, s')
      \<and> resv (lrsc_m s') = resv_after ?r (mark_error ?r ?s (request_entry e0 ?r ?s)) (resv (lrsc_m ?s))
      \<and> (is_amo_sc ?r \<and> req_need_rsp ?r \<longrightarrow> (\<exists>e'. map_of (inflight_m s') (ucast (req_tid ?r)) = Some e'
         \<and> (e_is_atomic e' \<longleftrightarrow> (\<exists>w. resv (lrsc_m ?s) = Some w \<and> covers (mark_error ?r ?s (request_entry e0 ?r ?s)) w))))"
    by (rule reservation_refined [OF _ _ _ _ refl]) (simp_all add: new_sb_def AMO_FIFO_SIZE_def r)
  ultimately show "\<exists>s'. core_req_process e0 ?r ?s = Some (True, s') \<and> resv (lrsc_m s') = None
    \<and> (\<exists>e'. map_of (inflight_m s') 7 = Some e' \<and> e_is_atomic e')"
    using r by (auto simp: resv_after_def new_transaction_req_def)
qed

text \<open>C12. A store outside the error segments makes the scoreboard know the enabled bytes of its word, with the stored
  values, and no other byte.\<close>

theorem store_remembered:
  assumes "map_of (inflight_m s) (ucast (req_tid r)) = None" "is_store r" "\<not> req_in_error r s"
  shows "\<exists>s'. core_req_process e0 r s = Some (True, s')
    \<and> (\<forall>i < 8. known s' (place_of (ucast (req_addr r)) i)
          = (if bit (req_be r) i then Some (byte_of (req_wdata r) i) else known s (place_of (ucast (req_addr r)) i)))
    \<and> (\<forall>p. (\<forall>i < 8. p \<noteq> place_of (ucast (req_addr r)) i) \<longrightarrow> known s' p = known s p)"
proof -
  let ?e = "mark_error r s (request_entry e0 r s)"
  have k: "\<not> is_cmo r" "\<not> is_amo r" "\<not> is_amo_lr r" "\<not> is_amo_sc r" "\<not> is_load r" using op_exclusive(3) [OF assms(2)] by simp_all
  obtain e m s' where run: "expect_data r s ?e = Some e" "write_data r e (ram_m s) = Some m" "core_req_process e0 r s = Some (True, s')"
    "ram_m s' = m"
    using request_run [OF assms(1), of e0] k unfolding forward_amo_def by blast
  have e: "e = ?e" using run(1) k by (simp add: expect_data_def)
  have "ram_write SCOREBOARD_RAM_SIZE (bytes_of_words [req_wdata r]) [req_be r] 8 (align_to (ucast (req_addr r)) 8) (ram_m s) = Some m"
    using run(2) assms(2,3) by (simp add: e write_data_def store_entry entry_addr entry_error aligned_addr_def config_values)
  then have "known s' = put_known (align_to (ucast (req_addr r)) 8 mod SCOREBOARD_RAM_SIZE) (bytes_of_words [req_wdata r])
      (enabled [req_be r]) 8 (known s)"
    unfolding run(4) by (rule sb_ram.wr_known)
  then have at: "known s' (place_of (ucast (req_addr r)) i)
        = (if bit (req_be r) i then Some (byte_of (req_wdata r) i) else known s (place_of (ucast (req_addr r)) i))" if "i < 8" for i
    using put_known_at [OF word_inside that] that by (simp add: place_of_def enabled_one bytes_of_one)
  moreover have "known s' p = known s p" if "\<forall>i < 8. p \<noteq> place_of (ucast (req_addr r)) i" for p
    using \<open>known s' = _\<close> that by (simp add: place_of_def put_known_outside)
  ultimately show ?thesis using run(3) by blast
qed

lemma store_remembered_witness:
  "\<forall>e0. \<exists>s'. core_req_process e0 (new_transaction_req\<lparr>req_addr := 0x1008, req_wdata := 0x55, req_op := 1, req_be := 1\<rparr>)
      (new_sb \<lparr>l_valid = False, l_base = 0, l_end = 0, l_is_atomic = False\<rparr> (\<lambda>_. 0)) = Some (True, s')
    \<and> known s' (place_of 0x1008 0) = Some 0x55"
proof
  fix e0
  let ?r = "new_transaction_req\<lparr>req_addr := 0x1008, req_wdata := 0x55, req_op := 1, req_be := 1\<rparr>"
  let ?s = "new_sb \<lparr>l_valid = False, l_base = 0, l_end = 0, l_is_atomic = False\<rparr> (\<lambda>_. 0)"
  have h: "map_of (inflight_m ?s) (ucast (req_tid ?r)) = None" "is_store ?r" "\<not> req_in_error ?r ?s"
    by (simp_all add: new_sb_def op_classes req_in_error_def new_transaction_req_def)
  obtain s' where "core_req_process e0 ?r ?s = Some (True, s')" and
    k: "\<forall>i < 8. known s' (place_of (ucast (req_addr ?r)) i)
          = (if bit (req_be ?r) i then Some (byte_of (req_wdata ?r) i) else known ?s (place_of (ucast (req_addr ?r)) i))"
    using store_remembered [OF h, of e0] by blast
  moreover have "known s' (place_of 0x1008 0) = Some 0x55"
    using k [rule_format, of 0] by (simp add: new_transaction_req_def byte_of_def)
  ultimately show "\<exists>s'. core_req_process e0 ?r ?s = Some (True, s') \<and> known s' (place_of 0x1008 0) = Some 0x55" by blast
qed

text \<open>C2. The response to a load is judged by the bytes the scoreboard knew when the load was issued: an unexpected error
  flag is reported, and otherwise exactly those bytes of the access are that were known and differ; the request leaves
  the table.  This is with no limit on the number of errors and an access inside its word.\<close>

theorem load_judged:
  assumes "map_of (inflight_m s) (ucast (req_tid r)) = None" "distinct (map fst (inflight_m s))"
    and "is_load r" "req_need_rsp r" "\<not> req_in_error r s" "core_req_process e0 r s = Some (go, s')"
    and "map_of (inflight_m t) (ucast (req_tid r)) = map_of (inflight_m s') (ucast (req_tid r))" "sb_error_limit t = 0"
    and "rsp_tid resp = req_tid r" "a = ucast (req_addr r)" "unat (a mod 8) + 2 ^ unat (req_size r) \<le> 8"
  shows "\<exists>t'. core_resp_process resp t = Some (True, t') \<and>
    (if rsp_error resp then msgs t' = msgs t @ [Error_flag_unexpected] \<and> inflight_m t' = inflight_m t
     else inflight_m t' = map_erase (ucast (req_tid r)) (inflight_m t)
      \<and> msgs t' = msgs t @ map (\<lambda>i. Response_data_wrong (align_to a 8 + of_nat i) (byte_of (rsp_rdata resp) i) (the (known s (place_of a i))))
            (filter (\<lambda>i. \<exists>b. known s (place_of a i) = Some b \<and> byte_of (rsp_rdata resp) i \<noteq> b)
              [unat (a mod 8)..<unat (a mod 8) + 2 ^ unat (req_size r)])
          @ (if fst (deallocate_id (ucast (req_tid r)) (seq_ids t)) then [Seq_id_unused] else []))"
    (is "\<exists>t'. core_resp_process resp t = Some (True, t') \<and> (if rsp_error resp then ?W t' else ?R t')")
proof -
  have k: "\<not> is_cmo r" "\<not> is_amo r" "\<not> is_amo_lr r" "\<not> is_amo_sc r" using op_exclusive(4) [OF assms(3)] by simp_all
  obtain e m s1 where run: "expect_data r s (mark_error r s (request_entry e0 r s)) = Some e" "core_req_process e0 r s = Some (True, s1)"
    "req_need_rsp r \<Longrightarrow> inflight_m s1 = map_insert (ucast (req_tid r)) e (inflight_m s)"
    using request_run [OF assms(1), of e0] k unfolding forward_amo_def by blast
  note e = load_entry [OF assms(3,5) run(1)]
  have at: "map_of (inflight_m t) (ucast (rsp_tid resp)) = Some e"
    using run(2,3) assms(4,6,7,9) find_insert [OF assms(1,2), of e] by simp
  let ?t = "t\<lparr>nb_core_resp := nb_core_resp t + 1, nb_cycles_effective := nb_cycles t\<rparr>"
  have wrong: "\<exists>t'. core_resp_process resp t = Some (True, t') \<and> ?W t'" if "rsp_error resp"
    using at e(4,7) that assms(8) by (simp add: core_resp_process_def Let_def print_error_def)
  have right: "\<exists>t'. core_resp_process resp t = Some (True, t') \<and> ?R t'" if ok: "\<not> rsp_error resp"
  proof -
    let ?is = "[unat (a mod 8)..<unat (a mod 8) + 2 ^ unat (req_size r)]"
    have size: "unat (e_bytes e) = 2 ^ unat (req_size r)"
    proof -
      have "unat (req_size r) < 8" using unsigned_less [of "req_size r", where ?'a = nat] by simp
      then show ?thesis unfolding e(2) by (rule unat_push_one)
    qed
    have is8: "i < 8" if "i \<in> set ?is" for i using that assms(11) by simp
    have fl: "filter (wrong_byte resp e) ?is = filter (\<lambda>i. \<exists>b. known s (place_of a i) = Some b \<and> byte_of (rsp_rdata resp) i \<noteq> b) ?is"
      using e(8) is8 unfolding assms(10) by (intro filter_cong) simp_all
    let ?ms = "map (\<lambda>i. Response_data_wrong (align_to a 8 + of_nat i) (byte_of (rsp_rdata resp) i) (the (known s (place_of a i))))
              (filter (wrong_byte resp e) ?is)"
    have ms: "map (\<lambda>i. Response_data_wrong (align_to (e_addr e) (of_nat CORE_REQ_BYTES) + of_nat i)
        (bytes_of_words (map (word_of_resp resp) [0..<CORE_REQ_WORDS]) ! i) (bytes_of_words (e_rdata e) ! i))
        (filter (wrong_byte resp e) ?is) = ?ms"
    proof (rule map_cong [OF refl])
      fix i assume i: "i \<in> set (filter (wrong_byte resp e) ?is)"
      then have "i < 8" "wrong_byte resp e i" using is8 by auto
      then show "Response_data_wrong (align_to (e_addr e) (of_nat CORE_REQ_BYTES) + of_nat i)
        (bytes_of_words (map (word_of_resp resp) [0..<CORE_REQ_WORDS]) ! i) (bytes_of_words (e_rdata e) ! i)
        = Response_data_wrong (align_to a 8 + of_nat i) (byte_of (rsp_rdata resp) i) (the (known s (place_of a i)))"
        using e(9) unfolding e(1) assms(10) by (simp add: config_bytes one_word bytes_of_one)
    qed
    obtain t2 where t2: "check_bytes resp e ?is ?t = (True, t2)" "msgs t2 = msgs t @ ?ms" "inflight_m t2 = inflight_m t"
        "seq_ids t2 = seq_ids t"
      using check_bytes_all [of ?t resp e ?is] assms(8) unfolding ms by simp
    have "resp_byte e = unat (a mod 8)" by (simp add: resp_byte_def config_bytes e(1) assms(10))
    then have "check_data resp e ?t = Some (True, t2)"
      using t2(1) e(3,5) assms(11) by (simp add: check_data_def size config_bytes andthen_def update_amo_def)
    then have "core_resp_process resp t = Some (True, retire (ucast (req_tid r)) t2)"
      using at e(4,6,7) ok assms(9) by (simp add: core_resp_process_def Let_def judge_def check_sc_def andthen_def)
    then show ?thesis
      using t2(2-4) unfolding fl by (auto simp: retire_def seq_deallocate_def split: prod.splits)
  qed
  show ?thesis using wrong right by (cases "rsp_error resp") simp_all
qed

lemma load_judged_witness:
  "\<forall>e0. \<exists>s' t'. core_req_process e0 (new_transaction_req\<lparr>req_addr := 0x1008, req_tid := 7, req_need_rsp := True\<rparr>)
      (new_sb \<lparr>l_valid = False, l_base = 0, l_end = 0, l_is_atomic = False\<rparr> (\<lambda>_. 0)) = Some (True, s')
    \<and> core_resp_process (new_transaction_resp\<lparr>rsp_tid := 7, rsp_error := True\<rparr>) s' = Some (True, t')
    \<and> msgs t' = msgs s' @ [Error_flag_unexpected]"
proof
  fix e0
  let ?r = "new_transaction_req\<lparr>req_addr := 0x1008, req_tid := 7, req_need_rsp := True\<rparr>"
  let ?s = "new_sb \<lparr>l_valid = False, l_base = 0, l_end = 0, l_is_atomic = False\<rparr> (\<lambda>_. 0)"
  let ?resp = "new_transaction_resp\<lparr>rsp_tid := 7, rsp_error := True\<rparr>"
  have h: "map_of (inflight_m ?s) (ucast (req_tid ?r)) = None" "distinct (map fst (inflight_m ?s))" "is_load ?r" "req_need_rsp ?r"
      "\<not> req_in_error ?r ?s" "sb_error_limit ?s = 0" "rsp_tid ?resp = req_tid ?r" "rsp_error ?resp"
      "unat ((ucast (req_addr ?r) :: u64) mod 8) + 2 ^ unat (req_size ?r) \<le> 8"
    by (simp_all add: new_sb_def op_classes req_in_error_def new_transaction_req_def)
  have f: "\<not> is_cmo ?r" "\<not> is_amo ?r" "\<not> is_amo_lr ?r" "\<not> is_amo_sc ?r" using op_exclusive(4) [OF h(3)] by simp_all
  have g: "\<not> (is_cmo ?r \<and> \<not> req_need_rsp ?r)" "\<not> forward_amo ?r (request_entry e0 ?r ?s)"
    using f unfolding forward_amo_def by (rule conjunct1 notI | simp only: simp_thms)+
  have "\<exists>s'. core_req_process e0 ?r ?s = Some (True, s') \<and> sb_error_limit s' = 0"
    using request_run [OF h(1) g f(4)] unfolding h(6) by metis
  then obtain s' where run: "core_req_process e0 ?r ?s = Some (True, s')" "sb_error_limit s' = 0" by (elim exE conjE)
  show "\<exists>s' t'. core_req_process e0 ?r ?s = Some (True, s') \<and> core_resp_process ?resp s' = Some (True, t')
    \<and> msgs t' = msgs s' @ [Error_flag_unexpected]"
    using load_judged [OF h(1-5) run(1) refl run(2) h(7) refl h(9)] unfolding if_P [OF h(8)]
    by (elim exE conjE) (rule exI conjI run(1) | assumption)+
qed

end
