(* ===== verification/Spec2Isabelle.thy ===== *)
theory Spec2Isabelle
  imports Prelude Bus Uart Spi Sd Gpt Openpiton Dwmmc Boot_Main Cstring Printf Host Coremark_Util Coremark_State Coremark_Matrix Coremark_List
    Merge_Spec Coremark_Sort Coremark_Bench Coremark_Init Coremark_Main Cache_Directory Hpd_Memory Hpd_Transaction Hpd_Driver Hpd_Sequence Hpd_Generators Qemu_Plugin Hpd_Trace Trace_Replay
    Hpd_Mem_Resp Hpd_Mem_Threads Hpd_Fault Hpd_Scoreboard Hpd_Checks Hpd_Predictions
begin

text \<open>
  A verification library for the C and C++ code of this repository: the boot ROMs and the bare-metal run-time of the
  CVA6 processor (\<open>cva6-master\<close>), the CoreMark benchmark in its test suite, and the test bench of the HPDcache
  (\<open>cv-hpdcache-master/rtl/tb\<close>).

  \<^bold>\<open>The program and its theories\<close>

  \<^item> Prelude: C integer types as words, little-endian fields, reading loops (\<open>poll\<close>), the option monad.
  \<^item> Boot ROM of the FPGA port (\<open>corev_apu/fpga/src/bootrom/src\<close>).  Bus is memory and a history of device accesses;
    a board, an arbitrary function of the history, answers the reads.  Uart is \<open>uart.c\<close>, Spi \<open>spi.c\<close>, Sd \<open>sd.c\<close>
    (card commands, block reads, the two checksums), Gpt \<open>gpt.c\<close> (partition table and image), Dwmmc \<open>dw_mmc.c\<close>, the
    other card driver, and Boot_Main \<open>main.c\<close>, which runs the key prompt, the serial update and the loader.
    Openpiton is the same loader over the memory-mapped card of \<open>corev_apu/openpiton/bootrom/linux/src\<close>.
  \<^item> Run-time of the bare-metal tests (\<open>verif/tests/custom/common\<close>).  Cstring is memcpy, memset and the string
    functions of \<open>syscalls.c\<close> with \<open>util.h\<close>, Printf its \<open>vprintfmt\<close>, Host the calls to the host, \<open>printf\<close>, exit
    and the statistics.
  \<^item> CoreMark (\<open>verif/tests/custom/coremark\<close>): Coremark_Util, Coremark_State, Coremark_Matrix, Coremark_List with
    Merge_Spec, Coremark_Sort, Coremark_Bench and Coremark_Init, and Coremark_Main follow the files of that name.
  \<^item> Test bench of the HPDcache.  Cache_Directory is the directory of the reference cache
    (\<open>generic_cache_directory_base.h\<close>, \<open>generic_cache_directory_plru.h\<close>); Hpd_Memory the byte store of the
    scoreboard, the sparse memory and the data array (\<open>ram_model.h\<close>, \<open>mem_model.h\<close>, \<open>generic_cache_data.h\<close>);
    Hpd_Transaction the configuration, the transactions, their texts and the atomic arithmetic
    (\<open>hpdcache_test_defs.h\<close>, \<open>hpdcache_test_transaction.h\<close>, \<open>hpdcache_test_amo.h\<close>); Hpd_Driver the packing of
    requests into bit vectors and back (\<open>hpdcache_test_driver.h\<close>); Hpd_Sequence the transaction identifiers, memory
    segments and the object pool; Hpd_Generators the sequences that make up requests (\<open>sequence_lib\<close>); Hpd_Mem_Resp the
    memory behind the cache (\<open>hpdcache_test_mem_resp_model.h\<close> and its base), operation by operation, Hpd_Mem_Threads its
    threads and queues; Hpd_Fault the masks of injected faults (\<open>hpdcache_fault_injection.h\<close>); Hpd_Scoreboard the scoreboard, one
    definition per thread (\<open>hpdcache_test_scoreboard.h\<close>), with its properties in Hpd_Checks and Hpd_Predictions.
  \<^item> Traces of programs for that bench.  Qemu_Plugin records the accesses of a program (\<open>qemu_plugin.c\<close>), Hpd_Trace
    reads, writes and replays traces (\<open>hpdcache_test_trace_manager.h\<close>, \<open>hpdcache_test_from_trace_seq.h\<close>),
    Trace_Replay puts the two ends together.

  \<^bold>\<open>How code and model correspond\<close>

  A definition has the name of the C function and its parameters in order; loops are recursive functions next to the
  function they come from.  A struct is a record, an enumeration a datatype with its codes.  Integers keep their width.
  \<open>None\<close> is a run with no defined result: undefined behaviour, a failed assertion or a loop that never ends.  Errors the
  code reports are values.  Hardware, the host and \<open>rand()\<close> are parameters; what a caller needs of them is a named
  hypothesis with an instance in the witness.  A handler of the scoreboard gives the new state and whether the process
  goes on or has called \<open>exit\<close>.

  \<^bold>\<open>Interfaces\<close>

  The locales state what one part needs of another and are interpreted on the model: a serial port (Uart, Boot_Main), an
  SPI link (Spi), a block device (Gpt, for both card drivers), register access (Dwmmc), a character sink (Printf on
  memory, Host on the console), comparators (Coremark_Sort on both comparison functions), a replacement policy
  (Cache_Directory on pseudo-LRU), a byte store (Hpd_Memory) and a source of requests (Hpd_Generators, for the random and
  the unique-set sequence).

  \<^bold>\<open>What is shown\<close>

  The boot loader jumps only into an image that is in memory as the card sent it, with every checksum right; a command
  or a block read ends within its retries and writes nothing else.  The run-time prints and parses numbers faithfully,
  the benchmark restores its data and its sort refines the stable sort by index.  The cache directory refines a set of
  lines and never runs out of victims; the memories refine maps of bytes; atomic operations follow the instruction set
  on both sides of the cache; identifiers and pooled objects are never handed out twice; the packing of requests loses
  nothing; the memory behind the cache pairs addresses with data and answers every request under any interleaving of its
  threads, which never block each other and come to rest; a fault lands on the bits of its mask; the requests made up are well formed, and a store-conditional matches the reservation it was made for.  A
  recorded program is replayed access by access.  The scoreboard keeps its counters in balance with its table, refines the reservation of the instruction
  set, remembers exactly the stored bytes, and judges a load by exactly the bytes known when it was issued.  Where the
  code is not right, the theorem says what it does: the refill response with no defined result, the spilling mask of
  the data array, the read that got nothing and is reported as a success, the replayed stores that enable no byte.

  \<^bold>\<open>Fuel and bounds\<close>

  Loops that may spin are \<open>poll\<close> or carry the remaining retries of the code, so no fuel limits a result.  The loop over
  identifiers probes each of the 64 identifiers at most once, which is enough because one is free.  The HPDcache is
  modelled in its default configuration: 64 sets, 8 ways, lines of 64 bytes, requests of one 64-bit word.

  \<^bold>\<open>Not modelled\<close>

  The SystemVerilog and VHDL sources.  The SystemC scheduler: threads are steps on one state, in any order in
  Hpd_Mem_Threads and one at a time elsewhere, and handshakes and delays are left out.  The bench top level, simulator
  glue, the trace tools around a vendor library, third-party
  compression, generated boot images and opcode tables, interrupt and DMA code that no modelled path calls.  The cache
  directory checks that the scoreboard disables, which do not compile, its debug output and its printed statistics.
\<close>

section \<open>Properties that span components\<close>



lemma drop_3_widen: "drop_bit 3 (ucast a :: u64) = ucast (drop_bit 3 (a :: 49 word))"
  by (rule bit_word_eqI) (auto simp: bit_simps dest: bit_imp_le_length)

text \<open>C15. The pairs that the random sequence makes up are meant to succeed: the store-conditional made for a load-reserved
matches, in the scoreboard, the reservation that the load-reserved took, whatever the sizes drawn for the two.\<close>

theorem generated_pair_matches:
  assumes "create_random_transaction (random_segs amo) d tid t = Some lr" "is_amo_lr lr"
    and "create_sc_transaction (ucast (req_addr lr)) unc d' tid' t' = Some sc" "\<not> req_in_error lr s"
  shows "addr_match (mark_error sc s' (request_entry e1 sc s')) (reserve lr (mark_error lr s (request_entry e0 lr s)) l)"
proof -
  obtain g where g: "g \<in> set (random_segs amo)" "in_segment g lr"
    using random_placed [OF assms(1)] by (auto simp: placed_def)
  then have "seg_ok g" using random_segs_ok by (auto simp: list_all_iff)
  then have "drop_bit 3 (req_addr sc) = drop_bit 3 (req_addr lr)" using sc_after_lr g(2) assms(3) by blast
  then have w: "drop_bit 3 (ucast (req_addr sc) :: u64) = drop_bit 3 (ucast (req_addr lr))" by (simp add: drop_3_widen)
  have "drop_bit 6 (ucast (req_addr sc) :: u64) = drop_bit 6 (ucast (req_addr lr))"
    using arg_cong [OF w, of "drop_bit 3"] by simp
  with w show ?thesis
    using assms(2,4) by (simp add: addr_match_covers resv_def reserve_def covers_def entry_addr entry_error get_nline_def
        config_values less_max_iff_disj)
qed

theorem generated_pair_matches_witness:
  "\<forall>l m e0. \<exists>lr sc. create_random_transaction (random_segs True) (sample_draws 0) 0 new_transaction_req = Some lr \<and> is_amo_lr lr
     \<and> create_sc_transaction (ucast (req_addr lr)) False (sample_draws 1) 1 new_transaction_req = Some sc
     \<and> addr_match (mark_error sc (new_sb l m) (request_entry e0 sc (new_sb l m)))
         (reserve lr (mark_error lr (new_sb l m) (request_entry e0 lr (new_sb l m))) l)"
proof (intro allI)
  fix l m e0
  obtain lr where lr: "create_random_transaction (random_segs True) (sample_draws 0) 0 new_transaction_req = Some lr"
    using random_returns [OF random_segs_ok, of "sample_draws 0" True] by (auto simp: sample_draws_def random_segs_def)
  then have "is_amo_lr lr"
    using random_transaction_made [OF lr]
    by (auto simp: is_amo_lr_def random_segs_def a_segment_def sample_draws_def)
  moreover obtain sc where sc: "create_sc_transaction (ucast (req_addr lr)) False (sample_draws 1) 1 new_transaction_req = Some sc"
    using sc_returns [of "sample_draws 1"] by (fastforce simp: sample_draws_def)
  moreover have "\<not> req_in_error lr (new_sb l m)" by (simp add: req_in_error_def new_sb_def)
  ultimately show "\<exists>lr sc. create_random_transaction (random_segs True) (sample_draws 0) 0 new_transaction_req = Some lr \<and> is_amo_lr lr
     \<and> create_sc_transaction (ucast (req_addr lr)) False (sample_draws 1) 1 new_transaction_req = Some sc
     \<and> addr_match (mark_error sc (new_sb l m) (request_entry e0 sc (new_sb l m)))
         (reserve lr (mark_error lr (new_sb l m) (request_entry e0 lr (new_sb l m))) l)"
    using generated_pair_matches [OF lr] lr by blast
qed

end
